(* ===== verification/Prelude.thy ===== *)
theory Prelude
  imports Main "HOL-Library.Sublist" "HOL-Library.Product_Lexorder" "HOL-Library.Code_Target_Nat"
begin

text \<open>
  Shared vocabulary of the BlueCode development.

  A JavaScript string is a list of UTF-16 code units. A code unit is a natural number; the
  runtime only produces values below 65536, and the few statements that depend on that bound
  carry the predicate \<open>js_wf\<close>. ASCII literals of the source are written \<open>js ''...''\<close>, and
  the non-ASCII code units of the source (check marks, CJK text) are written as numbers.

  The theory also holds the pieces of the JavaScript library that several components use:
  \<open>String.prototype.split\<close> (\<open>split_on\<close>, \<open>split_str\<close>), \<open>Array.prototype.join\<close>
  (\<open>join_with\<close>), \<open>trim\<close>, \<open>startsWith\<close>, \<open>endsWith\<close>, \<open>lastIndexOf\<close>, decimal rendering
  of a non-negative integer in a template literal (\<open>dec\<close>), and the insertion-ordered \<open>Map\<close>
  (\<open>jmap\<close>).
\<close>

named_theorems js_simps "unfolding equations for the JavaScript runtime definitions"
named_theorems run_simps "definitions a concrete run of the model unfolds"

section \<open>Types\<close>

type_synonym code_unit = nat
type_synonym jstring = "code_unit list"

text \<open>A fallible operation: \<open>Inl\<close> carries what the code throws.\<close>

type_synonym ('e, 'a) result = "'e + 'a"

definition js :: "string \<Rightarrow> jstring" where
  "js s = map of_char s"

definition js_wf :: "jstring \<Rightarrow> bool" where
  "js_wf s \<longleftrightarrow> list_all (\<lambda>c. c < 65536) s"

abbreviation (input) LF :: code_unit where "LF \<equiv> 10"
abbreviation (input) CR :: code_unit where "CR \<equiv> 13"
abbreviation (input) BS :: code_unit where "BS \<equiv> 8"
abbreviation (input) SP :: code_unit where "SP \<equiv> 32"
abbreviation (input) SLASH :: code_unit where "SLASH \<equiv> 47"

section \<open>String operations of the runtime\<close>

text \<open>\<open>WhiteSpace\<close> and \<open>LineTerminator\<close> of ECMAScript: what \<open>trim\<close> removes and \<open>\\s\<close> matches.\<close>

definition is_space :: "code_unit \<Rightarrow> bool" where
  "is_space c \<longleftrightarrow> (9 \<le> c \<and> c \<le> 13) \<or> c = 32 \<or> c = 160 \<or> c = 0x1680 \<or> (0x2000 \<le> c \<and> c \<le> 0x200A)
     \<or> c = 0x2028 \<or> c = 0x2029 \<or> c = 0x202F \<or> c = 0x205F \<or> c = 0x3000 \<or> c = 0xFEFF"

definition js_trim :: "jstring \<Rightarrow> jstring" where
  "js_trim s = rev (dropWhile is_space (rev (dropWhile is_space s)))"

fun split_on :: "code_unit \<Rightarrow> jstring \<Rightarrow> jstring list" where
  "split_on c [] = [[]]"
| "split_on c (x # xs) =
     (if x = c then [] # split_on c xs
      else (case split_on c xs of [] \<Rightarrow> [[x]] | y # ys \<Rightarrow> (x # y) # ys))"

fun join_with :: "jstring \<Rightarrow> jstring list \<Rightarrow> jstring" where
  "join_with sep [] = []"
| "join_with sep [x] = x"
| "join_with sep (x # y # ys) = x @ sep @ join_with sep (y # ys)"

definition starts_with :: "jstring \<Rightarrow> jstring \<Rightarrow> bool" where
  "starts_with s p \<longleftrightarrow> take (length p) s = p"

definition ends_with :: "jstring \<Rightarrow> jstring \<Rightarrow> bool" where
  "ends_with s p \<longleftrightarrow> length p \<le> length s \<and> drop (length s - length p) s = p"

fun last_index_of :: "code_unit \<Rightarrow> jstring \<Rightarrow> nat option" where
  "last_index_of c [] = None"
| "last_index_of c (x # xs) =
     (case last_index_of c xs of Some i \<Rightarrow> Some (Suc i) | None \<Rightarrow> if x = c then Some 0 else None)"

text \<open>\<open>s.slice(a, b)\<close> for non-negative arguments.\<close>

definition js_slice :: "'a list \<Rightarrow> nat \<Rightarrow> nat \<Rightarrow> 'a list" where
  "js_slice s a b = take (b - a) (drop a s)"

text \<open>\<open>s.split(sep)\<close> for a non-empty separator string.\<close>

fun split_str_aux :: "jstring \<Rightarrow> nat \<Rightarrow> jstring \<Rightarrow> jstring \<Rightarrow> jstring list" where
  "split_str_aux sep (Suc k) acc s = split_str_aux sep k acc (tl s)"
| "split_str_aux sep 0 acc [] = [rev acc]"
| "split_str_aux sep 0 acc (x # xs) =
     (if starts_with (x # xs) sep \<and> sep \<noteq> []
      then rev acc # split_str_aux sep (length sep - 1) [] xs
      else split_str_aux sep 0 (x # acc) xs)"

definition split_str :: "jstring \<Rightarrow> jstring \<Rightarrow> jstring list" where
  "split_str sep s = split_str_aux sep 0 [] s"

fun dec :: "nat \<Rightarrow> jstring" where
  "dec n = (if n < 10 then [48 + n] else dec (n div 10) @ [48 + n mod 10])"

declare dec.simps [simp del]

definition ceil_div4 :: "nat \<Rightarrow> nat" where
  "ceil_div4 n = (n + 3) div 4"

section \<open>The insertion-ordered Map\<close>

type_synonym ('k, 'v) jmap = "('k \<times> 'v) list"

fun jmap_set :: "'k \<Rightarrow> 'v \<Rightarrow> ('k, 'v) jmap \<Rightarrow> ('k, 'v) jmap" where
  "jmap_set k v [] = [(k, v)]"
| "jmap_set k v ((k', v') # m) = (if k = k' then (k, v) # m else (k', v') # jmap_set k v m)"

abbreviation jmap_get :: "('k, 'v) jmap \<Rightarrow> 'k \<Rightarrow> 'v option" where
  "jmap_get m k \<equiv> map_of m k"

definition jmap_delete :: "'k \<Rightarrow> ('k, 'v) jmap \<Rightarrow> ('k, 'v) jmap" where
  "jmap_delete k m = filter (\<lambda>e. fst e \<noteq> k) m"

abbreviation jmap_keys :: "('k, 'v) jmap \<Rightarrow> 'k list" where
  "jmap_keys m \<equiv> map fst m"

definition get_or :: "('k, 'v) jmap \<Rightarrow> 'k \<Rightarrow> 'v \<Rightarrow> 'v" where
  "get_or m k d = (case map_of m k of None \<Rightarrow> d | Some v \<Rightarrow> v)"

section \<open>Lemmas on strings\<close>

lemma of_char_bound: "of_char c < (256::nat)"
  using mod_less_divisor [of 256 "of_char c :: nat"] by (simp only: of_char_mod_256)

lemma js_eq_iff [simp]: "js s = js t \<longleftrightarrow> s = t"
proof
  assume "js s = js t"
  then have "map char_of (js s) = map char_of (js t)" by simp
  then show "s = t" by (simp add: js_def comp_def)
qed simp

lemma split_on_not_Nil [simp]: "split_on c s \<noteq> []"
  by (induction s) (auto split: list.splits)

lemma join_with_Cons: "ys \<noteq> [] \<Longrightarrow> join_with sep (x # ys) = x @ sep @ join_with sep ys"
  by (cases ys) auto

lemma join_split_on [simp]: "join_with [c] (split_on c s) = s"
proof (induction s)
  case (Cons x s)
  then show ?case
    by (cases "split_on c s"; cases "tl (split_on c s)") (auto simp: join_with_Cons)
qed simp

lemma split_on_free: "l \<in> set (split_on c s) \<Longrightarrow> c \<notin> set l"
proof (induction s arbitrary: l)
  case (Cons x s)
  then show ?case
    by (cases "split_on c s") (force split: if_splits)+
qed simp

lemma set_split_on: "l \<in> set (split_on c s) \<Longrightarrow> set l \<subseteq> set s"
proof (induction s arbitrary: l)
  case (Cons x s)
  then show ?case
    by (cases "split_on c s") (force split: if_splits)+
qed simp

lemma split_on_self: "c \<notin> set l \<Longrightarrow> split_on c l = [l]"
  by (induction l) auto

lemma split_on_append_sep: "c \<notin> set l \<Longrightarrow> split_on c (l @ c # s) = l # split_on c s"
  by (induction l) auto

lemma split_join:
  "xs \<noteq> [] \<Longrightarrow> \<forall>l\<in>set xs. c \<notin> set l \<Longrightarrow> split_on c (join_with [c] xs) = xs"
proof (induction xs rule: induct_list012)
  case (3 x y ys)
  then show ?case by (simp add: split_on_append_sep)
qed (auto simp: split_on_self)

lemma length_join_with1:
  "length (join_with [c] xs) + 1 = (if xs = [] then 1 else sum_list (map (\<lambda>x. length x + 1) xs))"
  by (induction xs rule: induct_list012) auto

lemma set_join_with: "set (join_with sep xs) \<subseteq> set sep \<union> \<Union> (set ` set xs)"
  by (induction sep xs rule: join_with.induct) auto

lemma dec_not_Nil [simp]: "dec n \<noteq> []"
  by (subst dec.simps) simp

lemma dec_digits: "c \<in> set (dec n) \<Longrightarrow> 48 \<le> c \<and> c \<le> 57"
proof (induction n rule: dec.induct)
  case (1 n)
  then show ?case
    by (subst (asm) dec.simps) (auto split: if_splits)
qed

lemma starts_with_append [simp]: "starts_with (p @ s) p"
  by (simp add: starts_with_def)

lemma starts_with_iff_prefix: "starts_with s p \<longleftrightarrow> prefix p s"
  by (auto simp: starts_with_def prefix_def) (metis append_take_drop_id)

lemma ceil_div4_mono: "m \<le> n \<Longrightarrow> ceil_div4 m \<le> ceil_div4 n"
  by (simp add: ceil_div4_def div_le_mono)

lemma ceil_div4_le_iff: "ceil_div4 n \<le> b \<longleftrightarrow> n \<le> 4 * b"
  by (auto simp: ceil_div4_def)

section \<open>Lemmas on the ordered Map\<close>

lemma map_of_jmap_set: "map_of (jmap_set k v m) = (map_of m)(k \<mapsto> v)"
  by (induction m) (auto simp: fun_eq_iff)

lemma keys_jmap_set:
  "jmap_keys (jmap_set k v m) = (if k \<in> set (jmap_keys m) then jmap_keys m else jmap_keys m @ [k])"
  by (induction m) (auto simp: image_iff, force)

lemma distinct_jmap_set: "distinct (jmap_keys m) \<Longrightarrow> distinct (jmap_keys (jmap_set k v m))"
  by (simp add: keys_jmap_set)

lemma set_jmap_set: "(k', v') \<in> set (jmap_set k v m) \<Longrightarrow> (k', v') = (k, v) \<or> (k', v') \<in> set m"
  by (induction m) (auto split: if_splits)

lemma get_or_set: "get_or (jmap_set k v m) k' d = (if k' = k then v else get_or m k' d)"
  by (simp add: get_or_def map_of_jmap_set)

text \<open>Every entry of an insertion-ordered map satisfies a predicate.\<close>

definition jmap_all :: "('k \<Rightarrow> 'v \<Rightarrow> bool) \<Rightarrow> ('k, 'v) jmap \<Rightarrow> bool" where
  "jmap_all R m \<longleftrightarrow> distinct (jmap_keys m) \<and> (\<forall>k v. (k, v) \<in> set m \<longrightarrow> R k v)"

lemma jmap_all_Nil [simp]: "jmap_all R []"
  by (simp add: jmap_all_def)

lemma jmap_all_set: "jmap_all R m \<Longrightarrow> R k v \<Longrightarrow> jmap_all R (jmap_set k v m)"
  by (auto simp: jmap_all_def distinct_jmap_set dest: set_jmap_set)

lemma jmap_all_get: "jmap_all R m \<Longrightarrow> get_or m k d = d \<or> R k (get_or m k d)"
  by (auto simp: jmap_all_def get_or_def split: option.splits dest: map_of_SomeD)

lemma map_of_jmap_delete: "map_of (jmap_delete k m) = (map_of m)(k := None)"
  by (induction m) (auto simp: jmap_delete_def fun_eq_iff)

lemma distinct_jmap_delete: "distinct (jmap_keys m) \<Longrightarrow> distinct (jmap_keys (jmap_delete k m))"
  by (induction m) (auto simp: jmap_delete_def)

lemma jmap_get_set [simp]: "jmap_get (jmap_set k v m) k = Some v"
  by (simp add: map_of_jmap_set)

lemma jmap_get_set_other [simp]: "k' \<noteq> k \<Longrightarrow> jmap_get (jmap_set k v m) k' = jmap_get m k'"
  by (simp add: map_of_jmap_set)

section \<open>Lemmas on lists\<close>

lemma takeWhile_take_drop:
  "takeWhile P xs @ drop (length (takeWhile P xs)) xs = xs"
  by (metis append_eq_conv_conj takeWhile_dropWhile_id)

lemma drop_length_takeWhile: "drop (length (takeWhile P xs)) xs = dropWhile P xs"
  by (metis append_eq_conv_conj takeWhile_dropWhile_id)

lemma sum_list_map_le:
  fixes f g :: "'a \<Rightarrow> nat"
  shows "(\<And>x. x \<in> set xs \<Longrightarrow> f x \<le> g x) \<Longrightarrow> sum_list (map f xs) \<le> sum_list (map g xs)"
  by (induction xs) (auto intro: add_mono)

lemma fold_invariant:
  assumes "P s" and "\<And>x s. x \<in> set xs \<Longrightarrow> P s \<Longrightarrow> P (f x s)"
  shows "P (fold f xs s)"
  using assms by (induction xs arbitrary: s) auto

lemma subseq_drop: "subseq (drop n xs) xs"
  by (metis append_take_drop_id list_emb_append2 subseq_order.order_refl)

end
