(* ===== verification/JS_Regex.thy ===== *)
theory JS_Regex
  imports Prelude
begin

text \<open>
  The part of ECMAScript regular expressions that the sources use, as a backtracking matcher.

  A pattern is a term of \<open>re\<close>. \<open>rmatch r s st\<close> is the list of states in which \<open>r\<close> can stop
  when it starts in state \<open>st\<close>, in the order the ECMAScript backtracking matcher tries them; a
  state is a position in \<open>s\<close> together with the captured groups. The first element of the list is
  the match the engine commits to when nothing follows. Greedy and lazy iteration differ in the
  order only, and an iteration that consumes nothing is rejected, as the \<open>RepeatMatcher\<close> of the
  standard does; so the loop needs at most as many rounds as code units are left.

  \<open>re_exec\<close> searches from left to right (\<open>RegExp.prototype.exec\<close> without the sticky flag),
  \<open>re_test\<close> is \<open>RegExp.prototype.test\<close>, \<open>re_remove\<close> is \<open>s.replace(/r/g, "")\<close> and
  \<open>re_split\<close> is \<open>s.split(/r/)\<close> for a pattern without groups.
\<close>

datatype re =
    REps
  | RSet bool "(nat \<times> nat) list"  \<comment> \<open>a class: negated?, inclusive ranges\<close>
  | RSeq re re
  | RAlt re re
  | RStar bool re                   \<comment> \<open>greedy?\<close>
  | RGroup nat re
  | RBol
  | REol
  | RWordB
  | RLook re                        \<comment> \<open>positive lookahead\<close>

type_synonym caps = "(nat \<times> nat \<times> nat) list"
type_synonym rstate = "nat \<times> caps"

definition in_class :: "bool \<Rightarrow> (nat \<times> nat) list \<Rightarrow> code_unit \<Rightarrow> bool" where
  "in_class neg rs c \<longleftrightarrow> (list_ex (\<lambda>(a, b). a \<le> c \<and> c \<le> b) rs \<noteq> neg)"

definition is_word_char :: "code_unit \<Rightarrow> bool" where
  "is_word_char c \<longleftrightarrow> in_class False [(48, 57), (65, 90), (95, 95), (97, 122)] c"

definition word_at :: "jstring \<Rightarrow> nat \<Rightarrow> bool" where
  "word_at s i \<longleftrightarrow> i < length s \<and> is_word_char (s ! i)"

definition word_boundary :: "jstring \<Rightarrow> nat \<Rightarrow> bool" where
  "word_boundary s i \<longleftrightarrow> ((0 < i \<and> word_at s (i - 1)) \<noteq> word_at s i)"

primrec star_loop :: "bool \<Rightarrow> (rstate \<Rightarrow> rstate list) \<Rightarrow> nat \<Rightarrow> rstate \<Rightarrow> rstate list" where
  "star_loop g m 0 st = [st]"
| "star_loop g m (Suc k) st =
     (let more = concat (map (star_loop g m k) (filter (\<lambda>st'. fst st < fst st') (m st)))
      in if g then more @ [st] else st # more)"

primrec rmatch :: "re \<Rightarrow> jstring \<Rightarrow> rstate \<Rightarrow> rstate list" where
  "rmatch REps s st = [st]"
| "rmatch (RSet neg rs) s st =
     (if fst st < length s \<and> in_class neg rs (s ! fst st) then [(Suc (fst st), snd st)] else [])"
| "rmatch (RSeq r1 r2) s st = concat (map (rmatch r2 s) (rmatch r1 s st))"
| "rmatch (RAlt r1 r2) s st = rmatch r1 s st @ rmatch r2 s st"
| "rmatch (RStar g r) s st = star_loop g (rmatch r s) (length s - fst st) st"
| "rmatch (RGroup n r) s st =
     map (\<lambda>st'. (fst st', jmap_set n (fst st, fst st') (snd st'))) (rmatch r s st)"
| "rmatch RBol s st = (if fst st = 0 then [st] else [])"
| "rmatch REol s st = (if fst st = length s then [st] else [])"
| "rmatch RWordB s st = (if word_boundary s (fst st) then [st] else [])"
| "rmatch (RLook r) s st = (case rmatch r s st of [] \<Rightarrow> [] | st' # _ \<Rightarrow> [(fst st, snd st')])"

section \<open>Derived patterns\<close>

definition rchr :: "code_unit \<Rightarrow> re" where
  "rchr c = RSet False [(c, c)]"

fun rstr :: "jstring \<Rightarrow> re" where
  "rstr [] = REps"
| "rstr [c] = rchr c"
| "rstr (c # d # cs) = RSeq (rchr c) (rstr (d # cs))"

definition rlit :: "string \<Rightarrow> re" where
  "rlit s = rstr (js s)"

definition rset :: "string \<Rightarrow> re" where
  "rset s = RSet False (map (\<lambda>c. (of_char c, of_char c)) s)"

fun rseq :: "re list \<Rightarrow> re" where
  "rseq [] = REps"
| "rseq [r] = r"
| "rseq (r # r' # rs) = RSeq r (rseq (r' # rs))"

fun ralt :: "re list \<Rightarrow> re" where
  "ralt [] = RSet False []"
| "ralt [r] = r"
| "ralt (r # r' # rs) = RAlt r (ralt (r' # rs))"

definition rmany :: "re \<Rightarrow> re" where "rmany r = RStar True r"
definition rplus :: "re \<Rightarrow> re" where "rplus r = RSeq r (RStar True r)"
definition ropt :: "re \<Rightarrow> re" where "ropt r = RAlt r REps"

primrec rtimes :: "nat \<Rightarrow> re \<Rightarrow> re" where
  "rtimes 0 r = REps"
| "rtimes (Suc n) r = RSeq r (rtimes n r)"

primrec rupto :: "nat \<Rightarrow> re \<Rightarrow> re" where
  "rupto 0 r = REps"
| "rupto (Suc n) r = RAlt (RSeq r (rupto n r)) REps"

definition rdigit :: re where "rdigit = RSet False [(48, 57)]"
definition space_ranges :: "(nat \<times> nat) list" where
  "space_ranges = [(9, 13), (32, 32), (160, 160), (0x1680, 0x1680), (0x2000, 0x200A), (0x2028, 0x2029),
     (0x202F, 0x202F), (0x205F, 0x205F), (0x3000, 0x3000), (0xFEFF, 0xFEFF)]"
definition rspace :: re where "rspace = RSet False space_ranges"
definition rnonspace :: re where "rnonspace = RSet True space_ranges"
definition word_ranges :: "(nat \<times> nat) list" where
  "word_ranges = [(48, 57), (65, 90), (95, 95), (97, 122)]"
definition rdot :: re where "rdot = RSet True [(10, 10), (13, 13), (0x2028, 0x2029)]"

text \<open>A literal under the \<open>i\<close> flag: each ASCII letter matches in both cases.\<close>

definition rchr_i :: "code_unit \<Rightarrow> re" where
  "rchr_i c = RSet False ((c, c) # (if 97 \<le> c \<and> c \<le> 122 then [(c - 32, c - 32)]
     else if 65 \<le> c \<and> c \<le> 90 then [(c + 32, c + 32)] else []))"

definition rlit_i :: "string \<Rightarrow> re" where
  "rlit_i s = rseq (map rchr_i (js s))"

section \<open>Searching\<close>

fun re_search :: "re \<Rightarrow> jstring \<Rightarrow> nat \<Rightarrow> nat \<Rightarrow> (nat \<times> rstate) option" where
  "re_search r s i 0 = (case rmatch r s (i, []) of [] \<Rightarrow> None | st # _ \<Rightarrow> Some (i, st))"
| "re_search r s i (Suc k) =
     (case rmatch r s (i, []) of [] \<Rightarrow> re_search r s (Suc i) k | st # _ \<Rightarrow> Some (i, st))"

text \<open>The match found at or after position \<open>i\<close>: where it starts, where it ends, its groups.\<close>

definition re_exec_from :: "re \<Rightarrow> jstring \<Rightarrow> nat \<Rightarrow> (nat \<times> rstate) option" where
  "re_exec_from r s i = (if i \<le> length s then re_search r s i (length s - i) else None)"

definition re_exec :: "re \<Rightarrow> jstring \<Rightarrow> (nat \<times> rstate) option" where
  "re_exec r s = re_exec_from r s 0"

definition re_test :: "re \<Rightarrow> jstring \<Rightarrow> bool" where
  "re_test r s \<longleftrightarrow> re_exec r s \<noteq> None"

definition group :: "jstring \<Rightarrow> rstate \<Rightarrow> nat \<Rightarrow> jstring option" where
  "group s st n = map_option (\<lambda>(a, b). js_slice s a b) (map_of (snd st) n)"

text \<open>
  \<open>re_remove_from k r s i\<close>: \<open>s.slice(i)\<close> with every match deleted; an empty match copies one
  code unit and goes on behind it. \<open>k\<close> bounds the rounds, one for each code unit left.
\<close>

primrec re_remove_from :: "nat \<Rightarrow> re \<Rightarrow> jstring \<Rightarrow> nat \<Rightarrow> jstring" where
  "re_remove_from 0 r s i = drop i s"
| "re_remove_from (Suc k) r s i =
     (case re_exec_from r s i of
        None \<Rightarrow> drop i s
      | Some (a, st) \<Rightarrow>
          (if a < fst st then js_slice s i a @ re_remove_from k r s (fst st)
           else js_slice s i (Suc a) @ re_remove_from k r s (Suc a)))"

definition re_remove :: "re \<Rightarrow> jstring \<Rightarrow> jstring" where
  "re_remove r s = re_remove_from (Suc (length s)) r s 0"

text \<open>
  \<open>s.split(/r/)\<close>: from \<open>p\<close> (the end of the last separator) look at each position \<open>q\<close> for a
  separator that ends behind \<open>p\<close>.
\<close>

primrec re_split_from :: "nat \<Rightarrow> re \<Rightarrow> jstring \<Rightarrow> nat \<Rightarrow> nat \<Rightarrow> jstring list" where
  "re_split_from 0 r s p q = [drop p s]"
| "re_split_from (Suc k) r s p q =
     (if length s \<le> q then [drop p s]
      else case rmatch r s (q, []) of
        [] \<Rightarrow> re_split_from k r s p (Suc q)
      | st # _ \<Rightarrow> (if fst st = p then re_split_from k r s p (Suc q)
                  else js_slice s p q # re_split_from k r s (fst st) (fst st)))"

definition re_split :: "re \<Rightarrow> jstring \<Rightarrow> jstring list" where
  "re_split r s =
     (if s = [] then (case rmatch r s (0, []) of [] \<Rightarrow> [s] | _ # _ \<Rightarrow> [])
      else re_split_from (Suc (length s)) r s 0 0)"

lemmas re_defs [run_simps] = rchr_def rlit_def rset_def rmany_def rplus_def ropt_def rdigit_def
  space_ranges_def rspace_def rnonspace_def word_ranges_def rdot_def rchr_i_def rlit_i_def
  re_exec_from_def re_exec_def re_test_def group_def re_remove_def re_split_def in_class_def
  is_word_char_def word_at_def word_boundary_def js_slice_def

section \<open>The matcher stays inside the string\<close>

lemma star_loop_bounds:
  assumes "\<And>a b. b \<in> set (m a) \<Longrightarrow> fst a \<le> n \<Longrightarrow> fst b \<le> n"
  shows "st' \<in> set (star_loop g m k st) \<Longrightarrow> fst st \<le> n \<Longrightarrow> fst st \<le> fst st' \<and> fst st' \<le> n"
proof (induction k arbitrary: st st')
  case (Suc k)
  then consider "st' = st" | st1 where "st1 \<in> set (m st)" "fst st < fst st1"
      "st' \<in> set (star_loop g m k st1)"
    by (auto simp: Let_def split: if_splits)
  then show ?case
  proof cases
    case 2
    with assms Suc.prems have "fst st1 \<le> n" by blast
    with Suc.IH [OF 2(3)] 2(2) show ?thesis by simp
  qed (use Suc.prems in simp)
qed simp

lemma rmatch_bounds:
  "st' \<in> set (rmatch r s st) \<Longrightarrow> fst st \<le> length s \<Longrightarrow> fst st \<le> fst st' \<and> fst st' \<le> length s"
proof (induction r arbitrary: st st')
  case (RSeq r1 r2)
  from RSeq.prems(1) obtain st1 where st1: "st1 \<in> set (rmatch r1 s st)" "st' \<in> set (rmatch r2 s st1)"
    by auto
  from RSeq.IH(1) [OF st1(1) RSeq.prems(2)] RSeq.IH(2) [OF st1(2)] show ?case by simp
next
  case (RStar g r)
  have "fst b \<le> length s" if "b \<in> set (rmatch r s a)" "fst a \<le> length s" for a b
    using RStar.IH [OF that] by simp
  from star_loop_bounds [OF this] RStar.prems show ?case by simp
next
  case (RLook r)
  then show ?case by (auto split: list.splits)
qed (auto split: if_splits)

lemma re_search_bounds:
  "re_search r s i k = Some (a, st) \<Longrightarrow> i + k \<le> length s \<Longrightarrow>
     i \<le> a \<and> a \<le> fst st \<and> fst st \<le> length s"
proof (induction r s i k rule: re_search.induct)
  case (1 r s i)
  then have "st \<in> set (rmatch r s (i, []))" "a = i" by (auto split: list.splits)
  from rmatch_bounds [OF this(1)] this(2) 1 show ?case by simp
next
  case (2 r s i k)
  show ?case
  proof (cases "rmatch r s (i, [])")
    case Nil
    with 2 show ?thesis by simp
  next
    case (Cons x xs)
    then have "x \<in> set (rmatch r s (i, []))" by simp
    from rmatch_bounds [OF this] 2 Cons show ?thesis by simp
  qed
qed

lemma re_exec_from_bounds:
  "re_exec_from r s i = Some (a, st) \<Longrightarrow> i \<le> a \<and> a \<le> fst st \<and> fst st \<le> length s"
  by (auto simp: re_exec_from_def split: if_splits dest!: re_search_bounds)

lemma js_slice_drop: "i \<le> a \<Longrightarrow> js_slice s i a @ drop a s = drop i s"
  by (metis append_take_drop_id drop_drop js_slice_def le_add_diff_inverse2)

text \<open>Deleting matches only deletes: the result is a subsequence of the subject.\<close>

lemma re_remove_from_subseq: "subseq (re_remove_from k r s i) (drop i s)"
proof (induction k arbitrary: i)
  case (Suc k)
  show ?case
  proof (cases "re_exec_from r s i")
    case (Some m)
    obtain a st where m: "m = (a, st)" by (cases m)
    note b = re_exec_from_bounds [OF Some [unfolded m]]
    have step: "subseq (js_slice s i a' @ re_remove_from k r s e) (drop i s)"
      if "i \<le> a'" "a' \<le> e" for a' e
    proof -
      have "subseq (re_remove_from k r s e) (drop a' s)"
        using Suc.IH [of e] that
        by (metis drop_drop le_add_diff_inverse2 subseq_drop subseq_order.order_trans)
      then have "subseq (js_slice s i a' @ re_remove_from k r s e) (js_slice s i a' @ drop a' s)"
        by (rule list_emb_append_mono [OF subseq_order.order_refl])
      with that show ?thesis by (simp add: js_slice_drop)
    qed
    from b show ?thesis by (simp add: Some m step)
  qed simp
qed simp

lemma re_remove_subseq: "subseq (re_remove r s) s"
  using re_remove_from_subseq [of "Suc (length s)" r s 0] by (simp add: re_remove_def)

lemma re_test_Nil_iff: "re_test r [] \<longleftrightarrow> rmatch r [] (0, []) \<noteq> []"
  by (auto simp: re_test_def re_exec_def re_exec_from_def split: list.splits)

end
