(* ===== verification/JS_Number.thy ===== *)
theory JS_Number
  imports Complex_Main Prelude
begin

text \<open>
  JavaScript numbers where fractions matter. A finite number is the rational it denotes, and
  every arithmetic operation rounds its exact result to the nearest binary64 value, ties to
  even (\<open>rd\<close>). The sources compute ratios of line counts and small weighted sums only, so
  overflow to infinity, subnormal results and NaN do not occur, and \<open>rd\<close> leaves them out.
\<close>

definition round_half_even :: "rat \<Rightarrow> int" where
  "round_half_even q =
     (let f = \<lfloor>q\<rfloor>; d = q - of_int f
      in if d < 1/2 then f else if 1/2 < d then f + 1 else if even f then f else f + 1)"

definition pow2 :: "int \<Rightarrow> rat" where
  "pow2 k = (if 0 \<le> k then 2 ^ nat k else 1 / 2 ^ nat (- k))"

text \<open>The number of binary digits of a positive integer, less one.\<close>

function ilog2 :: "int \<Rightarrow> int" where
  "ilog2 n = (if n \<le> 1 then 0 else 1 + ilog2 (n div 2))"
  by pat_completeness auto
termination
  by (relation "measure nat") auto

declare ilog2.simps [simp del]

text \<open>The exponent \<open>k\<close> with \<open>2 ^ k \<le> \<bar>q\<bar> < 2 ^ (k + 1)\<close>, for \<open>q\<close> different from 0.\<close>

definition exponent :: "rat \<Rightarrow> int" where
  "exponent q =
     (case quotient_of q of (n, d) \<Rightarrow>
        let k = ilog2 \<bar>n\<bar> - ilog2 d
        in if pow2 k \<le> \<bar>q\<bar> then k else k - 1)"

definition rd :: "rat \<Rightarrow> rat" where
  "rd q = (if q = 0 then 0
           else let s = pow2 (52 - exponent q) in of_int (round_half_even (q * s)) / s)"

definition fadd :: "rat \<Rightarrow> rat \<Rightarrow> rat" where "fadd a b = rd (a + b)"
definition fmul :: "rat \<Rightarrow> rat \<Rightarrow> rat" where "fmul a b = rd (a * b)"
definition fdiv :: "rat \<Rightarrow> rat \<Rightarrow> rat" where "fdiv a b = rd (a / b)"

lemmas float_defs [run_simps] = rd_def fadd_def fmul_def fdiv_def

section \<open>Bounds of rounding\<close>

lemma ilog2_mono: "m \<le> n \<Longrightarrow> ilog2 m \<le> ilog2 n"
proof (induction n arbitrary: m rule: ilog2.induct)
  case (1 n)
  show ?case
  proof (cases "m \<le> 1")
    case True
    moreover have "0 \<le> ilog2 k" for k
      by (induction k rule: ilog2.induct) (subst ilog2.simps, simp)
    ultimately show ?thesis by (simp add: ilog2.simps [of m])
  next
    case False
    with 1 have "ilog2 (m div 2) \<le> ilog2 (n div 2)" by (simp add: zdiv_mono1)
    with False 1(2) show ?thesis by (simp add: ilog2.simps [of m] ilog2.simps [of n])
  qed
qed

lemma pow2_pos [simp]: "0 < pow2 k"
  by (simp add: pow2_def)

lemma pow2_nat: "0 \<le> k \<Longrightarrow> pow2 k = of_int (2 ^ nat k)"
  by (simp add: pow2_def)

lemma pow2_neg_le: "k \<le> 0 \<Longrightarrow> pow2 k \<le> 1"
  by (simp add: pow2_def)

lemma round_half_even_le: "q \<le> of_int n \<Longrightarrow> round_half_even q \<le> n"
proof -
  assume a: "q \<le> of_int n"
  then have f: "\<lfloor>q\<rfloor> \<le> n" by linarith
  show ?thesis
  proof (cases "\<lfloor>q\<rfloor> = n")
    case True
    with a have "q = of_int n" by linarith
    then show ?thesis by (simp add: round_half_even_def)
  next
    case False
    with f show ?thesis by (auto simp: round_half_even_def Let_def)
  qed
qed

lemma round_half_even_ge: "of_int n \<le> q \<Longrightarrow> n \<le> round_half_even q"
proof -
  assume "of_int n \<le> q"
  then have "n \<le> \<lfloor>q\<rfloor>" by (simp add: le_floor_iff)
  then show ?thesis by (simp add: round_half_even_def Let_def)
qed

lemma round_half_even_of_int [simp]: "round_half_even (of_int n) = n"
  by (simp add: round_half_even_def)

lemma rd_zero [simp]: "rd 0 = 0"
  by (simp add: rd_def)

lemma rd_nonneg: "0 \<le> q \<Longrightarrow> 0 \<le> rd q"
  using round_half_even_ge [of 0 "q * pow2 (52 - exponent q)"]
  by (auto simp: rd_def Let_def less_imp_le intro!: divide_nonneg_nonneg)

lemma exponent_nonpos:
  assumes "0 \<le> q" "q \<le> 1" shows "exponent q \<le> 0"
proof (rule ccontr)
  obtain n d where nd: "quotient_of q = (n, d)" by (cases "quotient_of q")
  assume "\<not> exponent q \<le> 0"
  then have k: "0 < exponent q" by simp
  have le: "pow2 (exponent q) \<le> q \<or> exponent q =
      ilog2 \<bar>n\<bar> - ilog2 d - 1"
    using assms nd by (auto simp: exponent_def Let_def)
  have "n \<le> d" "0 < d" "0 \<le> n"
    using assms quotient_of_denom_pos [OF nd] quotient_of_div [OF nd]
    by (auto simp: divide_le_eq zero_le_divide_iff)
  then have "ilog2 \<bar>n\<bar> \<le> ilog2 d" by (intro ilog2_mono) auto
  with k le have "pow2 (exponent q) \<le> q" by linarith
  moreover have "1 < pow2 (exponent q)" using k by (simp add: pow2_def)
  ultimately show False using assms(2) by simp
qed

lemma rd_le_one:
  assumes "0 \<le> q" "q \<le> 1" shows "rd q \<le> 1"
proof (cases "q = 0")
  case False
  let ?s = "pow2 (52 - exponent q)"
  have s: "?s = of_int (2 ^ nat (52 - exponent q))"
    using exponent_nonpos [OF assms] by (intro pow2_nat) simp
  have "q * ?s \<le> of_int (2 ^ nat (52 - exponent q))"
    using assms(2) by (simp add: s)
  from round_half_even_le [OF this] have "of_int (round_half_even (q * ?s)) \<le> ?s"
    by (metis of_int_le_iff s)
  with False show ?thesis by (simp add: rd_def Let_def)
qed simp

end
