(* ===== verification/Budget.thy ===== *)
theory Budget
  imports Prelude
begin

text \<open>
  \<open>packages/rtk-core/src/strategies/types.ts\<close>, \<open>anchor.ts\<close> and \<open>budget.ts\<close>: the classified line
  that flows through the pipeline, and the selection of blocks that may be replaced by a
  one-line summary. A strategy marks lines as anchors; \<open>applyBudget\<close> folds maximal runs of
  equal unanchored lines, lowest priority first, until the estimate fits the budget.

  The lemmas show that nothing anchored is ever removed, that what is kept stays verbatim and in
  order, how long the result is, when the selection stops and in which order it proceeds.
\<close>

section \<open>strategies/types.ts\<close>

datatype strategyName = Ls | Grep | Read | Diff | Test | Unknown

record cline =
  ctext :: jstring
  sourceLine :: "nat option"
  anchor :: bool
  priority :: nat
  cgroup :: "jstring option"

record strategyResult =
  slines :: "cline list"
  sstrategy :: strategyName
  snotes :: "jstring list"

definition splitLines :: "jstring \<Rightarrow> jstring list" where
  "splitLines text =
     (let parts = split_on LF text
      in if length parts > 1 \<and> last parts = [] then butlast parts else parts)"

section \<open>anchor.ts\<close>

definition PRI_critical :: nat where "PRI_critical = 100"
definition PRI_high :: nat where "PRI_high = 70"
definition PRI_normal :: nat where "PRI_normal = 40"
definition PRI_low :: nat where "PRI_low = 10"

section \<open>budget.ts\<close>

record budgetOptions =
  budgetTokens :: nat
  orawHash :: jstring
  orawTokensEst :: nat
  otool :: jstring

record block =
  bstart :: nat
  bend :: nat
  bpriority :: nat
  blabel :: jstring
  bsummary :: jstring
  bgain :: int
  bchars :: nat

record budgetResult =
  btext :: jstring
  elidedTokens :: nat
  groupsCollapsed :: nat
  keptLines :: "cline list"

definition line_cost :: "cline \<Rightarrow> nat" where
  "line_cost l = length (ctext l) + 1"

definition label_of :: "jstring \<Rightarrow> cline \<Rightarrow> jstring" where
  "label_of tool l = (case cgroup l of None \<Rightarrow> tool | Some g \<Rightarrow> g)"

definition same_run :: "jstring \<Rightarrow> cline \<Rightarrow> cline \<Rightarrow> bool" where
  "same_run tool first l \<longleftrightarrow>
     \<not> anchor l \<and> label_of tool l = label_of tool first \<and> priority l = priority first"

definition run_block :: "jstring \<Rightarrow> nat \<Rightarrow> cline list \<Rightarrow> cline \<Rightarrow> block" where
  "run_block tool i run first =
     (let cost = sum_list (map line_cost run);
          summary = js ''[+'' @ dec (length run) @ js '' lines elided in '' @ label_of tool first @ js '']''
      in \<lparr>bstart = i, bend = i + length run, bpriority = priority first, blabel = label_of tool first,
          bsummary = summary, bgain = int cost - int (length summary) - 1, bchars = cost\<rparr>)"

text \<open>The first loop: \<open>i\<close> is the index of the first element of the remaining lines.\<close>

function build_blocks :: "jstring \<Rightarrow> nat \<Rightarrow> cline list \<Rightarrow> block list" where
  "build_blocks tool i [] = []"
| "build_blocks tool i (first # rest) =
     (if anchor first then build_blocks tool (Suc i) rest
      else let run = first # takeWhile (same_run tool first) rest;
               blk = run_block tool i run first
           in (if 0 < bgain blk then [blk] else [])
              @ build_blocks tool (i + length run) (dropWhile (same_run tool first) rest))"
  by pat_completeness auto
termination
  by (relation "measure (\<lambda>(tool, i, ls). length ls)") (auto simp: le_imp_less_Suc length_dropWhile_le)

definition footer :: "budgetOptions \<Rightarrow> nat \<Rightarrow> jstring" where
  "footer opts elided =
     js ''[bluecode rtk] compressed: rawHash='' @ orawHash opts @ js '' ('' @ dec elided
     @ js '' tokens elided). Full output: headroom_retrieve(hash='' @ [34] @ orawHash opts @ [34] @ js '')''"

definition ceil4 :: "int \<Rightarrow> int" where
  "ceil4 n = (n + 3) div 4"

text \<open>The selection loop over the sorted blocks; it stops as soon as the estimate fits.\<close>

fun select_blocks :: "budgetOptions \<Rightarrow> int \<Rightarrow> nat \<Rightarrow> block list \<Rightarrow> block list \<times> int \<times> nat" where
  "select_blocks opts chars elidedChars [] = ([], chars, elidedChars)"
| "select_blocks opts chars elidedChars (b # bs) =
     (if ceil4 (chars + int (length (footer opts (ceil_div4 elidedChars)))) \<le> int (budgetTokens opts)
      then ([], chars, elidedChars)
      else case select_blocks opts (chars - bgain b) (elidedChars + bchars b) bs of
             (sel, chars', elided') \<Rightarrow> (b # sel, chars', elided'))"

text \<open>The output loop. A selected block at index \<open>i\<close> replaces the lines up to its end.\<close>

function emit :: "(nat \<Rightarrow> block option) \<Rightarrow> nat \<Rightarrow> cline list \<Rightarrow> jstring list \<times> cline list" where
  "emit sel i [] = ([], [])"
| "emit sel i (l # ls) =
     (case sel i of
        Some b \<Rightarrow> (case emit sel (bend b) (drop (bend b - Suc i) ls) of (out, kept) \<Rightarrow> (bsummary b # out, kept))
      | None \<Rightarrow> (case emit sel (Suc i) ls of (out, kept) \<Rightarrow> (ctext l # out, l # kept)))"
  by pat_completeness auto
termination
  by (relation "measure (\<lambda>(sel, i, ls). length ls)") auto

definition sort_blocks :: "block list \<Rightarrow> block list" where
  "sort_blocks bs = sort_key (\<lambda>b. (bpriority b, bstart b)) bs"

definition chosen_blocks :: "cline list \<Rightarrow> budgetOptions \<Rightarrow> block list \<times> int \<times> nat" where
  "chosen_blocks lines opts =
     select_blocks opts (int (sum_list (map line_cost lines))) 0
       (sort_blocks (build_blocks (otool opts) 0 lines))"

definition applyBudget :: "cline list \<Rightarrow> budgetOptions \<Rightarrow> budgetResult" where
  "applyBudget lines opts =
     (case chosen_blocks lines opts of (selected, chars, elidedChars) \<Rightarrow>
      case emit (map_of (map (\<lambda>b. (bstart b, b)) selected)) 0 lines of (out, kept) \<Rightarrow>
        \<lparr>btext = join_with [LF] out @ [LF] @ footer opts (ceil_div4 elidedChars),
         elidedTokens = ceil_div4 elidedChars,
         groupsCollapsed = length (remdups (map blabel selected)),
         keptLines = kept\<rparr>)"

lemmas pri_defs [run_simps] = PRI_critical_def PRI_high_def PRI_normal_def PRI_low_def
lemmas budget_defs [run_simps] = splitLines_def line_cost_def label_of_def same_run_def run_block_def
  footer_def ceil4_def sort_blocks_def chosen_blocks_def applyBudget_def

section \<open>Blocks\<close>

lemma same_run_not_anchor: "same_run tool first l \<Longrightarrow> \<not> anchor l"
  by (simp add: same_run_def)

lemma run_block_simps [simp]:
  "bstart (run_block tool i run first) = i"
  "bend (run_block tool i run first) = i + length run"
  "bpriority (run_block tool i run first) = priority first"
  "blabel (run_block tool i run first) = label_of tool first"
  "bchars (run_block tool i run first) = sum_list (map line_cost run)"
  by (simp_all add: run_block_def Let_def)

lemma run_block_gain:
  "bgain (run_block tool i run first)
   = int (sum_list (map line_cost run)) - int (length (bsummary (run_block tool i run first))) - 1"
  by (simp add: run_block_def Let_def)

lemma build_blocks_bounds:
  "b \<in> set (build_blocks tool i ls) \<Longrightarrow> i \<le> bstart b \<and> bstart b < bend b \<and> bend b \<le> i + length ls"
proof (induction tool i ls rule: build_blocks.induct)
  case (2 tool i first rest)
  have len: "length (takeWhile (same_run tool first) rest) + length (dropWhile (same_run tool first) rest)
      = length rest"
    by (metis length_append takeWhile_dropWhile_id)
  show ?case
  proof (cases "anchor first")
    case True
    with 2 show ?thesis by fastforce
  next
    case False
    with 2 len show ?thesis
      by (fastforce simp: Let_def split: if_splits)
  qed
qed simp

lemma build_blocks_gain: "b \<in> set (build_blocks tool i ls) \<Longrightarrow> 0 < bgain b"
proof (induction tool i ls rule: build_blocks.induct)
  case (2 tool i first rest)
  then show ?case by (cases "anchor first") (auto simp: Let_def split: if_splits)
qed simp

lemma build_blocks_start_ge: "b \<in> set (build_blocks tool i ls) \<Longrightarrow> i \<le> bstart b"
  using build_blocks_bounds by blast

lemma build_blocks_distinct: "distinct (map bstart (build_blocks tool i ls))"
proof (induction tool i ls rule: build_blocks.induct)
  case (2 tool i first rest)
  then show ?case
    by (cases "anchor first") (auto simp: Let_def dest!: build_blocks_start_ge)
qed simp

section \<open>The output loop\<close>

lemma emit_none:
  "(\<And>j. i \<le> j \<Longrightarrow> j < i + length xs \<Longrightarrow> sel j = None) \<Longrightarrow>
   emit sel i (xs @ ys) = (map ctext xs @ fst (emit sel (i + length xs) ys),
                           xs @ snd (emit sel (i + length xs) ys))"
proof (induction xs arbitrary: i)
  case (Cons x xs)
  have "sel i = None" using Cons.prems by simp
  moreover have "emit sel (Suc i) (xs @ ys) = (map ctext xs @ fst (emit sel (Suc i + length xs) ys),
      xs @ snd (emit sel (Suc i + length xs) ys))"
    using Cons.prems by (intro Cons.IH) auto
  ultimately show ?case by simp
qed simp

text \<open>\<open>sel\<close> picks, at each index from \<open>i\<close> on, the block of the list that starts there and satisfies \<open>P\<close>.\<close>

definition picks :: "(nat \<Rightarrow> block option) \<Rightarrow> (block \<Rightarrow> bool) \<Rightarrow> nat \<Rightarrow> block list \<Rightarrow> bool" where
  "picks sel P i bs \<longleftrightarrow> (\<forall>j\<ge>i. sel j = find (\<lambda>b. bstart b = j \<and> P b) bs)"

lemma picks_mono: "picks sel P i bs \<Longrightarrow> i \<le> j \<Longrightarrow> picks sel P j bs"
  by (simp add: picks_def)

lemma picks_skip: "picks sel P i (b # bs) \<Longrightarrow> bstart b < j \<Longrightarrow> i \<le> j \<Longrightarrow> picks sel P j bs"
  by (auto simp: picks_def)

lemma find_start_None:
  "(\<And>b. b \<in> set bs \<Longrightarrow> j < bstart b) \<Longrightarrow> find (\<lambda>b. bstart b = j \<and> P b) bs = None"
  by (auto simp: find_None_iff)

text \<open>
  What one pass of the output loop yields: \<open>out\<close> and \<open>kept\<close> against the lines \<open>ls\<close> and the
  gains of the folded blocks.
\<close>

definition faithful_pass :: "cline list \<Rightarrow> block list \<Rightarrow> jstring list \<times> cline list \<Rightarrow> bool" where
  "faithful_pass ls folded ok \<longleftrightarrow>
     filter anchor (snd ok) = filter anchor ls \<and> subseq (snd ok) ls
     \<and> subseq (map ctext (snd ok)) (fst ok)
     \<and> int (sum_list (map (\<lambda>t. length t + 1) (fst ok)))
        = int (sum_list (map line_cost ls)) - sum_list (map bgain folded)
     \<and> (fst ok = [] \<longrightarrow> ls = [])"

lemma faithful_pass_keep:
  assumes "faithful_pass ls folded (out, kept)"
  shows "faithful_pass (xs @ ls) folded (map ctext xs @ out, xs @ kept)"
proof -
  have "sum_list (map (\<lambda>t. length t + 1) (map ctext xs)) = sum_list (map line_cost xs)"
    by (induction xs) (auto simp: line_cost_def)
  with assms show ?thesis
    by (auto simp: faithful_pass_def intro: list_emb_append_mono)
qed

lemma faithful_pass_fold:
  assumes "faithful_pass ls folded (out, kept)" and "\<forall>l\<in>set run. \<not> anchor l"
    and "blk = run_block tool i run first"
  shows "faithful_pass (run @ ls) (blk # folded) (bsummary blk # out, kept)"
proof -
  have "filter anchor run = []" using assms(2) by (simp add: filter_empty_conv)
  moreover have "subseq kept (run @ ls)"
    using assms(1) by (metis faithful_pass_def list_emb_append2 snd_conv)
  ultimately show ?thesis
    using assms(1) by (auto simp: faithful_pass_def assms(3) run_block_gain)
qed

lemma emit_run:
  assumes "run = first # takeWhile (same_run tool first) rest"
    and "i \<le> j" and "j < i + length run"
    and "picks sel P i (bs @ build_blocks tool (i + length run) (dropWhile (same_run tool first) rest))"
    and "\<And>b. b \<in> set bs \<Longrightarrow> bstart b = i"
  shows "i < j \<Longrightarrow> sel j = None"
proof -
  let ?tl = "build_blocks tool (i + length run) (dropWhile (same_run tool first) rest)"
  assume "i < j"
  have "find (\<lambda>b. bstart b = j \<and> P b) (bs @ ?tl) = None"
    using \<open>i < j\<close> assms(3,5) build_blocks_start_ge [of _ tool "i + length run"]
    by (fastforce simp: find_None_iff)
  with assms(2,4) show ?thesis by (simp add: picks_def)
qed

lemma emit_faithful:
  "picks sel P i (build_blocks tool i ls) \<Longrightarrow>
   faithful_pass ls (filter P (build_blocks tool i ls)) (emit sel i ls)"
proof (induction tool i ls rule: build_blocks.induct)
  case (1 tool i)
  show ?case by (simp add: faithful_pass_def)
next
  case (2 tool i first rest)
  let ?run = "first # takeWhile (same_run tool first) rest"
  let ?rest = "dropWhile (same_run tool first) rest"
  let ?n = "i + length ?run"
  let ?blk = "run_block tool i ?run first"
  have split: "first # rest = ?run @ ?rest" by simp
  show ?case
  proof (cases "anchor first")
    case True
    have "sel i = None"
      using 2(3) True build_blocks_start_ge [of _ tool "Suc i" rest]
      by (auto simp: picks_def Suc_le_eq intro!: find_start_None)
    moreover have "faithful_pass rest (filter P (build_blocks tool (Suc i) rest)) (emit sel (Suc i) rest)"
      using 2(1) [OF True] 2(3) True picks_mono [of sel P i _ "Suc i"] by simp
    ultimately show ?thesis
      using faithful_pass_keep [of rest _ "fst (emit sel (Suc i) rest)" "snd (emit sel (Suc i) rest)" "[first]"]
        True by (simp add: split_beta)
  next
    case False
    define pre where "pre = (if 0 < bgain ?blk then [?blk] else [])"
    have bb: "build_blocks tool i (first # rest) = pre @ build_blocks tool ?n ?rest"
      using False by (simp add: pre_def Let_def)
    have picks: "picks sel P i (pre @ build_blocks tool ?n ?rest)" using 2(3) by (simp only: bb)
    then have "picks sel P ?n (build_blocks tool ?n ?rest)"
      by (auto simp: pre_def intro: picks_mono picks_skip split: if_splits)
    then have IH: "faithful_pass ?rest (filter P (build_blocks tool ?n ?rest)) (emit sel ?n ?rest)"
      using 2(2) [OF False refl refl] by simp
    have start: "sel i = (if pre \<noteq> [] \<and> P ?blk then Some ?blk else None)"
      using picks find_start_None [of "build_blocks tool ?n ?rest" i P] build_blocks_start_ge [of _ tool ?n ?rest]
      by (fastforce simp: picks_def pre_def)
    have later: "sel j = None" if "i < j" "j < ?n" for j
      using emit_run [OF refl _ that(2) picks _ that(1)] that(1) by (auto simp: pre_def split: if_splits)
    show ?thesis
    proof (cases "pre \<noteq> [] \<and> P ?blk")
      case True
      have "\<forall>l\<in>set ?run. \<not> anchor l"
        using False by (auto dest: set_takeWhileD same_run_not_anchor)
      from faithful_pass_fold [OF _ this refl, of ?rest _ "fst (emit sel ?n ?rest)" "snd (emit sel ?n ?rest)" tool i first]
      have "faithful_pass (first # rest) (?blk # filter P (build_blocks tool ?n ?rest))
          (bsummary ?blk # fst (emit sel ?n ?rest), snd (emit sel ?n ?rest))"
        using IH by simp
      moreover have "emit sel i (first # rest) = (bsummary ?blk # fst (emit sel ?n ?rest), snd (emit sel ?n ?rest))"
        using start True by (simp add: split_beta drop_length_takeWhile)
      moreover have "filter P (build_blocks tool i (first # rest)) = ?blk # filter P (build_blocks tool ?n ?rest)"
        unfolding bb using True by (auto simp: pre_def split: if_splits)
      ultimately show ?thesis by simp
    next
      case fold: False
      have none: "sel j = None" if "i \<le> j" "j < i + length ?run" for j
        using that start fold later [of j] by (cases "j = i") auto
      have "emit sel i (first # rest) = (map ctext ?run @ fst (emit sel ?n ?rest), ?run @ snd (emit sel ?n ?rest))"
        using emit_none [of i ?run sel ?rest, OF none] unfolding split by blast
      moreover have "filter P (build_blocks tool i (first # rest)) = filter P (build_blocks tool ?n ?rest)"
        unfolding bb using fold by (auto simp: pre_def)
      ultimately show ?thesis
        using faithful_pass_keep [of ?rest _ "fst (emit sel ?n ?rest)" "snd (emit sel ?n ?rest)" ?run] IH
        by (simp only: split prod.collapse)
    qed
  qed
qed

section \<open>The selection loop\<close>

text \<open>The loop takes a prefix of its argument and stops for one of two reasons.\<close>

lemma select_blocks_spec:
  assumes "select_blocks opts chars elided bs = (sel, chars', elided')"
  shows "\<exists>rest. bs = sel @ rest \<and> chars' = chars - sum_list (map bgain sel)
     \<and> elided' = elided + sum_list (map bchars sel)
     \<and> (rest = [] \<or> ceil4 (chars' + int (length (footer opts (ceil_div4 elided')))) \<le> int (budgetTokens opts))"
  using assms
proof (induction opts chars elided bs arbitrary: sel rule: select_blocks.induct)
  case (2 opts chars elided b bs)
  show ?case
  proof (cases "ceil4 (chars + int (length (footer opts (ceil_div4 elided)))) \<le> int (budgetTokens opts)")
    case True
    with 2(2) show ?thesis by simp
  next
    case False
    with 2(2) obtain sel1 where s: "sel = b # sel1"
      and eq: "select_blocks opts (chars - bgain b) (elided + bchars b) bs = (sel1, chars', elided')"
      by (auto split: prod.splits)
    from 2(1) [OF False eq] s show ?thesis by auto
  qed
qed simp

lemma set_sort_blocks [simp]: "set (sort_blocks bs) = set bs"
  by (simp add: sort_blocks_def)

lemma sorted_sort_blocks: "sorted (map (\<lambda>b. (bpriority b, bstart b)) (sort_blocks bs))"
  by (simp add: sort_blocks_def)

lemma distinct_sort_blocks:
  "distinct (map bstart bs) \<Longrightarrow> distinct (map bstart (sort_blocks bs))"
  by (simp add: distinct_map sort_blocks_def)

text \<open>The map built from the selected blocks finds exactly the selected block at its start.\<close>

lemma map_of_selected:
  assumes "distinct (map bstart bs)" and "set sel \<subseteq> set bs"
  shows "map_of (map (\<lambda>b. (bstart b, b)) sel) j = find (\<lambda>b. bstart b = j \<and> b \<in> set sel) bs"
proof (cases "\<exists>b\<in>set sel. bstart b = j")
  case True
  then obtain b where b: "b \<in> set sel" "bstart b = j" by blast
  have uniq: "b' = b" if "b' \<in> set bs" "bstart b' = j" for b'
    using assms that b by (auto simp: distinct_map inj_on_def)
  have "map_of (map (\<lambda>b. (bstart b, b)) sel) j = Some b"
  proof -
    obtain b' where "map_of (map (\<lambda>b. (bstart b, b)) sel) j = Some b'"
      using b by (metis (mono_tags, lifting) image_eqI image_image image_set map_of_eq_None_iff
          not_Some_eq fst_conv)
    moreover then have "b' \<in> set bs" "bstart b' = j" using assms(2) by (auto dest!: map_of_SomeD)
    ultimately show ?thesis using uniq by simp
  qed
  moreover have "find (\<lambda>b. bstart b = j \<and> b \<in> set sel) bs = Some b"
  proof -
    have "find (\<lambda>b. bstart b = j \<and> b \<in> set sel) bs \<noteq> None"
      using b assms(2) by (auto simp: find_None_iff)
    then obtain b' where f: "find (\<lambda>b. bstart b = j \<and> b \<in> set sel) bs = Some b'" by auto
    then have "b' \<in> set bs" "bstart b' = j" by (auto simp: find_Some_iff)
    with f uniq show ?thesis by simp
  qed
  ultimately show ?thesis by simp
next
  case False
  then have "map_of (map (\<lambda>b. (bstart b, b)) sel) j = None"
    by (auto simp: map_of_eq_None_iff)
  moreover have "find (\<lambda>b. bstart b = j \<and> b \<in> set sel) bs = None"
    using False by (auto simp: find_None_iff)
  ultimately show ?thesis by simp
qed

text \<open>Everything the later theories need about one call of \<open>applyBudget\<close>.\<close>

lemma applyBudget_spec:
  obtains out selected rest elidedChars where
    "btext (applyBudget lines opts) = join_with [LF] out @ [LF] @ footer opts (ceil_div4 elidedChars)"
    "elidedTokens (applyBudget lines opts) = ceil_div4 elidedChars"
    "sort_blocks (build_blocks (otool opts) 0 lines) = selected @ rest"
    "elidedChars = sum_list (map bchars selected)"
    "rest = [] \<or> ceil4 (int (sum_list (map line_cost lines)) - sum_list (map bgain selected)
        + int (length (footer opts (ceil_div4 elidedChars)))) \<le> int (budgetTokens opts)"
    "faithful_pass lines selected (out, keptLines (applyBudget lines opts))"
proof -
  let ?bs = "build_blocks (otool opts) 0 lines"
  obtain sel chars elided where c: "chosen_blocks lines opts = (sel, chars, elided)"
    by (cases "chosen_blocks lines opts")
  let ?m = "map_of (map (\<lambda>b. (bstart b, b)) sel)"
  obtain out kept where e: "emit ?m 0 lines = (out, kept)" by fastforce
  from select_blocks_spec [OF c [unfolded chosen_blocks_def]] obtain rest where
    r: "sort_blocks ?bs = sel @ rest" "elided = sum_list (map bchars sel)"
      "chars = int (sum_list (map line_cost lines)) - sum_list (map bgain sel)"
      "rest = [] \<or> ceil4 (chars + int (length (footer opts (ceil_div4 elided)))) \<le> int (budgetTokens opts)"
    by auto
  have dist: "distinct (map bstart (sel @ rest))"
    using distinct_sort_blocks [OF build_blocks_distinct] r(1) by metis
  have sub: "set sel \<subseteq> set ?bs" by (metis Un_upper1 r(1) set_append set_sort_blocks)
  have "picks ?m (\<lambda>b. b \<in> set sel) 0 ?bs"
    using map_of_selected [OF build_blocks_distinct sub] by (simp add: picks_def)
  from emit_faithful [OF this] e
  have f: "faithful_pass lines (filter (\<lambda>b. b \<in> set sel) ?bs) (out, kept)" by simp
  have "set (filter (\<lambda>b. b \<in> set sel) ?bs) = set sel" using sub by auto
  moreover have "distinct ?bs" "distinct sel"
    using dist build_blocks_distinct [of "otool opts" 0 lines] by (auto simp: distinct_map)
  ultimately have "sum_list (map bgain (filter (\<lambda>b. b \<in> set sel) ?bs)) = sum_list (map bgain sel)"
    by (metis distinct_filter sum_list_distinct_conv_sum_set)
  with f have "faithful_pass lines sel (out, kept)" by (simp add: faithful_pass_def)
  with r c e show ?thesis
    by (intro that [of out elided sel rest]) (simp_all add: applyBudget_def)
qed

section \<open>Properties\<close>

text \<open>C1: Folding never removes an anchored line. The kept lines are a subsequence of the input
  that contains every anchored line, and their texts appear verbatim and in order among the
  lines that are joined into the output.\<close>

theorem applyBudget_keeps_anchors:
  "\<exists>out. btext (applyBudget lines opts)
            = join_with [LF] out @ [LF] @ footer opts (elidedTokens (applyBudget lines opts))
       \<and> filter anchor (keptLines (applyBudget lines opts)) = filter anchor lines
       \<and> subseq (keptLines (applyBudget lines opts)) lines
       \<and> subseq (map ctext (keptLines (applyBudget lines opts))) out"
proof -
  obtain out selected elided where
    "btext (applyBudget lines opts) = join_with [LF] out @ [LF] @ footer opts (ceil_div4 elided)"
    "elidedTokens (applyBudget lines opts) = ceil_div4 elided"
    "faithful_pass lines selected (out, keptLines (applyBudget lines opts))"
    by (rule applyBudget_spec)
  then show ?thesis by (auto simp: faithful_pass_def)
qed

lemma ceil4_int: "ceil4 (int n) = int (ceil_div4 n)"
  by (simp add: ceil4_def ceil_div4_def)

lemma sorted_priority: "sorted (map (\<lambda>b. (bpriority b, bstart b)) bs) \<Longrightarrow> sorted (map bpriority bs)"
  by (induction bs) (auto simp: less_eq_prod_def)

text \<open>Folding follows the priorities and stops only when the result fits. The folded blocks
  are a prefix of the blocks in ascending priority, the elided estimate is that of the folded
  blocks, and either no foldable block is left or the assembled text is within the budget.\<close>

theorem applyBudget_priority_order:
  "\<exists>folded left.
     sort_blocks (build_blocks (otool opts) 0 lines) = folded @ left
   \<and> sorted (map bpriority (folded @ left))
   \<and> elidedTokens (applyBudget lines opts) = ceil_div4 (sum_list (map bchars folded))
   \<and> (left = [] \<or> ceil_div4 (length (btext (applyBudget lines opts))) \<le> budgetTokens opts)"
proof -
  obtain out selected rest elided where spec:
    "btext (applyBudget lines opts) = join_with [LF] out @ [LF] @ footer opts (ceil_div4 elided)"
    "elidedTokens (applyBudget lines opts) = ceil_div4 elided"
    "sort_blocks (build_blocks (otool opts) 0 lines) = selected @ rest"
    "elided = sum_list (map bchars selected)"
    "rest = [] \<or> ceil4 (int (sum_list (map line_cost lines)) - sum_list (map bgain selected)
        + int (length (footer opts (ceil_div4 elided)))) \<le> int (budgetTokens opts)"
    "faithful_pass lines selected (out, keptLines (applyBudget lines opts))"
    by (rule applyBudget_spec)
  let ?F = "footer opts (ceil_div4 elided)"
  have "rest = [] \<or> ceil_div4 (length (btext (applyBudget lines opts))) \<le> budgetTokens opts"
  proof (cases "rest = []")
    case False
    then have "lines \<noteq> []" using spec(3) by (auto simp: sort_blocks_def)
    with spec(6) have "out \<noteq> []" by (auto simp: faithful_pass_def)
    then have "int (length (btext (applyBudget lines opts)))
        = int (sum_list (map line_cost lines)) - sum_list (map bgain selected) + int (length ?F)"
      using length_join_with1 [of LF out] spec(6) by (simp add: spec(1) faithful_pass_def)
    with spec(5) False show ?thesis by (metis ceil4_int of_nat_le_iff)
  qed simp
  moreover have "sorted (map bpriority (selected @ rest))"
    using sorted_sort_blocks [of "build_blocks (otool opts) 0 lines"] spec(3) sorted_priority by metis
  ultimately show ?thesis using spec(2-4) by blast
qed

end
