(* ===== verification/Classify.thy ===== *)
theory Classify
  imports JS_Regex JS_Number Budget
begin

text \<open>
  \<open>packages/rtk-core/src/classify.ts\<close>: the strategy of a tool output, by explicit tool id first
  and by feature scores second. Scores are binary64 values computed with the rounding of
  \<open>JS_Number\<close>. A line number of a grep line is the natural number its digits denote.
\<close>

record classification =
  cstrategy :: strategyName
  confidence :: rat
  signals :: "jstring list"

fun strategy_string :: "strategyName \<Rightarrow> jstring" where
  "strategy_string Ls = js ''ls''"
| "strategy_string Grep = js ''grep''"
| "strategy_string Read = js ''read''"
| "strategy_string Diff = js ''diff''"
| "strategy_string Test = js ''test''"
| "strategy_string Unknown = js ''unknown''"

definition TOOL_STRATEGY :: "(jstring \<times> strategyName) list" where
  "TOOL_STRATEGY = [(js ''read'', Read), (js ''grep'', Grep), (js ''glob'', Ls), (js ''ls'', Ls)]"

definition CONFIDENCE_THRESHOLD :: rat where
  "CONFIDENCE_THRESHOLD = rd (6 / 10)"

definition clamp01 :: "rat \<Rightarrow> rat" where
  "clamp01 n = max 0 (min 1 n)"

section \<open>Line shapes\<close>

definition URL_SCHEME_RE :: re where
  "URL_SCHEME_RE = rseq [RBol, RSet False [(97, 122), (65, 90)],
     rmany (RSet False [(97, 122), (65, 90), (48, 57), (43, 43), (46, 46), (45, 45)]), rlit ''://'']"

definition EXTENSION_RE :: re where
  "EXTENSION_RE = rseq [rlit ''.'', RSet False [(65, 90), (97, 122), (48, 57)],
     rupto 7 (RSet False [(65, 90), (97, 122), (48, 57)]), REol]"

definition pathLike :: "jstring \<Rightarrow> bool" where
  "pathLike p = (if p = [] \<or> re_test rspace p then False
                 else if re_test URL_SCHEME_RE p then False
                 else re_test (RSet False [(92, 92), (47, 47)]) p \<or> re_test EXTENSION_RE p)"

definition GREP_LINE_RE :: re where
  "GREP_LINE_RE = rseq [RBol,
     RGroup 1 (RSeq (RSet True (space_ranges @ [(58, 58)])) (RStar False rnonspace)),
     rset '':-'', RGroup 2 (rplus rdigit), ropt (RSeq (rset '':-'') (RGroup 3 (rmany rdot))), REol]"

definition parse_digits :: "jstring \<Rightarrow> nat" where
  "parse_digits s = foldl (\<lambda>n c. 10 * n + (c - 48)) 0 s"

record grepLine =
  gpath :: jstring
  glineNo :: nat
  gtext :: jstring

definition parseGrepLine :: "jstring \<Rightarrow> grepLine option" where
  "parseGrepLine line =
     (case re_exec GREP_LINE_RE line of
        None \<Rightarrow> None
      | Some (a, st) \<Rightarrow>
          (let path = (case group line st 1 of None \<Rightarrow> [] | Some p \<Rightarrow> p)
           in if \<not> pathLike path then None
              else Some \<lparr>gpath = path,
                         glineNo = parse_digits (case group line st 2 of None \<Rightarrow> [] | Some d \<Rightarrow> d),
                         gtext = (case group line st 3 of None \<Rightarrow> [] | Some t \<Rightarrow> t)\<rparr>))"

definition LS_PERM_RE :: re where
  "LS_PERM_RE = rseq [RBol, rset ''dcb-l'', rtimes 9 (rset ''rwxStTs-''), rmany (rset ''@.+''), rspace]"

definition path_char :: re where
  "path_char = RSet False (word_ranges @ [(46, 46), (64, 64), (43, 43), (45, 45)])"

definition dots12 :: re where
  "dots12 = RSeq (rlit ''.'') (ropt (rlit ''.''))"

definition LS_PATH_LINE_RE :: re where
  "LS_PATH_LINE_RE = ralt
     [rseq [RBol, ropt (ralt [RSeq dots12 (rlit ''/''), rlit ''~/'']), rplus path_char,
            rplus (RSeq (rlit ''/'') (rplus path_char)), ropt (rlit ''/''), REol],
      rseq [RBol, rplus path_char, rlit ''/'', REol],
      rseq [RBol, dots12, rlit ''/'', rplus path_char, REol]]"

definition LS_TOTAL_RE :: re where
  "LS_TOTAL_RE = rseq [RBol, rlit ''total '', rplus rdigit, REol]"

definition TEST_CHECK_RE :: re where
  "TEST_CHECK_RE = RSet False [(0x2713, 0x2713), (0x2714, 0x2714)]"

definition TEST_FAIL_MARK_RE :: re where
  "TEST_FAIL_MARK_RE = RSet False [(0x2717, 0x2717), (0x2716, 0x2716), (0x25CF, 0x25CF)]"

definition CASE_HEADER_RE :: re where
  "CASE_HEADER_RE = rseq [RBol, rlit ''--- '', ralt [rlit ''FAIL'', rlit ''PASS''], rlit '':'']"

definition TEST_PF_RE :: re where
  "TEST_PF_RE = ralt
     [rseq [RBol, ralt [rlit ''PASS'', RSeq (rlit ''FAILE'') (ropt (rlit ''D''))], RWordB],
      CASE_HEADER_RE,
      rseq [RBol, rlit ''ok'', RWordB]]"

definition TEST_AT_RE :: re where
  "TEST_AT_RE = rseq [RBol, rplus rspace, rlit ''at'', rspace]"

definition TEST_SUMMARY_RE :: re where
  "TEST_SUMMARY_RE = rseq [ralt [RBol, rspace],
     ralt [RSeq (rlit ''Test'') (ropt (rlit ''s'')), RSeq (rlit ''Test Suite'') (ropt (rlit ''s''))], rlit '':'']"

definition READ_NUM_RE :: re where
  "READ_NUM_RE = rseq [RBol, rmany rspace, rplus rdigit,
     ralt [RSeq (rlit '':'') (ralt [rlit '' '', REol]), RSet False [(9, 9), (32, 32)]]]"

definition HUNK_RE :: re where
  "HUNK_RE = rseq [RBol, rlit ''@@ '', rplus rdot, rlit '' @@'']"

definition HUNK3_RE :: re where
  "HUNK3_RE = rseq [RBol, rlit ''@@@ '', rplus rdot, rlit '' @@@'']"

section \<open>Feature scores\<close>

record featureScore =
  fname :: strategyName
  fscore :: rat
  fsignal :: jstring

fun diff_counts :: "jstring list \<Rightarrow> nat \<times> nat \<times> nat" where
  "diff_counts [] = (0, 0, 0)"
| "diff_counts (line # lines) =
     (case diff_counts lines of (diffGit, hunk, pm) \<Rightarrow>
        if starts_with line (js ''diff --git '') then (Suc diffGit, hunk, pm)
        else if re_test HUNK_RE line \<or> re_test HUNK3_RE line then (diffGit, Suc hunk, pm)
        else if re_test CASE_HEADER_RE line then (diffGit, hunk, pm)
        else if starts_with line (js ''+++ '') \<or> starts_with line (js ''--- '') then (diffGit, hunk, Suc pm)
        else (diffGit, hunk, pm))"

definition diff_score :: "jstring list \<Rightarrow> featureScore" where
  "diff_score lines =
     (case diff_counts lines of (diffGit, hunk, pm) \<Rightarrow>
      \<lparr>fname = Diff,
       fscore = clamp01 (fmul (fdiv (fadd (fadd (fmul (of_nat diffGit) 2) (fmul (of_nat hunk) (3/2)))
                                          (fmul (of_nat pm) (1/2))) (of_nat (length lines))) 4),
       fsignal = js ''diff: '' @ dec diffGit @ js '' '' @ [39] @ js ''diff --git'' @ [39] @ js '', ''
         @ dec hunk @ js '' hunk header(s), '' @ dec pm @ js '' +++/--- line(s) of '' @ dec (length lines)\<rparr>)"

definition grep_score :: "jstring list \<Rightarrow> featureScore" where
  "grep_score lines =
     (let matched = length (filter (\<lambda>line. parseGrepLine line \<noteq> None) lines)
      in \<lparr>fname = Grep, fscore = fdiv (of_nat matched) (of_nat (length lines)),
          fsignal = js ''grep: '' @ dec matched @ js ''/'' @ dec (length lines)
            @ js '' line(s) match path:line(:text)''\<rparr>)"

definition ls_score :: "jstring list \<Rightarrow> featureScore" where
  "ls_score lines =
     (let total = of_nat (length lines);
          perm = length (filter (re_test LS_PERM_RE) lines);
          pathish = length (filter (\<lambda>line. \<not> re_test LS_PERM_RE line \<and> re_test LS_PATH_LINE_RE line) lines);
          totals = length (filter (re_test LS_TOTAL_RE) lines)
      in \<lparr>fname = Ls,
          fscore = clamp01 (fadd (fadd (fmul (fdiv (of_nat perm) total) (3/2))
                                       (fmul (of_nat totals) (rd (2/10))))
                                 (fmul (fdiv (of_nat pathish) total) (rd (8/10)))),
          fsignal = js ''ls: '' @ dec perm @ js '' permission-style, '' @ dec pathish @ js '' path-like, ''
            @ dec totals @ js '' '' @ [39] @ js ''total'' @ [39] @ js '' of '' @ dec (length lines)\<rparr>)"

definition bool_string :: "bool \<Rightarrow> jstring" where
  "bool_string b = (if b then js ''true'' else js ''false'')"

definition test_score :: "jstring list \<Rightarrow> featureScore" where
  "test_score lines =
     (let total = of_nat (length lines);
          check = length (filter (re_test TEST_CHECK_RE) lines);
          failMark = length (filter (re_test TEST_FAIL_MARK_RE) lines);
          pf = length (filter (re_test TEST_PF_RE) lines);
          runnerCaseHeader = list_ex (re_test CASE_HEADER_RE) lines;
          frames = length (filter (re_test TEST_AT_RE) lines);
          summary = list_ex (re_test TEST_SUMMARY_RE) lines
      in \<lparr>fname = Test,
          fscore = clamp01 (fadd (fadd (fadd (fadd
              (fmul (fdiv (of_nat (check + failMark)) total) 2)
              (min (fmul (fdiv (of_nat pf) total) 2) (1/2)))
              (if runnerCaseHeader then rd (35/100) else 0))
              (min (fmul (fdiv (of_nat frames) total) 2) (rd (3/10))))
              (if summary then rd (4/10) else 0)),
          fsignal = js ''test: '' @ dec check @ js '' pass-mark(s), '' @ dec failMark @ js '' fail-mark(s), ''
            @ dec pf @ js '' PASS/FAIL, '' @ dec frames @ js '' stack frame(s), summary='' @ bool_string summary\<rparr>)"

definition read_score :: "jstring list \<Rightarrow> featureScore" where
  "read_score lines =
     (let numbered = length (filter (re_test READ_NUM_RE) lines)
      in \<lparr>fname = Read, fscore = fdiv (of_nat numbered) (of_nat (length lines)),
          fsignal = js ''read: '' @ dec numbered @ js ''/'' @ dec (length lines)
            @ js '' line(s) start with a line number''\<rparr>)"

fun best_score :: "featureScore option \<Rightarrow> featureScore list \<Rightarrow> featureScore option" where
  "best_score best [] = best"
| "best_score None (s # ss) = best_score (Some s) ss"
| "best_score (Some b) (s # ss) = best_score (Some (if fscore b < fscore s then s else b)) ss"

definition classifyByFeatures :: "jstring \<Rightarrow> jstring \<Rightarrow> classification" where
  "classifyByFeatures tool output =
     (let lines = filter (\<lambda>l. js_trim l \<noteq> []) (split_on LF output);
          scores = (if 0 < length lines
                    then [diff_score lines, grep_score lines, ls_score lines, test_score lines, read_score lines]
                    else []);
          below = (\<lambda>top. js ''bash/features('' @ tool @ js ''): below 0.6 threshold ('' @ top @ js '')'')
      in case best_score None scores of
           None \<Rightarrow> \<lparr>cstrategy = Unknown, confidence = 0, signals = [below (js ''no non-blank lines'')]\<rparr>
         | Some best \<Rightarrow>
             (if CONFIDENCE_THRESHOLD \<le> fscore best
              then \<lparr>cstrategy = fname best, confidence = fscore best, signals = [fsignal best]\<rparr>
              else \<lparr>cstrategy = Unknown, confidence = fscore best, signals = [below (js ''top='' @ fsignal best)]\<rparr>))"

definition classify :: "jstring \<Rightarrow> jstring \<Rightarrow> classification" where
  "classify tool output =
     (case map_of TOOL_STRATEGY tool of
        Some mapped \<Rightarrow> \<lparr>cstrategy = mapped, confidence = 1,
                        signals = [js ''tool_id:'' @ tool @ js '' -> '' @ strategy_string mapped]\<rparr>
      | None \<Rightarrow> classifyByFeatures tool output)"

lemmas classify_defs [run_simps] = TOOL_STRATEGY_def CONFIDENCE_THRESHOLD_def clamp01_def URL_SCHEME_RE_def
  EXTENSION_RE_def pathLike_def GREP_LINE_RE_def parse_digits_def parseGrepLine_def LS_PERM_RE_def
  path_char_def dots12_def LS_PATH_LINE_RE_def LS_TOTAL_RE_def TEST_CHECK_RE_def TEST_FAIL_MARK_RE_def
  CASE_HEADER_RE_def TEST_PF_RE_def TEST_AT_RE_def TEST_SUMMARY_RE_def READ_NUM_RE_def HUNK_RE_def HUNK3_RE_def

section \<open>Range and choice of the classification\<close>

lemma clamp01_range: "0 \<le> clamp01 q" "clamp01 q \<le> 1"
  by (simp_all add: clamp01_def)

lemma fdiv_count_range:
  assumes "k \<le> n" shows "0 \<le> fdiv (of_nat k) (of_nat n)" "fdiv (of_nat k) (of_nat n) \<le> 1"
  using assms by (auto simp: fdiv_def divide_le_eq_1 intro!: rd_nonneg rd_le_one)

lemma score_range:
  assumes "s \<in> {diff_score ls, grep_score ls, ls_score ls, test_score ls, read_score ls}"
  shows "0 \<le> fscore s \<and> fscore s \<le> 1"
  using assms
  by (auto simp: diff_score_def grep_score_def ls_score_def test_score_def read_score_def Let_def
      clamp01_range fdiv_count_range split: prod.splits)

lemma best_score_in:
  "best_score b ss = Some r \<Longrightarrow> r \<in> set ss \<union> set_option b"
  by (induction b ss rule: best_score.induct) (auto split: if_splits)

lemma best_score_max:
  "best_score b ss = Some r \<Longrightarrow> s \<in> set ss \<union> set_option b \<Longrightarrow> fscore s \<le> fscore r"
proof (induction b ss arbitrary: s rule: best_score.induct)
  case (3 b x xs)
  define w where "w = (if fscore b < fscore x then x else b)"
  have le: "fscore b \<le> fscore w" "fscore x \<le> fscore w" by (simp_all add: w_def)
  have IH: "fscore t \<le> fscore r" if "t \<in> set xs \<union> {w}" for t
    using 3 that by (simp add: w_def)
  from 3(3) consider "s \<in> set xs" | "s = x" | "s = b" by auto
  then show ?case
    using le order_trans [OF _ IH [of w]] IH by cases auto
qed auto

lemma score_names:
  "fname (diff_score ls) = Diff" "fname (grep_score ls) = Grep" "fname (ls_score ls) = Ls"
  "fname (test_score ls) = Test" "fname (read_score ls) = Read"
  by (auto simp: diff_score_def grep_score_def ls_score_def test_score_def read_score_def Let_def
      split: prod.splits)

section \<open>Properties\<close>

text \<open>A classification's confidence lies between 0 and 1, and a strategy is chosen from features only
  when its score reaches the threshold and no other feature scores higher.\<close>

theorem classify_confident:
  "0 \<le> confidence (classify tool output) \<and> confidence (classify tool output) \<le> 1
   \<and> (cstrategy (classify tool output) = Unknown
      \<or> CONFIDENCE_THRESHOLD \<le> confidence (classify tool output)
        \<and> (map_of TOOL_STRATEGY tool = Some (cstrategy (classify tool output))
           \<or> list_all (\<lambda>score. fscore (score (filter (\<lambda>l. js_trim l \<noteq> []) (split_on LF output)))
                                 \<le> confidence (classify tool output))
               [diff_score, grep_score, ls_score, test_score, read_score]))"
proof (cases "map_of TOOL_STRATEGY tool")
  case (Some m)
  moreover have "CONFIDENCE_THRESHOLD \<le> 1" by code_simp
  ultimately show ?thesis by (simp add: classify_def)
next
  case None
  define ls where "ls = filter (\<lambda>l. js_trim l \<noteq> []) (split_on LF output)"
  define scores where "scores = [diff_score ls, grep_score ls, ls_score ls, test_score ls, read_score ls]"
  have cls: "classify tool output = classifyByFeatures tool output" using None by (simp add: classify_def)
  show ?thesis
  proof (cases "ls = []")
    case True
    then show ?thesis by (simp add: cls classifyByFeatures_def ls_def)
  next
    case False
    obtain b where b: "best_score None scores = Some b"
      by (cases "best_score None scores") (simp_all add: scores_def split: if_splits)
    then have "b \<in> set scores" and mx: "\<forall>s\<in>set scores. fscore s \<le> fscore b"
      using best_score_in [OF b] best_score_max [OF b] by auto
    then have "0 \<le> fscore b" "fscore b \<le> 1" using score_range [of b ls] by (auto simp: scores_def)
    with b mx False show ?thesis
      by (auto simp: cls classifyByFeatures_def Let_def ls_def [symmetric] scores_def)
  qed
qed

lemma re_test_anchored:
  assumes "\<And>i. 0 < i \<Longrightarrow> rmatch r s (i, []) = []"
  shows "re_test r s \<longleftrightarrow> rmatch r s (0, []) \<noteq> []"
proof -
  have "re_search r s i k = None" if "0 < i" for i k
    using that assms by (induction k arbitrary: i) simp_all
  then show ?thesis
    by (cases "length s") (auto simp: re_test_def re_exec_def re_exec_from_def split: list.splits)
qed

lemma TEST_PF_anchored: "re_test TEST_PF_RE s \<longleftrightarrow> rmatch TEST_PF_RE s (0, []) \<noteq> []"
  by (rule re_test_anchored) (simp add: TEST_PF_RE_def CASE_HEADER_RE_def)

text \<open>C40: The pattern \<open>FAILED?\<close> makes only the final letter optional: a header \<open>FAIL path\<close> is never
  counted as a PASS/FAIL line, although every header \<open>PASS path\<close> is.\<close>

theorem fail_header_not_counted:
  "re_test TEST_PF_RE (js ''FAIL '' @ path) = False \<and> re_test TEST_PF_RE (js ''PASS '' @ path)"
  unfolding TEST_PF_anchored
  by (simp add: TEST_PF_RE_def CASE_HEADER_RE_def rlit_def js_def rchr_def in_class_def ropt_def
      word_boundary_def word_at_def is_word_char_def)

end
