(* ===== verification/Strategy.thy ===== *)
theory Strategy
  imports Classify
begin

text \<open>
  \<open>packages/rtk-core/src/strategies/fallback.ts\<close>, \<open>read.ts\<close> and \<open>diff.ts\<close>, and the contract
  every strategy of the pipeline meets.

  A strategy turns the raw text into classified lines. The contract (\<open>line_strategy\<close>) says that
  a classified line that names a source line shows that line of the text, up to blank lines,
  which some strategies print empty. What the pipeline needs from a strategy is derived from
  the contract once, and each strategy is an interpretation of it.
\<close>

section \<open>The contract\<close>

definition shows_line :: "jstring list \<Rightarrow> cline \<Rightarrow> bool" where
  "shows_line src l \<longleftrightarrow>
     (case sourceLine l of
        None \<Rightarrow> True
      | Some k \<Rightarrow> 1 \<le> k \<and> k \<le> length src
          \<and> (ctext l = src ! (k - 1) \<or> ctext l = [] \<and> js_trim (src ! (k - 1)) = []))"

definition faithful_lines :: "jstring \<Rightarrow> cline list \<Rightarrow> bool" where
  "faithful_lines raw ls \<longleftrightarrow> (\<forall>l\<in>set ls. shows_line (splitLines raw) l)"

type_synonym strategy = "jstring \<Rightarrow> jstring \<Rightarrow> strategyResult"

locale line_strategy =
  fixes strat :: strategy
  assumes lines_faithful: "faithful_lines raw (slines (strat raw toolId))"
begin

text \<open>What is kept under any budget is still faithful: a kept line shows its source line.\<close>

lemma kept_faithful:
  "faithful_lines raw (keptLines (applyBudget (slines (strat raw toolId)) opts))"
proof -
  obtain out selected where
    "faithful_pass (slines (strat raw toolId)) selected
       (out, keptLines (applyBudget (slines (strat raw toolId)) opts))"
    by (rule applyBudget_spec)
  then have "set (keptLines (applyBudget (slines (strat raw toolId)) opts)) \<subseteq> set (slines (strat raw toolId))"
    by (auto simp: faithful_pass_def dest: list_emb_set)
  with lines_faithful show ?thesis by (auto simp: faithful_lines_def)
qed

lemma kept_source_bound:
  "l \<in> set (keptLines (applyBudget (slines (strat raw toolId)) opts)) \<Longrightarrow> sourceLine l = Some k \<Longrightarrow>
   1 \<le> k \<and> k \<le> length (splitLines raw)"
  using kept_faithful [of raw toolId opts] by (auto simp: faithful_lines_def shows_line_def)

text \<open>An anchored line reaches the output verbatim, in its place among the output lines.\<close>

lemma anchor_survives:
  assumes "l \<in> set (slines (strat raw toolId))" and "anchor l"
  shows "l \<in> set (keptLines (applyBudget (slines (strat raw toolId)) opts))"
proof -
  obtain out selected where
    "faithful_pass (slines (strat raw toolId)) selected
       (out, keptLines (applyBudget (slines (strat raw toolId)) opts))"
    by (rule applyBudget_spec)
  with assms show ?thesis
    by (metis (mono_tags, lifting) faithful_pass_def mem_Collect_eq set_filter snd_conv)
qed

end

section \<open>Numbered source lines\<close>

definition numbered :: "'a list \<Rightarrow> (nat \<times> 'a) list" where
  "numbered xs = enumerate 0 xs"

lemma numbered_mem: "(i, x) \<in> set (numbered xs) \<Longrightarrow> i < length xs \<and> x = xs ! i"
  by (auto simp: numbered_def in_set_enumerate_eq)

lemma numbered_nth: "i < length xs \<Longrightarrow> (i, xs ! i) \<in> set (numbered xs)"
  by (auto simp: numbered_def in_set_enumerate_eq)

definition source_cline :: "nat \<Rightarrow> jstring \<Rightarrow> bool \<Rightarrow> nat \<Rightarrow> jstring option \<Rightarrow> cline" where
  "source_cline index line anc pri grp =
     \<lparr>ctext = line, sourceLine = Some (index + 1), anchor = anc, priority = pri, cgroup = grp\<rparr>"

definition synth_cline :: "jstring \<Rightarrow> bool \<Rightarrow> nat \<Rightarrow> jstring option \<Rightarrow> cline" where
  "synth_cline line anc pri grp =
     \<lparr>ctext = line, sourceLine = None, anchor = anc, priority = pri, cgroup = grp\<rparr>"

lemma source_cline_simps [simp]:
  "ctext (source_cline i l a p g) = l" "sourceLine (source_cline i l a p g) = Some (Suc i)"
  "anchor (source_cline i l a p g) = a" "priority (source_cline i l a p g) = p" "cgroup (source_cline i l a p g) = g"
  by (simp_all add: source_cline_def)

lemma synth_cline_simps [simp]:
  "ctext (synth_cline l a p g) = l" "sourceLine (synth_cline l a p g) = None"
  "anchor (synth_cline l a p g) = a" "priority (synth_cline l a p g) = p" "cgroup (synth_cline l a p g) = g"
  by (simp_all add: synth_cline_def)

lemma shows_line_source: "i < length src \<Longrightarrow> l = src ! i \<Longrightarrow> shows_line src (source_cline i l a p g)"
  by (simp add: shows_line_def)

lemma shows_line_blank: "i < length src \<Longrightarrow> js_trim (src ! i) = [] \<Longrightarrow> shows_line src (source_cline i [] a p g)"
  by (simp add: shows_line_def)

lemma shows_line_synth [simp]: "shows_line src (synth_cline l a p g)"
  by (simp add: shows_line_def)

section \<open>fallback.ts\<close>

definition fallbackStrategy :: strategy where
  "fallbackStrategy raw toolId =
     \<lparr>slines = map (\<lambda>(index, line). source_cline index line True PRI_critical (Some (js ''output'')))
                  (numbered (splitLines raw)),
      sstrategy = Unknown,
      snotes = [js ''unknown: conservative direct passthrough'']\<rparr>"

section \<open>read.ts\<close>

definition READ_TAG_RE :: re where
  "READ_TAG_RE = rseq [RBol, rlit ''<'', ropt (rlit ''/''), ralt [rlit ''path'', rlit ''type'', rlit ''content''],
     ralt [rlit ''>'', rspace]]"

definition nine_tenths :: rat where "nine_tenths = rd (9 / 10)"

definition readStrategy :: strategy where
  "readStrategy raw toolId =
     (let lines = splitLines raw;
          relevant = filter (\<lambda>line. js_trim line \<noteq> [] \<and> \<not> re_test READ_TAG_RE line) lines;
          nnum = length (filter (re_test READ_NUM_RE) relevant)
      in if length relevant = 0 \<or> fdiv (of_nat nnum) (of_nat (length relevant)) < nine_tenths
         then (let fb = fallbackStrategy raw toolId
               in fb\<lparr>snotes := js ''read: input lacks line-number format; fell back to unknown strategy'' # snotes fb\<rparr>)
         else \<lparr>slines = map (\<lambda>(index, line). source_cline index line True PRI_critical (Some (js ''read'')))
                           (numbered lines),
               sstrategy = Read,
               snotes = [js ''read: preserved all '' @ dec nnum @ js '' numbered code lines'']\<rparr>)"

section \<open>diff.ts\<close>

definition DIFF_LINE_RE :: re where
  "DIFF_LINE_RE = RSeq RBol (ralt
     [rlit ''diff --git '', rlit ''index '', rlit ''--- '', rlit ''+++ '', rlit ''@@'',
      RSet False [(32, 32), (43, 43), (92, 92), (45, 45)],
      rlit ''new file mode '', rlit ''deleted file mode '', rlit ''similarity index '',
      rseq [rlit ''rename '', ralt [rlit ''from'', rlit ''to''], rlit '' '']])"

definition diffStrategy :: strategy where
  "diffStrategy raw toolId =
     (let lines = splitLines raw
      in if list_ex (re_test (RSeq RBol (rlit ''@@@''))) lines then fallbackStrategy raw toolId
         else if \<not> list_ex (re_test (RSeq RBol (rlit ''@@''))) lines
                 \<or> list_ex (\<lambda>line. line \<noteq> [] \<and> \<not> re_test DIFF_LINE_RE line) lines
         then fallbackStrategy raw toolId
         else \<lparr>slines = map (\<lambda>(index, line). source_cline index line (\<not> starts_with line (js '' ''))
                               PRI_normal (Some (js ''diff-context''))) (numbered lines),
               sstrategy = Diff,
               snotes = [js ''diff: all changes and hunk headers protected; only context may be omitted'']\<rparr>)"

lemmas strategy_defs [run_simps] = numbered_def source_cline_def synth_cline_def fallbackStrategy_def
  READ_TAG_RE_def nine_tenths_def readStrategy_def DIFF_LINE_RE_def diffStrategy_def

section \<open>The simple strategies meet the contract\<close>

lemma faithful_numbered:
  "faithful_lines raw (map (\<lambda>(index, line). source_cline index line (f line) p g) (numbered (splitLines raw)))"
  by (auto simp: faithful_lines_def dest!: numbered_mem intro!: shows_line_source)

lemma fallback_faithful: "faithful_lines raw (slines (fallbackStrategy raw toolId))"
  using faithful_numbered [of raw "\<lambda>_. True"] by (simp add: fallbackStrategy_def)

interpretation fallback: line_strategy fallbackStrategy
  by unfold_locales (rule fallback_faithful)

interpretation read: line_strategy readStrategy
proof unfold_locales
  fix raw toolId
  show "faithful_lines raw (slines (readStrategy raw toolId))"
    using fallback_faithful [of raw toolId] faithful_numbered [of raw "\<lambda>_. True"]
    by (simp add: readStrategy_def Let_def)
qed

interpretation diff: line_strategy diffStrategy
proof unfold_locales
  fix raw toolId
  show "faithful_lines raw (slines (diffStrategy raw toolId))"
    using fallback_faithful [of raw toolId] faithful_numbered [of raw "\<lambda>line. \<not> starts_with line (js '' '')"]
    by (simp add: diffStrategy_def Let_def)
qed

text \<open>Anchoring by the fallback and by the diff strategy.\<close>

lemma fallback_all_anchored: "l \<in> set (slines (fallbackStrategy raw toolId)) \<Longrightarrow> anchor l"
  by (auto simp: fallbackStrategy_def)

lemma diff_change_anchored:
  assumes "i < length (splitLines raw)" and "\<not> starts_with (splitLines raw ! i) (js '' '')"
  shows "\<exists>l\<in>set (slines (diffStrategy raw toolId)).
      anchor l \<and> sourceLine l = Some (Suc i) \<and> ctext l = splitLines raw ! i"
proof -
  let ?line = "splitLines raw ! i"
  have m: "(i, ?line) \<in> set (numbered (splitLines raw))" using assms(1) by (rule numbered_nth)
  show ?thesis
  proof (cases "sstrategy (diffStrategy raw toolId) = Diff")
    case True
    then have "source_cline i ?line True PRI_normal (Some (js ''diff-context'')) \<in> set (slines (diffStrategy raw toolId))"
      using m assms(2) by (force simp: diffStrategy_def Let_def fallbackStrategy_def image_iff split: if_splits)
    then show ?thesis by force
  next
    case False
    then have "slines (diffStrategy raw toolId) = slines (fallbackStrategy raw toolId)"
      by (auto simp: diffStrategy_def Let_def split: if_splits)
    moreover have "source_cline i ?line True PRI_critical (Some (js ''output'')) \<in> set (slines (fallbackStrategy raw toolId))"
      using m by (force simp: fallbackStrategy_def image_iff)
    ultimately show ?thesis by force
  qed
qed

end
