(* ===== verification/Strategy_Grep.thy ===== *)
theory Strategy_Grep
  imports Strategy
begin

text \<open>
  \<open>packages/rtk-core/src/strategies/grep.ts\<close>: matches grouped per file in order of first
  appearance, near-contiguous line numbers merged into range summaries, the first match and the
  error lines of each file anchored.
\<close>

definition ERROR_KEYWORD_RE :: re where
  "ERROR_KEYWORD_RE = ralt [rlit_i ''error'', rlit_i ''warn'', rlit_i ''fail'', rlit_i ''exception'']"

definition MERGE_GAP :: nat where "MERGE_GAP = 3"

record gmatch =
  mlineNo :: nat
  mraw :: jstring
  msource :: nat

record range =
  rstart :: nat
  rend :: nat
  rcount :: nat

text \<open>One round of the merge loop; the range built last is at the head.\<close>

fun merge_step :: "gmatch \<Rightarrow> range list \<Rightarrow> range list" where
  "merge_step m [] = [\<lparr>rstart = mlineNo m, rend = mlineNo m, rcount = 1\<rparr>]"
| "merge_step m (r # rs) =
     (if int (mlineNo m) - int (rend r) \<le> int MERGE_GAP + 1
      then r\<lparr>rend := max (rend r) (mlineNo m), rcount := rcount r + 1\<rparr> # rs
      else \<lparr>rstart = mlineNo m, rend = mlineNo m, rcount = 1\<rparr> # r # rs)"

definition mergeRanges :: "gmatch list \<Rightarrow> range list" where
  "mergeRanges matches = rev (fold merge_step (sort_key mlineNo matches) [])"

text \<open>First pass: the matches of each path, paths in order of first appearance.\<close>

fun group_matches :: "(nat \<times> jstring) list \<Rightarrow> (jstring, gmatch list) jmap \<Rightarrow> (jstring, gmatch list) jmap" where
  "group_matches [] groups = groups"
| "group_matches ((index, line) # rest) groups =
     (if js_trim line = [] then group_matches rest groups
      else case parseGrepLine line of
             None \<Rightarrow> group_matches rest groups
           | Some p \<Rightarrow>
               group_matches rest
                 (jmap_set (gpath p)
                    (get_or groups (gpath p) [] @ [\<lparr>mlineNo = glineNo p, mraw = line, msource = index + 1\<rparr>])
                    groups))"

definition has_key :: "('k, 'v) jmap \<Rightarrow> 'k \<Rightarrow> bool" where
  "has_key m k \<longleftrightarrow> map_of m k \<noteq> None"

text \<open>Second pass over the lines that are not matches.\<close>

definition unparsed_cline :: "(jstring, gmatch list) jmap \<Rightarrow> nat \<times> jstring \<Rightarrow> cline list" where
  "unparsed_cline groups il =
     (case il of (index, line) \<Rightarrow>
        if parseGrepLine line \<noteq> None then []
        else if js_trim line = [] then [source_cline index [] False PRI_low (Some (js ''other''))]
        else if has_key groups line then [source_cline index line True PRI_critical None]
        else [source_cline index line True PRI_normal (Some (js ''other''))])"

definition match_cline :: "jstring \<Rightarrow> gmatch \<Rightarrow> cline" where
  "match_cline path m =
     \<lparr>ctext = mraw m, sourceLine = Some (msource m), anchor = True, priority = PRI_critical, cgroup = Some path\<rparr>"

definition range_label :: "jstring \<Rightarrow> range \<Rightarrow> jstring" where
  "range_label path r =
     (if rstart r = rend r
      then path @ js '':'' @ dec (rstart r) @ js '' ('' @ dec (rcount r) @ js '' match''
           @ (if rcount r = 1 then [] else js ''es'') @ js '')''
      else path @ js '':'' @ dec (rstart r) @ js ''-'' @ dec (rend r) @ js '' ('' @ dec (rcount r) @ js '' matches)'')"

definition anchored_matches :: "gmatch list \<Rightarrow> gmatch list" where
  "anchored_matches matches =
     (case sort_key mlineNo matches of
        [] \<Rightarrow> []
      | first # others \<Rightarrow> first # filter (\<lambda>m. re_test ERROR_KEYWORD_RE (mraw m)) others)"

definition group_clines :: "jstring \<times> gmatch list \<Rightarrow> cline list" where
  "group_clines pm =
     (case pm of (path, matches) \<Rightarrow>
        map (match_cline path) (anchored_matches matches)
        @ map (\<lambda>r. synth_cline (range_label path r) False PRI_normal (Some path)) (mergeRanges matches))"

definition grepStrategy :: strategy where
  "grepStrategy raw toolId =
     (let lines = splitLines raw;
          groups = group_matches (numbered lines) [];
          nonEmpty = filter (\<lambda>line. js_trim line \<noteq> []) lines;
          recognized = length (filter (\<lambda>line. parseGrepLine line \<noteq> None \<or> has_key groups line) nonEmpty)
      in if length nonEmpty = 0 \<or> fdiv (of_nat recognized) (of_nat (length nonEmpty)) < nine_tenths
         then fallbackStrategy raw (js ''grep'')
         else \<lparr>slines = concat (map (unparsed_cline groups) (numbered lines)) @ concat (map group_clines groups),
               sstrategy = Grep,
               snotes = [js ''grep: '' @ dec (length groups) @ js '' file(s), ''
                 @ dec (sum_list (map (\<lambda>(p, ms). length ms) groups)) @ js '' match(es) -> ''
                 @ dec (sum_list (map (\<lambda>(p, ms). length (mergeRanges ms)) groups)) @ js '' range(s); kept ''
                 @ dec (sum_list (map (\<lambda>(p, ms). length (anchored_matches ms)) groups)) @ js '' anchor line(s)'']\<rparr>)"

lemmas grep_defs [run_simps] = ERROR_KEYWORD_RE_def MERGE_GAP_def mergeRanges_def has_key_def unparsed_cline_def
  match_cline_def range_label_def anchored_matches_def group_clines_def grepStrategy_def

section \<open>Range merging\<close>

text \<open>
  The state of the merge loop after the matches \<open>ms\<close>: every line number seen lies in a range,
  the counts add up, ranges do not touch, and no range ends behind the largest number seen.
\<close>

definition ranges_cover :: "gmatch list \<Rightarrow> range list \<Rightarrow> bool" where
  "ranges_cover ms rs \<longleftrightarrow>
     (\<forall>m\<in>set ms. \<exists>r\<in>set rs. rstart r \<le> mlineNo m \<and> mlineNo m \<le> rend r)
     \<and> (\<forall>r\<in>set rs. \<exists>m\<in>set ms. \<exists>m'\<in>set ms. rstart r = mlineNo m \<and> rend r = mlineNo m' \<and> rstart r \<le> rend r)
     \<and> sum_list (map rcount rs) = length ms"

definition ranges_apart :: "range list \<Rightarrow> bool" where
  "ranges_apart rs \<longleftrightarrow> sorted_wrt (\<lambda>a b. rend b + MERGE_GAP + 1 < rstart a) rs"

lemma merge_step_cover:
  assumes c: "ranges_cover ms rs" and mx: "\<forall>m'\<in>set ms. mlineNo m' \<le> mlineNo m"
  shows "ranges_cover (ms @ [m]) (merge_step m rs)"
proof (cases rs)
  case Nil
  with c show ?thesis by (auto simp: ranges_cover_def)
next
  case (Cons r rs')
  have r: "rend r \<le> mlineNo m" "rstart r \<le> rend r"
    using c mx Cons by (auto simp: ranges_cover_def)
  show ?thesis
  proof (cases "int (mlineNo m) - int (rend r) \<le> int MERGE_GAP + 1")
    case True
    let ?r = "r\<lparr>rend := max (rend r) (mlineNo m), rcount := rcount r + 1\<rparr>"
    have "\<exists>r'\<in>set (?r # rs'). rstart r' \<le> mlineNo m' \<and> mlineNo m' \<le> rend r'" if "m' \<in> set (ms @ [m])" for m'
    proof (cases "m' = m")
      case True
      with r show ?thesis by simp
    next
      case False
      with that obtain r' where "r' \<in> set rs" "rstart r' \<le> mlineNo m'" "mlineNo m' \<le> rend r'"
        using c by (auto simp: ranges_cover_def)
      then show ?thesis using Cons by (cases "r' = r") (auto simp: le_max_iff_disj)
    qed
    moreover have "\<exists>a\<in>set (ms @ [m]). \<exists>b\<in>set (ms @ [m]). rstart r' = mlineNo a \<and> rend r' = mlineNo b
        \<and> rstart r' \<le> rend r'" if "r' \<in> set (?r # rs')" for r'
      using that c r Cons by (auto simp: ranges_cover_def max_def)
    ultimately show ?thesis using c Cons True by (simp add: ranges_cover_def)
  next
    case False
    with c Cons show ?thesis by (fastforce simp: ranges_cover_def)
  qed
qed

lemma merge_step_apart:
  assumes "ranges_apart rs" and "\<forall>r\<in>set rs. rend r \<le> mlineNo m \<and> rstart r \<le> rend r"
  shows "ranges_apart (merge_step m rs)"
  using assms by (cases rs) (auto simp: ranges_apart_def intro: le_less_trans)

lemma merge_fold:
  assumes "sorted (map mlineNo ms)"
  shows "ranges_cover ms (fold merge_step ms []) \<and> ranges_apart (fold merge_step ms [])"
  using assms
proof (induction ms rule: rev_induct)
  case Nil
  show ?case by (simp add: ranges_cover_def ranges_apart_def)
next
  case (snoc m ms)
  then have IH: "ranges_cover ms (fold merge_step ms [])" "ranges_apart (fold merge_step ms [])"
    and mx: "\<forall>m'\<in>set ms. mlineNo m' \<le> mlineNo m"
    by (auto simp: sorted_append)
  then have "\<forall>r\<in>set (fold merge_step ms []). rend r \<le> mlineNo m \<and> rstart r \<le> rend r"
    by (auto simp: ranges_cover_def)
  with merge_step_cover [OF IH(1) mx] merge_step_apart [OF IH(2)] show ?case by simp
qed

lemma mergeRanges_spec:
  "ranges_cover (sort_key mlineNo ms) (mergeRanges ms) \<and> ranges_apart (rev (mergeRanges ms))"
  using merge_fold [of "sort_key mlineNo ms"] by (simp add: mergeRanges_def ranges_cover_def rev_map [symmetric] sum_list_rev)

section \<open>The grep strategy meets the contract\<close>

definition matches_ok :: "jstring list \<Rightarrow> (jstring, gmatch list) jmap \<Rightarrow> bool" where
  "matches_ok src groups \<longleftrightarrow>
     (\<forall>p ms m. (p, ms) \<in> set groups \<longrightarrow> m \<in> set ms \<longrightarrow> 1 \<le> msource m \<and> msource m \<le> length src \<and> mraw m = src ! (msource m - 1))"

lemma get_or_mem: "x \<in> set (get_or m k []) \<Longrightarrow> \<exists>v. (k, v) \<in> set m \<and> x \<in> set v"
  by (cases "map_of m k") (auto simp: get_or_def dest: map_of_SomeD)

lemma group_matches_ok:
  assumes "\<forall>(i, l)\<in>set ils. i < length src \<and> l = src ! i" and "matches_ok src groups"
  shows "matches_ok src (group_matches ils groups)"
  using assms
proof (induction ils groups rule: group_matches.induct)
  case (2 index line rest groups)
  have "matches_ok src (jmap_set p (get_or groups p [] @ [\<lparr>mlineNo = n, mraw = line, msource = index + 1\<rparr>]) groups)"
    for p n
    using 2(4,5) by (fastforce simp: matches_ok_def dest!: set_jmap_set get_or_mem)
  with 2 show ?case by (auto split: option.splits)
qed simp

lemma anchored_matches_subset: "set (anchored_matches ms) \<subseteq> set ms"
proof -
  have "set (anchored_matches ms) \<subseteq> set (sort_key mlineNo ms)"
    by (cases "sort_key mlineNo ms") (auto simp: anchored_matches_def simp del: set_sort)
  then show ?thesis by simp
qed

lemma group_clines_faithful:
  assumes "matches_ok src groups" and "g \<in> set groups" and "l \<in> set (group_clines g)"
  shows "shows_line src l"
  using assms anchored_matches_subset [of "snd g"]
  by (fastforce simp: group_clines_def matches_ok_def match_cline_def shows_line_def split: prod.splits)

lemma unparsed_cline_faithful:
  "(i, line) \<in> set (numbered src) \<Longrightarrow> l \<in> set (unparsed_cline groups (i, line)) \<Longrightarrow> shows_line src l"
  by (auto simp: unparsed_cline_def dest!: numbered_mem intro: shows_line_source shows_line_blank split: if_splits)

interpretation grep: line_strategy grepStrategy
proof unfold_locales
  fix raw toolId
  let ?src = "splitLines raw"
  let ?groups = "group_matches (numbered ?src) []"
  have "matches_ok ?src ?groups"
    by (rule group_matches_ok) (auto simp: matches_ok_def dest: numbered_mem)
  then have "\<forall>l\<in>set (concat (map (unparsed_cline ?groups) (numbered ?src)) @ concat (map group_clines ?groups)).
      shows_line ?src l"
    by (auto intro: unparsed_cline_faithful group_clines_faithful)
  then show "faithful_lines raw (slines (grepStrategy raw toolId))"
    using fallback_faithful [of raw "js ''grep''"] by (simp add: grepStrategy_def Let_def faithful_lines_def)
qed

section \<open>Properties\<close>

text \<open>Merging line ranges loses nothing: every match lies in a range, every range starts and ends at a
  match, the counts add up to the number of matches, and ranges are ordered and more than the gap apart.\<close>

theorem mergeRanges_correct:
  "(\<forall>m. m \<in> set ms \<longrightarrow> (\<exists>r\<in>set (mergeRanges ms). rstart r \<le> mlineNo m \<and> mlineNo m \<le> rend r))
   \<and> (\<forall>r\<in>set (mergeRanges ms). \<exists>m\<in>set ms. \<exists>m'\<in>set ms. rstart r = mlineNo m \<and> rend r = mlineNo m' \<and> rstart r \<le> rend r)
   \<and> sum_list (map rcount (mergeRanges ms)) = length ms
   \<and> sorted_wrt (\<lambda>a b. rend a + MERGE_GAP + 1 < rstart b) (mergeRanges ms)"
  using mergeRanges_spec [of ms] by (auto simp: ranges_cover_def ranges_apart_def sorted_wrt_rev)

theorem mergeRanges_correct_witness:
  "\<exists>r\<in>set (mergeRanges [\<lparr>mlineNo = 9, mraw = [], msource = 1\<rparr>, \<lparr>mlineNo = 2, mraw = [], msource = 2\<rparr>]).
     rstart r \<le> 9 \<and> 9 \<le> rend r"
  using mergeRanges_correct [of "[\<lparr>mlineNo = 9, mraw = [], msource = 1\<rparr>, \<lparr>mlineNo = 2, mraw = [], msource = 2\<rparr>]"]
  by auto

end
