(* ===== verification/Strategy_Ls.thy ===== *)
theory Strategy_Ls
  imports Strategy
begin

text \<open>
  \<open>packages/rtk-core/src/strategies/ls.ts\<close>: folding of directory listings. Shape A is the output
  of \<open>ls -la\<close>, shape B a list of paths. The summary line of a directory is an object that the
  code keeps in a map and updates in place while it also sits in the output array; the model
  keeps the index of that line in the output.
\<close>

definition LS_SECTION_RE :: re where
  "LS_SECTION_RE = rseq [RBol,
     rplus (RSet False (word_ranges @ [(46, 46), (64, 64), (126, 126), (43, 43), (47, 47), (45, 45)])),
     rlit '':'', REol]"

definition PATH_LINE_RE :: re where "PATH_LINE_RE = LS_PATH_LINE_RE"

definition KEEP_FILES_PER_DIR :: nat where "KEEP_FILES_PER_DIR = 8"
definition KEEP_ENTRIES_PER_DIR :: nat where "KEEP_ENTRIES_PER_DIR = 5"

record foldState =
  markers :: "(jstring, nat) jmap"
  fcounts :: "(jstring, nat) jmap"

definition empty_fold :: foldState where
  "empty_fold = \<lparr>markers = [], fcounts = []\<rparr>"

definition bumpFold :: "foldState \<Rightarrow> cline list \<Rightarrow> jstring \<Rightarrow> (nat \<Rightarrow> jstring) \<Rightarrow> foldState \<times> cline list" where
  "bumpFold state out key render =
     (let nxt = get_or (fcounts state) key 0 + 1;
          state' = state\<lparr>fcounts := jmap_set key nxt (fcounts state)\<rparr>
      in case map_of (markers state) key of
           Some idx \<Rightarrow> (state', out[idx := (out ! idx)\<lparr>ctext := render nxt\<rparr>])
         | None \<Rightarrow> (state'\<lparr>markers := jmap_set key (length out) (markers state)\<rparr>,
                   out @ [synth_cline (render 1) False PRI_low (Some key)]))"

record lsEntry =
  isDir :: bool
  lsName :: jstring

definition parseLsLa :: "jstring \<Rightarrow> lsEntry option" where
  "parseLsLa line =
     (if \<not> re_test LS_PERM_RE line then None
      else let fields = re_split (rplus rspace) line
           in if length fields < 9 then None
              else Some \<lparr>isDir = starts_with (hd fields) (js ''d''), lsName = join_with [SP] (drop 8 fields)\<rparr>)"

definition dirNameOf :: "jstring \<Rightarrow> jstring" where
  "dirNameOf path =
     (case last_index_of SLASH path of
        None \<Rightarrow> js ''.''
      | Some slash \<Rightarrow> if slash = 0 then js ''/'' else take slash path)"

text \<open>\<open>p.replace(/^\.\//, "")\<close>\<close>

definition strip_dot_slash :: "jstring \<Rightarrow> jstring" where
  "strip_dot_slash p = (if starts_with p (js ''./'') then drop 2 p else p)"

definition dirSegs :: "jstring \<Rightarrow> jstring list" where
  "dirSegs p = butlast (split_on SLASH (strip_dot_slash p))"

fun common_segs :: "jstring list \<Rightarrow> jstring list \<Rightarrow> jstring list" where
  "common_segs (x # xs) (y # ys) = (if x \<noteq> y then [] else x # common_segs xs ys)"
| "common_segs [] ys = []"
| "common_segs (x # xs) [] = []"

fun common_loop :: "jstring list \<Rightarrow> jstring list \<Rightarrow> jstring list" where
  "common_loop pre [] = pre"
| "common_loop pre (path # paths) =
     (let nxt = common_segs pre (dirSegs path)
      in if nxt = [] then nxt else common_loop nxt paths)"

definition commonDirPrefix :: "jstring list \<Rightarrow> jstring list" where
  "commonDirPrefix paths = (case paths of [] \<Rightarrow> [] | p # ps \<Rightarrow> common_loop (dirSegs p) ps)"

section \<open>Shape A\<close>

record lsState =
  lout :: "cline list"
  lfold :: foldState
  fileNth :: "(jstring, nat) jmap"
  currentDir :: jstring
  keptFiles :: nat
  foldedFiles :: nat

definition plural_file :: "jstring \<Rightarrow> nat \<Rightarrow> jstring" where
  "plural_file dir n = js ''[+'' @ dec n @ js '' file'' @ (if n = 1 then [] else js ''s'') @ js '' in '' @ dir @ js '']''"

definition ls_step_a :: "nat \<times> jstring \<Rightarrow> lsState \<Rightarrow> lsState" where
  "ls_step_a il s =
     (case il of (index, line) \<Rightarrow>
        if js_trim line = [] then s
        else if re_test LS_TOTAL_RE line
        then s\<lparr>lout := lout s @ [source_cline index line True PRI_critical None]\<rparr>
        else if re_test LS_SECTION_RE line
        then (let dir = butlast line
              in s\<lparr>currentDir := dir, lout := lout s @ [source_cline index line True PRI_critical (Some dir)]\<rparr>)
        else case parseLsLa line of
          None \<Rightarrow> s\<lparr>lout := lout s @ [source_cline index line False PRI_normal (Some (currentDir s))]\<rparr>
        | Some entry \<Rightarrow>
            if isDir entry
            then s\<lparr>lout := lout s @ [source_cline index line True PRI_critical (Some (currentDir s))]\<rparr>
            else let nth = get_or (fileNth s) (currentDir s) 0 + 1;
                     s1 = s\<lparr>fileNth := jmap_set (currentDir s) nth (fileNth s)\<rparr>
                 in if nth \<le> KEEP_FILES_PER_DIR
                    then s1\<lparr>keptFiles := keptFiles s + 1,
                            lout := lout s @ [source_cline index line False PRI_high (Some (currentDir s))]\<rparr>
                    else (case bumpFold (lfold s) (lout s) (currentDir s) (plural_file (currentDir s)) of
                            (f, out) \<Rightarrow> s1\<lparr>foldedFiles := foldedFiles s + 1, lfold := f, lout := out\<rparr>))"

definition ls_init :: lsState where
  "ls_init = \<lparr>lout = [], lfold = empty_fold, fileNth = [], currentDir = js ''.'', keptFiles = 0, foldedFiles = 0\<rparr>"

definition ls_shape_a :: "jstring list \<Rightarrow> strategyResult" where
  "ls_shape_a lines =
     (let s = fold ls_step_a (numbered lines) ls_init
      in \<lparr>slines = lout s, sstrategy = Ls,
          snotes = [if 0 < foldedFiles s
                    then js ''ls -la: kept '' @ dec (keptFiles s) @ js '' file(s), folded '' @ dec (foldedFiles s)
                         @ js '' into summaries''
                    else js ''ls -la: '' @ dec (keptFiles s) @ js '' file(s), nothing to fold'']\<rparr>)"

section \<open>Shape B\<close>

record pathState =
  pout :: "cline list"
  pfold :: foldState
  entryNth :: "(jstring, nat) jmap"
  keptEntries :: nat
  foldedEntries :: nat

definition dir_marker :: "jstring \<Rightarrow> nat \<Rightarrow> jstring" where
  "dir_marker dir n = js ''[+'' @ dec n @ js '' in '' @ (if dir = js ''/'' then js ''/'' else dir @ js ''/'') @ js '']''"

definition ls_step_b :: "nat \<times> jstring \<Rightarrow> pathState \<Rightarrow> pathState" where
  "ls_step_b il s =
     (case il of (index, line) \<Rightarrow>
        if \<not> re_test PATH_LINE_RE line
        then s\<lparr>pout := pout s @ [source_cline index line False
                 (if js_trim line = [] then PRI_low else PRI_normal) (Some (js ''other''))]\<rparr>
        else let dir = dirNameOf (strip_dot_slash line);
                 nth = get_or (entryNth s) dir 0 + 1;
                 s1 = s\<lparr>entryNth := jmap_set dir nth (entryNth s)\<rparr>
             in if nth \<le> KEEP_ENTRIES_PER_DIR
                then s1\<lparr>keptEntries := keptEntries s + 1,
                        pout := pout s @ [source_cline index line True PRI_critical (Some dir)]\<rparr>
                else (case bumpFold (pfold s) (pout s) dir (dir_marker dir) of
                        (f, out) \<Rightarrow> s1\<lparr>foldedEntries := foldedEntries s + 1, pfold := f, pout := out\<rparr>))"

definition path_init :: "jstring list \<Rightarrow> nat \<Rightarrow> pathState" where
  "path_init prefixSegs n =
     \<lparr>pout = (if prefixSegs = [] then []
              else [synth_cline (join_with [SLASH] prefixSegs @ js ''/ (common prefix, '' @ dec n @ js '' entries)'')
                      True PRI_critical None]),
      pfold = empty_fold, entryNth = [], keptEntries = 0, foldedEntries = 0\<rparr>"

definition ls_shape_b :: "jstring list \<Rightarrow> jstring list \<Rightarrow> strategyResult" where
  "ls_shape_b lines pathLines =
     (let prefixSegs = commonDirPrefix pathLines;
          s = fold ls_step_b (numbered lines) (path_init prefixSegs (length pathLines))
      in \<lparr>slines = pout s, sstrategy = Ls,
          snotes = (if prefixSegs = [] then []
                    else [js ''extracted common prefix '' @ join_with [SLASH] prefixSegs @ js ''/''])
            @ [if 0 < foldedEntries s
               then js ''path list: kept '' @ dec (keptEntries s) @ js '' entr(y|ies), folded ''
                    @ dec (foldedEntries s) @ js '' into summaries across '' @ dec (length (entryNth s))
                    @ js '' director(y|ies)''
               else js ''path list: '' @ dec (keptEntries s) @ js '' entr(y|ies), nothing to fold'']\<rparr>)"

definition lsStrategy :: strategy where
  "lsStrategy raw toolId =
     (let lines = splitLines raw;
          nonEmpty = filter (\<lambda>l. js_trim l \<noteq> []) lines;
          la = length (filter (\<lambda>line. re_test LS_PERM_RE line \<or> re_test LS_TOTAL_RE line \<or> re_test LS_SECTION_RE line)
                 nonEmpty);
          isLsLa = 0 < length nonEmpty \<and> nine_tenths \<le> fdiv (of_nat la) (of_nat (length nonEmpty));
          pathLines = filter (re_test PATH_LINE_RE) nonEmpty;
          pathRatio = (if 0 < length nonEmpty then fdiv (of_nat (length pathLines)) (of_nat (length nonEmpty)) else 0)
      in if isLsLa then ls_shape_a lines
         else if nine_tenths \<le> pathRatio then ls_shape_b lines pathLines
         else fallbackStrategy raw (js ''ls''))"

lemmas ls_defs [run_simps] = LS_SECTION_RE_def PATH_LINE_RE_def KEEP_FILES_PER_DIR_def KEEP_ENTRIES_PER_DIR_def
  empty_fold_def bumpFold_def parseLsLa_def dirNameOf_def strip_dot_slash_def dirSegs_def commonDirPrefix_def
  plural_file_def ls_step_a_def ls_init_def ls_shape_a_def dir_marker_def ls_step_b_def path_init_def
  ls_shape_b_def lsStrategy_def

section \<open>Fold markers\<close>

text \<open>
  The invariant of the fold state: every marker points at a line of the output that is
  synthetic, carries the directory as its group and shows the number of lines folded into it.
\<close>

definition fold_ok :: "(jstring \<Rightarrow> nat \<Rightarrow> jstring) \<Rightarrow> foldState \<Rightarrow> cline list \<Rightarrow> bool" where
  "fold_ok render f out \<longleftrightarrow>
     (\<forall>key. map_of (markers f) key = None \<longrightarrow> map_of (fcounts f) key = None)
     \<and> (\<forall>key idx. map_of (markers f) key = Some idx \<longrightarrow> idx < length out
          \<and> (\<exists>n. map_of (fcounts f) key = Some n
                  \<and> out ! idx = synth_cline (render key n) False PRI_low (Some key)))"

definition fold_inj :: "foldState \<Rightarrow> bool" where
  "fold_inj f \<longleftrightarrow> inj_on (map_of (markers f)) (dom (map_of (markers f)))"

lemma fold_ok_append: "fold_ok render f out \<Longrightarrow> fold_ok render f (out @ ls)"
  by (fastforce simp: fold_ok_def nth_append)

lemma fold_ok_None: "fold_ok render f out \<Longrightarrow> map_of (markers f) key = None \<Longrightarrow> map_of (fcounts f) key = None"
  by (simp add: fold_ok_def)

lemma fold_ok_Some:
  assumes "fold_ok render f out" and "map_of (markers f) key = Some idx"
  obtains n where "idx < length out" "map_of (fcounts f) key = Some n"
    "out ! idx = synth_cline (render key n) False PRI_low (Some key)"
  using assms unfolding fold_ok_def by blast

lemma fold_ok_empty: "fold_ok render empty_fold out" "fold_inj empty_fold"
  by (simp_all add: fold_ok_def fold_inj_def empty_fold_def)

lemma bumpFold_ok:
  assumes ok: "fold_ok render f out" and inj: "fold_inj f"
    and b: "bumpFold f out key (render key) = (f', out')"
  shows "fold_ok render f' out' \<and> fold_inj f'"
proof (cases "map_of (markers f) key")
  case None
  with ok have c: "map_of (fcounts f) key = None" by (rule fold_ok_None)
  have f': "markers f' = jmap_set key (length out) (markers f)" "fcounts f' = jmap_set key 1 (fcounts f)"
    "out' = out @ [synth_cline (render key 1) False PRI_low (Some key)]"
    using b None c by (auto simp: bumpFold_def Let_def get_or_def)
  have lt: "idx < length out" if "map_of (markers f) k = Some idx" for k idx
    using ok that by (auto elim: fold_ok_Some)
  have "fold_ok render f' out'"
    using fold_ok_append [OF ok, of "[synth_cline (render key 1) False PRI_low (Some key)]"]
    by (auto simp: fold_ok_def f' map_of_jmap_set)
  moreover have "fold_inj f'"
    using inj lt by (force simp: fold_inj_def f' map_of_jmap_set inj_on_def dom_def)
  ultimately show ?thesis by simp
next
  case (Some idx)
  from fold_ok_Some [OF ok Some] obtain n where n: "idx < length out" "map_of (fcounts f) key = Some n"
      "out ! idx = synth_cline (render key n) False PRI_low (Some key)"
    by blast
  have f': "markers f' = markers f" "fcounts f' = jmap_set key (n + 1) (fcounts f)"
    "out' = out[idx := synth_cline (render key (n + 1)) False PRI_low (Some key)]"
    using b Some n by (auto simp: bumpFold_def Let_def get_or_def synth_cline_def)
  have ne: "idx' \<noteq> idx" if "map_of (markers f) k = Some idx'" "k \<noteq> key" for k idx'
    using inj that Some by (auto simp: fold_inj_def inj_on_def dom_def)
  have "fold_ok render f' out'"
    unfolding fold_ok_def
  proof (intro conjI allI impI)
    fix k assume "map_of (markers f') k = None"
    then show "map_of (fcounts f') k = None" using fold_ok_None [OF ok] Some by (auto simp: f' map_of_jmap_set)
  next
    fix k j assume k: "map_of (markers f') k = Some j"
    then show "j < length out'" using fold_ok_Some [OF ok, of k j] by (auto simp: f')
    show "\<exists>n. map_of (fcounts f') k = Some n \<and> out' ! j = synth_cline (render k n) False PRI_low (Some k)"
    proof (cases "k = key")
      case True
      with k Some n(1) show ?thesis by (simp add: f' map_of_jmap_set)
    next
      case False
      with k ne [of k j] have "out' ! j = out ! j" by (simp add: f')
      moreover obtain m where "map_of (fcounts f) k = Some m"
          "out ! j = synth_cline (render k m) False PRI_low (Some k)"
        using fold_ok_Some [OF ok k [unfolded f']] by blast
      ultimately show ?thesis using False by (simp add: f' map_of_jmap_set)
    qed
  qed
  moreover have "fold_inj f'" using inj by (simp add: fold_inj_def f')
  ultimately show ?thesis by simp
qed

lemma bumpFold_shows:
  assumes "\<forall>l\<in>set out. shows_line src l" and "fold_ok render f out" and "bumpFold f out key (render key) = (f', out')"
  shows "\<forall>l\<in>set out'. shows_line src l"
proof (cases "map_of (markers f) key")
  case None
  with assms show ?thesis by (auto simp: bumpFold_def Let_def)
next
  case (Some idx)
  from fold_ok_Some [OF assms(2) this] obtain n
    where "out ! idx = synth_cline (render key n) False PRI_low (Some key)" by blast
  with Some have "out' = out[idx := synth_cline (render key (get_or (fcounts f) key 0 + 1)) False PRI_low (Some key)]"
    using assms(3) by (auto simp: bumpFold_def Let_def synth_cline_def)
  with assms(1) show ?thesis using set_update_subset_insert by fastforce
qed

section \<open>The ls strategy meets the contract\<close>

definition lsA_inv :: "jstring list \<Rightarrow> lsState \<Rightarrow> bool" where
  "lsA_inv src s \<longleftrightarrow> (\<forall>l\<in>set (lout s). shows_line src l) \<and> fold_ok plural_file (lfold s) (lout s) \<and> fold_inj (lfold s)"

lemma lsA_append:
  "lsA_inv src s \<Longrightarrow> shows_line src l \<Longrightarrow> lout s' = lout s @ [l] \<Longrightarrow> lfold s' = lfold s \<Longrightarrow> lsA_inv src s'"
  by (auto simp: lsA_inv_def intro: fold_ok_append)

lemma ls_step_a_inv:
  assumes inv: "lsA_inv src s" and il: "i < length src" "line = src ! i"
  shows "lsA_inv src (ls_step_a (i, line) s)"
proof -
  have sl: "shows_line src (source_cline i line a p g)" for a p g using il by (rule shows_line_source)
  obtain f out where b: "bumpFold (lfold s) (lout s) (currentDir s) (plural_file (currentDir s)) = (f, out)"
    by fastforce
  have "\<forall>l\<in>set out. shows_line src l" "fold_ok plural_file f out \<and> fold_inj f"
    using inv bumpFold_shows [where render = plural_file, OF _ _ b] bumpFold_ok [where render = plural_file, OF _ _ b]
    by (auto simp: lsA_inv_def)
  then have bumped: "lsA_inv src s'" if "lout s' = out" "lfold s' = f" for s'
    using that by (simp add: lsA_inv_def)
  show ?thesis
    using inv by (auto simp: ls_step_a_def Let_def b split: option.splits
        intro: bumped lsA_append [OF inv sl])
qed

lemma ls_shape_a_faithful: "l \<in> set (slines (ls_shape_a src)) \<Longrightarrow> shows_line src l"
proof -
  have "lsA_inv src ls_init"
    by (simp add: lsA_inv_def ls_init_def fold_ok_empty)
  then have "lsA_inv src (fold ls_step_a (numbered src) ls_init)"
    by (rule fold_invariant) (auto dest!: numbered_mem intro: ls_step_a_inv)
  then show "l \<in> set (slines (ls_shape_a src)) \<Longrightarrow> shows_line src l"
    by (simp add: ls_shape_a_def Let_def lsA_inv_def)
qed

definition lsB_inv :: "jstring list \<Rightarrow> pathState \<Rightarrow> bool" where
  "lsB_inv src s \<longleftrightarrow> (\<forall>l\<in>set (pout s). shows_line src l) \<and> fold_ok dir_marker (pfold s) (pout s) \<and> fold_inj (pfold s)"

lemma ls_step_b_inv:
  assumes inv: "lsB_inv src s" and il: "i < length src" "line = src ! i"
  shows "lsB_inv src (ls_step_b (i, line) s)"
proof -
  have sl: "shows_line src (source_cline i line a p g)" for a p g using il by (rule shows_line_source)
  let ?dir = "dirNameOf (strip_dot_slash line)"
  obtain f out where b: "bumpFold (pfold s) (pout s) ?dir (dir_marker ?dir) = (f, out)"
    by fastforce
  have "\<forall>l\<in>set out. shows_line src l" "fold_ok dir_marker f out \<and> fold_inj f"
    using inv bumpFold_shows [where render = dir_marker, OF _ _ b] bumpFold_ok [where render = dir_marker, OF _ _ b]
    by (auto simp: lsB_inv_def)
  with inv sl show ?thesis
    by (auto simp: ls_step_b_def Let_def b lsB_inv_def intro: fold_ok_append)
qed

lemma ls_shape_b_faithful: "l \<in> set (slines (ls_shape_b src pathLines)) \<Longrightarrow> shows_line src l"
proof -
  have "lsB_inv src (path_init segs n)" for segs n
    by (auto simp: lsB_inv_def path_init_def fold_ok_empty)
  then have "lsB_inv src (fold ls_step_b (numbered src) (path_init (commonDirPrefix pathLines) (length pathLines)))"
    by (rule fold_invariant) (auto dest!: numbered_mem intro: ls_step_b_inv)
  then show "l \<in> set (slines (ls_shape_b src pathLines)) \<Longrightarrow> shows_line src l"
    by (simp add: ls_shape_b_def Let_def lsB_inv_def)
qed

interpretation ls: line_strategy lsStrategy
proof unfold_locales
  fix raw toolId
  show "faithful_lines raw (slines (lsStrategy raw toolId))"
    using fallback_faithful [of raw "js ''ls''"]
    by (auto simp: lsStrategy_def Let_def faithful_lines_def intro: ls_shape_a_faithful ls_shape_b_faithful)
qed

end
