(* ===== verification/Strategy_Test.thy ===== *)
theory Strategy_Test
  imports Strategy
begin

text \<open>
  \<open>packages/rtk-core/src/strategies/test.ts\<close>: test-runner output. The first pass marks failure
  regions (a seed line, up to two continuation lines before it, everything behind it up to the
  next PASS header); the second pass emits the lines, folding runs of passed cases into one line
  per run.
\<close>

section \<open>Line shapes\<close>

definition FAIL_MARK :: re where
  "FAIL_MARK = RSet False [(0x2717, 0x2717), (0x2716, 0x2716), (0x25CF, 0x25CF)]"

definition PASS_MARK :: re where
  "PASS_MARK = RSet False [(0x2713, 0x2713), (0x2714, 0x2714)]"

definition expected_received :: re where
  "expected_received = ralt [rlit ''Expected'', rlit ''Received'']"

definition SEED_RE :: re where
  "SEED_RE = ralt
     [rseq [RBol, rmany rspace, rlit ''FAIL'', RWordB],
      rseq [RBol, rplus rdigit, rlit '')'', rspace],
      FAIL_MARK,
      rseq [RBol, rlit ''--- FAIL:''],
      RSeq (ralt [rlit ''AssertionError'', rlit ''EvalError'', rlit ''RangeError'', rlit ''ReferenceError'',
                  rlit ''SyntaxError'', rlit ''TypeError'', rlit ''URIError'']) RWordB,
      rseq [RBol, rmany rspace, rmany (RSet False (word_ranges @ [(36, 36), (46, 46)])),
            ralt [rlit ''Error'', rlit ''Exception''], rlit '':'', rspace],
      rseq [RBol, rlit ''expect('', rmany rdot, rlit '')''],
      rseq [RBol, rlit ''Expected'', ropt (rlit '':''), rlit '' ''],
      rseq [RBol, rlit ''Received'', ropt (rlit '':''), rlit '' ''],
      rseq [RBol, rmany rspace, expected_received, ropt (rlit '':''), rspace]]"

definition PASS_HEADER_RE :: re where
  "PASS_HEADER_RE = RSeq RBol (ralt [rlit ''--- PASS:'', RSeq (rlit ''PASS'') rspace])"

definition isContinuation :: "jstring \<Rightarrow> bool" where
  "isContinuation line =
     (let trimmed = js_trim line
      in if trimmed = [] then False
         else if re_test FAIL_MARK line then True
         else if starts_with trimmed [0x2713] \<or> starts_with trimmed [0x2714] \<or> re_test PASS_HEADER_RE line then False
         else if re_test (RSeq RBol (RSet False [(32, 32), (9, 9)])) line then True
         else if re_test (RSeq RBol (rset ''+-'')) line then True
         else re_test (RSeq RBol expected_received) trimmed)"

definition PASS_RE :: re where
  "PASS_RE = ralt [rseq [RBol, rmany rspace, PASS_MARK], rseq [RBol, rlit ''--- PASS:'']]"

definition SUITE_HEADER_RE :: re where
  "SUITE_HEADER_RE = rseq [RBol, ralt [rlit ''PASS'', RSeq (rlit ''FAILE'') (ropt (rlit ''D''))], rplus rspace,
     RGroup 1 (rplus rnonspace)]"

definition SUITE_FILE_RE :: re where
  "SUITE_FILE_RE = rseq [RBol,
     RGroup 1 (rseq [rplus rnonspace, rlit ''.'', ralt [rlit ''test'', rlit ''spec''], rlit ''.'',
                     ropt (rset ''cm''), rset ''jt'', rlit ''s'', ropt (rlit ''x'')]),
     rlit '':'']"

definition SUMMARY_RE :: re where
  "SUMMARY_RE = RSeq RBol (ralt
     [rseq [rlit ''Test'', ropt (rlit ''s''), rlit '':''],
      rseq [rlit ''Test Suite'', ropt (rlit ''s''), rlit '':''],
      rseq [rlit ''Snapshot'', ropt (rlit ''s''), rlit '':''],
      rlit ''Time:'', rlit ''Ran all test suites.''])"

section \<open>First pass\<close>

record markState =
  inBlock :: "bool list"
  blockCount :: nat
  active :: bool

text \<open>The lines \<open>max(0, i - 2)\<close> to \<open>i - 1\<close> that continue a block are marked.\<close>

definition mark_back :: "jstring list \<Rightarrow> nat \<Rightarrow> bool list \<Rightarrow> bool list" where
  "mark_back lines i marks =
     fold (\<lambda>back ms. if isContinuation (lines ! back) then ms[back := True] else ms) [i - 2 ..< i] marks"

definition mark_step :: "jstring list \<Rightarrow> nat \<Rightarrow> markState \<Rightarrow> markState" where
  "mark_step lines i s =
     (let line = lines ! i;
          seed = re_test SEED_RE line;
          s1 = (if seed
                then s\<lparr>blockCount := (if active s then blockCount s else blockCount s + 1), active := True,
                       inBlock := mark_back lines i (inBlock s)\<rparr>
                else s);
          s2 = (if active s1 \<and> re_test PASS_HEADER_RE line then s1\<lparr>active := False\<rparr> else s1)
      in if active s2 then s2\<lparr>inBlock := (inBlock s2)[i := True]\<rparr> else s2)"

definition mark_init :: "jstring list \<Rightarrow> markState" where
  "mark_init lines = \<lparr>inBlock = replicate (length lines) False, blockCount = 0, active = False\<rparr>"

definition mark_upto :: "jstring list \<Rightarrow> nat \<Rightarrow> markState" where
  "mark_upto lines n = fold (mark_step lines) [0 ..< n] (mark_init lines)"

definition mark_blocks :: "jstring list \<Rightarrow> markState" where
  "mark_blocks lines = mark_upto lines (length lines)"

section \<open>Second pass\<close>

record testState =
  tout :: "cline list"
  suite :: jstring
  failLinesKept :: nat
  passRunsFolded :: nat
  passCasesFolded :: nat
  pendingPass :: nat

text \<open>\<open>foldRun(pendingPass); pendingPass = 0\<close>\<close>

definition foldRun :: "testState \<Rightarrow> testState" where
  "foldRun s =
     (let count = pendingPass s
      in if count = 0 then s
         else s\<lparr>passRunsFolded := passRunsFolded s + 1, passCasesFolded := passCasesFolded s + count,
                tout := tout s @ [synth_cline ([0x2713] @ js '' '' @ dec count @ js '' passed (elided)'')
                                    False PRI_low (Some (suite s))],
                pendingPass := 0\<rparr>)"

definition push :: "cline \<Rightarrow> testState \<Rightarrow> testState" where
  "push l s = s\<lparr>tout := tout s @ [l]\<rparr>"

definition suite_of :: "re \<Rightarrow> jstring \<Rightarrow> jstring \<Rightarrow> jstring option" where
  "suite_of r line dflt =
     (case re_exec r line of
        None \<Rightarrow> None
      | Some (a, st) \<Rightarrow> Some (case group line st 1 of None \<Rightarrow> dflt | Some g \<Rightarrow> g))"

definition test_step :: "bool list \<Rightarrow> nat \<times> jstring \<Rightarrow> testState \<Rightarrow> testState" where
  "test_step marks il s =
     (case il of (i, line) \<Rightarrow>
        if marks ! i
        then (let s1 = foldRun s
              in (push (source_cline i line True PRI_critical (Some (suite s1))) s1)
                   \<lparr>failLinesKept := failLinesKept s + 1\<rparr>)
        else case suite_of SUITE_HEADER_RE line (suite s) of
          Some hdr \<Rightarrow>
            push (source_cline i line True PRI_high (Some hdr)) ((foldRun s)\<lparr>suite := hdr\<rparr>)
        | None \<Rightarrow>
            (let s1 = (case suite_of SUITE_FILE_RE line (suite s) of
                         Some fl \<Rightarrow> (foldRun s)\<lparr>suite := fl\<rparr>
                       | None \<Rightarrow> s)
             in if re_test SUMMARY_RE line
                then push (source_cline i line True PRI_critical (Some (js ''summary''))) (foldRun s1)
                else if re_test PASS_RE line then s1\<lparr>pendingPass := pendingPass s1 + 1\<rparr>
                else if js_trim line = []
                then push (source_cline i [] False PRI_low (Some (js ''other''))) (foldRun s1)
                else push (source_cline i line True PRI_normal (Some (js ''other''))) (foldRun s1)))"

definition test_init :: testState where
  "test_init = \<lparr>tout = [], suite = js ''tests'', failLinesKept = 0, passRunsFolded = 0, passCasesFolded = 0,
     pendingPass = 0\<rparr>"

definition testStrategy :: strategy where
  "testStrategy raw toolId =
     (let lines = splitLines raw;
          m = mark_blocks lines;
          s = foldRun (fold (test_step (inBlock m)) (numbered lines) test_init)
      in \<lparr>slines = tout s, sstrategy = Test,
          snotes = [js ''test: kept '' @ dec (failLinesKept s) @ js '' failure line(s) across '' @ dec (blockCount m)
            @ js '' block(s); folded '' @ dec (passCasesFolded s) @ js '' passed case(s) into ''
            @ dec (passRunsFolded s) @ js '' run marker(s)'']\<rparr>)"

lemmas test_defs [run_simps] = FAIL_MARK_def PASS_MARK_def expected_received_def SEED_RE_def PASS_HEADER_RE_def
  isContinuation_def PASS_RE_def SUITE_HEADER_RE_def SUITE_FILE_RE_def SUMMARY_RE_def

section \<open>Failure regions\<close>

lemma set_True_keeps: "j < length ms \<Longrightarrow> ms ! j \<Longrightarrow> ms[x := True] ! j"
  by (cases "x = j") simp_all

lemma mark_back_keeps: "j < length marks \<Longrightarrow> marks ! j \<Longrightarrow> mark_back lines i marks ! j"
  unfolding mark_back_def
  by (rule fold_invariant [where P = "\<lambda>ms. j < length ms \<and> ms ! j", THEN conjunct2])
    (auto intro: set_True_keeps)

lemma mark_back_length [simp]: "length (mark_back lines i marks) = length marks"
  unfolding mark_back_def by (rule fold_invariant [where P = "\<lambda>ms. length ms = length marks"]) auto

lemma mark_step_length [simp]: "length (inBlock (mark_step lines i s)) = length (inBlock s)"
  by (simp add: mark_step_def Let_def)

lemma mark_step_keeps:
  "j < length (inBlock s) \<Longrightarrow> inBlock s ! j \<Longrightarrow> inBlock (mark_step lines i s) ! j"
  by (auto simp: mark_step_def Let_def intro: mark_back_keeps set_True_keeps)

lemma mark_step_active:
  assumes "\<not> re_test PASS_HEADER_RE (lines ! i)"
  shows "active (mark_step lines i s) \<longleftrightarrow> active s \<or> re_test SEED_RE (lines ! i)"
  using assms by (simp add: mark_step_def Let_def)

lemma mark_step_marks:
  "active (mark_step lines i s) \<Longrightarrow> i < length (inBlock s) \<Longrightarrow> inBlock (mark_step lines i s) ! i"
  by (auto simp: mark_step_def Let_def split: if_splits)

lemma mark_upto_Suc: "mark_upto lines (Suc n) = mark_step lines n (mark_upto lines n)"
  by (simp add: mark_upto_def)

lemma mark_upto_length [simp]: "length (inBlock (mark_upto lines n)) = length lines"
  by (induction n) (simp_all add: mark_upto_Suc, simp add: mark_upto_def mark_init_def)

lemma mark_upto_keeps:
  "m \<le> n \<Longrightarrow> j < length lines \<Longrightarrow> inBlock (mark_upto lines m) ! j \<Longrightarrow> inBlock (mark_upto lines n) ! j"
  by (induction n rule: dec_induct) (simp_all add: mark_upto_Suc mark_step_keeps)

lemma mark_upto_active:
  assumes "i \<le> j" and "re_test SEED_RE (lines ! i)"
    and "\<And>k. i \<le> k \<Longrightarrow> k \<le> j \<Longrightarrow> \<not> re_test PASS_HEADER_RE (lines ! k)"
  shows "active (mark_upto lines (Suc j))"
  using assms
proof (induction j rule: dec_induct)
  case base
  then show ?case by (simp add: mark_upto_Suc mark_step_active)
next
  case (step n)
  then show ?case by (simp add: mark_upto_Suc [of lines "Suc n"] mark_step_active)
qed

text \<open>From a seed on, every line up to the next PASS header is protected.\<close>

lemma failure_region:
  assumes "i \<le> j" and "j < length lines" and "re_test SEED_RE (lines ! i)"
    and "\<And>k. i \<le> k \<Longrightarrow> k \<le> j \<Longrightarrow> \<not> re_test PASS_HEADER_RE (lines ! k)"
  shows "inBlock (mark_blocks lines) ! j"
proof -
  have "active (mark_step lines j (mark_upto lines j))"
    using mark_upto_active [OF assms(1,3,4)] by (simp add: mark_upto_Suc)
  then have "inBlock (mark_upto lines (Suc j)) ! j"
    using assms(2) by (simp add: mark_upto_Suc mark_step_marks)
  with mark_upto_keeps [of "Suc j" "length lines" j lines] assms(2) show ?thesis
    by (simp add: mark_blocks_def)
qed

section \<open>The second pass\<close>

text \<open>A state \<open>s'\<close> that only adds lines to the output of \<open>s\<close>, each one synthetic or showing line \<open>i\<close>.\<close>

definition of_line :: "nat \<Rightarrow> jstring \<Rightarrow> cline \<Rightarrow> bool" where
  "of_line i line l \<longleftrightarrow> sourceLine l = None
     \<or> sourceLine l = Some (Suc i) \<and> (ctext l = line \<or> ctext l = [] \<and> js_trim line = [])"

definition adds :: "nat \<Rightarrow> jstring \<Rightarrow> testState \<Rightarrow> testState \<Rightarrow> bool" where
  "adds i line s s' \<longleftrightarrow> (\<exists>ls. tout s' = tout s @ ls \<and> list_all (of_line i line) ls)"

lemma adds_refl [simp]: "adds i line s s"
  by (simp add: adds_def)

lemma adds_append:
  assumes "adds i line s s1" and "tout s2 = tout s1 @ ls" and "list_all (of_line i line) ls"
  shows "adds i line s s2"
proof -
  obtain ls0 where "tout s1 = tout s @ ls0" "list_all (of_line i line) ls0"
    using assms(1) by (auto simp: adds_def)
  with assms(2,3) show ?thesis
    unfolding adds_def by (intro exI [of _ "ls0 @ ls"]) simp
qed

lemma adds_foldRun [simp]: "adds i line s s1 \<Longrightarrow> adds i line s (foldRun s1)"
proof (cases "pendingPass s1 = 0")
  case False
  then show "adds i line s s1 \<Longrightarrow> adds i line s (foldRun s1)"
    by (elim adds_append) (auto simp: foldRun_def Let_def of_line_def)
qed (simp add: foldRun_def)

lemma adds_push [simp]:
  "adds i line s s1 \<Longrightarrow> adds i line s (push (source_cline i line a p g) s1)"
  "adds i line s s1 \<Longrightarrow> js_trim line = [] \<Longrightarrow> adds i line s (push (source_cline i [] a p g) s1)"
  by (auto elim!: adds_append simp: push_def of_line_def)

lemma adds_update [simp]:
  "adds i line s s1 \<Longrightarrow> adds i line s (s1\<lparr>suite := x\<rparr>)"
  "adds i line s s1 \<Longrightarrow> adds i line s (s1\<lparr>pendingPass := n\<rparr>)"
  "adds i line s s1 \<Longrightarrow> adds i line s (s1\<lparr>failLinesKept := n\<rparr>)"
  by (simp_all add: adds_def)

lemma test_step_adds: "adds i line s (test_step marks (i, line) s)"
  by (cases "marks ! i"; cases "suite_of SUITE_HEADER_RE line (suite s)"; cases "suite_of SUITE_FILE_RE line (suite s)")
    (simp_all add: test_step_def Let_def)

lemma test_step_keeps: "set (tout s) \<subseteq> set (tout (test_step marks il s))"
  using test_step_adds [of "fst il" "snd il" s marks] by (auto simp: adds_def)

lemma fold_test_keeps: "l \<in> set (tout s) \<Longrightarrow> l \<in> set (tout (fold (test_step marks) ils s))"
  by (rule fold_invariant [where P = "\<lambda>s. l \<in> set (tout s)"]) (use test_step_keeps in blast)+

lemma marked_line_emitted:
  assumes "(i, line) \<in> set ils" and "marks ! i"
  shows "\<exists>l\<in>set (tout (fold (test_step marks) ils s)). anchor l \<and> sourceLine l = Some (Suc i) \<and> ctext l = line"
  using assms(1)
proof (induction ils arbitrary: s)
  case (Cons il ils)
  show ?case
  proof (cases "il = (i, line)")
    case True
    let ?l = "source_cline i line True PRI_critical (Some (suite (foldRun s)))"
    have "?l \<in> set (tout (test_step marks il s))"
      using True assms(2) by (simp add: test_step_def push_def Let_def)
    then have "?l \<in> set (tout (fold (test_step marks) (il # ils) s))"
      by (simp add: fold_test_keeps)
    then show ?thesis by force
  next
    case False
    with Cons show ?thesis by simp
  qed
qed simp

lemma test_step_faithful:
  assumes "\<forall>l\<in>set (tout s). shows_line src l" and "i < length src" and "line = src ! i"
  shows "\<forall>l\<in>set (tout (test_step marks (i, line) s)). shows_line src l"
proof -
  have "shows_line src l" if "of_line i line l" for l
    using that assms(2,3) by (auto simp: of_line_def shows_line_def)
  with test_step_adds [of i line s marks] assms(1) show ?thesis
    by (auto simp: adds_def list_all_iff)
qed

interpretation test: line_strategy testStrategy
proof unfold_locales
  fix raw toolId
  let ?src = "splitLines raw"
  have "\<forall>l\<in>set (tout (fold (test_step marks) (numbered ?src) test_init)). shows_line ?src l" for marks
    by (rule fold_invariant) (auto simp: test_init_def dest!: numbered_mem dest: test_step_faithful)
  then show "faithful_lines raw (slines (testStrategy raw toolId))"
    by (auto simp: testStrategy_def Let_def faithful_lines_def foldRun_def)
qed

lemma failure_line_anchored:
  assumes "i \<le> j" and "j < length (splitLines raw)" and "re_test SEED_RE (splitLines raw ! i)"
    and "\<And>k. i \<le> k \<Longrightarrow> k \<le> j \<Longrightarrow> \<not> re_test PASS_HEADER_RE (splitLines raw ! k)"
  shows "\<exists>l\<in>set (slines (testStrategy raw toolId)).
      anchor l \<and> sourceLine l = Some (Suc j) \<and> ctext l = splitLines raw ! j"
proof -
  let ?src = "splitLines raw"
  obtain l where l: "l \<in> set (tout (fold (test_step (inBlock (mark_blocks ?src))) (numbered ?src) test_init))"
      "anchor l" "sourceLine l = Some (Suc j)" "ctext l = ?src ! j"
    using marked_line_emitted [OF numbered_nth [OF assms(2)] failure_region [OF assms]] by blast
  have "l \<in> set (slines (testStrategy raw toolId))"
    using l(1) by (auto simp: testStrategy_def Let_def foldRun_def)
  with l show ?thesis by blast
qed

end
