(* ===== verification/Sanitize.thy ===== *)
theory Sanitize
  imports JS_Regex
begin

text \<open>
  \<open>packages/shared/src/ansi.ts\<close>, \<open>redact.ts\<close> and the estimate of \<open>tokens.ts\<close>: terminal-noise
  removal before hashing, the redaction hook and the length-based token estimate. The
  environment (\<open>homedir()\<close>, \<open>XDG_RUNTIME_DIR\<close>, \<open>tmpdir()\<close>) is an argument.
\<close>

section \<open>ansi.ts\<close>

definition ESC :: re where "ESC = rchr 0x1B"

definition ANSI_PATTERN :: re where
  "ANSI_PATTERN = ralt
     [rseq [ESC, rlit ''['', rmany (RSet False [(0x30, 0x3F)]), rmany (RSet False [(0x20, 0x2F)]),
            RSet False [(0x40, 0x7E)]],
      rseq [ESC, rlit '']'', rmany (RSet True [(7, 7), (0x1B, 0x1B)]),
            ralt [rchr 7, rseq [ESC, rchr 0x5C]]],
      rseq [ESC, RSet False [(0x20, 0x2F)], RSet False [(0x30, 0x7E)]],
      rseq [ESC, RSet False [(0x30, 0x7E)]]]"

definition stripAnsi :: "jstring \<Rightarrow> jstring" where
  "stripAnsi text = re_remove ANSI_PATTERN text"

text \<open>The loop over the CR-separated segments, last segment first.\<close>

fun last_nonempty :: "jstring list \<Rightarrow> jstring" where
  "last_nonempty [] = []"
| "last_nonempty (seg # segs) = (if seg \<noteq> [] then seg else last_nonempty segs)"

definition collapseCarriageReturns :: "jstring \<Rightarrow> jstring" where
  "collapseCarriageReturns text =
     join_with [LF] (map (\<lambda>line. last_nonempty (rev (split_on CR line))) (split_on LF text))"

definition is_high :: "code_unit \<Rightarrow> bool" where "is_high c \<longleftrightarrow> 0xD800 \<le> c \<and> c \<le> 0xDBFF"
definition is_low :: "code_unit \<Rightarrow> bool" where "is_low c \<longleftrightarrow> 0xDC00 \<le> c \<and> c \<le> 0xDFFF"

text \<open>The string iterator: one element per code point, a surrogate pair taken together.\<close>

fun code_points :: "jstring \<Rightarrow> jstring list" where
  "code_points [] = []"
| "code_points [c] = [[c]]"
| "code_points (c # d # s) =
     (if is_high c \<and> is_low d then [c, d] # code_points s else [c] # code_points (d # s))"

text \<open>\<open>out\<close> holds the pushed elements, the last one first.\<close>

fun erase :: "jstring list \<Rightarrow> jstring list \<Rightarrow> jstring list" where
  "erase out [] = rev out"
| "erase out (ch # chs) = (if ch = [BS] then erase (tl out) chs else erase (ch # out) chs)"

definition collapseBackspaces :: "jstring \<Rightarrow> jstring" where
  "collapseBackspaces text = concat (erase [] (code_points text))"

definition sanitize :: "jstring \<Rightarrow> jstring" where
  "sanitize text = collapseBackspaces (collapseCarriageReturns (stripAnsi text))"

section \<open>redact.ts\<close>

type_synonym redactor = "jstring \<Rightarrow> jstring"

definition noopRedactor :: redactor where
  "noopRedactor text = text"

definition composeRedactors :: "redactor list \<Rightarrow> redactor" where
  "composeRedactors fns text = fold (\<lambda>fn current. fn current) fns text"

definition redact_prefix :: "jstring \<times> jstring \<Rightarrow> jstring \<Rightarrow> jstring" where
  "redact_prefix pm out =
     (case pm of (p, marker) \<Rightarrow>
        if p = [] \<or> p = [SLASH] then out
        else join_with marker (split_str p
               (join_with (marker @ [SLASH]) (split_str (p @ [SLASH]) out))))"

definition redactLocalPaths :: "jstring \<Rightarrow> jstring option \<Rightarrow> jstring \<Rightarrow> jstring \<Rightarrow> jstring" where
  "redactLocalPaths homedir xdg_runtime_dir tmpdir text =
     fold redact_prefix
       [(homedir, js ''~''), (case xdg_runtime_dir of None \<Rightarrow> [] | Some d \<Rightarrow> d, js ''<tmp>''),
        (tmpdir, js ''<tmp>'')] text"

section \<open>tokens.ts\<close>

definition estimateTokens :: "jstring \<Rightarrow> nat" where
  "estimateTokens text = ceil_div4 (length text)"

lemmas sanitize_defs [run_simps] = ESC_def ANSI_PATTERN_def stripAnsi_def collapseCarriageReturns_def
  is_high_def is_low_def collapseBackspaces_def sanitize_def

section \<open>What sanitization leaves behind\<close>

lemma concat_code_points [simp]: "concat (code_points s) = s"
  by (induction s rule: code_points.induct) auto

lemma code_points_shape:
  "cp \<in> set (code_points s) \<Longrightarrow> (\<exists>c. cp = [c]) \<or> (\<exists>c d. cp = [c, d] \<and> is_high c \<and> is_low d)"
  by (induction s rule: code_points.induct) (auto split: if_splits)

lemma code_points_BS: "cp \<in> set (code_points s) \<Longrightarrow> cp \<noteq> [BS] \<Longrightarrow> BS \<notin> set cp"
  by (drule code_points_shape) (auto simp: is_high_def is_low_def)

lemma erase_set: "set (erase out chs) \<subseteq> set out \<union> {ch \<in> set chs. ch \<noteq> [BS]}"
proof (induction out chs rule: erase.induct)
  case (2 out ch chs)
  have "set (tl out) \<subseteq> set out" by (cases out) auto
  with 2 show ?case by (auto split: if_splits)
qed auto

lemma erase_subseq: "subseq (erase out chs) (rev out @ chs)"
proof (induction out chs rule: erase.induct)
  case (2 out ch chs)
  have "subseq (rev (tl out) @ chs) (rev out @ ch # chs)"
    by (cases out) (auto intro: list_emb_append_mono)
  with 2 show ?case by (auto intro: subseq_order.order_trans)
qed simp

lemma subseq_concat: "subseq xs ys \<Longrightarrow> subseq (concat xs) (concat ys)"
  by (induction rule: list_emb.induct) (auto intro: list_emb_append_mono subseq_order.order_trans)

lemma subseq_set: "subseq xs ys \<Longrightarrow> set xs \<subseteq> set ys"
  by (induction rule: list_emb.induct) auto

lemma collapseBackspaces_subseq: "subseq (collapseBackspaces s) s"
  using subseq_concat [OF erase_subseq [of "[]" "code_points s"]]
  by (simp add: collapseBackspaces_def)

lemma collapseBackspaces_no_BS: "BS \<notin> set (collapseBackspaces s)"
  using erase_set [of "[]" "code_points s"] code_points_BS
  by (fastforce simp: collapseBackspaces_def)

lemma erase_no_BS: "[BS] \<notin> set chs \<Longrightarrow> erase out chs = rev out @ chs"
  by (induction out chs rule: erase.induct) auto

lemma collapseBackspaces_id: "BS \<notin> set s \<Longrightarrow> collapseBackspaces s = s"
proof -
  assume "BS \<notin> set s"
  moreover have "\<Union> (set ` set (code_points s)) = set s"
    by (metis concat_code_points set_concat)
  ultimately have "[BS] \<notin> set (code_points s)" by force
  then show ?thesis by (simp add: collapseBackspaces_def erase_no_BS)
qed

lemma last_nonempty_in: "last_nonempty segs = [] \<or> last_nonempty segs \<in> set segs"
  by (induction segs) auto

lemma last_nonempty_free:
  assumes "LF \<notin> set line"
  shows "CR \<notin> set (last_nonempty (rev (split_on CR line)))"
    and "LF \<notin> set (last_nonempty (rev (split_on CR line)))"
proof -
  have "last_nonempty (rev (split_on CR line)) = []
      \<or> last_nonempty (rev (split_on CR line)) \<in> set (split_on CR line)"
    using last_nonempty_in [of "rev (split_on CR line)"] by simp
  then show "CR \<notin> set (last_nonempty (rev (split_on CR line)))"
    and "LF \<notin> set (last_nonempty (rev (split_on CR line)))"
    using assms by (auto dest: split_on_free set_split_on)
qed

lemma collapseCarriageReturns_no_CR: "CR \<notin> set (collapseCarriageReturns s)"
proof -
  let ?f = "\<lambda>line. last_nonempty (rev (split_on CR line))"
  have "CR \<notin> set (?f line)" if "line \<in> set (split_on LF s)" for line
    using last_nonempty_free(1) [OF split_on_free [OF that]] .
  then show ?thesis
    using set_join_with [of "[LF]" "map ?f (split_on LF s)"]
    by (auto simp: collapseCarriageReturns_def)
qed

text \<open>The line structure survives: each output line is the surviving segment of its input line.\<close>

lemma collapseCarriageReturns_lines:
  "split_on LF (collapseCarriageReturns s)
   = map (\<lambda>line. last_nonempty (rev (split_on CR line))) (split_on LF s)"
  unfolding collapseCarriageReturns_def
  by (rule split_join) (auto dest: split_on_free last_nonempty_free(2))

lemma sanitize_clean_lemma: "CR \<notin> set (sanitize s)" "BS \<notin> set (sanitize s)"
proof -
  show "BS \<notin> set (sanitize s)" by (simp add: sanitize_def collapseBackspaces_no_BS)
  show "CR \<notin> set (sanitize s)"
    using collapseCarriageReturns_no_CR [of "stripAnsi s"]
      subseq_set [OF collapseBackspaces_subseq [of "collapseCarriageReturns (stripAnsi s)"]]
    by (auto simp: sanitize_def)
qed

lemma subseq_join_member: "x \<in> set xs \<Longrightarrow> subseq x (join_with sep xs)"
proof (induction sep xs rule: join_with.induct)
  case (3 sep y z zs)
  then show ?case
    by (metis list_emb_append2 prefixI prefix_imp_subseq set_ConsD append_assoc join_with.simps(3))
qed auto

lemma subseq_join: "list_all2 subseq xs ys \<Longrightarrow> subseq (join_with sep xs) (join_with sep ys)"
proof (induction xs ys rule: list_all2_induct)
  case (Cons x xs y ys)
  then show ?case
    by (cases xs; cases ys) (auto intro: list_emb_append_mono)
qed simp

lemma collapseCarriageReturns_subseq: "subseq (collapseCarriageReturns s) s"
proof -
  let ?f = "\<lambda>line. last_nonempty (rev (split_on CR line))"
  have "subseq (?f line) line" for line
    using last_nonempty_in [of "rev (split_on CR line)"] subseq_join_member [of "?f line" "split_on CR line" "[CR]"]
    by auto
  then have "list_all2 subseq (map ?f (split_on LF s)) (split_on LF s)"
    by (simp add: list_all2_map1 list_all2_same)
  from subseq_join [OF this, of "[LF]"] show ?thesis by (simp add: collapseCarriageReturns_def)
qed

lemma sanitize_subseq: "subseq (sanitize s) s"
  using collapseBackspaces_subseq collapseCarriageReturns_subseq re_remove_subseq
  unfolding sanitize_def stripAnsi_def by (meson subseq_order.order_trans)

text \<open>A pattern whose alternatives all start with a code unit that does not occur never matches.\<close>

lemma rmatch_chr_absent: "c \<notin> set s \<Longrightarrow> rmatch (rchr c) s st = []"
  by (auto simp: rchr_def in_class_def)

lemma ANSI_absent: "0x1B \<notin> set s \<Longrightarrow> rmatch ANSI_PATTERN s st = []"
  by (simp add: ANSI_PATTERN_def ESC_def rmatch_chr_absent)

lemma re_search_none: "(\<And>i. rmatch r s (i, []) = []) \<Longrightarrow> re_search r s i k = None"
  by (induction k arbitrary: i) simp_all

lemma stripAnsi_id: "0x1B \<notin> set s \<Longrightarrow> stripAnsi s = s"
  by (simp add: stripAnsi_def re_remove_def re_exec_from_def re_search_none ANSI_absent)

lemma collapseCarriageReturns_id: "CR \<notin> set s \<Longrightarrow> collapseCarriageReturns s = s"
proof -
  assume cr: "CR \<notin> set s"
  have "last_nonempty (rev (split_on CR line)) = line" if "line \<in> set (split_on LF s)" for line
    using set_split_on [OF that] cr by (subst split_on_self) auto
  then have "map (\<lambda>line. last_nonempty (rev (split_on CR line))) (split_on LF s) = split_on LF s"
    by (simp add: map_idI)
  then show ?thesis by (simp add: collapseCarriageReturns_def)
qed

section \<open>Properties\<close>

text \<open>Sanitization only deletes: its result is a subsequence of the tool output, and neither a
  carriage return nor a backspace is left in the text that is hashed and stored.\<close>

theorem sanitize_only_deletes:
  "subseq (sanitize s) s \<and> CR \<notin> set (sanitize s) \<and> BS \<notin> set (sanitize s)"
  using sanitize_subseq sanitize_clean_lemma by blast

text \<open>Text without escape, carriage-return and backspace characters passes sanitization
  unchanged, so the stored original is byte-identical to the tool output.\<close>

theorem sanitize_plain_id:
  assumes "0x1B \<notin> set s" and "CR \<notin> set s" and "BS \<notin> set s"
  shows "sanitize s = s"
  using assms by (simp add: sanitize_def stripAnsi_id collapseCarriageReturns_id collapseBackspaces_id)

theorem sanitize_plain_id_witness: "sanitize (js ''ok'' @ [LF] @ js ''done'') = js ''ok'' @ [LF] @ js ''done''"
  by (rule sanitize_plain_id) (simp_all add: js_def)

end
