(* ===== verification/Utf8.thy ===== *)
theory Utf8
  imports Sanitize
begin

text \<open>
  The UTF-8 conversions of the runtime that the sources use: \<open>TextEncoder.encode\<close> and
  \<open>Buffer.from(s)\<close> (\<open>utf8_encode\<close>, a lone surrogate becomes U+FFFD), \<open>Buffer.byteLength\<close>
  (\<open>byteLength\<close>) and the non-fatal \<open>TextDecoder.decode\<close> (\<open>utf8_decode\<close>, one U+FFFD for each
  maximal ill-formed part). A byte is a natural number below 256.
\<close>

type_synonym byte = nat

definition pair_value :: "code_unit \<Rightarrow> code_unit \<Rightarrow> nat" where
  "pair_value hi lo = (hi - 0xD800) * 0x400 + (lo - 0xDC00) + 0x10000"

definition enc_cp :: "nat \<Rightarrow> byte list" where
  "enc_cp cp =
     (if cp \<le> 0x7F then [cp]
      else if cp \<le> 0x7FF then [0xC0 + cp div 64, 0x80 + cp mod 64]
      else if cp \<le> 0xFFFF then [0xE0 + cp div 4096, 0x80 + cp div 64 mod 64, 0x80 + cp mod 64]
      else [0xF0 + cp div 262144, 0x80 + cp div 4096 mod 64, 0x80 + cp div 64 mod 64, 0x80 + cp mod 64])"

definition is_surrogate :: "code_unit \<Rightarrow> bool" where
  "is_surrogate c \<longleftrightarrow> is_high c \<or> is_low c"

fun utf8_encode :: "jstring \<Rightarrow> byte list" where
  "utf8_encode [] = []"
| "utf8_encode [c] = enc_cp (if is_surrogate c then 0xFFFD else c)"
| "utf8_encode (c # d # s) =
     (if is_high c \<and> is_low d then enc_cp (pair_value c d) @ utf8_encode s
      else enc_cp (if is_surrogate c then 0xFFFD else c) @ utf8_encode (d # s))"

definition byteLength :: "jstring \<Rightarrow> nat" where
  "byteLength s = length (utf8_encode s)"

text \<open>A code point as UTF-16 code units.\<close>

definition utf16_cp :: "nat \<Rightarrow> jstring" where
  "utf16_cp cp = (if cp \<le> 0xFFFF then [cp]
                  else [0xD800 + (cp - 0x10000) div 0x400, 0xDC00 + (cp - 0x10000) mod 0x400])"

text \<open>
  The decoder of the Encoding standard. \<open>need\<close> counts the continuation bytes still expected,
  \<open>lo\<close> and \<open>hi\<close> bound the next one, \<open>cp\<close> is the value so far. A byte outside the bounds ends the
  ill-formed part and is looked at again as a lead byte.
\<close>

fun utf8_dec :: "nat \<Rightarrow> nat \<Rightarrow> nat \<Rightarrow> nat \<Rightarrow> byte list \<Rightarrow> jstring" where
  "utf8_dec need lo hi cp [] = (if need = 0 then [] else [0xFFFD])"
| "utf8_dec 0 lo hi cp (b # bs) =
     (if b \<le> 0x7F then b # utf8_dec 0 0x80 0xBF 0 bs
      else if 0xC2 \<le> b \<and> b \<le> 0xDF then utf8_dec 1 0x80 0xBF (b - 0xC0) bs
      else if b = 0xE0 then utf8_dec 2 0xA0 0xBF 0 bs
      else if b = 0xED then utf8_dec 2 0x80 0x9F 0xD bs
      else if 0xE1 \<le> b \<and> b \<le> 0xEF then utf8_dec 2 0x80 0xBF (b - 0xE0) bs
      else if b = 0xF0 then utf8_dec 3 0x90 0xBF 0 bs
      else if b = 0xF4 then utf8_dec 3 0x80 0x8F 4 bs
      else if 0xF1 \<le> b \<and> b \<le> 0xF3 then utf8_dec 3 0x80 0xBF (b - 0xF0) bs
      else 0xFFFD # utf8_dec 0 0x80 0xBF 0 bs)"
| "utf8_dec (Suc need) lo hi cp (b # bs) =
     (if lo \<le> b \<and> b \<le> hi
      then (let cp' = cp * 64 + (b - 0x80)
            in if need = 0 then utf16_cp cp' @ utf8_dec 0 0x80 0xBF 0 bs
               else utf8_dec need 0x80 0xBF cp' bs)
      else 0xFFFD # utf8_dec 0 0x80 0xBF 0 (b # bs))"

text \<open>
  \<open>TextDecoder\<close> drops a leading byte order mark; \<open>Buffer.toString("utf8")\<close> keeps it
  (\<open>buffer_utf8\<close>).
\<close>

definition buffer_utf8 :: "byte list \<Rightarrow> jstring" where
  "buffer_utf8 bs = utf8_dec 0 0x80 0xBF 0 bs"

definition utf8_decode :: "byte list \<Rightarrow> jstring" where
  "utf8_decode bs = buffer_utf8 (if take 3 bs = [0xEF, 0xBB, 0xBF] then drop 3 bs else bs)"

text \<open>A string without lone surrogates (\<open>isWellFormed\<close>).\<close>

fun well_formed :: "jstring \<Rightarrow> bool" where
  "well_formed [] = True"
| "well_formed [c] = (\<not> is_surrogate c \<and> c < 65536)"
| "well_formed (c # d # s) =
     (if is_high c \<and> is_low d then well_formed s
      else \<not> is_surrogate c \<and> c < 65536 \<and> well_formed (d # s))"

section \<open>Decoding what was encoded\<close>

lemma utf8_dec_cont:
  "utf8_dec (Suc 0) lo hi cp (b # bs) =
     (if lo \<le> b \<and> b \<le> hi then utf16_cp (cp * 64 + (b - 0x80)) @ utf8_dec 0 0x80 0xBF 0 bs
      else 0xFFFD # utf8_dec 0 0x80 0xBF 0 (b # bs))"
  "utf8_dec 2 lo hi cp (b # bs) =
     (if lo \<le> b \<and> b \<le> hi then utf8_dec (Suc 0) 0x80 0xBF (cp * 64 + (b - 0x80)) bs
      else 0xFFFD # utf8_dec 0 0x80 0xBF 0 (b # bs))"
  "utf8_dec 3 lo hi cp (b # bs) =
     (if lo \<le> b \<and> b \<le> hi then utf8_dec 2 0x80 0xBF (cp * 64 + (b - 0x80)) bs
      else 0xFFFD # utf8_dec 0 0x80 0xBF 0 (b # bs))"
  by (simp_all only: numeral_3_eq_3 numeral_2_eq_2 utf8_dec.simps(3) Let_def nat.distinct if_True if_False refl)

lemma split64: "cp div 4096 * 64 + cp div 64 mod 64 = cp div (64::nat)"
  using div_mult2_eq [of cp 64 64] by simp

lemma split4096: "cp div 262144 * 64 + cp div 4096 mod 64 = cp div (4096::nat)"
  using div_mult2_eq [of cp 4096 64] by simp

lemma utf8_dec3:
  fixes a b c :: nat
  assumes "a < 16" "b < 64" "c < 64" "0 < a \<or> 32 \<le> b" "a = 13 \<Longrightarrow> b < 32"
  shows "utf8_dec 0 lo hi x ((0xE0 + a) # (0x80 + b) # (0x80 + c) # bs)
       = utf16_cp ((a * 64 + b) * 64 + c) @ utf8_dec 0 0x80 0xBF 0 bs"
  using assms by (cases "a = 0"; cases "a = 13") (simp_all add: utf8_dec_cont)

lemma utf8_dec4:
  fixes a b c d :: nat
  assumes "a \<le> 4" "b < 64" "c < 64" "d < 64" "0 < a \<or> 16 \<le> b" "a = 4 \<Longrightarrow> b < 16"
  shows "utf8_dec 0 lo hi x ((0xF0 + a) # (0x80 + b) # (0x80 + c) # (0x80 + d) # bs)
       = utf16_cp (((a * 64 + b) * 64 + c) * 64 + d) @ utf8_dec 0 0x80 0xBF 0 bs"
  using assms by (cases "a = 0"; cases "a = 4") (simp_all add: utf8_dec_cont)

lemma utf8_dec_enc_cp:
  assumes "cp < 0x110000" and "\<not> (0xD800 \<le> cp \<and> cp \<le> 0xDFFF)"
  shows "utf8_dec 0 lo hi c (enc_cp cp @ bs) = utf16_cp cp @ utf8_dec 0 0x80 0xBF 0 bs"
proof -
  consider "cp \<le> 0x7F" | "0x7F < cp" "cp \<le> 0x7FF" | "0x7FF < cp" "cp \<le> 0xFFFF" | "0xFFFF < cp" by linarith
  then show ?thesis
  proof cases
    case 1
    then show ?thesis by (simp add: enc_cp_def utf16_cp_def)
  next
    case 2
    moreover have "cp div 64 * 64 + cp mod 64 = cp" by simp
    moreover have "2 \<le> cp div 64" "cp div 64 < 32" "cp mod 64 \<le> 63" using 2 by auto
    ultimately show ?thesis by (simp add: enc_cp_def utf16_cp_def utf8_dec_cont)
  next
    case 3
    let ?a = "cp div 4096" and ?b = "cp div 64 mod 64" and ?c = "cp mod 64"
    have eq: "(?a * 64 + ?b) * 64 + ?c = cp" by (simp only: split64 div_mult_mod_eq)
    have a: "?a < 16" using 3 by auto
    have lo: "0 < ?a \<or> 32 \<le> ?b"
      using 3(1) by (cases "?a = 0") (auto simp: div_eq_0_iff)
    have sur: "?a = 13 \<Longrightarrow> ?b < 32"
    proof (rule ccontr)
      assume "?a = 13" "\<not> ?b < 32"
      then have "0xD800 \<le> (13 * 64 + ?b) * 64 + ?c" "(13 * 64 + ?b) * 64 + ?c \<le> 0xDFFF" by auto
      with assms(2) eq \<open>?a = 13\<close> show False by simp
    qed
    have enc: "enc_cp cp = [0xE0 + ?a, 0x80 + ?b, 0x80 + ?c]" using 3 by (simp add: enc_cp_def)
    have "?b < 64" "?c < 64" by auto
    from utf8_dec3 [OF a this lo sur] show ?thesis unfolding enc eq by simp
  next
    case 4
    let ?a = "cp div 262144" and ?b = "cp div 4096 mod 64" and ?c = "cp div 64 mod 64" and ?d = "cp mod 64"
    have eq: "((?a * 64 + ?b) * 64 + ?c) * 64 + ?d = cp"
      by (simp only: split4096 split64 div_mult_mod_eq)
    have a: "?a \<le> 4" using assms(1) by auto
    have lo: "0 < ?a \<or> 16 \<le> ?b"
      using 4 by (cases "?a = 0") (auto simp: div_eq_0_iff)
    have hi: "?a = 4 \<Longrightarrow> ?b < 16"
      using assms(1) eq by (cases "?b < 16") auto
    have enc: "enc_cp cp = [0xF0 + ?a, 0x80 + ?b, 0x80 + ?c, 0x80 + ?d]" using 4 by (simp add: enc_cp_def)
    have "?b < 64" "?c < 64" "?d < 64" by auto
    from utf8_dec4 [OF a this lo hi] show ?thesis unfolding enc eq by simp
  qed
qed

lemma pair_value_bounds:
  "is_high c \<Longrightarrow> is_low d \<Longrightarrow> 0x10000 \<le> pair_value c d \<and> pair_value c d < 0x110000"
  by (auto simp: pair_value_def is_high_def is_low_def)

lemma utf16_pair: "is_high c \<Longrightarrow> is_low d \<Longrightarrow> utf16_cp (pair_value c d) = [c, d]"
proof -
  assume h: "is_high c" and l: "is_low d"
  have eq: "pair_value c d - 0x10000 = (c - 0xD800) * 0x400 + (d - 0xDC00)" by (simp add: pair_value_def)
  have "d - 0xDC00 < 0x400" using l by (auto simp: is_low_def)
  then have "(pair_value c d - 0x10000) div 0x400 = c - 0xD800" "(pair_value c d - 0x10000) mod 0x400 = d - 0xDC00"
    unfolding eq by simp_all
  with h l pair_value_bounds [OF h l] show ?thesis by (auto simp: utf16_cp_def is_high_def is_low_def)
qed

lemma utf8_dec_encode: "well_formed s \<Longrightarrow> utf8_dec 0 lo hi c (utf8_encode s @ bs) = s @ utf8_dec 0 0x80 0xBF 0 bs"
proof (induction s arbitrary: lo hi c rule: well_formed.induct)
  case 1
  show ?case by (cases bs) simp_all
next
  case (2 x)
  then show ?case
    using utf8_dec_enc_cp [where cp = x and lo = lo and hi = hi and c = c and bs = bs] by (auto simp: is_surrogate_def is_high_def is_low_def utf16_cp_def)
next
  case (3 x y s)
  show ?case
  proof (cases "is_high x \<and> is_low y")
    case True
    with 3 pair_value_bounds [of x y] show ?thesis
      by (simp add: utf8_dec_enc_cp utf16_pair)
  next
    case False
    with 3 show ?thesis
      using utf8_dec_enc_cp [where cp = x and lo = lo and hi = hi and c = c and bs = "utf8_encode (y # s) @ bs"]
      by (auto simp: is_surrogate_def is_high_def is_low_def utf16_cp_def)
  qed
qed

lemma buffer_utf8_encode: "well_formed s \<Longrightarrow> buffer_utf8 (utf8_encode s) = s"
  using utf8_dec_encode [where lo = "0x80" and hi = "0xBF" and c = 0 and s = s and bs = "[]"] by (simp add: buffer_utf8_def)

lemma utf8_decode_encode:
  assumes "well_formed raw" and "raw = [] \<or> hd raw \<noteq> 0xFEFF"
  shows "utf8_decode (utf8_encode raw) = raw"
proof -
  have "take 3 (utf8_encode raw) \<noteq> [0xEF, 0xBB, 0xBF]"
  proof
    assume "take 3 (utf8_encode raw) = [0xEF, 0xBB, 0xBF]"
    then have "utf8_encode raw = 0xEF # 0xBB # 0xBF # drop 3 (utf8_encode raw)"
      using append_take_drop_id [of 3 "utf8_encode raw"] by simp
    then obtain rest where "utf8_encode raw = 0xEF # 0xBB # 0xBF # rest" by blast
    then have "buffer_utf8 (utf8_encode raw) = 0xFEFF # utf8_dec 0 0x80 0xBF 0 rest"
      by (simp add: buffer_utf8_def utf8_dec_cont utf16_cp_def)
    with buffer_utf8_encode [OF assms(1)] assms(2) show False by auto
  qed
  with buffer_utf8_encode [OF assms(1)] show ?thesis by (simp add: utf8_decode_def)
qed

section \<open>Properties\<close>

text \<open>Text without lone surrogates survives the store: encoding it to UTF-8 and decoding the bytes
  gives the text back.\<close>

theorem utf8_round_trip:
  assumes "well_formed s" shows "buffer_utf8 (utf8_encode s) = s"
  using assms by (rule buffer_utf8_encode)

theorem utf8_round_trip_witness:
  "buffer_utf8 (utf8_encode [0x41, 0xE9, 0x20AC, 0xD83D, 0xDE00]) = [0x41, 0xE9, 0x20AC, 0xD83D, 0xDE00]"
  by (rule utf8_round_trip) code_simp

end
