(* ===== verification/Cas.thy ===== *)
theory Cas
  imports Utf8
begin

text \<open>
  \<open>packages/shared/src/cas.ts\<close>: the content-addressed store. SHA-256 is a parameter
  (\<open>digest\<close>, bytes to bytes); what the code relies on is that it yields 32 bytes
  (\<open>digest_ok\<close>). A file system is a map from paths to file contents. Between the steps of one
  call other processes may run: their effect is the argument \<open>env\<close>, a function on file
  systems. A call that fails at an I/O step does so because the argument \<open>fault\<close> says so.
  Directory creation and the flushing of a file to disk have no effect on the map.
\<close>

type_synonym fs = "jstring \<Rightarrow> byte list option"

datatype casError = InvalidHash | Corruption | IoError

datatype ioFault = OpenFail | WriteFail | LinkFail | DirSyncFail

section \<open>Hashes and paths\<close>

definition hex_digit :: "nat \<Rightarrow> code_unit" where
  "hex_digit n = (if n < 10 then 48 + n else 87 + n)"

definition hex_byte :: "byte \<Rightarrow> jstring" where
  "hex_byte b = [hex_digit (b div 16), hex_digit (b mod 16)]"

definition sha256Hex :: "(byte list \<Rightarrow> byte list) \<Rightarrow> byte list \<Rightarrow> jstring" where
  "sha256Hex digest bytes = concat (map hex_byte (digest bytes))"

definition is_hex :: "code_unit \<Rightarrow> bool" where
  "is_hex c \<longleftrightarrow> (48 \<le> c \<and> c \<le> 57) \<or> (97 \<le> c \<and> c \<le> 102)"

definition validHash :: "jstring \<Rightarrow> bool" where
  "validHash h \<longleftrightarrow> length h = 64 \<and> list_all is_hex h"

definition objectPath :: "jstring \<Rightarrow> jstring \<Rightarrow> (casError, jstring) result" where
  "objectPath dataDir hash =
     (if validHash hash then Inr (dataDir @ js ''/objects/'' @ take 2 hash @ js ''/'' @ hash) else Inl InvalidHash)"

record writeObjectResult =
  whash :: jstring
  wsize :: nat
  wexisted :: bool

section \<open>Publishing\<close>

text \<open>
  The part from the unique temporary file on: full write, exclusive hard link, flush of the
  directory, removal of the temporary file in every case. \<open>check_size\<close> tells the two callers
  apart: \<open>writeObject\<close> also compares the size reported for an existing object.
\<close>

definition publish_tmp :: "ioFault option \<Rightarrow> bool \<Rightarrow> jstring \<Rightarrow> jstring \<Rightarrow> jstring \<Rightarrow> byte list \<Rightarrow> fs
    \<Rightarrow> (casError, writeObjectResult) result \<times> fs" where
  "publish_tmp fault check_size tmp path hash bytes f =
     (if fault = Some OpenFail then (Inl IoError, f(tmp := None))
      else if fault = Some WriteFail then (Inl IoError, f(tmp := None))
      else let f1 = f(tmp \<mapsto> bytes)
           in if fault = Some LinkFail then (Inl IoError, f1(tmp := None))
              else case f1 path of
                Some actual \<Rightarrow>
                  if actual \<noteq> bytes then (Inl Corruption, f1(tmp := None))
                  else if check_size \<and> length actual \<noteq> length bytes then (Inl Corruption, f1(tmp := None))
                  else (Inr \<lparr>whash = hash, wsize = (if check_size then length bytes else length actual), wexisted = True\<rparr>,
                        f1(tmp := None))
              | None \<Rightarrow>
                  (let f2 = f1(path \<mapsto> bytes)
                   in if fault = Some DirSyncFail then (Inl IoError, f2(tmp := None))
                      else (Inr \<lparr>whash = hash, wsize = length bytes, wexisted = False\<rparr>, f2(tmp := None))))"

definition tmp_path :: "jstring \<Rightarrow> jstring \<Rightarrow> jstring \<Rightarrow> jstring" where
  "tmp_path path hash uuid = take (length path - length hash) path @ js ''.tmp-'' @ hash @ js ''-'' @ uuid"

text \<open>Both writers first compare an object that is already there.\<close>

definition write_at :: "bool \<Rightarrow> (fs \<Rightarrow> fs) \<Rightarrow> ioFault option \<Rightarrow> jstring \<Rightarrow> jstring \<Rightarrow> jstring \<Rightarrow> byte list \<Rightarrow> fs
    \<Rightarrow> (casError, writeObjectResult) result \<times> fs" where
  "write_at check_size env fault uuid dataDir hash bytes f =
     (case objectPath dataDir hash of
        Inl e \<Rightarrow> (Inl e, f)
      | Inr path \<Rightarrow>
          (case f path of
             Some existing \<Rightarrow>
               if existing \<noteq> bytes then (Inl Corruption, f)
               else (Inr \<lparr>whash = hash, wsize = length bytes, wexisted = True\<rparr>, f)
           | None \<Rightarrow> publish_tmp fault check_size (tmp_path path hash uuid) path hash bytes (env f)))"

definition writeObject :: "(byte list \<Rightarrow> byte list) \<Rightarrow> (fs \<Rightarrow> fs) \<Rightarrow> ioFault option \<Rightarrow> jstring \<Rightarrow> jstring
    \<Rightarrow> byte list \<Rightarrow> fs \<Rightarrow> (casError, writeObjectResult) result \<times> fs" where
  "writeObject digest env fault uuid dataDir bytes f =
     write_at True env fault uuid dataDir (sha256Hex digest bytes) bytes f"

definition writeObjectAs :: "(fs \<Rightarrow> fs) \<Rightarrow> ioFault option \<Rightarrow> jstring \<Rightarrow> jstring \<Rightarrow> jstring \<Rightarrow> byte list \<Rightarrow> fs
    \<Rightarrow> (casError, writeObjectResult) result \<times> fs" where
  "writeObjectAs env fault uuid dataDir hash bytes f = write_at False env fault uuid dataDir hash bytes f"

section \<open>Reading\<close>

definition stat_read :: "(fs \<Rightarrow> fs) \<Rightarrow> jstring \<Rightarrow> fs \<Rightarrow> (casError, byte list option) result" where
  "stat_read env path f =
     (case f path of
        None \<Rightarrow> Inr None
      | Some info \<Rightarrow>
          (case env f path of
             None \<Rightarrow> Inl IoError
           | Some bytes \<Rightarrow> if length bytes \<noteq> length info then Inl Corruption else Inr (Some bytes)))"

definition readObject :: "(byte list \<Rightarrow> byte list) \<Rightarrow> (fs \<Rightarrow> fs) \<Rightarrow> jstring \<Rightarrow> jstring \<Rightarrow> fs
    \<Rightarrow> (casError, byte list option) result" where
  "readObject digest env dataDir hash f =
     (case objectPath dataDir hash of
        Inl e \<Rightarrow> Inl e
      | Inr path \<Rightarrow>
          (case stat_read env path f of
             Inl e \<Rightarrow> Inl e
           | Inr None \<Rightarrow> Inr None
           | Inr (Some bytes) \<Rightarrow> if sha256Hex digest bytes \<noteq> hash then Inl Corruption else Inr (Some bytes)))"

definition readObjectAs :: "(fs \<Rightarrow> fs) \<Rightarrow> jstring \<Rightarrow> jstring \<Rightarrow> fs \<Rightarrow> (casError, byte list option) result" where
  "readObjectAs env dataDir hash f =
     (case objectPath dataDir hash of Inl e \<Rightarrow> Inl e | Inr path \<Rightarrow> stat_read env path f)"

lemmas cas_defs [run_simps] = hex_digit_def hex_byte_def sha256Hex_def is_hex_def validHash_def objectPath_def
  publish_tmp_def tmp_path_def write_at_def writeObject_def writeObjectAs_def stat_read_def readObject_def readObjectAs_def

section \<open>What the code relies on\<close>

definition digest_ok :: "(byte list \<Rightarrow> byte list) \<Rightarrow> bool" where
  "digest_ok digest \<longleftrightarrow> (\<forall>bs. length (digest bs) = 32 \<and> (\<forall>b\<in>set (digest bs). b < 256))"

text \<open>Other processes never change or remove an object that is there.\<close>

definition only_adds :: "(fs \<Rightarrow> fs) \<Rightarrow> bool" where
  "only_adds env \<longleftrightarrow> (\<forall>f p v. f p = Some v \<longrightarrow> env f p = Some v)"

lemma only_adds_id [simp]: "only_adds (\<lambda>f. f)"
  by (simp add: only_adds_def)

lemma is_hex_digit: "n < 16 \<Longrightarrow> is_hex (hex_digit n)"
  by (auto simp: is_hex_def hex_digit_def)

lemma length_hex: "length (concat (map hex_byte bs)) = 2 * length bs"
  by (induction bs) (auto simp: hex_byte_def)

lemma validHash_sha: "digest_ok digest \<Longrightarrow> validHash (sha256Hex digest bs)"
proof -
  assume ok: "digest_ok digest"
  have "b div 16 < 16" if "b \<in> set (digest bs)" for b
    using ok that by (simp add: digest_ok_def less_mult_imp_div_less)
  with ok show ?thesis
    by (auto simp: validHash_def sha256Hex_def digest_ok_def length_hex list_all_iff hex_byte_def intro!: is_hex_digit)
qed

lemma objectPath_Inr: "validHash h \<Longrightarrow> \<exists>p. objectPath d h = Inr p"
  by (simp add: objectPath_def)

lemma take_path: "take (length (a @ h) - length h) (a @ h) = a"
  by simp

text \<open>The temporary name is never the name of an object: it starts with a dot.\<close>

lemma tmp_not_path:
  assumes "objectPath d h = Inr p" and "objectPath d h' = Inr p'"
  shows "tmp_path p h uuid \<noteq> p'"
proof
  assume eq: "tmp_path p h uuid = p'"
  let ?base = "\<lambda>h. d @ js ''/objects/'' @ take 2 h @ js ''/''"
  have p: "p = ?base h @ h" "p' = ?base h' @ h'" "validHash h" "validHash h'"
    using assms by (auto simp: objectPath_def split: if_splits)
  have "tmp_path p h uuid = ?base h @ js ''.tmp-'' @ h @ js ''-'' @ uuid"
    using take_path [of "?base h" h] unfolding tmp_path_def p(1) by simp
  with eq p have "?base h @ (js ''.tmp-'' @ h @ js ''-'' @ uuid) = ?base h' @ h'" by simp
  moreover have "length (?base h) = length (?base h')" using p by (simp add: validHash_def)
  ultimately have "js ''.tmp-'' @ h @ js ''-'' @ uuid = h'" by (metis append_eq_append_conv)
  then have "hd h' = 46" by (auto simp: js_def)
  moreover have "is_hex (hd h')" using p(4) by (cases h') (auto simp: validHash_def)
  ultimately show False by (simp add: is_hex_def)
qed

section \<open>The object store as an interface\<close>

text \<open>
  What the components above rely on: a successful write makes the object readable, writes keep
  every object that was readable, and what a read returns is what the address stands for.
\<close>

locale object_store =
  fixes put :: "'key \<Rightarrow> byte list \<Rightarrow> 'fs \<Rightarrow> (casError, writeObjectResult) result \<times> 'fs"
    and lookup :: "'key \<Rightarrow> 'fs \<Rightarrow> byte list option"
    and key_ok :: "'key \<Rightarrow> bool"
  assumes put_lookup: "put k bs f = (Inr r, f') \<Longrightarrow> lookup k f' = Some bs"
    and put_keeps: "put k bs f = (res, f') \<Longrightarrow> key_ok k' \<Longrightarrow> lookup k' f = Some v \<Longrightarrow> lookup k' f' = Some v"
    and put_conflict: "lookup k f = Some v \<Longrightarrow> v \<noteq> bs \<Longrightarrow> key_ok k \<Longrightarrow> put k bs f = (Inl Corruption, f)"
begin

lemma put_all_keeps:
  "key_ok k \<Longrightarrow> lookup k f = Some v \<Longrightarrow> lookup k (fold (\<lambda>(k, bs) f. snd (put k bs f)) ws f) = Some v"
proof (induction ws arbitrary: f)
  case (Cons w ws)
  obtain res f' where w: "put (fst w) (snd w) f = (res, f')" by fastforce
  from Cons put_keeps [OF w] show ?case by (simp add: w split_beta)
qed simp

text \<open>Any number of later writes leaves an object as it was published.\<close>

lemma published_stays:
  "key_ok k \<Longrightarrow> put k bs f = (Inr r, f') \<Longrightarrow>
   lookup k (fold (\<lambda>(k, bs) f. snd (put k bs f)) ws f') = Some bs"
  using put_all_keeps put_lookup by blast

end

definition lookup_at :: "jstring \<Rightarrow> jstring \<Rightarrow> fs \<Rightarrow> byte list option" where
  "lookup_at dataDir hash f = (case objectPath dataDir hash of Inl e \<Rightarrow> None | Inr p \<Rightarrow> f p)"

lemma lookup_at_empty [simp]: "lookup_at d h (\<lambda>_. None) = None"
  by (simp add: lookup_at_def split: sum.splits)

lemma publish_tmp_result:
  assumes "publish_tmp fault c tmp path hash bytes f = (Inr r, f')" and "tmp \<noteq> path"
  shows "f' path = Some bytes"
  using assms by (auto simp: publish_tmp_def Let_def split: if_splits option.splits)

lemma publish_tmp_keeps:
  assumes "publish_tmp fault c tmp path hash bytes f = (res, f')" and "tmp \<noteq> p" and "f p = Some v"
  shows "f' p = Some v"
  using assms by (auto simp: publish_tmp_def Let_def split: if_splits option.splits)

lemma publish_tmp_clean:
  assumes "publish_tmp fault c tmp path hash bytes f = (res, f')" and "tmp \<noteq> path"
  shows "f' tmp = None"
  using assms by (auto simp: publish_tmp_def Let_def split: if_splits option.splits)

lemma write_at_result:
  assumes "write_at c env fault uuid d h bs f = (Inr r, f')"
  shows "lookup_at d h f' = Some bs"
proof -
  obtain p where p: "objectPath d h = Inr p" using assms by (auto simp: write_at_def split: sum.splits)
  show ?thesis
  proof (cases "f p")
    case None
    with assms p have "publish_tmp fault c (tmp_path p h uuid) p h bs (env f) = (Inr r, f')"
      by (simp add: write_at_def)
    from publish_tmp_result [OF this tmp_not_path [OF p p]] show ?thesis by (simp add: lookup_at_def p)
  qed (use assms p in \<open>auto simp: write_at_def lookup_at_def split: if_splits\<close>)
qed

lemma write_at_keeps:
  assumes "only_adds env" and "write_at c env fault uuid d h bs f = (res, f')" and "lookup_at d h' f = Some v"
  shows "lookup_at d h' f' = Some v"
proof -
  obtain p' where p': "objectPath d h' = Inr p'" "f p' = Some v"
    using assms(3) by (auto simp: lookup_at_def split: sum.splits)
  show ?thesis
  proof (cases "f' = f")
    case False
    then obtain p where p: "objectPath d h = Inr p"
        "publish_tmp fault c (tmp_path p h uuid) p h bs (env f) = (res, f')"
      using assms(2) by (auto simp: write_at_def split: sum.splits option.splits if_splits)
    have "env f p' = Some v" using assms(1) p'(2) by (auto simp: only_adds_def)
    from publish_tmp_keeps [OF p(2) tmp_not_path [OF p(1) p'(1)] this] show ?thesis
      by (simp add: lookup_at_def p'(1))
  qed (use assms(3) in simp)
qed

interpretation casAs: object_store
  "\<lambda>h. writeObjectAs (\<lambda>f. f) fault uuid dataDir h" "lookup_at dataDir" validHash
  for fault uuid dataDir
proof unfold_locales
  fix k bs f r f'
  assume "writeObjectAs (\<lambda>f. f) fault uuid dataDir k bs f = (Inr r, f')"
  then show "lookup_at dataDir k f' = Some bs" by (auto simp: writeObjectAs_def intro: write_at_result)
next
  fix k bs f res f' k' v
  assume "writeObjectAs (\<lambda>f. f) fault uuid dataDir k bs f = (res, f')" "lookup_at dataDir k' f = Some v"
  then show "lookup_at dataDir k' f' = Some v"
    by (auto simp: writeObjectAs_def intro: write_at_keeps [OF only_adds_id])
next
  fix k f v bs
  assume "lookup_at dataDir k f = Some v" "v \<noteq> bs" "validHash k"
  then show "writeObjectAs (\<lambda>f. f) fault uuid dataDir k bs f = (Inl Corruption, f)"
    by (auto simp: writeObjectAs_def write_at_def lookup_at_def split: sum.splits)
qed

text \<open>Reading back through the digest check.\<close>

lemma readObject_lookup:
  assumes "digest_ok digest" and "lookup_at d h f = Some bs" and "only_adds env"
  shows "readObject digest env d h f = (if sha256Hex digest bs = h then Inr (Some bs) else Inl Corruption)"
proof -
  obtain p where p: "objectPath d h = Inr p" "f p = Some bs"
    using assms(2) by (auto simp: lookup_at_def split: sum.splits)
  moreover have "env f p = Some bs" using assms(3) p(2) by (simp add: only_adds_def)
  ultimately show ?thesis by (auto simp: readObject_def stat_read_def)
qed

lemma write_at_whash: "write_at c env fault uuid d h bs f = (Inr r, f') \<Longrightarrow> whash r = h \<and> wsize r = length bs"
  by (auto simp: write_at_def publish_tmp_def Let_def split: sum.splits option.splits if_splits)

lemma write_fault_free:
  assumes "digest_ok digest" and "lookup_at dataDir (sha256Hex digest bytes) f \<in> {None, Some bytes}"
  shows "\<exists>r f'. writeObject digest (\<lambda>f. f) None uuid dataDir bytes f = (Inr r, f')
     \<and> lookup_at dataDir (sha256Hex digest bytes) f' = Some bytes
     \<and> wexisted r = (lookup_at dataDir (sha256Hex digest bytes) f = Some bytes)
     \<and> (case objectPath dataDir (sha256Hex digest bytes) of Inr p \<Rightarrow> dom f' \<subseteq> insert p (dom f) | Inl e \<Rightarrow> False)"
proof -
  obtain p where p: "objectPath dataDir (sha256Hex digest bytes) = Inr p"
    using validHash_sha [OF assms(1)] objectPath_Inr by blast
  have ne: "tmp_path p (sha256Hex digest bytes) uuid \<noteq> p" using tmp_not_path [OF p p] .
  show ?thesis
    using assms(2) ne
    by (auto simp: writeObject_def write_at_def lookup_at_def p publish_tmp_def Let_def)
qed

section \<open>Properties\<close>

text \<open>What a successful write stored is what every later read returns: the bytes come back
  through the size and digest checks under the reported hash.\<close>

theorem cas_write_then_read:
  assumes "digest_ok digest" and "only_adds env'"
    and "writeObject digest env fault uuid dataDir bytes f = (Inr r, f')"
  shows "readObject digest env' dataDir (whash r) f' = Inr (Some bytes) \<and> wsize r = length bytes"
proof -
  note w = assms(3) [unfolded writeObject_def]
  show ?thesis
    using write_at_whash [OF w] readObject_lookup [OF assms(1) write_at_result [OF w] assms(2)] by simp
qed

theorem cas_write_then_read_witness:
  "\<exists>r f'. writeObject (\<lambda>_. replicate 32 0) (\<lambda>f. f) None (js ''u'') (js ''/d'') [1, 2] (\<lambda>_. None) = (Inr r, f')
     \<and> readObject (\<lambda>_. replicate 32 0) (\<lambda>f. f) (js ''/d'') (whash r) f' = Inr (Some [1, 2])"
proof -
  have ok: "digest_ok (\<lambda>_. replicate 32 0)" by (simp add: digest_ok_def)
  from write_fault_free [OF ok, of "js ''/d''" "[1, 2]" "\<lambda>_. None" "js ''u''"] obtain r f' where
    w: "writeObject (\<lambda>_. replicate 32 0) (\<lambda>f. f) None (js ''u'') (js ''/d'') [1, 2] (\<lambda>_. None) = (Inr r, f')"
    by auto
  from cas_write_then_read [OF ok only_adds_id w] w show ?thesis by blast
qed

text \<open>Without an I/O fault a write of content that is new or already stored succeeds, and leaves the
  object readable; the object is the only file it can have added.\<close>

theorem cas_write_succeeds:
  assumes "digest_ok digest" and "lookup_at dataDir (sha256Hex digest bytes) f \<in> {None, Some bytes}"
  shows "\<exists>r f'. writeObject digest (\<lambda>f. f) None uuid dataDir bytes f = (Inr r, f')
     \<and> lookup_at dataDir (sha256Hex digest bytes) f' = Some bytes
     \<and> wexisted r = (lookup_at dataDir (sha256Hex digest bytes) f = Some bytes)
     \<and> (case objectPath dataDir (sha256Hex digest bytes) of Inr p \<Rightarrow> dom f' \<subseteq> insert p (dom f) | Inl e \<Rightarrow> False)"
  using assms by (rule write_fault_free)

theorem cas_write_succeeds_witness:
  "\<exists>r f'. writeObject (\<lambda>_. replicate 32 0) (\<lambda>f. f) None (js ''u'') (js ''/d'') [7] (\<lambda>_. None) = (Inr r, f')
     \<and> lookup_at (js ''/d'') (sha256Hex (\<lambda>_. replicate 32 0) [7]) f' = Some [7]
     \<and> wexisted r = (lookup_at (js ''/d'') (sha256Hex (\<lambda>_. replicate 32 0) [7]) (\<lambda>_. None) = Some [7])
     \<and> (case objectPath (js ''/d'') (sha256Hex (\<lambda>_. replicate 32 0) [7]) of
          Inr p \<Rightarrow> dom f' \<subseteq> insert p (dom ((\<lambda>_. None) :: fs)) | Inl e \<Rightarrow> False)"
  by (rule cas_write_succeeds) (auto simp: digest_ok_def)

text \<open>Published objects are immutable. Once a write under a caller-chosen address has succeeded, any
  sequence of further writes, whatever they write and wherever they fail, leaves the object as it was.\<close>

theorem cas_published_immutable:
  assumes "validHash hash" and "writeObjectAs (\<lambda>f. f) fault uuid dataDir hash bytes f = (Inr r, f')"
  shows "lookup_at dataDir hash
     (fold (\<lambda>(h, bs) f. snd (writeObjectAs (\<lambda>f. f) fault uuid dataDir h bs f)) ws f') = Some bytes"
  using casAs.published_stays [OF assms] .

theorem cas_published_immutable_witness:
  "lookup_at (js ''/d'') (replicate 64 97)
     (fold (\<lambda>(h, bs) f. snd (writeObjectAs (\<lambda>f. f) None (js ''u'') (js ''/d'') h bs f))
        [(replicate 64 97, [9]), (replicate 64 98, [5])]
        (snd (writeObjectAs (\<lambda>f. f) None (js ''u'') (js ''/d'') (replicate 64 97) [3] (\<lambda>_. None)))) = Some [3]"
  by (rule cas_published_immutable [where r = "\<lparr>whash = replicate 64 97, wsize = 1, wexisted = False\<rparr>"
        and f = "\<lambda>_. None"])
    (simp_all add: cas_defs js_def numeral_eq_Suc)

text \<open>A read never returns bytes that do not hash to their address, and a write over an object with
  different bytes is refused without touching the store.\<close>

theorem cas_integrity:
  "(case readObject digest env dataDir hash f of Inr (Some bytes) \<Rightarrow> sha256Hex digest bytes = hash | _ \<Rightarrow> True)
   \<and> (case lookup_at dataDir hash f of
        Some v \<Rightarrow> writeObjectAs env' fault uuid dataDir hash bytes f
                  = (if v = bytes then Inr \<lparr>whash = hash, wsize = length bytes, wexisted = True\<rparr> else Inl Corruption, f)
      | None \<Rightarrow> True)"
  by (auto simp: readObject_def lookup_at_def writeObjectAs_def write_at_def split: sum.splits option.splits)

end
