(* ===== verification/Json.thy ===== *)
theory Json
  imports JS_Number Sanitize
begin

text \<open>
  JSON values as the sources handle them (metadata of a tool call, protocol frames, retrieval
  cursors, chat messages), with \<open>JSON.stringify\<close> and \<open>JSON.parse\<close>. An object keeps the order of its
  keys. A number is a rational; \<open>num_string\<close> is \<open>Number.prototype.toString\<close>, the shortest
  decimal that reads back as the number.
\<close>

datatype json =
    JNull
  | JBool bool
  | JNum rat
  | JStr jstring
  | JArr "json list"
  | JObj "(jstring \<times> json) list"

text \<open>Property access \<open>value[key]\<close>; a missing property reads as \<open>undefined\<close> (\<open>None\<close>).\<close>

fun json_get :: "json \<Rightarrow> jstring \<Rightarrow> json option" where
  "json_get (JObj kvs) k = map_of kvs k"
| "json_get _ k = None"

text \<open>A string member of an object.\<close>

definition get_string :: "json \<Rightarrow> string \<Rightarrow> jstring option" where
  "get_string j k = (case json_get j (js k) of Some (JStr s) \<Rightarrow> Some s | _ \<Rightarrow> None)"

definition is_safe_integer :: "rat \<Rightarrow> bool" where
  "is_safe_integer q \<longleftrightarrow> snd (quotient_of q) = 1 \<and> \<bar>fst (quotient_of q)\<bar> < 2 ^ 53"

section \<open>JSON.stringify\<close>

definition hexd :: "nat \<Rightarrow> code_unit" where
  "hexd d = (if d < 10 then 48 + d else 87 + d)"

definition hex4 :: "nat \<Rightarrow> jstring" where
  "hex4 n = map hexd [n div 4096 mod 16, n div 256 mod 16, n div 16 mod 16, n mod 16]"

definition quote_unit :: "code_unit \<Rightarrow> jstring" where
  "quote_unit c =
     (if c = 34 then [92, 34] else if c = 92 then [92, 92]
      else if c = 8 then [92, 98] else if c = 12 then [92, 102] else if c = 10 then [92, 110]
      else if c = 13 then [92, 114] else if c = 9 then [92, 116]
      else if c < 32 then [92, 117] @ hex4 c
      else [c])"

text \<open>A surrogate pair is copied, a lone surrogate is escaped.\<close>

fun quote_body :: "jstring \<Rightarrow> jstring" where
  "quote_body [] = []"
| "quote_body [c] = (if is_high c \<or> is_low c then [92, 117] @ hex4 c else quote_unit c)"
| "quote_body (c # d # s) =
     (if is_high c \<and> is_low d then c # d # quote_body s
      else (if is_high c \<or> is_low c then [92, 117] @ hex4 c else quote_unit c) @ quote_body (d # s))"

definition json_quote :: "jstring \<Rightarrow> jstring" where
  "json_quote s = [34] @ quote_body s @ [34]"

text \<open>The digits of a positive number that is not a safe integer, as the standard chooses them.\<close>

definition pow10 :: "int \<Rightarrow> rat" where
  "pow10 k = (if 0 \<le> k then 10 ^ nat k else 1 / 10 ^ nat (- k))"

definition dec_exponent :: "rat \<Rightarrow> int" where
  "dec_exponent m = (case quotient_of m of (a, b) \<Rightarrow>
     let k = int (length (dec (nat a))) - int (length (dec (nat b)))
     in if pow10 k \<le> m then k + 1 else k)"

definition shortest :: "rat \<Rightarrow> int \<Rightarrow> nat \<times> int \<times> int" where
  "shortest m n =
     (let digits = (\<lambda>k. \<lfloor>m * pow10 (int k - n) + 1/2\<rfloor>);
          k = (case find (\<lambda>k. rd (of_int (digits k) * pow10 (n - int k)) = m) [1 ..< 18] of None \<Rightarrow> 17 | Some k \<Rightarrow> k)
      in if digits k = 10 ^ k then (k, 10 ^ (k - 1), n + 1) else (k, digits k, n))"

definition exp_string :: "int \<Rightarrow> jstring" where
  "exp_string e = js ''e'' @ (if e < 0 then js ''-'' else js ''+'') @ dec (nat \<bar>e\<bar>)"

definition pos_string :: "rat \<Rightarrow> jstring" where
  "pos_string m =
     (case shortest m (dec_exponent m) of (k, s, n) \<Rightarrow>
      let ds = dec (nat s)
      in if int k \<le> n \<and> n \<le> 21 then ds @ replicate (nat (n - int k)) 48
         else if 0 < n \<and> n \<le> 21 then take (nat n) ds @ js ''.'' @ drop (nat n) ds
         else if -6 < n \<and> n \<le> 0 then js ''0.'' @ replicate (nat (- n)) 48 @ ds
         else if k = 1 then ds @ exp_string (n - 1)
         else take 1 ds @ js ''.'' @ drop 1 ds @ exp_string (n - 1))"

definition num_string :: "rat \<Rightarrow> jstring" where
  "num_string q =
     (if is_safe_integer q
      then (if q < 0 then js ''-'' else []) @ dec (nat \<bar>fst (quotient_of q)\<bar>)
      else if q < 0 then js ''-'' @ pos_string (- q) else pos_string q)"

fun json_stringify :: "json \<Rightarrow> jstring" where
  "json_stringify JNull = js ''null''"
| "json_stringify (JBool b) = (if b then js ''true'' else js ''false'')"
| "json_stringify (JNum q) = num_string q"
| "json_stringify (JStr s) = json_quote s"
| "json_stringify (JArr vs) = [91] @ join_with [44] (map json_stringify vs) @ [93]"
| "json_stringify (JObj kvs) =
     [123] @ join_with [44] (map (\<lambda>(k, v). json_quote k @ [58] @ json_stringify v) kvs) @ [125]"

section \<open>JSON.parse\<close>

definition skip_ws :: "jstring \<Rightarrow> jstring" where
  "skip_ws s = dropWhile (\<lambda>c. c = 9 \<or> c = 10 \<or> c = 13 \<or> c = 32) s"

definition hex_value :: "code_unit \<Rightarrow> nat option" where
  "hex_value c = (if 48 \<le> c \<and> c \<le> 57 then Some (c - 48) else if 97 \<le> c \<and> c \<le> 102 then Some (c - 87)
                  else if 65 \<le> c \<and> c \<le> 70 then Some (c - 55) else None)"

fun hex4_value :: "jstring \<Rightarrow> nat option" where
  "hex4_value [a, b, c, d] =
     (case (hex_value a, hex_value b, hex_value c, hex_value d) of
        (Some w, Some x, Some y, Some z) \<Rightarrow> Some (((w * 16 + x) * 16 + y) * 16 + z)
      | _ \<Rightarrow> None)"
| "hex4_value _ = None"

definition ESCAPES :: "(code_unit \<times> code_unit) list" where
  "ESCAPES = [(34, 34), (92, 92), (47, 47), (98, 8), (102, 12), (110, 10), (114, 13), (116, 9)]"

definition add_unit :: "code_unit \<Rightarrow> (jstring \<times> jstring) option \<Rightarrow> (jstring \<times> jstring) option" where
  "add_unit c res = map_option (\<lambda>(t, r). (c # t, r)) res"

function str_body :: "jstring \<Rightarrow> (jstring \<times> jstring) option" where
  "str_body [] = None"
| "str_body (c # s) =
     (if c = 34 then Some ([], s)
      else if c < 32 then None
      else if c \<noteq> 92 then add_unit c (str_body s)
      else if s = [] then None
      else if hd s = 117
      then (case hex4_value (take 4 (tl s)) of None \<Rightarrow> None | Some u \<Rightarrow> add_unit u (str_body (drop 4 (tl s))))
      else case map_of ESCAPES (hd s) of None \<Rightarrow> None | Some u \<Rightarrow> add_unit u (str_body (tl s)))"
  by pat_completeness auto
termination
  by (relation "measure length") auto

definition is_digit :: "code_unit \<Rightarrow> bool" where
  "is_digit c \<longleftrightarrow> 48 \<le> c \<and> c \<le> 57"

definition digits_value :: "jstring \<Rightarrow> nat" where
  "digits_value s = foldl (\<lambda>n c. 10 * n + (c - 48)) 0 s"

text \<open>An optional fraction and an optional exponent behind the integer part.\<close>

definition fraction :: "jstring \<Rightarrow> (rat \<times> jstring) option" where
  "fraction s = (case s of
       [] \<Rightarrow> Some (0, s)
     | c # r \<Rightarrow> if c \<noteq> 46 then Some (0, s)
               else let ds = takeWhile is_digit r
                    in if ds = [] then None
                       else Some (of_nat (digits_value ds) / 10 ^ length ds, dropWhile is_digit r))"

definition exponent_part :: "jstring \<Rightarrow> (int \<times> jstring) option" where
  "exponent_part s = (case s of
       [] \<Rightarrow> Some (0, s)
     | c # r \<Rightarrow> if c \<noteq> 101 \<and> c \<noteq> 69 then Some (0, s)
               else let neg = (r \<noteq> [] \<and> hd r = 45);
                        r' = (if r \<noteq> [] \<and> (hd r = 45 \<or> hd r = 43) then tl r else r);
                        ds = takeWhile is_digit r'
                    in if ds = [] then None
                       else Some (if neg then - int (digits_value ds) else int (digits_value ds), dropWhile is_digit r'))"

definition to_double :: "rat \<Rightarrow> rat" where
  "to_double q = (if is_safe_integer q then q else rd q)"

definition parse_number :: "jstring \<Rightarrow> (json \<times> jstring) option" where
  "parse_number s =
     (let neg = (s \<noteq> [] \<and> hd s = 45);
          s' = (if neg then tl s else s);
          ds = takeWhile is_digit s'
      in if ds = [] \<or> (hd ds = 48 \<and> 1 < length ds) then None
         else case fraction (dropWhile is_digit s') of
           None \<Rightarrow> None
         | Some (fr, r) \<Rightarrow>
             (case exponent_part r of
                None \<Rightarrow> None
              | Some (e, r') \<Rightarrow>
                  (let m = (of_nat (digits_value ds) + fr) * pow10 e
                   in Some (JNum (to_double (if neg then - m else m)), r'))))"

definition parse_literal :: "jstring \<Rightarrow> json \<Rightarrow> jstring \<Rightarrow> (json \<times> jstring) option" where
  "parse_literal lit v s = (if starts_with s lit then Some (v, drop (length lit) s) else None)"

text \<open>
  Arrays and objects: the loops take the parser of the elements; each round consumes at least
  one code unit, so the length of the rest bounds the number of rounds. The nesting depth is
  bounded by the length of the input for the same reason.
\<close>

primrec parse_elems :: "nat \<Rightarrow> (jstring \<Rightarrow> (json \<times> jstring) option) \<Rightarrow> jstring \<Rightarrow> (json list \<times> jstring) option" where
  "parse_elems 0 p s = None"
| "parse_elems (Suc k) p s =
     (case p s of
        None \<Rightarrow> None
      | Some (v, r) \<Rightarrow>
          (case skip_ws r of
             [] \<Rightarrow> None
           | c # r' \<Rightarrow> if c = 93 then Some ([v], r')
                      else if c = 44 then map_option (\<lambda>(vs, q). (v # vs, q)) (parse_elems k p r')
                      else None))"

primrec parse_members :: "nat \<Rightarrow> (jstring \<Rightarrow> (json \<times> jstring) option) \<Rightarrow> jstring
    \<Rightarrow> ((jstring \<times> json) list \<times> jstring) option" where
  "parse_members 0 p s = None"
| "parse_members (Suc k) p s =
     (case skip_ws s of
        [] \<Rightarrow> None
      | c # s1 \<Rightarrow>
          if c \<noteq> 34 then None
          else case str_body s1 of
            None \<Rightarrow> None
          | Some (key, s2) \<Rightarrow>
              (case skip_ws s2 of
                 [] \<Rightarrow> None
               | c2 # s3 \<Rightarrow>
                   if c2 \<noteq> 58 then None
                   else case p s3 of
                     None \<Rightarrow> None
                   | Some (v, r) \<Rightarrow>
                       (case skip_ws r of
                          [] \<Rightarrow> None
                        | c3 # r' \<Rightarrow> if c3 = 125 then Some ([(key, v)], r')
                                   else if c3 = 44
                                   then map_option (\<lambda>(kvs, q). ((key, v) # kvs, q)) (parse_members k p r')
                                   else None)))"

primrec parse_value :: "nat \<Rightarrow> jstring \<Rightarrow> (json \<times> jstring) option" where
  "parse_value 0 s = None"
| "parse_value (Suc n) s =
     (case skip_ws s of
        [] \<Rightarrow> None
      | c # r \<Rightarrow>
          if c = 123
          then (if skip_ws r \<noteq> [] \<and> hd (skip_ws r) = 125 then Some (JObj [], tl (skip_ws r))
                else map_option (\<lambda>(kvs, q). (JObj (fold (\<lambda>(k, v) m. jmap_set k v m) kvs []), q))
                       (parse_members (length r) (parse_value n) r))
          else if c = 91
          then (if skip_ws r \<noteq> [] \<and> hd (skip_ws r) = 93 then Some (JArr [], tl (skip_ws r))
                else map_option (\<lambda>(vs, q). (JArr vs, q)) (parse_elems (length r) (parse_value n) r))
          else if c = 34 then map_option (\<lambda>(t, q). (JStr t, q)) (str_body r)
          else if c = 110 then parse_literal (js ''null'') JNull (c # r)
          else if c = 116 then parse_literal (js ''true'') (JBool True) (c # r)
          else if c = 102 then parse_literal (js ''false'') (JBool False) (c # r)
          else parse_number (c # r))"

definition json_parse :: "jstring \<Rightarrow> json option" where
  "json_parse s =
     (case parse_value (length s) s of
        Some (v, r) \<Rightarrow> if skip_ws r = [] then Some v else None
      | None \<Rightarrow> None)"

section \<open>Reading what was written\<close>

lemma hex_value_digit: "d < 16 \<Longrightarrow> hex_value (hexd d) = Some d"
  by (auto simp: hex_value_def hexd_def)

lemma hex4_round_trip:
  assumes "c < 65536" shows "hex4_value (hex4 c) = Some c"
proof -
  have "((c div 4096 * 16 + c div 256 mod 16) * 16 + c div 16 mod 16) * 16 + c mod 16 = c"
    using div_mult2_eq [of c 16 16] div_mult2_eq [of c 256 16] by simp
  moreover have "c div 4096 < 16" using assms by simp
  ultimately show ?thesis by (simp add: hex4_def hex_value_digit)
qed

lemma length_hex4 [simp]: "length (hex4 c) = 4"
  by (simp add: hex4_def)

lemma str_body_hex:
  "c < 65536 \<Longrightarrow> str_body ([92, 117] @ hex4 c @ r) = add_unit c (str_body r)"
  by (simp add: hex4_round_trip)

lemma str_body_unit:
  assumes "c < 65536" shows "str_body (quote_unit c @ r) = add_unit c (str_body r)"
  using assms str_body_hex [OF assms, of r] by (simp add: quote_unit_def ESCAPES_def)

lemma str_body_one:
  "c < 65536 \<Longrightarrow>
   str_body ((if is_high c \<or> is_low c then [92, 117] @ hex4 c else quote_unit c) @ r) = add_unit c (str_body r)"
  using str_body_hex [of c r] str_body_unit [of c r] by (simp only: append_assoc split: if_split) blast

lemma str_body_quote: "list_all (\<lambda>c. c < 65536) s \<Longrightarrow> str_body (quote_body s @ 34 # r) = Some (s, r)"
proof (induction s rule: quote_body.induct)
  case (2 c)
  then show ?case using str_body_one [of c "34 # r"] by (simp only: quote_body.simps list.pred_inject) (simp add: add_unit_def)
next
  case (3 c d s)
  show ?case
  proof (cases "is_high c \<and> is_low d")
    case True
    then have "\<not> c < 93" "\<not> d < 93" by (auto simp: is_high_def is_low_def)
    with 3 True show ?thesis by (simp add: add_unit_def)
  next
    case False
    then have "quote_body (c # d # s) @ 34 # r
        = (if is_high c \<or> is_low c then [92, 117] @ hex4 c else quote_unit c) @ (quote_body (d # s) @ 34 # r)"
      by (simp only: quote_body.simps if_False append_assoc)
    moreover have "str_body (quote_body (d # s) @ 34 # r) = Some (d # s, r)" using 3 False by simp
    moreover have "c < 65536" using 3(3) by simp
    ultimately show ?thesis by (simp only: str_body_one) (simp add: add_unit_def)
  qed
qed (simp add: add_unit_def)

definition ends_value :: "jstring \<Rightarrow> bool" where
  "ends_value r \<longleftrightarrow> r = [] \<or> hd r \<in> {44, 93, 125}"

lemma digits_value_app: "digits_value (a @ [c]) = 10 * digits_value a + (c - 48)"
  by (simp add: digits_value_def)

lemma digits_value_dec: "digits_value (dec n) = n"
proof (induction n rule: dec.induct)
  case (1 n)
  then show ?case by (subst dec.simps) (auto simp: digits_value_app, simp add: digits_value_def)
qed

lemma hd_dec: "hd (dec n) = 48 \<longleftrightarrow> n = 0"
proof (induction n rule: dec.induct)
  case (1 n)
  then show ?case by (subst dec.simps) auto
qed

lemma dec_0: "dec 0 = [48]"
  by (subst dec.simps) simp

lemma digit_dec: "c \<in> set (dec n) \<Longrightarrow> is_digit c"
  using dec_digits by (simp add: is_digit_def)

lemma take_dec:
  assumes "ends_value r"
  shows "takeWhile is_digit (dec n @ r) = dec n" "dropWhile is_digit (dec n @ r) = r"
proof -
  have "takeWhile is_digit r = []" "dropWhile is_digit r = r"
    using assms by (cases r; auto simp: ends_value_def is_digit_def)+
  then show "takeWhile is_digit (dec n @ r) = dec n" "dropWhile is_digit (dec n @ r) = r"
    by (simp_all add: digit_dec takeWhile_append2 dropWhile_append2)
qed

lemma safe_integer_cases:
  assumes "is_safe_integer q"
  obtains i where "q = of_int i" "fst (quotient_of q) = i"
proof -
  have "q = of_int (fst (quotient_of q)) / of_int (snd (quotient_of q))"
    by (metis prod.collapse quotient_of_div)
  with assms that show ?thesis by (simp add: is_safe_integer_def)
qed

lemma parse_number_string:
  assumes "is_safe_integer q" and "ends_value r"
  shows "parse_number (num_string q @ r) = Some (JNum q, r)"
proof -
  obtain i where q: "q = of_int i" "fst (quotient_of q) = i" using assms(1) by (rule safe_integer_cases)
  have tail: "fraction r = Some (0, r)" "exponent_part r = Some (0, r)"
    using assms(2) by (auto simp: fraction_def exponent_part_def ends_value_def split: list.splits)
  have h: "hd (dec (nat \<bar>i\<bar>) @ r) \<noteq> 45"
    using dec_digits [of "hd (dec (nat \<bar>i\<bar>))" "nat \<bar>i\<bar>"] by (simp add: hd_append)
  have lead: "hd (dec (nat \<bar>i\<bar>)) = 48 \<Longrightarrow> length (dec (nat \<bar>i\<bar>)) = 1"
    by (simp add: hd_dec dec_0)
  show ?thesis
    using assms h lead
    by (cases "i < 0")
      (auto simp: num_string_def q parse_number_def js_def Let_def take_dec [OF assms(2)] tail digits_value_dec
        to_double_def pow10_def)
qed

lemma skip_ws_Cons: "c \<notin> {9, 10, 13, 32} \<Longrightarrow> skip_ws (c # s) = c # s"
  by (simp add: skip_ws_def)

text \<open>The values whose text reads back: safe integers, code units, distinct keys.\<close>

fun plain :: "json \<Rightarrow> bool" where
  "plain (JNum q) = is_safe_integer q"
| "plain (JStr s) = list_all (\<lambda>c. c < 65536) s"
| "plain (JArr vs) = list_all plain vs"
| "plain (JObj kvs) = (distinct (map fst kvs) \<and> list_all (\<lambda>(k, v). list_all (\<lambda>c. c < 65536) k \<and> plain v) kvs)"
| "plain v = True"

text \<open>The first code unit of a value tells the parser which branch to take.\<close>

lemma num_string_head: "is_safe_integer q \<Longrightarrow> \<exists>c s. num_string q = c # s \<and> (c = 45 \<or> is_digit c)"
  using digit_dec [of "hd (dec (nat \<bar>fst (quotient_of q)\<bar>))" "nat \<bar>fst (quotient_of q)\<bar>"]
  by (cases "dec (nat \<bar>fst (quotient_of q)\<bar>)") (auto simp: num_string_def js_def)

lemma parse_elems_join:
  assumes "vs \<noteq> []" and "length vs \<le> k"
    and "\<And>v r. v \<in> set vs \<Longrightarrow> ends_value r \<Longrightarrow> p (f v @ r) = Some (v, r)"
  shows "parse_elems k p (join_with [44] (map f vs) @ 93 # r) = Some (vs, r)"
  using assms
proof (induction vs arbitrary: k rule: induct_list012)
  case (2 v)
  then show ?case by (cases k) (auto simp: ends_value_def skip_ws_Cons)
next
  case (3 v w vs)
  then obtain k' where k: "k = Suc k'" by (cases k) auto
  have "parse_elems k' p (join_with [44] (map f (w # vs)) @ 93 # r) = Some (w # vs, r)"
    using 3 k by simp
  then show ?case using 3(5) [of v] by (simp add: k ends_value_def skip_ws_Cons)
qed simp

lemma parse_members_join:
  assumes "kvs \<noteq> []" and "length kvs \<le> n"
    and "\<forall>(key, v)\<in>set kvs. list_all (\<lambda>c. c < 65536) key \<and> (\<forall>r. ends_value r \<longrightarrow> p (f v @ r) = Some (v, r))"
  shows "parse_members n p (join_with [44] (map (\<lambda>(k, v). json_quote k @ [58] @ f v) kvs) @ 125 # r) = Some (kvs, r)"
  using assms
proof (induction kvs arbitrary: n rule: induct_list012)
  case (2 kv)
  obtain key v where kv: "kv = (key, v)" by (cases kv)
  with 2 show ?case
    by (cases n) (auto simp: json_quote_def ends_value_def skip_ws_Cons str_body_quote)
next
  case (3 kv kw kvs)
  obtain key v where kv: "kv = (key, v)" by (cases kv)
  obtain n' where n: "n = Suc n'" using 3(4) by (cases n) auto
  have "parse_members n' p (join_with [44] (map (\<lambda>(k, v). json_quote k @ [58] @ f v) (kw # kvs)) @ 125 # r)
      = Some (kw # kvs, r)"
    using 3(2) [of n'] 3(4,5) n by simp
  then show ?case using 3(5)
    by (simp add: n kv json_quote_def ends_value_def skip_ws_Cons str_body_quote)
qed simp

lemma fold_jmap_set_distinct:
  "distinct (map fst (m @ kvs)) \<Longrightarrow> fold (\<lambda>(k, v) m. jmap_set k v m) kvs m = m @ kvs"
proof (induction kvs arbitrary: m)
  case (Cons kv kvs)
  obtain k v where kv: "kv = (k, v)" by (cases kv)
  have "jmap_set k v m = m @ [(k, v)]" if "k \<notin> fst ` set m" for m :: "('a \<times> 'b) list"
    using that by (induction m) auto
  with Cons(2) have "jmap_set k v m = m @ [(k, v)]" by (auto simp: kv)
  with Cons(1) [of "m @ [(k, v)]"] Cons(2) show ?case by (simp add: kv)
qed simp

lemma join_head: "vs \<noteq> [] \<Longrightarrow> f (hd vs) = c # s \<Longrightarrow> \<exists>t. join_with sep (map f vs) @ r = c # t"
  by (cases vs; cases "tl vs") auto

lemma value_head: "plain v \<Longrightarrow> \<exists>c s. json_stringify v = c # s \<and> c \<notin> {9, 10, 13, 32, 93, 125}"
  using num_string_head [of "case v of JNum q \<Rightarrow> q"]
  by (cases v) (auto simp: js_def json_quote_def is_digit_def)

lemma length_join_ge: "length vs \<le> Suc (length (join_with [c] vs))"
  by (induction vs rule: induct_list012) auto

lemma length_member_join: "x \<in> set xs \<Longrightarrow> length x \<le> length (join_with sep xs)"
  by (induction xs rule: induct_list012) auto

lemma parse_value_stringify:
  "plain v \<Longrightarrow> length (json_stringify v) \<le> n \<Longrightarrow> ends_value r \<Longrightarrow>
   parse_value n (json_stringify v @ r) = Some (v, r)"
proof (induction v arbitrary: n r)
  case JNull
  then show ?case by (cases n) (auto simp: js_def skip_ws_Cons parse_literal_def starts_with_def)
next
  case (JBool b)
  then show ?case by (cases n; cases b) (auto simp: js_def skip_ws_Cons parse_literal_def starts_with_def)
next
  case (JNum q)
  obtain c s where c: "num_string q = c # s" "c = 45 \<or> is_digit c"
    using JNum(1) num_string_head [of q] by auto
  obtain n' where n: "n = Suc n'" using JNum(2) c by (cases n) auto
  have "parse_number (c # s @ r) = Some (JNum q, r)"
    using parse_number_string [of q r] JNum c(1) by simp
  then show ?case using c by (auto simp: n skip_ws_Cons is_digit_def)
next
  case (JStr s)
  obtain n' where n: "n = Suc n'" using JStr(2) by (cases n) (auto simp: json_quote_def)
  show ?case using JStr(1) by (simp add: n json_quote_def skip_ws_Cons str_body_quote)
next
  case (JArr vs)
  obtain n' where n: "n = Suc n'" using JArr(3) by (cases n) auto
  let ?body = "join_with [44] (map json_stringify vs) @ 93 # r"
  have len: "length ?body = length (join_with [44] (map json_stringify vs)) + 1 + length r" by simp
  show ?case
  proof (cases "vs = []")
    case True
    then show ?thesis by (simp add: n skip_ws_Cons)
  next
    case False
    obtain c s where c: "json_stringify (hd vs) = c # s" "c \<notin> {9, 10, 13, 32, 93, 125}"
      using value_head [of "hd vs"] JArr(2) False by (cases vs) auto
    obtain t where t: "?body = c # t" using join_head [of vs json_stringify c s "[44]" "93 # r"] False c(1) by blast
    have "parse_value n' (json_stringify v @ r') = Some (v, r')" if "v \<in> set vs" "ends_value r'" for v r'
      using JArr(1) [OF that(1)] JArr(2,3) that length_member_join [of "json_stringify v" "map json_stringify vs" "[44]"]
      by (auto simp: n list_all_iff)
    then have "parse_elems (length ?body) (parse_value n') ?body = Some (vs, r)"
      using parse_elems_join [OF False, of "length ?body" "parse_value n'" json_stringify r]
        length_join_ge [of "map json_stringify vs" 44] by simp
    with t c(2) show ?thesis by (simp add: n skip_ws_Cons del: parse_elems.simps)
  qed
next
  case (JObj kvs)
  obtain n' where n: "n = Suc n'" using JObj(3) by (cases n) auto
  let ?f = "\<lambda>(k, v). json_quote k @ [58] @ json_stringify v"
  let ?body = "join_with [44] (map ?f kvs) @ 125 # r"
  show ?case
  proof (cases "kvs = []")
    case True
    then show ?thesis by (simp add: n skip_ws_Cons)
  next
    case False
    obtain s where "?f (hd kvs) = 34 # s" by (cases "hd kvs") (auto simp: json_quote_def)
    then obtain t where t: "?body = 34 # t" using join_head [of kvs ?f 34 s "[44]" "125 # r"] False by blast
    have p: "parse_value n' (json_stringify v @ r') = Some (v, r')" if "(k, v) \<in> set kvs" "ends_value r'" for k v r'
    proof -
      have "?f (k, v) \<in> set (map ?f kvs)" using imageI [OF that(1), of ?f] by simp
      from length_member_join [OF this, of "[44]"] JObj(3) have "length (json_stringify v) \<le> n'" by (simp add: n)
      moreover have "plain v" using JObj(2) that(1) by (auto simp: list_all_iff)
      ultimately show ?thesis using JObj(1) [OF that(1), of v n' r'] that(2) by simp
    qed
    then have "\<forall>(k, v)\<in>set kvs. list_all (\<lambda>c. c < 65536) k
        \<and> (\<forall>r. ends_value r \<longrightarrow> parse_value n' (json_stringify v @ r) = Some (v, r))"
      using JObj(2) by (auto simp: list_all_iff)
    from parse_members_join [OF False _ this, of "length ?body" r]
    have "parse_members (length ?body) (parse_value n') ?body = Some (kvs, r)"
      using length_join_ge [of "map ?f kvs" 44] by simp
    with t JObj(2) fold_jmap_set_distinct [of "[]" kvs] show ?thesis
      by (simp add: n skip_ws_Cons del: parse_members.simps)
  qed
qed

lemma json_parse_stringify: "plain v \<Longrightarrow> json_parse (json_stringify v) = Some v"
  using parse_value_stringify [of v "length (json_stringify v)" "[]"]
  by (simp add: json_parse_def ends_value_def skip_ws_def)

end
