(* ===== verification/Pipeline.thy ===== *)
theory Pipeline
  imports Strategy_Grep Strategy_Ls Strategy_Test Cas Json
begin

text \<open>
  \<open>packages/rtk-core/src/pipeline.ts\<close> and \<open>stats.ts\<close>, with the wire contract of a compression
  result from \<open>packages/contracts/src/rtk.ts\<close>. One call sanitizes and redacts the output,
  hashes it, classifies it, runs a strategy and trims the result to the budget; it falls back
  to the raw text when nothing would be gained.
\<close>

section \<open>contracts/src/rtk.ts\<close>

datatype degradedReason =
    SpawnFailed | Timeout | Crash | Protocol | NoGain | Overloaded | StorageCapacity | StorageError

datatype compressStatus = Compressed | Unchanged | Skipped | Degraded

record compressResult =
  routput :: jstring
  rstatus :: compressStatus
  targetTokens :: nat
  actualTokens :: nat
  budgetExceeded :: bool
  omittedRanges :: "(nat \<times> nat) list"
  diagnostics :: "jstring list"
  rawHash :: jstring
  rstrategy :: strategyName
  compressed :: bool
  truncated :: bool
  rawTokensEst :: nat
  outTokensEst :: nat
  degraded :: "degradedReason option"

fun ranges_ordered :: "(nat \<times> nat) list \<Rightarrow> bool" where
  "ranges_ordered [] = True"
| "ranges_ordered [(a, b)] = (a \<le> b)"
| "ranges_ordered ((a, b) # (c, d) # rs) = (a \<le> b \<and> b < c \<and> ranges_ordered ((c, d) # rs))"

text \<open>The \<open>refine\<close> predicate of \<open>compressResultSchema\<close>.\<close>

definition compressResult_refine :: "('a compressResult_scheme) \<Rightarrow> bool" where
  "compressResult_refine r \<longleftrightarrow>
     compressed r = (rstatus r = Compressed)
     \<and> (\<not> compressed r \<or> outTokensEst r < rawTokensEst r)
     \<and> actualTokens r = outTokensEst r
     \<and> budgetExceeded r = (targetTokens r < actualTokens r)
     \<and> ranges_ordered (omittedRanges r)"

section \<open>pipeline.ts\<close>

definition DEFAULT_BUDGET_TOKENS :: nat where "DEFAULT_BUDGET_TOKENS = 512"

record compressInput =
  itool :: jstring
  ioutput :: jstring
  imetadata :: "json option"
  ibudgetTokens :: "nat option"
  iredactor :: "redactor option"
  classifyOverride :: "(classification + strategyName) option"

record compressOutput = compressResult +
  rawForStore :: jstring
  cnotes :: "jstring list"

fun strategyFn :: "strategyName \<Rightarrow> strategy" where
  "strategyFn Ls = lsStrategy"
| "strategyFn Grep = grepStrategy"
| "strategyFn Read = readStrategy"
| "strategyFn Diff = diffStrategy"
| "strategyFn Test = testStrategy"
| "strategyFn Unknown = fallbackStrategy"

fun normalizeOverride :: "classification + strategyName \<Rightarrow> classification" where
  "normalizeOverride (Inl c) = c"
| "normalizeOverride (Inr n) = \<lparr>cstrategy = n, confidence = 1, signals = [js ''classifyOverride'']\<rparr>"

text \<open>The closure \<open>build\<close> of \<open>compressToolOutput\<close>.\<close>

definition build :: "nat \<Rightarrow> jstring \<Rightarrow> jstring \<Rightarrow> bool \<Rightarrow> jstring \<Rightarrow> bool \<Rightarrow> degradedReason option \<Rightarrow> jstring list
    \<Rightarrow> strategyName \<Rightarrow> (nat \<times> nat) list \<Rightarrow> compressOutput" where
  "build budget raw hashRef trunc output compr degr notes strategy ranges =
     \<lparr>routput = output,
      rstatus = (if degr \<noteq> None then Degraded else if compr then Compressed else Unchanged),
      targetTokens = budget, actualTokens = estimateTokens output,
      budgetExceeded = (budget < estimateTokens output),
      omittedRanges = ranges, diagnostics = notes, rawHash = hashRef, rstrategy = strategy,
      compressed = compr, truncated = trunc, rawTokensEst = estimateTokens raw,
      outTokensEst = estimateTokens output, degraded = degr, rawForStore = raw, cnotes = notes\<rparr>"

text \<open>One round of the loop that collects omitted ranges; the last range is at the head.\<close>

fun omit_step :: "nat list \<Rightarrow> nat \<Rightarrow> (nat \<times> nat) list \<Rightarrow> (nat \<times> nat) list" where
  "omit_step retained i [] = (if i + 1 \<in> set retained then [] else [(i + 1, i + 1)])"
| "omit_step retained i ((a, b) # rs) =
     (if i + 1 \<in> set retained then (a, b) # rs
      else if b = i then (a, i + 1) # rs
      else (i + 1, i + 1) # (a, b) # rs)"

definition omitted_ranges :: "nat list \<Rightarrow> nat \<Rightarrow> (nat \<times> nat) list" where
  "omitted_ranges retained n = rev (fold (omit_step retained) [0 ..< n] [])"

definition retained_lines :: "cline list \<Rightarrow> nat list" where
  "retained_lines kept = concat (map (\<lambda>l. case sourceLine l of None \<Rightarrow> [] | Some k \<Rightarrow> [k]) kept)"

definition source_lines :: "jstring \<Rightarrow> jstring list" where
  "source_lines raw = (let ls = split_on LF raw in if last ls = [] then butlast ls else ls)"

definition classification_of :: "compressInput \<Rightarrow> jstring \<Rightarrow> classification" where
  "classification_of input raw =
     (case classifyOverride input of
        Some ov \<Rightarrow> normalizeOverride ov
      | None \<Rightarrow> classify (itool input) raw)"

definition raw_of :: "compressInput \<Rightarrow> jstring" where
  "raw_of input =
     (case iredactor input of None \<Rightarrow> noopRedactor | Some r \<Rightarrow> r) (sanitize (ioutput input))"

definition budget_of :: "compressInput \<Rightarrow> nat" where
  "budget_of input = (case ibudgetTokens input of None \<Rightarrow> DEFAULT_BUDGET_TOKENS | Some b \<Rightarrow> b)"

definition strategy_of :: "compressInput \<Rightarrow> strategyResult" where
  "strategy_of input =
     strategyFn (cstrategy (classification_of input (raw_of input))) (raw_of input) (itool input)"

definition hash_ref :: "(byte list \<Rightarrow> byte list) \<Rightarrow> jstring \<Rightarrow> jstring" where
  "hash_ref digest raw = js ''sha256:'' @ sha256Hex digest (utf8_encode raw)"

definition budget_options :: "(byte list \<Rightarrow> byte list) \<Rightarrow> compressInput \<Rightarrow> budgetOptions" where
  "budget_options digest input =
     \<lparr>budgetTokens = budget_of input, orawHash = hash_ref digest (raw_of input),
      orawTokensEst = estimateTokens (raw_of input), otool = itool input\<rparr>"

definition compressToolOutput :: "(byte list \<Rightarrow> byte list) \<Rightarrow> compressInput \<Rightarrow> compressOutput" where
  "compressToolOutput digest input =
     (let budget = budget_of input;
          raw = raw_of input;
          hashRef = hash_ref digest raw;
          trunc = (case imetadata input of None \<Rightarrow> False | Some m \<Rightarrow> json_get m (js ''truncated'') = Some (JBool True));
          cls = classification_of input raw;
          mk = build budget raw hashRef trunc;
          sr = strategy_of input;
          notes = signals cls @ snotes sr
      in if estimateTokens raw \<le> budget \<or> sstrategy sr = Unknown \<or> sstrategy sr = Read
         then mk raw False None notes (sstrategy sr) []
         else let budgeted = applyBudget (slines sr) (budget_options digest input)
              in if estimateTokens raw \<le> estimateTokens (btext budgeted)
                 then mk raw False None
                        (notes @ [js ''no_gain: assembled output would not be smaller than raw'']) (sstrategy sr) []
                 else mk (btext budgeted) True None
                        (notes @ [js ''budget: '' @ dec (elidedTokens budgeted) @ js '' token(s) elided across ''
                                  @ dec (groupsCollapsed budgeted) @ js '' group(s)''])
                        (sstrategy sr)
                        (omitted_ranges (retained_lines (keptLines budgeted)) (length (source_lines raw))))"

section \<open>stats.ts\<close>

record pipelineStats =
  requests :: nat
  compressedCount :: nat
  passthroughCount :: nat
  degradedCounts :: "(degradedReason, nat) jmap"

definition DEGRADED_REASONS :: "degradedReason list" where
  "DEGRADED_REASONS = [SpawnFailed, Timeout, Crash, Protocol, NoGain, Overloaded, StorageCapacity, StorageError]"

definition createPipelineStats :: pipelineStats where
  "createPipelineStats =
     \<lparr>requests = 0, compressedCount = 0, passthroughCount = 0, degradedCounts = map (\<lambda>r. (r, 0)) DEGRADED_REASONS\<rparr>"

definition record_result :: "('a compressResult_scheme) \<Rightarrow> pipelineStats \<Rightarrow> pipelineStats" where
  "record_result r s =
     (let s1 = s\<lparr>requests := requests s + 1\<rparr>;
          s2 = (if compressed r then s1\<lparr>compressedCount := compressedCount s + 1\<rparr>
                else s1\<lparr>passthroughCount := passthroughCount s + 1\<rparr>)
      in case degraded r of
           Some reason \<Rightarrow>
             if reason \<noteq> NoGain
             then s2\<lparr>degradedCounts := jmap_set reason (get_or (degradedCounts s) reason 0 + 1) (degradedCounts s)\<rparr>
             else s2
         | None \<Rightarrow> s2)"

lemmas pipeline_defs [run_simps] = DEFAULT_BUDGET_TOKENS_def omitted_ranges_def retained_lines_def source_lines_def
  classification_of_def raw_of_def budget_of_def strategy_of_def hash_ref_def budget_options_def build_def
  compressToolOutput_def

section \<open>Every dispatched strategy meets the contract\<close>

interpretation dispatch: line_strategy "strategyFn name" for name
  using ls.lines_faithful grep.lines_faithful read.lines_faithful diff.lines_faithful test.lines_faithful
    fallback.lines_faithful
  by unfold_locales (cases name; simp)

section \<open>Omitted ranges\<close>

definition in_ranges :: "(nat \<times> nat) list \<Rightarrow> nat \<Rightarrow> bool" where
  "in_ranges rs k \<longleftrightarrow> (\<exists>(a, b)\<in>set rs. a \<le> k \<and> k \<le> b)"

lemma ranges_ordered_iff:
  "ranges_ordered rs \<longleftrightarrow> (\<forall>r\<in>set rs. fst r \<le> snd r) \<and> sorted_wrt (\<lambda>x y. snd x < fst y) rs"
  by (induction rs rule: ranges_ordered.induct) (auto 0 3)

lemma in_ranges_Cons: "in_ranges ((a, b) # rs) k \<longleftrightarrow> a \<le> k \<and> k \<le> b \<or> in_ranges rs k"
  by (auto simp: in_ranges_def)

definition omit_inv :: "nat list \<Rightarrow> nat \<Rightarrow> (nat \<times> nat) list \<Rightarrow> bool" where
  "omit_inv retained n rs \<longleftrightarrow>
     (\<forall>k. in_ranges rs k \<longleftrightarrow> 1 \<le> k \<and> k \<le> n \<and> k \<notin> set retained)
     \<and> ranges_ordered (rev rs) \<and> (\<forall>r\<in>set rs. 1 \<le> fst r \<and> snd r \<le> n)"

lemma omit_step_inv:
  assumes "omit_inv retained n rs" shows "omit_inv retained (Suc n) (omit_step retained n rs)"
proof (cases rs)
  case Nil
  with assms show ?thesis by (auto simp: omit_inv_def in_ranges_def le_Suc_eq)
next
  case (Cons ab rest)
  obtain a b where ab: "ab = (a, b)" by (cases ab)
  have inv: "in_ranges rs k \<longleftrightarrow> 1 \<le> k \<and> k \<le> n \<and> k \<notin> set retained" for k
    using assms by (simp add: omit_inv_def)
  have ord: "sorted_wrt (\<lambda>x y. snd y < fst x) ((a, b) # rest)" "\<forall>r\<in>set ((a, b) # rest). fst r \<le> snd r"
      "\<forall>r\<in>set ((a, b) # rest). 1 \<le> fst r \<and> snd r \<le> n"
    using assms by (auto simp: omit_inv_def ranges_ordered_iff sorted_wrt_append sorted_wrt_rev Cons ab)
  show ?thesis
  proof (cases "Suc n \<in> set retained \<or> b = n")
    case True
    with inv ord show ?thesis
      by (auto simp: omit_inv_def Cons ab in_ranges_Cons ranges_ordered_iff sorted_wrt_append sorted_wrt_rev le_Suc_eq)
  next
    case False
    with inv ord show ?thesis
      by (auto simp: omit_inv_def Cons ab in_ranges_Cons ranges_ordered_iff sorted_wrt_append sorted_wrt_rev le_Suc_eq)
  qed
qed

lemma omit_fold: "omit_inv retained n (fold (omit_step retained) [0 ..< n] [])"
  by (induction n) (simp add: omit_inv_def in_ranges_def, simp add: omit_step_inv)

lemma omitted_ranges_exact:
  "in_ranges (omitted_ranges retained n) k \<longleftrightarrow> 1 \<le> k \<and> k \<le> n \<and> k \<notin> set retained"
  using omit_fold [of retained n] by (simp add: omit_inv_def omitted_ranges_def in_ranges_def)

lemma omitted_ranges_ordered: "ranges_ordered (omitted_ranges retained n)"
  using omit_fold [of retained n] by (simp add: omit_inv_def omitted_ranges_def)

lemma retained_lines_mem: "k \<in> set (retained_lines kept) \<longleftrightarrow> (\<exists>l\<in>set kept. sourceLine l = Some k)"
  by (force simp: retained_lines_def split: option.splits)

section \<open>The branches of a call\<close>

lemma build_simps [simp]:
  "routput (build b raw h t out c d ns st rs) = out"
  "compressed (build b raw h t out c d ns st rs) = c"
  "rawForStore (build b raw h t out c d ns st rs) = raw"
  "rawHash (build b raw h t out c d ns st rs) = h"
  "omittedRanges (build b raw h t out c d ns st rs) = rs"
  "rawTokensEst (build b raw h t out c d ns st rs) = estimateTokens raw"
  "outTokensEst (build b raw h t out c d ns st rs) = estimateTokens out"
  "rstrategy (build b raw h t out c d ns st rs) = st"
  "degraded (build b raw h t out c d ns st rs) = d"
  "targetTokens (build b raw h t out c d ns st rs) = b"
  by (simp_all add: build_def)

text \<open>A call either returns the raw text unchanged or the budgeted text with a real gain.\<close>

lemma compress_cases:
  obtains (unchanged) "routput (compressToolOutput digest input) = raw_of input"
      "\<not> compressed (compressToolOutput digest input)" "omittedRanges (compressToolOutput digest input) = []"
  | (budgeted) "compressed (compressToolOutput digest input)"
      "routput (compressToolOutput digest input)
        = btext (applyBudget (slines (strategy_of input)) (budget_options digest input))"
      "omittedRanges (compressToolOutput digest input)
        = omitted_ranges (retained_lines (keptLines (applyBudget (slines (strategy_of input)) (budget_options digest input))))
            (length (source_lines (raw_of input)))"
      "estimateTokens (routput (compressToolOutput digest input)) < estimateTokens (raw_of input)"
      "budget_of input < estimateTokens (raw_of input)"
  by (cases "estimateTokens (raw_of input) \<le> budget_of input \<or> sstrategy (strategy_of input) = Unknown
        \<or> sstrategy (strategy_of input) = Read";
      cases "estimateTokens (raw_of input)
        \<le> estimateTokens (btext (applyBudget (slines (strategy_of input)) (budget_options digest input)))")
    (simp_all add: compressToolOutput_def Let_def)

lemma compress_raw [simp]:
  "rawForStore (compressToolOutput digest input) = raw_of input"
  "rawHash (compressToolOutput digest input) = hash_ref digest (raw_of input)"
  "rawTokensEst (compressToolOutput digest input) = estimateTokens (raw_of input)"
  "degraded (compressToolOutput digest input) = None"
  "rstrategy (compressToolOutput digest input) = sstrategy (strategy_of input)"
  "targetTokens (compressToolOutput digest input) = budget_of input"
  by (simp_all add: compressToolOutput_def Let_def)

lemma compress_fields [simp]:
  "rstatus (compressToolOutput digest input)
     = (if compressed (compressToolOutput digest input) then Compressed else Unchanged)"
  "actualTokens (compressToolOutput digest input) = estimateTokens (routput (compressToolOutput digest input))"
  "outTokensEst (compressToolOutput digest input) = estimateTokens (routput (compressToolOutput digest input))"
  "budgetExceeded (compressToolOutput digest input)
     \<longleftrightarrow> budget_of input < estimateTokens (routput (compressToolOutput digest input))"
  by (simp_all add: compressToolOutput_def Let_def build_def)

section \<open>Lines of the output\<close>

lemma split_on_append: "split_on c (a @ c # b) = split_on c a @ split_on c b"
  by (induction a) (auto split: list.splits)

lemma joined_line:
  assumes "x \<in> set out" and "LF \<notin> set x"
  shows "x \<in> set (split_on LF (join_with [LF] out @ LF # rest))"
  using assms
proof (induction out rule: induct_list012)
  case (3 a b out)
  show ?case
  proof (cases "x = a")
    case True
    with 3(4) show ?thesis by (simp add: split_on_append split_on_self)
  next
    case False
    with 3 have "x \<in> set (split_on LF (join_with [LF] (b # out) @ LF # rest))" by simp
    then show ?thesis by (simp add: split_on_append)
  qed
qed (auto simp: split_on_append split_on_self)

lemma splitLines_free: "l \<in> set (splitLines raw) \<Longrightarrow> LF \<notin> set l"
  by (auto simp: splitLines_def Let_def dest: in_set_butlastD split_on_free split: if_splits)

lemma splitLines_sub: "l \<in> set (splitLines raw) \<Longrightarrow> l \<in> set (split_on LF raw)"
  by (auto simp: splitLines_def Let_def dest: in_set_butlastD split: if_splits)

lemma source_lines_eq: "raw \<noteq> [] \<Longrightarrow> source_lines raw = splitLines raw"
  by (cases raw; cases "split_on LF raw")
    (auto simp: source_lines_def splitLines_def Let_def split: list.splits if_splits)

text \<open>A kept line of a compressed result is a line of the output text.\<close>

lemma kept_in_output:
  assumes "compressed (compressToolOutput digest input)"
    and "l \<in> set (keptLines (applyBudget (slines (strategy_of input)) (budget_options digest input)))"
    and "LF \<notin> set (ctext l)"
  shows "ctext l \<in> set (split_on LF (routput (compressToolOutput digest input)))"
proof (cases digest input rule: compress_cases)
  case unchanged
  with assms(1) show ?thesis by simp
next
  case budgeted
  let ?b = "applyBudget (slines (strategy_of input)) (budget_options digest input)"
  obtain out selected elided where
    "btext ?b = join_with [LF] out @ [LF] @ footer (budget_options digest input) (ceil_div4 elided)"
    "faithful_pass (slines (strategy_of input)) selected (out, keptLines ?b)"
    by (rule applyBudget_spec)
  moreover then have "ctext l \<in> set out"
    using assms(2) by (force simp: faithful_pass_def dest: subseq_set)
  ultimately show ?thesis using joined_line [OF _ assms(3)] by (simp add: budgeted(2))
qed

text \<open>An anchored source line is a line of the output, whatever branch the call takes.\<close>

lemma anchored_in_output:
  assumes "l \<in> set (slines (strategy_of input))" and "anchor l"
    and "ctext l \<in> set (splitLines (raw_of input))"
  shows "ctext l \<in> set (split_on LF (routput (compressToolOutput digest input)))"
proof (cases digest input rule: compress_cases)
  case unchanged
  with splitLines_sub [OF assms(3)] show ?thesis by simp
next
  case budgeted
  have "l \<in> set (keptLines (applyBudget (slines (strategy_of input)) (budget_options digest input)))"
    using dispatch.anchor_survives [OF assms(1) [unfolded strategy_of_def] assms(2)]
    by (simp add: strategy_of_def)
  from kept_in_output [OF budgeted(1) this splitLines_free [OF assms(3)]] show ?thesis .
qed

section \<open>Accounting for every source line\<close>

lemma unretained_in_ranges:
  assumes "compressed (compressToolOutput digest input)"
    and "k \<notin> set (retained_lines (keptLines (applyBudget (slines (strategy_of input)) (budget_options digest input))))"
    and "1 \<le> k" and "k \<le> length (source_lines (raw_of input))"
  shows "in_ranges (omittedRanges (compressToolOutput digest input)) k"
  using assms by (cases digest input rule: compress_cases) (simp_all add: omitted_ranges_exact)

text \<open>A retained line number names a line of the output that shows the source line.\<close>

lemma retained_shown:
  assumes "compressed (compressToolOutput digest input)"
    and "k \<in> set (retained_lines (keptLines (applyBudget (slines (strategy_of input)) (budget_options digest input))))"
  shows "splitLines (raw_of input) ! (k - 1) \<in> set (split_on LF (routput (compressToolOutput digest input)))
     \<or> js_trim (splitLines (raw_of input) ! (k - 1)) = []"
proof -
  let ?src = "splitLines (raw_of input)"
  obtain l where l: "l \<in> set (keptLines (applyBudget (slines (strategy_of input)) (budget_options digest input)))"
      "sourceLine l = Some k"
    using assms(2) by (auto simp: retained_lines_mem)
  have sh: "1 \<le> k" "k \<le> length ?src" "ctext l = ?src ! (k - 1) \<or> js_trim (?src ! (k - 1)) = []"
    using dispatch.kept_faithful l unfolding strategy_of_def faithful_lines_def shows_line_def by fastforce+
  show ?thesis
  proof (cases "ctext l = ?src ! (k - 1)")
    case True
    have "?src ! (k - 1) \<in> set ?src" using sh(1,2) by (intro nth_mem) simp
    then have "LF \<notin> set (ctext l)" using splitLines_free True by metis
    from kept_in_output [OF assms(1) l(1) this] True show ?thesis by simp
  qed (use sh(3) in blast)
qed

section \<open>Properties\<close>


text \<open>C2: No line disappears silently. Every line of the stored text is listed in the omitted ranges,
  or is a line of the output, or is blank.\<close>

theorem compress_accounts_for_every_line:
  "k = 0 \<or> length (source_lines (rawForStore (compressToolOutput digest input))) < k
   \<or> in_ranges (omittedRanges (compressToolOutput digest input)) k
   \<or> source_lines (rawForStore (compressToolOutput digest input)) ! (k - 1)
       \<in> set (split_on LF (routput (compressToolOutput digest input)))
   \<or> js_trim (source_lines (rawForStore (compressToolOutput digest input)) ! (k - 1)) = []"
proof (cases "k = 0 \<or> length (source_lines (raw_of input)) < k")
  case False
  then have nonempty: "raw_of input \<noteq> []" by (auto simp: source_lines_def)
  note src = source_lines_eq [OF nonempty]
  show ?thesis
  proof (cases digest input rule: compress_cases)
    case unchanged
    have "splitLines (raw_of input) ! (k - 1) \<in> set (split_on LF (raw_of input))"
      using False by (intro splitLines_sub nth_mem) (auto simp: src)
    then show ?thesis by (simp add: unchanged(1) src)
  next
    case budgeted
    from unretained_in_ranges [OF budgeted(1)] retained_shown [OF budgeted(1)] False show ?thesis
      by (fastforce simp: src)
  qed
qed auto

text \<open>C7: A changed line of a diff is never dropped: under the diff strategy every line of the stored
  text that is not a context line is a line of the output.\<close>

theorem diff_changes_survive:
  assumes "cstrategy (classification_of input (raw_of input)) = Diff"
    and "line \<in> set (splitLines (raw_of input))" and "\<not> starts_with line (js '' '')"
  shows "line \<in> set (split_on LF (routput (compressToolOutput digest input)))"
proof -
  obtain i where i: "i < length (splitLines (raw_of input))" "line = splitLines (raw_of input) ! i"
    using assms(2) by (auto simp: in_set_conv_nth)
  from diff_change_anchored [OF i(1), of "itool input"] i(2) assms(3)
  obtain l where "l \<in> set (slines (strategy_of input))" "anchor l" "ctext l = line"
    using assms(1) by (auto simp: strategy_of_def)
  with anchored_in_output [of l input digest] assms(2) show ?thesis by simp
qed

theorem diff_changes_survive_witness:
  "js ''+b'' \<in> set (split_on LF (routput (compressToolOutput (\<lambda>_. replicate 32 0)
     \<lparr>itool = js ''bash'', ioutput = js ''@@ -1 +1 @@'' @ [LF] @ js '' a'' @ [LF] @ js ''+b'', imetadata = None,
      ibudgetTokens = Some 1, iredactor = None, classifyOverride = Some (Inr Diff)\<rparr>)))"
  by (rule diff_changes_survive) code_simp+

text \<open>C8: A failing test is never dropped: under the test strategy every line from a failure seed up to
  the next passing header is a line of the output.\<close>

theorem test_failures_survive:
  assumes "cstrategy (classification_of input (raw_of input)) = Test"
    and "i \<le> j" and "j < length (splitLines (raw_of input))"
    and "re_test SEED_RE (splitLines (raw_of input) ! i)"
    and "\<forall>k\<in>{i..j}. \<not> re_test PASS_HEADER_RE (splitLines (raw_of input) ! k)"
  shows "splitLines (raw_of input) ! j \<in> set (split_on LF (routput (compressToolOutput digest input)))"
proof -
  obtain l where "l \<in> set (slines (strategy_of input))" "anchor l" "ctext l = splitLines (raw_of input) ! j"
    using failure_line_anchored [OF assms(2-4)] assms(1,5) by (fastforce simp: strategy_of_def)
  with anchored_in_output [of l input digest] assms(3) show ?thesis by simp
qed

theorem test_failures_survive_witness:
  "splitLines (js ''FAIL a'' @ [LF] @ js ''  at x'') ! 1
     \<in> set (split_on LF (routput (compressToolOutput (\<lambda>_. replicate 32 0)
     \<lparr>itool = js ''bash'', ioutput = js ''FAIL a'' @ [LF] @ js ''  at x'', imetadata = None,
      ibudgetTokens = Some 1, iredactor = None, classifyOverride = Some (Inr Test)\<rparr>)))"
proof -
  let ?in = "\<lparr>itool = js ''bash'', ioutput = js ''FAIL a'' @ [LF] @ js ''  at x'', imetadata = None,
      ibudgetTokens = Some 1, iredactor = None, classifyOverride = Some (Inr Test)\<rparr> :: compressInput"
  have raw: "raw_of ?in = js ''FAIL a'' @ [LF] @ js ''  at x''" by code_simp
  have "cstrategy (classification_of ?in (raw_of ?in)) = Test" by code_simp
  moreover have "(1::nat) < length (splitLines (raw_of ?in))" unfolding raw by code_simp
  moreover have "re_test SEED_RE (splitLines (raw_of ?in) ! 0)" unfolding raw by code_simp
  moreover have "\<forall>k\<in>{0..1}. \<not> re_test PASS_HEADER_RE (splitLines (raw_of ?in) ! k)" unfolding raw by code_simp
  ultimately show ?thesis using test_failures_survive [of ?in 0 1 "\<lambda>_. replicate 32 0"] unfolding raw by simp
qed

lemma record_counts:
  "requests (fold record_result rs s) = requests s + length rs"
  "compressedCount (fold record_result rs s) = compressedCount s + length (filter compressed rs)"
  "passthroughCount (fold record_result rs s) = passthroughCount s + length (filter (\<lambda>r. \<not> compressed r) rs)"
  by (induction rs arbitrary: s) (auto simp: record_result_def Let_def split: option.splits)

lemma record_degraded:
  "map_of (degradedCounts s) reason = Some n \<Longrightarrow>
   map_of (degradedCounts (fold record_result rs s)) reason
     = Some (n + (if reason = NoGain then 0 else length (filter (\<lambda>r. degraded r = Some reason) rs)))"
  by (induction rs arbitrary: s n)
    (auto simp: record_result_def Let_def map_of_jmap_set get_or_def split: option.splits)

text \<open>After any sequence of results the counters are exact: requests, compressed and passed-through
  results, and one counter per degradation reason, where a missing gain is not counted.\<close>

theorem stats_exact:
  "requests (fold record_result rs createPipelineStats) = length rs
   \<and> compressedCount (fold record_result rs createPipelineStats)
      + passthroughCount (fold record_result rs createPipelineStats) = length rs
   \<and> compressedCount (fold record_result rs createPipelineStats) = length (filter compressed rs)
   \<and> map_of (degradedCounts (fold record_result rs createPipelineStats)) reason
      = Some (if reason = NoGain then 0 else length (filter (\<lambda>r. degraded r = Some reason) rs))"
proof -
  have "map_of (degradedCounts createPipelineStats) reason = Some 0"
    by (cases reason) (simp_all add: createPipelineStats_def DEGRADED_REASONS_def)
  note counts = record_degraded [OF this, of rs] record_counts [of rs createPipelineStats]
  have "requests createPipelineStats = 0" "compressedCount createPipelineStats = 0"
      "passthroughCount createPipelineStats = 0"
    by (simp_all add: createPipelineStats_def)
  then show ?thesis using sum_length_filter_compl [of compressed rs] by (simp add: counts)
qed

end
