(* ===== verification/Frames.thy ===== *)
theory Frames
  imports Utf8
begin

text \<open>
  \<open>packages/shared/src/jsonl.ts\<close>: the line reconstructor under the JSONL protocols. Chunks of a
  stream arrive cut anywhere; the reconstructor buffers the partial line, counts its UTF-8 bytes
  incrementally and gives up on a line that exceeds the frame limit.
\<close>

section \<open>The reconstructor\<close>

record frameState =
  fparts :: "jstring list"
  fbytes :: nat
  previousHigh :: bool

datatype frameError = FrameOverflow (maxFrameBytes: nat) (completedLines: "jstring list")

definition frame_reset :: frameState where
  "frame_reset = \<lparr>fparts = [], fbytes = 0, previousHigh = False\<rparr>"

definition DEFAULT_MAX_FRAME_BYTES :: nat where
  "DEFAULT_MAX_FRAME_BYTES = 8 * 1024 * 1024"

text \<open>\<open>append\<close> yields \<open>None\<close> where the code resets its state and throws.\<close>

definition frame_append :: "nat \<Rightarrow> jstring \<Rightarrow> frameState \<Rightarrow> frameState option" where
  "frame_append maxB part s =
     (if part = [] then Some s
      else let bytes = fbytes s + byteLength part - (if previousHigh s \<and> is_low (hd part) then 2 else 0)
           in if maxB < bytes then None
              else Some \<lparr>fparts = fparts s @ [part], fbytes = bytes, previousHigh = is_high (last part)\<rparr>)"

definition strip_cr :: "jstring \<Rightarrow> jstring" where
  "strip_cr line = (if ends_with line [CR] then butlast line else line)"

function push_loop :: "nat \<Rightarrow> jstring \<Rightarrow> jstring list \<Rightarrow> frameState \<Rightarrow> (frameError, jstring list) result \<times> frameState" where
  "push_loop maxB chunk lines s =
     (if LF \<in> set chunk
      then case frame_append maxB (takeWhile (\<lambda>c. c \<noteq> LF) chunk) s of
             None \<Rightarrow> (Inl (FrameOverflow maxB lines), frame_reset)
           | Some s' \<Rightarrow> push_loop maxB (tl (dropWhile (\<lambda>c. c \<noteq> LF) chunk))
                          (lines @ [strip_cr (concat (fparts s'))]) frame_reset
      else case frame_append maxB chunk s of
             None \<Rightarrow> (Inl (FrameOverflow maxB lines), frame_reset)
           | Some s' \<Rightarrow> (Inr lines, s'))"
  by pat_completeness auto
termination
proof (relation "measure (\<lambda>(maxB, chunk, lines, s). length chunk)")
  fix maxB :: nat and chunk :: jstring
  assume "LF \<in> set chunk"
  then have "dropWhile (\<lambda>c. c \<noteq> LF) chunk \<noteq> []" by (simp add: dropWhile_eq_Nil_conv)
  then have "length (tl (dropWhile (\<lambda>c. c \<noteq> LF) chunk)) < length (dropWhile (\<lambda>c. c \<noteq> LF) chunk)"
    by (cases "dropWhile (\<lambda>c. c \<noteq> LF) chunk") simp_all
  also have "\<dots> \<le> length chunk" by (rule length_dropWhile_le)
  finally show "((maxB, tl (dropWhile (\<lambda>c. c \<noteq> LF) chunk), ls, r), (maxB, chunk, lines, s))
      \<in> measure (\<lambda>(maxB, chunk, lines, s). length chunk)" for ls lines r s by simp
qed simp

declare push_loop.simps [simp del]

definition frame_push :: "nat \<Rightarrow> jstring \<Rightarrow> frameState \<Rightarrow> (frameError, jstring list) result \<times> frameState" where
  "frame_push maxB chunk s = push_loop maxB chunk [] s"

definition frame_flush :: "frameState \<Rightarrow> jstring list \<times> frameState" where
  "frame_flush s = (let rest = concat (fparts s) in (if 0 < length rest then [rest] else [], frame_reset))"

text \<open>A connection feeds its reads one after the other and stops at the first overflow.\<close>

fun feed :: "nat \<Rightarrow> jstring list \<Rightarrow> frameState \<Rightarrow> jstring list \<times> frameState option" where
  "feed maxB [] s = ([], Some s)"
| "feed maxB (chunk # chunks) s =
     (case frame_push maxB chunk s of
        (Inl e, s') \<Rightarrow> (completedLines e, None)
      | (Inr lines, s') \<Rightarrow> (case feed maxB chunks s' of (later, res) \<Rightarrow> (lines @ later, res)))"

section \<open>Counting bytes across chunks\<close>

lemma byteLength_simps [simp]:
  "byteLength [] = 0"
  "byteLength [c] = length (enc_cp (if is_surrogate c then 0xFFFD else c))"
  by (simp_all add: byteLength_def)

lemma enc_surrogate: "is_surrogate c \<Longrightarrow> length (enc_cp (if is_surrogate c then 0xFFFD else c)) = 3"
  by (simp add: enc_cp_def)

lemma byteLength_pair: "is_high c \<Longrightarrow> is_low d \<Longrightarrow> length (enc_cp (pair_value c d)) = 4"
  using pair_value_bounds [of c d] by (simp add: enc_cp_def)

lemma high_not_low: "is_high c \<Longrightarrow> \<not> is_low c"
  by (simp add: is_high_def is_low_def)

lemma byteLength_Cons_Cons:
  "byteLength (c # d # s) = (if is_high c \<and> is_low d then 4 + byteLength s
     else length (enc_cp (if is_surrogate c then 0xFFFD else c)) + byteLength (d # s))"
  using byteLength_pair [of c d] by (simp add: byteLength_def)

lemma byteLength_low: "is_low d \<Longrightarrow> byteLength (d # s) = 3 + byteLength s"
  using enc_surrogate [of d] high_not_low [of d]
  by (cases s) (auto simp: byteLength_Cons_Cons is_surrogate_def enc_cp_def)

lemma byteLength_high_app: "is_high c \<Longrightarrow> byteLength (c # s) + (if s \<noteq> [] \<and> is_low (hd s) then 2 else 0) = 3 + byteLength s"
  using enc_surrogate [of c] byteLength_low
  by (cases s) (auto simp: byteLength_Cons_Cons is_surrogate_def enc_cp_def)

lemma byteLength_append:
  "byteLength (a @ b) + (if a \<noteq> [] \<and> b \<noteq> [] \<and> is_high (last a) \<and> is_low (hd b) then 2 else 0)
   = byteLength a + byteLength b"
proof (induction a rule: utf8_encode.induct)
  case (2 c)
  show ?case
  proof (cases b)
    case (Cons d b')
    then show ?thesis
      using byteLength_high_app [of c b] by (auto simp: byteLength_Cons_Cons is_surrogate_def enc_cp_def byteLength_low)
  qed simp
next
  case (3 c d s)
  show ?case
  proof (cases "is_high c \<and> is_low d")
    case True
    with 3(1) high_not_low [of d] show ?thesis by (cases s) (auto simp: byteLength_Cons_Cons split: if_splits)
  next
    case False
    with 3(2) show ?thesis by (auto simp: byteLength_Cons_Cons)
  qed
qed simp

lemma byteLength_prefix: "byteLength a \<le> byteLength (a @ b)"
proof (cases "b \<noteq> [] \<and> is_low (hd b)")
  case True
  then show ?thesis using byteLength_append [of a b] byteLength_low [of "hd b" "tl b"] by (cases b) (auto split: if_splits)
next
  case False
  then show ?thesis using byteLength_append [of a b] by auto
qed

text \<open>The incremental count is the byte length of the buffered text.\<close>

definition frame_inv :: "frameState \<Rightarrow> bool" where
  "frame_inv s \<longleftrightarrow> fbytes s = byteLength (concat (fparts s))
     \<and> previousHigh s = (concat (fparts s) \<noteq> [] \<and> is_high (last (concat (fparts s))))"

lemma frame_inv_reset [simp]: "frame_inv frame_reset"
  by (simp add: frame_inv_def frame_reset_def)

lemma frame_append_spec:
  assumes "frame_inv s"
  shows "case frame_append maxB part s of
      None \<Rightarrow> part \<noteq> [] \<and> maxB < byteLength (concat (fparts s) @ part)
    | Some s' \<Rightarrow> frame_inv s' \<and> concat (fparts s') = concat (fparts s) @ part
        \<and> (part = [] \<or> byteLength (concat (fparts s) @ part) \<le> maxB)"
proof (cases "part = []")
  case False
  define t where "t = concat (fparts s)"
  define total where "total = fbytes s + byteLength part - (if previousHigh s \<and> is_low (hd part) then 2 else 0)"
  have inv: "fbytes s = byteLength t" "previousHigh s = (t \<noteq> [] \<and> is_high (last t))"
    using assms by (simp_all only: frame_inv_def t_def)
  have total: "total = byteLength (t @ part)"
    using byteLength_append [of t part] False by (auto simp: total_def inv split: if_splits)
  have app: "frame_append maxB part s = (if maxB < total then None
      else Some \<lparr>fparts = fparts s @ [part], fbytes = total, previousHigh = is_high (last part)\<rparr>)"
    using False by (simp add: frame_append_def total_def Let_def)
  show ?thesis
    unfolding t_def [symmetric]
    by (simp add: app total frame_inv_def False t_def [symmetric])
qed (use assms in \<open>simp add: frame_append_def\<close>)

section \<open>One read, and a sequence of reads\<close>

definition fits :: "nat \<Rightarrow> jstring \<Rightarrow> bool" where
  "fits maxB seg \<longleftrightarrow> byteLength seg \<le> maxB"

text \<open>The reference: cut the whole text at line feeds and stop before the first oversized line.\<close>

definition frames_of :: "nat \<Rightarrow> jstring \<Rightarrow> jstring list \<times> jstring option" where
  "frames_of maxB input =
     (let segs = split_on LF input
      in if list_all (fits maxB) segs then (map strip_cr (butlast segs), Some (last segs))
         else (map strip_cr (takeWhile (fits maxB) segs), None))"

definition buffered :: "frameState \<Rightarrow> jstring" where
  "buffered s = concat (fparts s)"

definition frame_ok :: "nat \<Rightarrow> frameState \<Rightarrow> bool" where
  "frame_ok maxB s \<longleftrightarrow> frame_inv s \<and> fits maxB (buffered s) \<and> LF \<notin> set (buffered s)"

lemma frame_ok_reset [simp]: "frame_ok maxB frame_reset" "buffered frame_reset = []"
  by (simp_all add: frame_ok_def buffered_def fits_def) (simp_all add: frame_reset_def)

lemma frame_append_ok:
  assumes "frame_ok maxB s" and "LF \<notin> set part"
  shows "(frame_append maxB part s = None \<longleftrightarrow> \<not> fits maxB (buffered s @ part))
    \<and> (\<forall>s'. frame_append maxB part s = Some s' \<longrightarrow> frame_ok maxB s' \<and> buffered s' = buffered s @ part)"
  using assms frame_append_spec [where s = s and maxB = maxB and part = part, folded buffered_def]
  by (cases "frame_append maxB part s") (auto simp: frame_ok_def fits_def)

lemma chunk_split: "LF \<in> set chunk \<Longrightarrow>
  chunk = takeWhile (\<lambda>c. c \<noteq> LF) chunk @ LF # tl (dropWhile (\<lambda>c. c \<noteq> LF) chunk)"
proof -
  assume "LF \<in> set chunk"
  then have ne: "dropWhile (\<lambda>c. c \<noteq> LF) chunk \<noteq> []" by (simp add: dropWhile_eq_Nil_conv)
  then have "hd (dropWhile (\<lambda>c. c \<noteq> LF) chunk) = LF" using hd_dropWhile [OF ne] by simp
  with ne have "dropWhile (\<lambda>c. c \<noteq> LF) chunk = LF # tl (dropWhile (\<lambda>c. c \<noteq> LF) chunk)"
    by (cases "dropWhile (\<lambda>c. c \<noteq> LF) chunk") simp_all
  with takeWhile_dropWhile_id [of "\<lambda>c. c \<noteq> LF" chunk] show ?thesis by argo
qed

text \<open>What the loop adds to the lines already found, and the text it leaves in the buffer.\<close>

lemma push_loop_spec:
  assumes "frame_ok maxB s"
  shows "case frames_of maxB (buffered s @ chunk) of
      (ls, None) \<Rightarrow> push_loop maxB chunk lines s = (Inl (FrameOverflow maxB (lines @ ls)), frame_reset)
    | (ls, Some rest) \<Rightarrow> \<exists>s'. push_loop maxB chunk lines s = (Inr (lines @ ls), s') \<and> frame_ok maxB s' \<and> buffered s' = rest"
  using assms
proof (induction maxB chunk lines s rule: push_loop.induct)
  case (1 maxB chunk lines s)
  let ?part = "takeWhile (\<lambda>c. c \<noteq> LF) chunk"
  let ?rest = "tl (dropWhile (\<lambda>c. c \<noteq> LF) chunk)"
  have free: "LF \<notin> set (buffered s)" using 1(2) by (simp add: frame_ok_def)
  show ?case
  proof (cases "LF \<in> set chunk")
    case False
    with free have "split_on LF (buffered s @ chunk) = [buffered s @ chunk]" by (simp add: split_on_self)
    with False frame_append_ok [OF 1(2) False] show ?thesis
      by (cases "frame_append maxB chunk s") (auto simp: frames_of_def push_loop.simps)
  next
    case True
    have part: "LF \<notin> set ?part" by (auto dest: set_takeWhileD)
    have "buffered s @ chunk = (buffered s @ ?part) @ LF # ?rest" using chunk_split [OF True] by (simp only: append_assoc)
    then have segs: "split_on LF (buffered s @ chunk) = (buffered s @ ?part) # split_on LF ?rest"
      using free part split_on_append_sep [of LF "buffered s @ ?part" ?rest] by simp
    show ?thesis
    proof (cases "frame_append maxB ?part s")
      case None
      with frame_append_ok [OF 1(2) part] True show ?thesis
        by (simp add: frames_of_def segs push_loop.simps)
    next
      case (Some s')
      have s': "fits maxB (buffered s @ ?part)" "buffered s' = buffered s @ ?part"
        using frame_append_ok [OF 1(2) part] Some by auto
      have step: "push_loop maxB chunk lines s
          = push_loop maxB ?rest (lines @ [strip_cr (buffered s @ ?part)]) frame_reset"
        using True Some s' by (subst push_loop.simps) (simp add: buffered_def)
      have "frames_of maxB (buffered s @ chunk)
          = (strip_cr (buffered s @ ?part) # fst (frames_of maxB ?rest), snd (frames_of maxB ?rest))"
        using s'(1) by (simp add: frames_of_def segs Let_def)
      moreover note 1(1) [OF True Some frame_ok_reset(1), folded buffered_def, unfolded frame_ok_reset(2) s'(2) append_Nil]
      ultimately show ?thesis
        unfolding step by (cases "frames_of maxB ?rest") (auto split: option.splits)
    qed
  qed
qed

lemma split_on_extend:
  "split_on c (a @ b) = butlast (split_on c a) @ split_on c (last (split_on c a) @ b)"
proof (induction a)
  case (Cons x a)
  then show ?case by (cases "split_on c a") (auto split: list.splits)
qed simp

lemma split_on_starts: "c \<notin> set l \<Longrightarrow> \<exists>u us. split_on c (l @ b) = (l @ u) # us"
proof (induction l)
  case Nil
  then show ?case by (cases "split_on c b") simp_all
qed auto

lemma frames_of_extend:
  "frames_of maxB (a @ b) =
     (case frames_of maxB a of
        (ls, None) \<Rightarrow> (ls, None)
      | (ls, Some rest) \<Rightarrow> (ls @ fst (frames_of maxB (rest @ b)), snd (frames_of maxB (rest @ b))))"
proof -
  define bs l X where "bs = butlast (split_on LF a)" and "l = last (split_on LF a)" and "X = split_on LF (l @ b)"
  have a: "split_on LF a = bs @ [l]" by (simp add: bs_def l_def)
  have ab: "split_on LF (a @ b) = bs @ X" by (simp add: X_def bs_def l_def split_on_extend [of LF a b])
  have X: "X \<noteq> []" by (simp add: X_def)
  have "LF \<notin> set l" using split_on_free [of l LF a] by (simp add: a)
  from split_on_starts [OF this, of b] obtain u us where hdX: "X = (l @ u) # us" unfolding X_def by blast
  have tw: "takeWhile (fits maxB) X = []" if "\<not> fits maxB l"
    using that byteLength_prefix [of l u] by (auto simp: hdX fits_def)
  show ?thesis
  proof (cases "list_all (fits maxB) bs \<and> fits maxB l")
    case True
    then have "takeWhile (fits maxB) (bs @ X) = bs @ takeWhile (fits maxB) X"
      by (simp add: list_all_iff takeWhile_append2)
    with True X show ?thesis
      by (simp add: frames_of_def a ab X_def [symmetric] Let_def butlast_append)
  next
    case False
    have "\<not> list_all (fits maxB) (bs @ X)" using False tw by (auto simp: hdX split: if_splits)
    moreover have "takeWhile (fits maxB) (bs @ X) = takeWhile (fits maxB) (bs @ [l])"
    proof (cases "list_all (fits maxB) bs")
      case True
      with False tw show ?thesis by (simp add: list_all_iff takeWhile_append2)
    next
      case False
      then obtain x where "x \<in> set bs" "\<not> fits maxB x" by (auto simp: list_all_iff)
      then show ?thesis by (simp add: takeWhile_append1)
    qed
    ultimately show ?thesis using False by (auto simp: frames_of_def a ab Let_def)
  qed
qed

lemma feed_spec:
  assumes "frame_ok maxB s"
  shows "case frames_of maxB (buffered s @ concat chunks) of
      (ls, None) \<Rightarrow> feed maxB chunks s = (ls, None)
    | (ls, Some rest) \<Rightarrow> \<exists>s'. feed maxB chunks s = (ls, Some s') \<and> frame_ok maxB s' \<and> buffered s' = rest"
  using assms
proof (induction maxB chunks s rule: feed.induct)
  case (1 maxB s)
  then show ?case by (auto simp: frames_of_def frame_ok_def split_on_self)
next
  case (2 maxB chunk chunks s)
  note ext = frames_of_extend [of maxB "buffered s @ chunk" "concat chunks"]
  show ?case
  proof (cases "frames_of maxB (buffered s @ chunk)")
    case (Pair ls r)
    with push_loop_spec [OF 2(2), where chunk = chunk and lines = "[]"] show ?thesis
    proof (cases r)
      case None
      with Pair push_loop_spec [OF 2(2), where chunk = chunk and lines = "[]"] ext show ?thesis
        by (simp add: frame_push_def)
    next
      case (Some rest)
      then obtain s' where s': "frame_push maxB chunk s = (Inr ls, s')" "frame_ok maxB s'" "buffered s' = rest"
        using Pair push_loop_spec [OF 2(2), where chunk = chunk and lines = "[]"] by (auto simp: frame_push_def)
      from 2(1) [OF s'(1) [symmetric] refl s'(2)] s' ext Pair Some show ?thesis
        by (cases "frames_of maxB (rest @ concat chunks)") (auto split: option.splits)
    qed
  qed
qed

section \<open>Properties\<close>

text \<open>C26: Chunking does not matter. However a stream is cut into reads, the reconstructor delivers
  exactly the lines of the whole text, without their terminators, keeps the unfinished line in its
  buffer, and gives up exactly before the first line whose UTF-8 length exceeds the limit.\<close>

theorem reconstruction_independent_of_chunks:
  "(fst (feed maxB chunks frame_reset), map_option buffered (snd (feed maxB chunks frame_reset)))
   = frames_of maxB (concat chunks)"
  using feed_spec [OF frame_ok_reset(1), where chunks = chunks and maxB = maxB]
  by (cases "frames_of maxB (concat chunks)") (auto split: option.splits)

end
