(* ===== verification/Wire.thy ===== *)
theory Wire
  imports Frames Json
begin

text \<open>
  How a value travels between two processes: \<open>encodeFrame\<close> of \<open>packages/shared/src/jsonl.ts\<close>
  writes it as one line of JSON, the pipe delivers the UTF-8 bytes in arbitrary chunks, a streaming
  \<open>TextDecoder\<close> (\<open>decode(chunk, {stream: true})\<close>, then a final \<open>decode()\<close>) turns them into text
  and the reconstructor cuts the text into lines.
\<close>

definition encodeFrame :: "json \<Rightarrow> jstring" where
  "encodeFrame v = json_stringify v @ [LF]"

section \<open>The streaming decoder\<close>

text \<open>
  The state of the UTF-8 decoder between two bytes: continuation bytes still needed, bounds of the
  next one, value so far.
\<close>

type_synonym decState = "nat \<times> nat \<times> nat \<times> nat"

definition dec_start :: decState where
  "dec_start = (0, 0x80, 0xBF, 0)"

definition dec_lead :: "byte \<Rightarrow> jstring \<times> decState" where
  "dec_lead b =
     (if b \<le> 0x7F then ([b], dec_start)
      else if 0xC2 \<le> b \<and> b \<le> 0xDF then ([], 1, 0x80, 0xBF, b - 0xC0)
      else if b = 0xE0 then ([], 2, 0xA0, 0xBF, 0)
      else if b = 0xED then ([], 2, 0x80, 0x9F, 0xD)
      else if 0xE1 \<le> b \<and> b \<le> 0xEF then ([], 2, 0x80, 0xBF, b - 0xE0)
      else if b = 0xF0 then ([], 3, 0x90, 0xBF, 0)
      else if b = 0xF4 then ([], 3, 0x80, 0x8F, 4)
      else if 0xF1 \<le> b \<and> b \<le> 0xF3 then ([], 3, 0x80, 0xBF, b - 0xF0)
      else ([0xFFFD], dec_start))"

definition dec_byte :: "decState \<Rightarrow> byte \<Rightarrow> jstring \<times> decState" where
  "dec_byte st b =
     (case st of (need, lo, hi, cp) \<Rightarrow>
        if need = 0 then dec_lead b
        else if lo \<le> b \<and> b \<le> hi
        then (let cp' = cp * 64 + (b - 0x80)
              in if need = 1 then (utf16_cp cp', dec_start) else ([], need - 1, 0x80, 0xBF, cp'))
        else (case dec_lead b of (out, st') \<Rightarrow> (0xFFFD # out, st')))"

fun dec_bytes :: "decState \<Rightarrow> byte list \<Rightarrow> jstring \<times> decState" where
  "dec_bytes st [] = ([], st)"
| "dec_bytes st (b # bs) =
     (case dec_byte st b of (out, st1) \<Rightarrow> case dec_bytes st1 bs of (later, st2) \<Rightarrow> (out @ later, st2))"

definition dec_end :: "decState \<Rightarrow> jstring" where
  "dec_end st = (if fst st = 0 then [] else [0xFFFD])"

text \<open>A decoder drops a byte order mark that is the first character of the stream.\<close>

record textDecoder =
  dstate :: decState
  dstarted :: bool

definition new_decoder :: textDecoder where
  "new_decoder = \<lparr>dstate = dec_start, dstarted = False\<rparr>"

definition decode_chunk :: "byte list \<Rightarrow> textDecoder \<Rightarrow> jstring \<times> textDecoder" where
  "decode_chunk bs d =
     (case dec_bytes (dstate d) bs of (out, st) \<Rightarrow>
        (if \<not> dstarted d \<and> out \<noteq> [] \<and> hd out = 0xFEFF then tl out else out,
         \<lparr>dstate = st, dstarted = dstarted d \<or> out \<noteq> []\<rparr>))"

definition decode_end :: "textDecoder \<Rightarrow> jstring" where
  "decode_end d = dec_end (dstate d)"

fun decode_chunks :: "byte list list \<Rightarrow> textDecoder \<Rightarrow> jstring list \<times> textDecoder" where
  "decode_chunks [] d = ([], d)"
| "decode_chunks (c # cs) d =
     (case decode_chunk c d of (t, d1) \<Rightarrow> case decode_chunks cs d1 of (ts, d2) \<Rightarrow> (t # ts, d2))"

section \<open>Streaming decoding is decoding\<close>

lemma dec_bytes_append:
  "dec_bytes st (xs @ ys) =
     (case dec_bytes st xs of (out, st1) \<Rightarrow> case dec_bytes st1 ys of (later, st2) \<Rightarrow> (out @ later, st2))"
  by (induction xs arbitrary: st) (auto split: prod.splits)

lemma utf8_dec_lead:
  "utf8_dec 0 lo hi cp (b # bs) =
     (case dec_lead b of (out, need, lo', hi', cp') \<Rightarrow> out @ utf8_dec need lo' hi' cp' bs)"
  by (auto simp: dec_lead_def dec_start_def)

lemma utf8_dec_byte:
  "utf8_dec need lo hi cp (b # bs) =
     (case dec_byte (need, lo, hi, cp) b of (out, need', lo', hi', cp') \<Rightarrow> out @ utf8_dec need' lo' hi' cp' bs)"
proof (cases need)
  case 0
  then show ?thesis by (simp only: utf8_dec_lead) (simp add: dec_byte_def)
next
  case (Suc n)
  then show ?thesis
    by (simp only: utf8_dec.simps(3) utf8_dec_lead)
      (auto simp: dec_byte_def dec_start_def Let_def split: prod.splits)
qed

lemma utf8_dec_stream:
  "utf8_dec need lo hi cp bs =
     (case dec_bytes (need, lo, hi, cp) bs of (out, st) \<Rightarrow> out @ dec_end st)"
proof (induction bs arbitrary: need lo hi cp)
  case Nil
  then show ?case by (simp add: dec_end_def)
next
  case (Cons b bs)
  obtain out n' l' h' c' where b: "dec_byte (need, lo, hi, cp) b = (out, n', l', h', c')"
    by (metis surj_pair)
  then show ?case by (simp only: utf8_dec_byte) (simp add: Cons split: prod.splits)
qed

lemma buffer_utf8_stream: "buffer_utf8 bs = (case dec_bytes dec_start bs of (out, st) \<Rightarrow> out @ dec_end st)"
  by (simp add: buffer_utf8_def utf8_dec_stream dec_start_def)

lemma decode_chunks_bytes:
  assumes "dec_bytes (dstate d) (concat cs) = (out, st)"
  shows "\<exists>ts d'. decode_chunks cs d = (ts, d') \<and> dstate d' = st
     \<and> concat ts = (if \<not> dstarted d \<and> out \<noteq> [] \<and> hd out = 0xFEFF then tl out else out)"
  using assms
proof (induction cs d arbitrary: out rule: decode_chunks.induct)
  case (2 c cs d)
  obtain out1 st1 where c: "dec_bytes (dstate d) c = (out1, st1)" by (metis surj_pair)
  obtain out2 where r: "dec_bytes st1 (concat cs) = (out2, st)" "out = out1 @ out2"
    using 2(2) c by (auto simp: dec_bytes_append split: prod.splits)
  obtain t d1 where d1: "decode_chunk c d = (t, d1)" by (metis surj_pair)
  then have d1': "dstate d1 = st1" "dstarted d1 = (dstarted d \<or> out1 \<noteq> [])"
    "t = (if \<not> dstarted d \<and> out1 \<noteq> [] \<and> hd out1 = 0xFEFF then tl out1 else out1)"
    using c by (auto simp: decode_chunk_def)
  obtain ts d' where "decode_chunks cs d1 = (ts, d')" "dstate d' = st"
    "concat ts = (if \<not> dstarted d1 \<and> out2 \<noteq> [] \<and> hd out2 = 0xFEFF then tl out2 else out2)"
    using 2(1) [OF d1 [symmetric], of out2] r(1) d1'(1) by auto
  then show ?case using d1 d1' r(2) by (cases out1) auto
qed simp

section \<open>A frame is one well-formed line\<close>

lemma well_formed_append: "well_formed s \<Longrightarrow> well_formed t \<Longrightarrow> well_formed (s @ t)"
proof (induction s rule: well_formed.induct)
  case (2 c)
  then show ?case by (cases t) (auto simp: is_surrogate_def)
next
  case (3 c d s)
  then show ?case by (auto split: if_splits simp: is_surrogate_def)
qed simp

lemma well_formed_plain: "list_all (\<lambda>c. c < 0xD800) s \<Longrightarrow> well_formed s"
  by (induction s rule: well_formed.induct) (auto simp: is_surrogate_def is_high_def is_low_def)

lemma well_formed_join: "list_all well_formed xs \<Longrightarrow> well_formed sep \<Longrightarrow> well_formed (join_with sep xs)"
  by (induction sep xs rule: join_with.induct) (auto simp: well_formed_append)

definition line_ok :: "jstring \<Rightarrow> bool" where
  "line_ok s \<longleftrightarrow> well_formed s \<and> LF \<notin> set s \<and> CR \<notin> set s"

lemma line_ok_Nil [simp]: "line_ok []"
  by (simp add: line_ok_def)

lemma line_ok_append: "line_ok s \<Longrightarrow> line_ok t \<Longrightarrow> line_ok (s @ t)"
  by (auto simp: line_ok_def well_formed_append)

lemma line_ok_ascii: "list_all (\<lambda>c. 31 < c \<and> c < 0xD800) s \<Longrightarrow> line_ok s"
  unfolding line_ok_def
proof (intro conjI)
  assume a: "list_all (\<lambda>c. 31 < c \<and> c < 0xD800) s"
  then show "well_formed s" by (intro well_formed_plain) (simp add: list_all_iff)
  show "LF \<notin> set s" "CR \<notin> set s" using a by (auto simp: list_all_iff)
qed

lemma line_ok_join: "list_all line_ok xs \<Longrightarrow> line_ok sep \<Longrightarrow> line_ok (join_with sep xs)"
  by (induction sep xs rule: join_with.induct) (auto simp: line_ok_append)

lemma line_ok_hex4: "line_ok (hex4 c)"
proof (rule line_ok_ascii)
  have "31 < hexd (n mod 16) \<and> hexd (n mod 16) < 0xD800" for n
    using mod_less_divisor [of 16 n] by (auto simp: hexd_def)
  then show "list_all (\<lambda>c. 31 < c \<and> c < 0xD800) (hex4 c)" by (simp add: hex4_def)
qed

lemma line_ok_unit: "c < 65536 \<Longrightarrow> line_ok (if is_high c \<or> is_low c then [92, 117] @ hex4 c else quote_unit c)"
  using line_ok_hex4 [of c]
  by (auto simp: quote_unit_def line_ok_append line_ok_ascii intro!: line_ok_append [of "[92, 117]", simplified])
    (simp add: line_ok_def is_surrogate_def)

lemma line_ok_quote_body: "list_all (\<lambda>c. c < 65536) s \<Longrightarrow> line_ok (quote_body s)"
proof (induction s rule: quote_body.induct)
  case (2 c)
  then show ?case using line_ok_unit [of c] by (simp only: quote_body.simps list.pred_inject)
next
  case (3 c d s)
  show ?case
  proof (cases "is_high c \<and> is_low d")
    case True
    then have "line_ok [c, d]" by (auto simp: line_ok_def is_high_def is_low_def)
    with 3 True show ?thesis using line_ok_append [of "[c, d]" "quote_body s"] by simp
  next
    case False
    have "quote_body (c # d # s)
        = (if is_high c \<or> is_low c then [92, 117] @ hex4 c else quote_unit c) @ quote_body (d # s)"
      using False by (simp only: quote_body.simps if_False)
    moreover have "line_ok (quote_body (d # s))" using 3 False by simp
    ultimately show ?thesis using line_ok_append [OF line_ok_unit [of c]] 3(3) by simp
  qed
qed simp

lemma line_ok_quote: "list_all (\<lambda>c. c < 65536) s \<Longrightarrow> line_ok (json_quote s)"
  by (auto simp: json_quote_def line_ok_ascii intro!: line_ok_append [of "[34]", simplified] line_ok_append line_ok_quote_body)

lemma line_ok_num: "is_safe_integer q \<Longrightarrow> line_ok (num_string q)"
proof -
  assume "is_safe_integer q"
  moreover have "list_all (\<lambda>c. 31 < c \<and> c < 0xD800) (dec n)" for n
    using dec_digits [of _ n] by (force simp: list_all_iff)
  ultimately show ?thesis by (intro line_ok_ascii) (auto simp: num_string_def js_def)
qed

lemma line_ok_stringify: "plain v \<Longrightarrow> line_ok (json_stringify v)"
proof (induction v)
  case (JArr vs)
  then have "line_ok (join_with [44] (map json_stringify vs))"
    by (intro line_ok_join) (auto simp: list_all_iff line_ok_ascii)
  then show ?case
    using line_ok_append [of "[91]"] line_ok_append [of _ "[93]"] by (simp add: line_ok_ascii)
next
  case (JObj kvs)
  have "line_ok (json_quote k @ [58] @ json_stringify v)" if "(k, v) \<in> set kvs" for k v
    using JObj that by (intro line_ok_append line_ok_quote) (auto simp: list_all_iff line_ok_ascii)
  then have "line_ok (join_with [44] (map (\<lambda>(k, v). json_quote k @ [58] @ json_stringify v) kvs))"
    by (intro line_ok_join) (auto simp: list_all_iff line_ok_ascii)
  then show ?case
    using line_ok_append [of "[123]"] line_ok_append [of _ "[125]"] by (simp add: line_ok_ascii)
qed (auto simp: line_ok_quote line_ok_num line_ok_ascii js_def)

section \<open>Sending and receiving\<close>

lemma frames_of_lines:
  assumes "list_all line_ok ls" and "list_all (fits maxB) ls"
  shows "frames_of maxB (concat (map (\<lambda>l. l @ [LF]) ls)) = (ls, Some [])"
proof -
  have "split_on LF (concat (map (\<lambda>l. l @ [LF]) ls)) = ls @ [[]]"
    using assms(1)
  proof (induction ls)
    case (Cons l ls)
    then have "LF \<notin> set l" by (simp add: line_ok_def)
    then have "split_on LF (l @ LF # t) = l # split_on LF t" for t
      by (induction l) auto
    with Cons show ?case by simp
  qed simp
  moreover have "map strip_cr ls = ls"
    using assms(1) by (induction ls) (auto simp: strip_cr_def ends_with_def line_ok_def dest!: arg_cong [where f = set] in_set_dropD)
  moreover have "fits maxB []" by (simp add: fits_def byteLength_def)
  ultimately show ?thesis using assms(2) by (simp add: frames_of_def)
qed

text \<open>What the other end reads: the parsed lines, the text left in the line buffer, and what a final
  \<open>decode()\<close> adds.\<close>

definition receive :: "nat \<Rightarrow> byte list list \<Rightarrow> json option list \<times> jstring option \<times> jstring" where
  "receive maxB chunks =
     (case decode_chunks chunks new_decoder of (ts, d) \<Rightarrow>
      case feed maxB ts frame_reset of (lines, s) \<Rightarrow> (map json_parse lines, map_option buffered s, decode_end d))"

definition dec_inv :: "decState \<Rightarrow> bool" where
  "dec_inv st = (case st of (need, lo, hi, cp) \<Rightarrow>
     need = 0 \<or> 0x80 \<le> lo \<and> lo \<le> hi \<and> hi \<le> 0xBF \<and>
       (need = 1 \<and> cp < 0x4400 \<or> need = 2 \<and> cp < 0x110 \<or> need = 3 \<and> (cp < 4 \<or> cp = 4 \<and> hi \<le> 0x8F)))"

lemma dec_inv_start [simp]: "dec_inv dec_start"
  by (simp add: dec_inv_def dec_start_def)

lemma dec_inv_lead: "dec_inv (snd (dec_lead b))"
  by (simp add: dec_inv_def dec_lead_def dec_start_def) presburger

lemma dec_inv_byte: "dec_inv st \<Longrightarrow> dec_inv (snd (dec_byte st b))"
  using dec_inv_lead [of b]
  by (cases st) (auto simp: dec_byte_def dec_inv_def [of "(_, _, _, _)"] Let_def split: prod.splits)

lemma dec_inv_bytes: "dec_inv st \<Longrightarrow> dec_inv (snd (dec_bytes st bs))"
proof (induction bs arbitrary: st)
  case (Cons b bs)
  then show ?case using dec_inv_byte [OF Cons(2), of b] by (auto split: prod.splits) (metis snd_conv)
qed simp

text \<open>Encoded text never ends inside a character: another continuation byte would be malformed.\<close>

lemma dec_bytes_encode:
  assumes "well_formed t" shows "\<exists>l h c. dec_bytes dec_start (utf8_encode t) = (t, 0, l, h, c)"
proof -
  obtain out n l h c where o: "dec_bytes dec_start (utf8_encode t) = (out, n, l, h, c)" by (metis surj_pair)
  have inv: "dec_inv (n, l, h, c)" using dec_inv_bytes [of dec_start "utf8_encode t"] o by simp
  have rest: "out @ utf8_dec n l h c bs = t @ utf8_dec 0 0x80 0xBF 0 bs" for bs
  proof -
    have "utf8_dec 0 0x80 0xBF 0 (utf8_encode t @ bs) = t @ utf8_dec 0 0x80 0xBF 0 bs"
      using utf8_dec_encode [OF assms] .
    then show ?thesis
      using o by (auto simp: utf8_dec_stream dec_start_def dec_bytes_append split: prod.splits)
  qed
  have "n = 0"
  proof (rule ccontr)
    assume n: "n \<noteq> 0"
    have t: "t = out @ [0xFFFD]" using rest [of "[]"] n by simp
    have "utf8_dec 0 0x80 0xBF 0 [l] = [0xFFFD]" using inv n by (auto simp: dec_inv_def)
    with rest [of "[l]"] t have "utf8_dec n l h c [l] = [0xFFFD, 0xFFFD]" by simp
    with inv n show False by (auto simp: dec_inv_def utf8_dec_byte dec_byte_def dec_start_def utf16_cp_def Let_def split: if_splits)
  qed
  with rest [of "[]"] o show ?thesis by auto
qed

lemma decode_well_formed:
  assumes "well_formed t" and "t = [] \<or> hd t \<noteq> 0xFEFF" and "concat chunks = utf8_encode t"
  shows "\<exists>ts d. decode_chunks chunks new_decoder = (ts, d) \<and> concat ts = t \<and> decode_end d = []"
proof -
  obtain l h c where "dec_bytes (dstate new_decoder) (concat chunks) = (t, 0, l, h, c)"
    using dec_bytes_encode [OF assms(1)] assms(3) by (auto simp: new_decoder_def)
  from decode_chunks_bytes [OF this] obtain ts d where
    "decode_chunks chunks new_decoder = (ts, d)" "dstate d = (0, l, h, c)" "concat ts = t"
    using assms(2) by auto
  then show ?thesis by (simp add: decode_end_def dec_end_def)
qed

lemma stringify_head: "plain v \<Longrightarrow> json_stringify v \<noteq> [] \<and> hd (json_stringify v) < 128"
proof (cases v)
  case (JNum q)
  assume "plain v"
  with JNum num_string_head [of q] show ?thesis by (auto simp: is_digit_def)
qed (auto simp: json_quote_def js_def)

section \<open>Properties\<close>

text \<open>C25: The wire is transparent. Values written with \<open>encodeFrame\<close>, each line within the frame
  limit, are read back in order and unchanged at the other end, however the pipe cuts the bytes,
  even inside a character, and nothing is left over.\<close>

theorem wire_round_trip:
  assumes "list_all plain vs" and "list_all (\<lambda>v. byteLength (json_stringify v) \<le> maxB) vs"
    and "concat chunks = utf8_encode (concat (map encodeFrame vs))"
  shows "receive maxB chunks = (map Some vs, Some [], [])"
proof -
  let ?ls = "map json_stringify vs"
  have enc: "concat (map encodeFrame vs) = concat (map (\<lambda>l. l @ [LF]) ?ls)"
    by (simp add: encodeFrame_def [abs_def] comp_def)
  have ok: "list_all line_ok ?ls" using assms(1) by (auto simp: list_all_iff line_ok_stringify)
  have "well_formed (concat (map encodeFrame vs))"
    using ok unfolding enc
    by (induction vs) (auto simp: line_ok_def intro!: well_formed_append well_formed_append [of "[LF]", simplified]
        well_formed_plain [of "[LF]", simplified])
  moreover have "concat (map encodeFrame vs) = [] \<or> hd (concat (map encodeFrame vs)) \<noteq> 0xFEFF"
    using assms(1) stringify_head [of "hd vs"] by (cases vs) (auto simp: encodeFrame_def)
  ultimately obtain ts d where d: "decode_chunks chunks new_decoder = (ts, d)"
    "concat ts = concat (map encodeFrame vs)" "decode_end d = []"
    using decode_well_formed [OF _ _ assms(3)] by auto
  have "frames_of maxB (concat ts) = (?ls, Some [])"
    unfolding d(2) enc using ok assms(2) by (intro frames_of_lines) (auto simp: list_all_iff fits_def)
  with feed_spec [OF frame_ok_reset(1), where chunks = ts and maxB = maxB] d show ?thesis
    using assms(1) by (auto simp: receive_def list_all_iff json_parse_stringify)
qed

theorem wire_round_trip_witness:
  "receive 64 (map (\<lambda>b. [b]) (utf8_encode (concat (map encodeFrame [JStr [0xD83D, 0xDE00, 10], JArr [JNum 42, JNull]]))))
   = ([Some (JStr [0xD83D, 0xDE00, 10]), Some (JArr [JNum 42, JNull])], Some [], [])"
proof -
  let ?vs = "[JStr [0xD83D, 0xDE00, 10], JArr [JNum 42, JNull]]"
  have "list_all plain ?vs" "list_all (\<lambda>v. byteLength (json_stringify v) \<le> 64) ?vs" by code_simp+
  from wire_round_trip [OF this, of "map (\<lambda>b. [b]) (utf8_encode (concat (map encodeFrame ?vs)))"] show ?thesis
    by (simp add: concat_map_singleton)
qed

end
