(* ===== verification/Paging.thy ===== *)
theory Paging
  imports Wire
begin

text \<open>
  \<open>packages/shared/src/paging.ts\<close>: cursor-bound retrieval pages. A cursor is the base64url text
  of a JSON object that names the reference and an offset in code units. A page ends at a
  code point boundary and holds at most the smaller of the two budgets in UTF-8 bytes.
\<close>

section \<open>base64url\<close>

definition b64_char :: "nat \<Rightarrow> code_unit" where
  "b64_char n = (if n < 26 then 65 + n else if n < 52 then 71 + n else if n < 62 then n - 4 else if n = 62 then 45 else 95)"

definition b64_value :: "code_unit \<Rightarrow> nat" where
  "b64_value c = (if 65 \<le> c \<and> c \<le> 90 then c - 65 else if 97 \<le> c \<and> c \<le> 122 then c - 71
                  else if 48 \<le> c \<and> c \<le> 57 then c + 4 else if c = 45 then 62 else 63)"

fun b64_sextets :: "byte list \<Rightarrow> nat list" where
  "b64_sextets [] = []"
| "b64_sextets [a] = [a div 4, a mod 4 * 16]"
| "b64_sextets [a, b] = [a div 4, a mod 4 * 16 + b div 16, b mod 16 * 4]"
| "b64_sextets (a # b # c # bs) =
     [a div 4, a mod 4 * 16 + b div 16, b mod 16 * 4 + c div 64, c mod 64] @ b64_sextets bs"

fun b64_bytes :: "nat list \<Rightarrow> byte list" where
  "b64_bytes (w # x # y # z # ss) =
     [w * 4 + x div 16, x mod 16 * 16 + y div 4, y mod 4 * 64 + z] @ b64_bytes ss"
| "b64_bytes [w, x, y] = [w * 4 + x div 16, x mod 16 * 16 + y div 4]"
| "b64_bytes [w, x] = [w * 4 + x div 16]"
| "b64_bytes _ = []"

definition to_base64url :: "byte list \<Rightarrow> jstring" where
  "to_base64url bs = map b64_char (b64_sextets bs)"

definition from_base64url :: "jstring \<Rightarrow> byte list" where
  "from_base64url s = b64_bytes (map b64_value s)"

section \<open>paging.ts\<close>

definition DEFAULT_PAGE_TOKENS :: nat where "DEFAULT_PAGE_TOKENS = 2048"
definition DEFAULT_PAGE_BYTES :: nat where "DEFAULT_PAGE_BYTES = 32 * 1024"
definition MAX_PAGE_TOKENS :: nat where "MAX_PAGE_TOKENS = 8192"
definition MAX_PAGE_BYTES :: nat where "MAX_PAGE_BYTES = 128 * 1024"

record pageOptions =
  pref :: jstring
  pcursor :: "jstring option"
  pmaxBytes :: "rat option"
  pmaxTokens :: "rat option"

record textPage =
  pcontent :: jstring
  nextCursor :: "jstring option"
  ptruncated :: bool
  ptokens :: nat
  pbytes :: nat

datatype pageError = BadBudget | InvalidCursor | CursorMismatch | OutsideBoundary | BudgetTooSmall

definition page_limit :: "rat option \<Rightarrow> nat \<Rightarrow> nat \<Rightarrow> (pageError, nat) result" where
  "page_limit value fallback cap =
     (case value of
        None \<Rightarrow> Inr fallback
      | Some q \<Rightarrow> if \<not> is_safe_integer q \<or> q \<le> 0 then Inl BadBudget
                 else Inr (min (nat (fst (quotient_of q))) cap))"

definition cursor_json :: "jstring \<Rightarrow> nat \<Rightarrow> json" where
  "cursor_json ref offset = JObj [(js ''v'', JNum 1), (js ''ref'', JStr ref), (js ''offset'', JNum (of_nat offset))]"

definition encodeCursor :: "jstring \<Rightarrow> nat \<Rightarrow> jstring" where
  "encodeCursor ref offset = to_base64url (utf8_encode (json_stringify (cursor_json ref offset)))"

definition cursor_char :: "code_unit \<Rightarrow> bool" where
  "cursor_char c \<longleftrightarrow> (65 \<le> c \<and> c \<le> 90) \<or> (97 \<le> c \<and> c \<le> 122) \<or> (48 \<le> c \<and> c \<le> 57) \<or> c = 95 \<or> c = 45"

definition decodeCursor :: "jstring option \<Rightarrow> jstring \<Rightarrow> (pageError, nat) result" where
  "decodeCursor cursor ref =
     (case cursor of
        None \<Rightarrow> Inr 0
      | Some cur \<Rightarrow>
          if 4096 < length cur \<or> cur = [] \<or> \<not> list_all cursor_char cur then Inl InvalidCursor
          else case json_parse (buffer_utf8 (from_base64url cur)) of
            None \<Rightarrow> Inl InvalidCursor
          | Some item \<Rightarrow>
              (if json_get item (js ''v'') \<noteq> Some (JNum 1) \<or> json_get item (js ''ref'') \<noteq> Some (JStr ref)
               then Inl CursorMismatch
               else case json_get item (js ''offset'') of
                 Some (JNum q) \<Rightarrow> if \<not> is_safe_integer q \<or> q < 0 then Inl CursorMismatch
                                  else Inr (nat (fst (quotient_of q)))
               | _ \<Rightarrow> Inl CursorMismatch))"

text \<open>The test \<open>boundary(text, start) !== start\<close>.\<close>

definition off_boundary :: "jstring \<Rightarrow> nat \<Rightarrow> bool" where
  "off_boundary raw index \<longleftrightarrow> index < length raw \<and> is_low (raw ! index)"

definition cp_size :: "nat \<Rightarrow> nat" where
  "cp_size cp = (if cp \<le> 0x7F then 1 else if cp \<le> 0x7FF then 2 else if cp \<le> 0xFFFF then 3 else 4)"

text \<open>The page loop; the last argument is the text from \<open>stop\<close> on.\<close>

fun page_loop :: "nat \<Rightarrow> nat \<Rightarrow> nat \<Rightarrow> jstring \<Rightarrow> nat \<times> nat" where
  "page_loop room stop bytes [] = (stop, bytes)"
| "page_loop room stop bytes [c] =
     (if room < bytes + cp_size c then (stop, bytes) else (stop + 1, bytes + cp_size c))"
| "page_loop room stop bytes (c # d # s) =
     (if is_high c \<and> is_low d
      then (if room < bytes + cp_size (pair_value c d) then (stop, bytes)
            else page_loop room (stop + 2) (bytes + cp_size (pair_value c d)) s)
      else if room < bytes + cp_size c then (stop, bytes)
      else page_loop room (stop + 1) (bytes + cp_size c) (d # s))"

definition paginateText :: "jstring \<Rightarrow> pageOptions \<Rightarrow> (pageError, textPage) result" where
  "paginateText raw options =
     (case page_limit (pmaxBytes options) DEFAULT_PAGE_BYTES MAX_PAGE_BYTES of
        Inl e \<Rightarrow> Inl e
      | Inr maxBytes \<Rightarrow>
     (case page_limit (pmaxTokens options) DEFAULT_PAGE_TOKENS MAX_PAGE_TOKENS of
        Inl e \<Rightarrow> Inl e
      | Inr maxTokens \<Rightarrow>
     (case decodeCursor (pcursor options) (pref options) of
        Inl e \<Rightarrow> Inl e
      | Inr start \<Rightarrow>
          if length raw < start \<or> off_boundary raw start then Inl OutsideBoundary
          else case page_loop (min maxBytes maxTokens) start 0 (drop start raw) of
            (stop, bytes) \<Rightarrow>
              if stop = start \<and> start < length raw then Inl BudgetTooSmall
              else let content = js_slice raw start stop
                   in Inr \<lparr>pcontent = content,
                           nextCursor = (if stop < length raw then Some (encodeCursor (pref options) stop) else None),
                           ptruncated = (stop < length raw), ptokens = bytes, pbytes = byteLength content\<rparr>)))"

text \<open>A client follows the cursors until there is none.\<close>

fun walk_pages :: "nat \<Rightarrow> jstring \<Rightarrow> pageOptions \<Rightarrow> (pageError, textPage list) result option" where
  "walk_pages 0 raw options = None"
| "walk_pages (Suc k) raw options =
     (case paginateText raw options of
        Inl e \<Rightarrow> Some (Inl e)
      | Inr page \<Rightarrow>
          (case nextCursor page of
             None \<Rightarrow> Some (Inr [page])
           | Some cur \<Rightarrow>
               (case walk_pages k raw (options\<lparr>pcursor := Some cur\<rparr>) of
                  Some (Inr pages) \<Rightarrow> Some (Inr (page # pages))
                | other \<Rightarrow> other)))"

lemmas paging_defs [run_simps] = DEFAULT_PAGE_TOKENS_def DEFAULT_PAGE_BYTES_def MAX_PAGE_TOKENS_def MAX_PAGE_BYTES_def
  page_limit_def cursor_json_def encodeCursor_def decodeCursor_def off_boundary_def cp_size_def paginateText_def

section \<open>Cursors\<close>

lemma b64_value_char: "n < 64 \<Longrightarrow> b64_value (b64_char n) = n"
  by (auto simp: b64_value_def b64_char_def)

lemma cursor_char_b64: "n < 64 \<Longrightarrow> cursor_char (b64_char n)"
  by (auto simp: cursor_char_def b64_char_def)

lemma b64_sextets_bound: "list_all (\<lambda>b. b < 256) bs \<Longrightarrow> list_all (\<lambda>n. n < 64) (b64_sextets bs)"
proof (induction bs rule: b64_sextets.induct)
  case (4 a b c bs)
  then have "b div 16 < 16" "c div 64 < 4" "a div 4 < 64" by auto
  moreover have "a mod 4 < 4" "b mod 16 < 16" by auto
  ultimately have "a mod 4 * 16 + b div 16 < 64 \<and> b mod 16 * 4 + c div 64 < 64 \<and> a div 4 < 64" by linarith
  with 4 show ?case by simp
next
  case (3 a b)
  then have "b div 16 < 16" "a div 4 < 64" by auto
  moreover have "a mod 4 < 4" "b mod 16 < 16" by auto
  ultimately have "a mod 4 * 16 + b div 16 < 64 \<and> b mod 16 * 4 < 64 \<and> a div 4 < 64" by linarith
  then show ?case by simp
qed auto

lemma b64_bytes_sextets: "list_all (\<lambda>b. b < 256) bs \<Longrightarrow> b64_bytes (b64_sextets bs) = bs"
proof (induction bs rule: b64_sextets.induct)
  case (4 a b c bs)
  have "c div 64 < 4" "b div 16 < 16" using 4(2) by auto
  then have "(b mod 16 * 4 + c div 64) div 4 = b mod 16" "(b mod 16 * 4 + c div 64) mod 4 = c div 64"
    "(a mod 4 * 16 + b div 16) div 16 = a mod 4" "(a mod 4 * 16 + b div 16) mod 16 = b div 16" by auto
  with 4 show ?case by simp
next
  case (3 a b)
  then have "(a mod 4 * 16 + b div 16) div 16 = a mod 4" "(a mod 4 * 16 + b div 16) mod 16 = b div 16" by auto
  then show ?case by simp
qed auto

lemma base64url_round_trip:
  assumes "list_all (\<lambda>b. b < 256) bs"
  shows "from_base64url (to_base64url bs) = bs" "list_all cursor_char (to_base64url bs)"
proof -
  have s: "\<forall>n\<in>set (b64_sextets bs). n < 64" using b64_sextets_bound [OF assms] by (simp add: list_all_iff)
  then have "map b64_value (map b64_char (b64_sextets bs)) = b64_sextets bs"
    by (simp add: b64_value_char map_idI)
  then show "from_base64url (to_base64url bs) = bs"
    by (simp add: from_base64url_def to_base64url_def b64_bytes_sextets [OF assms] del: map_map)
  from s show "list_all cursor_char (to_base64url bs)"
    by (auto simp: to_base64url_def list_all_iff cursor_char_b64)
qed

text \<open>The JSON text of a cursor has no lone surrogate, so its UTF-8 bytes decode to it.\<close>

lemma utf8_bytes: "well_formed s \<Longrightarrow> list_all (\<lambda>b. b < 256) (utf8_encode s)"
proof (induction s rule: well_formed.induct)
  case (2 c)
  then show ?case by (auto simp: enc_cp_def)
next
  case (3 c d s)
  then show ?case using pair_value_bounds [of c d] by (auto simp: enc_cp_def split: if_splits)
qed simp

lemma quotient_of_nat [simp]: "quotient_of (of_nat n) = (int n, 1)"
  using quotient_of_int [of "int n"] by (simp add: Rat.of_int_def)

lemma safe_nat: "n < 2 ^ 53 \<Longrightarrow> is_safe_integer (of_nat n)"
  by (simp add: is_safe_integer_def)

lemma cursor_plain:
  "n < 2 ^ 53 \<Longrightarrow> list_all (\<lambda>c. c < 65536) ref \<Longrightarrow> plain (cursor_json ref n)"
  using safe_nat [of n] safe_nat [of 1] by (simp add: cursor_json_def js_def)

lemma cursor_text_well_formed:
  assumes "list_all (\<lambda>c. c < 65536) ref" and "n < 2 ^ 53"
  shows "well_formed (json_stringify (cursor_json ref n))"
  using line_ok_stringify [OF cursor_plain [OF assms(2,1)]] by (simp add: line_ok_def)

lemma decode_encode_cursor:
  assumes "list_all (\<lambda>c. c < 65536) ref" and "n < 2 ^ 53" and "length (encodeCursor ref n) \<le> 4096"
  shows "decodeCursor (Some (encodeCursor ref n)) ref = Inr n"
proof -
  let ?t = "json_stringify (cursor_json ref n)"
  note wf = cursor_text_well_formed [OF assms(1,2)]
  note b64 = base64url_round_trip [OF utf8_bytes [OF wf]]
  have "encodeCursor ref n \<noteq> []"
  proof
    assume "encodeCursor ref n = []"
    then have "from_base64url (encodeCursor ref n) = []" by (simp add: from_base64url_def)
    with b64(1) have "utf8_encode ?t = []" by (simp add: encodeCursor_def)
    then have "buffer_utf8 (utf8_encode ?t) = []" by (simp add: buffer_utf8_def)
    with buffer_utf8_encode [OF wf] show False by (simp add: cursor_json_def)
  qed
  moreover have "json_parse (buffer_utf8 (from_base64url (encodeCursor ref n))) = Some (cursor_json ref n)"
    using b64(1) buffer_utf8_encode [OF wf] json_parse_stringify [OF cursor_plain [OF assms(2,1)]]
    by (simp add: encodeCursor_def)
  moreover have "list_all cursor_char (encodeCursor ref n)" using b64(2) by (simp add: encodeCursor_def)
  ultimately show ?thesis using assms(3) safe_nat [OF assms(2)]
    by (simp add: decodeCursor_def) (simp add: cursor_json_def js_def)
qed

text \<open>A cursor for a reference of at most 500 code units is within the accepted length.\<close>

lemma length_b64_sextets: "3 * length (b64_sextets bs) \<le> 4 * length bs + 2"
  by (induction bs rule: b64_sextets.induct) auto

lemma byteLength_append_le: "byteLength (a @ b) \<le> byteLength a + byteLength b"
  using byteLength_append [of a b] by (simp split: if_splits)

lemma byteLength_ascii: "\<forall>c\<in>set s. c < 128 \<Longrightarrow> byteLength s = length s"
  by (induction s rule: utf8_encode.induct)
    (auto simp: byteLength_Cons_Cons is_surrogate_def is_high_def is_low_def enc_cp_def)

lemma byteLength_hex: "byteLength ([92, 117] @ hex4 n) = 6"
proof -
  have "hexd (d mod 16) < 128" for d
  proof -
    have "d mod 16 < 16" by simp
    then have "48 + d mod 16 < 128" "87 + d mod 16 < 128" by linarith+
    then show ?thesis by (auto simp only: hexd_def split: if_split)
  qed
  then show ?thesis by (subst byteLength_ascii) (auto simp: hex4_def)
qed

lemma byteLength_unit:
  assumes "c < 65536"
  shows "byteLength (if is_high c \<or> is_low c then [92, 117] @ hex4 c else quote_unit c) \<le> 6"
proof -
  have "byteLength (quote_unit c) \<le> 6"
    using assms byteLength_hex [of c]
    by (auto simp: quote_unit_def enc_cp_def byteLength_Cons_Cons is_surrogate_def is_high_def is_low_def)
  then show ?thesis using byteLength_hex [of c] by simp
qed

lemma byteLength_quote_body: "list_all (\<lambda>c. c < 65536) s \<Longrightarrow> byteLength (quote_body s) \<le> 6 * length s"
proof (induction s rule: quote_body.induct)
  case (2 c)
  then show ?case using byteLength_unit [of c] by simp
next
  case (3 c d s)
  show ?case
  proof (cases "is_high c \<and> is_low d")
    case True
    with 3 show ?thesis by (simp add: byteLength_Cons_Cons)
  next
    case False
    then have "quote_body (c # d # s)
        = (if is_high c \<or> is_low c then [92, 117] @ hex4 c else quote_unit c) @ quote_body (d # s)"
      by (simp only: quote_body.simps if_False)
    moreover have "byteLength (quote_body (d # s)) \<le> 6 * length (d # s)" "c < 65536" using 3 False by simp_all
    ultimately show ?thesis
      using byteLength_unit [of c] byteLength_append_le
        [of "if is_high c \<or> is_low c then [92, 117] @ hex4 c else quote_unit c" "quote_body (d # s)"]
      by (simp only:) simp
  qed
qed simp

lemma length_dec: "n < 10 ^ Suc k \<Longrightarrow> length (dec n) \<le> Suc k"
proof (induction k arbitrary: n)
  case (Suc k)
  then have "n div 10 < 10 ^ Suc k" by simp
  from Suc.IH [OF this] show ?case by (subst dec.simps) simp
qed (subst dec.simps, simp)

lemma byteLength_num: "n < 2 ^ 53 \<Longrightarrow> byteLength (num_string (of_nat n)) \<le> 16"
proof -
  assume n: "n < 2 ^ 53"
  have "\<forall>c\<in>set (dec n). c < 128" using dec_digits by fastforce
  with n show ?thesis
    using safe_nat [OF n] length_dec [of n 15] byteLength_ascii [of "dec n"] by (simp add: num_string_def)
qed

definition cursor_head :: jstring where
  "cursor_head = [123] @ (json_quote (js ''v'') @ [58] @ num_string (of_nat 1)) @ [44] @ json_quote (js ''ref'') @ [58, 34]"

definition cursor_mid :: jstring where
  "cursor_mid = [34, 44] @ json_quote (js ''offset'') @ [58]"

lemma length_encodeCursor:
  assumes "length ref \<le> 500" and "n < 2 ^ 53" and "list_all (\<lambda>c. c < 65536) ref"
  shows "length (encodeCursor ref n) \<le> 4096"
proof -
  have t: "json_stringify (cursor_json ref n)
      = cursor_head @ quote_body ref @ cursor_mid @ num_string (of_nat n) @ [125]"
    by (simp add: cursor_json_def cursor_head_def cursor_mid_def json_quote_def)
  have "byteLength cursor_head = 14" "byteLength cursor_mid = 11" by code_simp+
  moreover have "byteLength [125] = 1" by code_simp
  ultimately have "byteLength (json_stringify (cursor_json ref n)) \<le> 3043"
    using byteLength_append_le [of cursor_head "quote_body ref @ cursor_mid @ num_string (of_nat n) @ [125]"]
      byteLength_append_le [of "quote_body ref" "cursor_mid @ num_string (of_nat n) @ [125]"]
      byteLength_append_le [of cursor_mid "num_string (of_nat n) @ [125]"]
      byteLength_append_le [of "num_string (of_nat n)" "[125]"]
      byteLength_quote_body [OF assms(3)] byteLength_num [OF assms(2)] assms(1)
    unfolding t by linarith
  then show ?thesis
    using length_b64_sextets [of "utf8_encode (json_stringify (cursor_json ref n))"]
    by (simp add: encodeCursor_def to_base64url_def byteLength_def)
qed

section \<open>One page\<close>

lemma byteLength_scalar: "\<not> is_surrogate c \<Longrightarrow> byteLength (c # s) = length (enc_cp c) + byteLength s"
  by (cases s) (auto simp: byteLength_Cons_Cons is_surrogate_def)

lemma length_enc_cp: "length (enc_cp cp) = cp_size cp"
  by (simp add: enc_cp_def cp_size_def)

text \<open>
  From a boundary of well-formed text the loop advances to a boundary, counts the bytes of what
  it passed, stays within the budget, and makes progress when a code point fits.
\<close>

definition page_step :: "nat \<Rightarrow> nat \<Rightarrow> nat \<Rightarrow> jstring \<Rightarrow> nat \<times> nat \<Rightarrow> bool" where
  "page_step room stop bytes s res \<longleftrightarrow>
     (\<exists>w. res = (stop + w, bytes + byteLength (take w s)) \<and> w \<le> length s \<and> well_formed (drop w s)
        \<and> (bytes \<le> room \<longrightarrow> snd res \<le> room) \<and> (bytes + 4 \<le> room \<longrightarrow> s \<noteq> [] \<longrightarrow> 0 < w))"

lemma page_step_stop: "well_formed s \<Longrightarrow> \<not> bytes + 4 \<le> room \<or> s = [] \<Longrightarrow> page_step room stop bytes s (stop, bytes)"
  unfolding page_step_def by (rule exI [of _ 0]) auto

lemma page_step_go:
  assumes "page_step room (stop + length a) (bytes + byteLength a) s res" and "a \<noteq> []"
    and "\<And>t. byteLength (a @ t) = byteLength a + byteLength t" and "bytes + byteLength a \<le> room"
  shows "page_step room stop bytes (a @ s) res"
proof -
  obtain w where w: "res = (stop + length a + w, bytes + byteLength a + byteLength (take w s))" "w \<le> length s"
      "well_formed (drop w s)" "bytes + byteLength a \<le> room \<longrightarrow> snd res \<le> room"
    using assms(1) by (auto simp: page_step_def)
  have "take (length a + w) (a @ s) = a @ take w s" by simp
  then show ?thesis
    unfolding page_step_def using w assms(2-4) by (intro exI [of _ "length a + w"]) (auto simp: assms(3))
qed

lemma cp_size_le: "cp_size cp \<le> 4"
  by (simp add: cp_size_def)

lemma page_loop_spec: "well_formed s \<Longrightarrow> page_step room stop bytes s (page_loop room stop bytes s)"
proof (induction room stop bytes s rule: page_loop.induct)
  case (1 room stop bytes)
  then show ?case by (simp add: page_step_stop)
next
  case (2 room stop bytes c)
  have b: "byteLength [c] = cp_size c" using 2 by (simp add: length_enc_cp)
  show ?case
  proof (cases "room < bytes + cp_size c")
    case True
    with 2 cp_size_le [of c] show ?thesis by (simp add: page_step_stop)
  next
    case False
    have "page_step room (stop + length [c]) (bytes + byteLength [c]) [] (stop + 1, bytes + cp_size c)"
      unfolding b page_step_def using False by (intro exI [of _ 0]) simp
    from page_step_go [OF this] 2 False show ?thesis by (simp add: length_enc_cp byteLength_scalar)
  qed
next
  case (3 room stop bytes c d s)
  show ?case
  proof (cases "is_high c \<and> is_low d")
    case True
    then have b: "byteLength [c, d] = cp_size (pair_value c d)" "\<And>t. byteLength ([c, d] @ t) = byteLength [c, d] + byteLength t"
      using byteLength_pair [of c d] by (simp_all add: byteLength_Cons_Cons length_enc_cp)
    show ?thesis
    proof (cases "room < bytes + cp_size (pair_value c d)")
      case full: True
      with 3(3) True cp_size_le [of "pair_value c d"] show ?thesis by (simp add: page_step_stop)
    next
      case False
      from 3(1) [OF True False] 3(3) True have "page_step room (stop + length [c, d]) (bytes + byteLength [c, d]) s
          (page_loop room (stop + 2) (bytes + cp_size (pair_value c d)) s)" by (simp only: b) simp
      from page_step_go [OF this _ b(2)] True False show ?thesis by (simp add: b(1))
    qed
  next
    case single: False
    then have c: "\<not> is_surrogate c" "well_formed (d # s)" using 3(3) by auto
    then have b: "byteLength [c] = cp_size c" "\<And>t. byteLength ([c] @ t) = byteLength [c] + byteLength t"
      by (simp_all add: byteLength_scalar length_enc_cp)
    show ?thesis
    proof (cases "room < bytes + cp_size c")
      case full: True
      have "page_step room stop bytes (c # d # s) (stop, bytes)"
        by (rule page_step_stop [OF 3(3)]) (use full cp_size_le [of c] in auto)
      moreover have "page_loop room stop bytes (c # d # s) = (stop, bytes)" using single full by auto
      ultimately show ?thesis by simp
    next
      case False
      from 3(2) [OF single False c(2)] have "page_step room (stop + length [c]) (bytes + byteLength [c]) (d # s)
          (page_loop room (stop + 1) (bytes + cp_size c) (d # s))" by (simp only: b) simp
      from page_step_go [OF this _ b(2)] False
      have "page_step room stop bytes (c # d # s) (page_loop room (stop + 1) (bytes + cp_size c) (d # s))"
        by (simp add: b(1) del: byteLength_simps)
      moreover have "page_loop room stop bytes (c # d # s) = page_loop room (stop + 1) (bytes + cp_size c) (d # s)"
        using single False by auto
      ultimately show ?thesis by simp
    qed
  qed
qed

definition page_room :: "pageOptions \<Rightarrow> nat option" where
  "page_room options =
     (case (page_limit (pmaxBytes options) DEFAULT_PAGE_BYTES MAX_PAGE_BYTES,
            page_limit (pmaxTokens options) DEFAULT_PAGE_TOKENS MAX_PAGE_TOKENS) of
        (Inr maxBytes, Inr maxTokens) \<Rightarrow> Some (min maxBytes maxTokens)
      | _ \<Rightarrow> None)"

lemma page_room_cases:
  assumes "page_room options = Some room"
  obtains mb mt where "page_limit (pmaxBytes options) DEFAULT_PAGE_BYTES MAX_PAGE_BYTES = Inr mb"
    "page_limit (pmaxTokens options) DEFAULT_PAGE_TOKENS MAX_PAGE_TOKENS = Inr mt" "room = min mb mt"
  using assms by (auto simp: page_room_def split: sum.splits)

lemma boundary_ok: "well_formed (drop start raw) \<Longrightarrow> \<not> off_boundary raw start"
proof
  assume wf: "well_formed (drop start raw)" and "off_boundary raw start"
  then have "start < length raw" "is_low (raw ! start)" by (auto simp: off_boundary_def)
  moreover then have "drop start raw = raw ! start # drop (Suc start) raw" by (simp add: Cons_nth_drop_Suc)
  ultimately show False
    using wf high_not_low by (cases "drop (Suc start) raw") (auto simp: is_surrogate_def split: if_splits)
qed

lemma paginate_from:
  assumes "page_room options = Some room" and "4 \<le> room"
    and "decodeCursor (pcursor options) (pref options) = Inr start"
    and "start \<le> length raw" and "well_formed (drop start raw)"
  obtains page w where "paginateText raw options = Inr page"
    "pcontent page = take w (drop start raw)" "pbytes page = byteLength (pcontent page)" "ptokens page = pbytes page"
    "pbytes page \<le> room" "well_formed (drop (start + w) raw)" "start + w \<le> length raw"
    "nextCursor page = (if start + w < length raw then Some (encodeCursor (pref options) (start + w)) else None)"
    "start < length raw \<longrightarrow> 0 < w"
proof -
  obtain mb mt where lim: "page_limit (pmaxBytes options) DEFAULT_PAGE_BYTES MAX_PAGE_BYTES = Inr mb"
    "page_limit (pmaxTokens options) DEFAULT_PAGE_TOKENS MAX_PAGE_TOKENS = Inr mt" "room = min mb mt"
    using assms(1) by (rule page_room_cases)
  obtain w where w: "page_loop room start 0 (drop start raw) = (start + w, byteLength (take w (drop start raw)))"
      "w \<le> length (drop start raw)" "well_formed (drop w (drop start raw))"
      "byteLength (take w (drop start raw)) \<le> room" "drop start raw \<noteq> [] \<longrightarrow> 0 < w"
    using page_loop_spec [OF assms(5), of room start 0] assms(2) by (auto simp: page_step_def)
  let ?page = "\<lparr>pcontent = take w (drop start raw),
      nextCursor = (if start + w < length raw then Some (encodeCursor (pref options) (start + w)) else None),
      ptruncated = (start + w < length raw), ptokens = byteLength (take w (drop start raw)),
      pbytes = byteLength (take w (drop start raw))\<rparr>"
  have "paginateText raw options = Inr ?page"
    using assms(3,4) boundary_ok [OF assms(5)] w
    by (auto simp: paginateText_def lim js_slice_def Let_def)
  moreover have "well_formed (drop (start + w) raw)" using w(3) by (simp add: add.commute)
  ultimately show ?thesis using w assms(4) by (intro that [of ?page w]) auto
qed

section \<open>Walking all pages\<close>

lemma walk_from:
  assumes "page_room options = Some room" and "4 \<le> room"
    and "list_all (\<lambda>c. c < 65536) (pref options)" and "length raw < 2 ^ 53"
    and "length (pref options) \<le> 500"
    and "decodeCursor (pcursor options) (pref options) = Inr start"
    and "start \<le> length raw" and "well_formed (drop start raw)" and "length raw - start < k"
  shows "\<exists>pages. walk_pages k raw options = Some (Inr pages) \<and> concat (map pcontent pages) = drop start raw
     \<and> list_all (\<lambda>p. pbytes p = byteLength (pcontent p) \<and> pbytes p \<le> room) pages"
  using assms
proof (induction k arbitrary: options start)
  case (Suc k)
  obtain page w where p: "paginateText raw options = Inr page"
    "pcontent page = take w (drop start raw)" "pbytes page = byteLength (pcontent page)" "ptokens page = pbytes page"
    "pbytes page \<le> room" "well_formed (drop (start + w) raw)" "start + w \<le> length raw"
    "nextCursor page = (if start + w < length raw then Some (encodeCursor (pref options) (start + w)) else None)"
    "start < length raw \<longrightarrow> 0 < w"
    by (rule paginate_from [OF Suc(2,3,7,8,9)])
  show ?case
  proof (cases "start + w < length raw")
    case False
    with p show ?thesis by simp
  next
    case True
    let ?o = "options\<lparr>pcursor := Some (encodeCursor (pref options) (start + w))\<rparr>"
    have "decodeCursor (pcursor ?o) (pref ?o) = Inr (start + w)"
      using decode_encode_cursor [OF Suc(4)] length_encodeCursor [OF Suc(6)] Suc(4,5) True by simp
    moreover have "page_room ?o = Some room" using Suc(2) by (simp add: page_room_def)
    ultimately obtain pages where "walk_pages k raw ?o = Some (Inr pages)"
        "concat (map pcontent pages) = drop (start + w) raw"
        "list_all (\<lambda>p. pbytes p = byteLength (pcontent p) \<and> pbytes p \<le> room) pages"
      using Suc(1) [of ?o "start + w"] Suc(3,4,5,6,10) p True by fastforce
    moreover have "take w (drop start raw) @ drop (start + w) raw = drop start raw"
      using append_take_drop_id [of w "drop start raw"] by (simp add: add.commute)
    ultimately show ?thesis using p True by auto
  qed
qed simp

section \<open>Properties\<close>

text \<open>A cursor names the page it was made for: decoding an encoded cursor under the same reference
  returns its offset, for every reference of at most 500 code units (a hash reference has 71).\<close>

theorem cursor_round_trip:
  assumes "list_all (\<lambda>c. c < 65536) ref" and "offset < 2 ^ 53" and "length ref \<le> 500"
  shows "decodeCursor (Some (encodeCursor ref offset)) ref = Inr offset"
  using assms length_encodeCursor decode_encode_cursor by blast

theorem cursor_round_trip_witness:
  "decodeCursor (Some (encodeCursor (js ''sha256:ab'') 7)) (js ''sha256:ab'') = Inr 7"
  by (rule cursor_round_trip) code_simp+

text \<open>C22: Following the cursors retrieves everything. For text without lone surrogates, a reference of at most 500 code
  units and a budget that fits any code point, the walk ends, its pages joined are the text, and no page exceeds the budget.\<close>

theorem page_walk_complete:
  assumes "well_formed raw" and "length raw < 2 ^ 53" and "page_room options = Some room" and "4 \<le> room"
    and "pcursor options = None" and "list_all (\<lambda>c. c < 65536) (pref options)"
    and "length (pref options) \<le> 500"
  shows "\<exists>pages. walk_pages (length raw + 1) raw options = Some (Inr pages)
     \<and> concat (map pcontent pages) = raw
     \<and> list_all (\<lambda>p. pbytes p = byteLength (pcontent p) \<and> pbytes p \<le> room) pages"
  using walk_from [OF assms(3,4,6,2,7), of 0 "length raw + 1"] assms(1,5) by (simp add: decodeCursor_def)

theorem page_walk_complete_witness:
  "\<exists>pages. walk_pages (length (js ''abcdefg'') + 1) (js ''abcdefg'')
      \<lparr>pref = js ''r'', pcursor = None, pmaxBytes = Some 4, pmaxTokens = None\<rparr> = Some (Inr pages)
     \<and> concat (map pcontent pages) = js ''abcdefg''
     \<and> list_all (\<lambda>p. pbytes p = byteLength (pcontent p) \<and> pbytes p \<le> 4) pages"
  by (rule page_walk_complete) code_simp+

end
