(* ===== verification/Ownership.thy ===== *)
theory Ownership
  imports Cas
begin

text \<open>
  \<open>packages/rtk/src/ownership.ts\<close>: the durable ledger of the rtk object store. Table
  \<open>rtk_storage\<close> reserves the bytes of every object before it is published, table \<open>rtk_refs\<close>
  records which session may read which object. A publisher holds the writer mutex and
  reconciles the reservations of crashed publishers before and after its work.

  The tables are an ordered map and a list of pairs; a transaction is one step. The mutex is
  the argument \<open>busy\<close>: it tells that another process holds the lock beyond the busy timeout.
\<close>

section \<open>The ledger\<close>

datatype rowState = Pending | Published

record storageRow =
  rsize :: nat
  rstate :: rowState

record ledger =
  rtk_storage :: "(jstring, storageRow) jmap"
  rtk_refs :: "(jstring \<times> jstring) list"

datatype ownershipError = Busy | BadAddress | WorkFailed

definition empty_ledger :: ledger where
  "empty_ledger = \<lparr>rtk_storage = [], rtk_refs = []\<rparr>"

definition usage :: "ledger \<Rightarrow> nat" where
  "usage l = sum_list (map (rsize \<circ> snd) (rtk_storage l))"

definition reserve :: "jstring \<Rightarrow> nat \<Rightarrow> nat \<Rightarrow> ledger \<Rightarrow> bool \<times> ledger" where
  "reserve hash sz limit l =
     (case jmap_get (rtk_storage l) hash of
        Some existing \<Rightarrow> (rsize existing = sz, l)
      | None \<Rightarrow>
          if limit < usage l + sz then (False, l)
          else (True, l\<lparr>rtk_storage := jmap_set hash \<lparr>rsize = sz, rstate = Pending\<rparr> (rtk_storage l)\<rparr>))"

definition grant :: "jstring \<Rightarrow> jstring \<Rightarrow> ledger \<Rightarrow> ledger" where
  "grant sessionId hash l =
     (if (sessionId, hash) \<in> set (rtk_refs l) then l else l\<lparr>rtk_refs := rtk_refs l @ [(sessionId, hash)]\<rparr>)"

definition owns :: "jstring \<Rightarrow> jstring \<Rightarrow> ledger \<Rightarrow> bool" where
  "owns sessionId hash l \<longleftrightarrow> (sessionId, hash) \<in> set (rtk_refs l)"

text \<open>One pending row against the file system: published when its object is there, dropped when not.\<close>

definition reconcile_row :: "jstring \<Rightarrow> fs \<Rightarrow> jstring \<times> storageRow \<Rightarrow> (jstring \<times> storageRow) list" where
  "reconcile_row dataDir f row =
     (case row of (hash, r) \<Rightarrow>
        if rstate r = Published then [row]
        else if lookup_at dataDir hash f \<noteq> None then [(hash, r\<lparr>rstate := Published\<rparr>)] else [])"

definition reconcilePending :: "jstring \<Rightarrow> fs \<Rightarrow> ledger \<Rightarrow> (ownershipError, ledger) result" where
  "reconcilePending dataDir f l =
     (if list_ex (\<lambda>(hash, r). rstate r = Pending \<and> \<not> validHash hash) (rtk_storage l) then Inl BadAddress
      else Inr (l\<lparr>rtk_storage := concat (map (reconcile_row dataDir f) (rtk_storage l))\<rparr>))"

section \<open>Publication\<close>

text \<open>
  \<open>publish\<close> around some work on files and ledger. The second reconciliation runs in every case; a
  transaction that throws changes nothing.
\<close>

definition publish :: "bool \<Rightarrow> jstring \<Rightarrow> (fs \<times> ledger \<Rightarrow> (ownershipError, 'a) result \<times> fs \<times> ledger)
    \<Rightarrow> fs \<times> ledger \<Rightarrow> (ownershipError, 'a) result \<times> fs \<times> ledger" where
  "publish busy dataDir work st =
     (case st of (f, l) \<Rightarrow>
        if busy then (Inl Busy, f, l)
        else case reconcilePending dataDir f l of
          Inl e \<Rightarrow> (Inl e, f, l)
        | Inr l1 \<Rightarrow>
            (case work (f, l1) of (res, f2, l2) \<Rightarrow>
               (case reconcilePending dataDir f2 l2 of
                  Inl e \<Rightarrow> (Inl e, f2, l2)
                | Inr l3 \<Rightarrow> (res, f2, l3))))"

section \<open>What the ledger accounts for\<close>

text \<open>
  Every object in the store has a row with its size, addresses are valid, rows are unique and
  every grant and every published row is for an object that is there.
\<close>

definition rows_ok :: "jstring \<Rightarrow> fs \<Rightarrow> ledger \<Rightarrow> bool" where
  "rows_ok dataDir f l \<longleftrightarrow>
     distinct (jmap_keys (rtk_storage l)) \<and> (\<forall>(h, r)\<in>set (rtk_storage l). validHash h)
     \<and> (\<forall>h bs. lookup_at dataDir h f = Some bs \<longrightarrow> (\<exists>r. jmap_get (rtk_storage l) h = Some r \<and> rsize r = length bs))"

definition refs_ok :: "jstring \<Rightarrow> fs \<Rightarrow> ledger \<Rightarrow> bool" where
  "refs_ok dataDir f l \<longleftrightarrow>
     (\<forall>(s, h)\<in>set (rtk_refs l). lookup_at dataDir h f \<noteq> None)
     \<and> (\<forall>(h, r)\<in>set (rtk_storage l). rstate r = Published \<longrightarrow> lookup_at dataDir h f \<noteq> None)"

lemma reconcile_total: "rows_ok d f l \<Longrightarrow> \<exists>l'. reconcilePending d f l = Inr l'"
  by (auto simp: rows_ok_def reconcilePending_def list_ex_iff)

lemma keys_reconcile:
  "set (map fst (concat (map (reconcile_row d f) rows))) \<subseteq> set (map fst rows)"
  by (force simp: reconcile_row_def split: if_splits)

lemma distinct_reconcile:
  "distinct (map fst rows) \<Longrightarrow> distinct (map fst (concat (map (reconcile_row d f) rows)))"
proof (induction rows)
  case (Cons row rows)
  obtain h r where row: "row = (h, r)" by (cases row)
  have "h \<notin> set (map fst (concat (map (reconcile_row d f) rows)))"
    using Cons(2) keys_reconcile [of d f rows] by (auto simp: row)
  with Cons show ?case by (auto simp: row reconcile_row_def)
qed simp

lemma get_reconcile:
  assumes "distinct (map fst rows)"
  shows "map_of (concat (map (reconcile_row d f) rows)) h =
     (case map_of rows h of
        None \<Rightarrow> None
      | Some r \<Rightarrow> if rstate r = Published \<or> lookup_at d h f \<noteq> None then Some (r\<lparr>rstate := Published\<rparr>) else None)"
  using assms
proof (induction rows)
  case (Cons row rows)
  obtain k r where row: "row = (k, r)" by (cases row)
  have pub: "r\<lparr>rstate := Published\<rparr> = r" if "rstate r = Published" using that by (cases r) simp
  have "map_of (concat (map (reconcile_row d f) rows)) k = None"
    using Cons(2) keys_reconcile [of d f rows] by (auto simp: row map_of_eq_None_iff)
  with Cons pub show ?case by (auto simp: row reconcile_row_def map_of_eq_None_iff split: option.splits)
qed simp

text \<open>Reconciliation keeps what is accounted for, and only ever frees reservations.\<close>

lemma reconcile_rows_ok:
  assumes "rows_ok d f l" and "reconcilePending d f l = Inr l'"
  shows "rows_ok d f l'"
proof -
  have l': "l' = l\<lparr>rtk_storage := concat (map (reconcile_row d f) (rtk_storage l))\<rparr>"
    using assms(2) by (simp add: reconcilePending_def split: if_splits)
  have dist: "distinct (jmap_keys (rtk_storage l))" using assms(1) by (simp add: rows_ok_def)
  have "validHash h" if "(h, r) \<in> set (rtk_storage l')" for h r
    using that assms(1) by (auto simp: l' rows_ok_def reconcile_row_def split: if_splits)
  moreover have "\<exists>r. jmap_get (rtk_storage l') h = Some r \<and> rsize r = length bs" if "lookup_at d h f = Some bs" for h bs
    using that assms(1) get_reconcile [OF dist, of d f h] by (fastforce simp: rows_ok_def l')
  ultimately show ?thesis using distinct_reconcile [OF dist, of d f] by (auto simp: rows_ok_def l')
qed

lemma usage_reconcile: "reconcilePending d f l = Inr l' \<Longrightarrow> usage l' \<le> usage l"
proof -
  have "sum_list (map (rsize \<circ> snd) (concat (map (reconcile_row d f) rows))) \<le> sum_list (map (rsize \<circ> snd) rows)" for rows
    by (induction rows) (auto simp: reconcile_row_def)
  then show "reconcilePending d f l = Inr l' \<Longrightarrow> usage l' \<le> usage l"
    by (auto simp: reconcilePending_def usage_def split: if_splits)
qed

lemma refs_reconcile: "refs_ok d f l \<Longrightarrow> reconcilePending d f l = Inr l' \<Longrightarrow> refs_ok d f l'"
  by (fastforce simp: reconcilePending_def refs_ok_def reconcile_row_def split: if_splits)

lemma reconcile_row_published: "(h, r) \<in> set (reconcile_row d f (k, b)) \<Longrightarrow> rstate r = Published"
  by (auto simp: reconcile_row_def split: if_splits)

lemma reconcile_published:
  "reconcilePending d f l = Inr l' \<Longrightarrow> (h, r) \<in> set (rtk_storage l') \<Longrightarrow> rstate r = Published"
  by (auto simp: reconcilePending_def dest: reconcile_row_published split: if_splits)

lemma jmap_set_new: "k \<notin> fst ` set m \<Longrightarrow> jmap_set k v m = m @ [(k, v)]"
  by (induction m) auto

lemma reserve_rows_ok:
  assumes "rows_ok d f l" and "validHash h" and "reserve h (length bs) limit l = (ok, l')"
  shows "rows_ok d f l' \<and> (refs_ok d f l \<longrightarrow> refs_ok d f l')
    \<and> (ok \<longrightarrow> (\<exists>r. jmap_get (rtk_storage l') h = Some r \<and> rsize r = length bs)) \<and> (usage l \<le> limit \<longrightarrow> usage l' \<le> limit)"
proof (cases "jmap_get (rtk_storage l) h")
  case None
  then have new: "h \<notin> fst ` set (rtk_storage l)" by (simp add: map_of_eq_None_iff)
  then have ext: "jmap_set h \<lparr>rsize = length bs, rstate = Pending\<rparr> (rtk_storage l)
      = rtk_storage l @ [(h, \<lparr>rsize = length bs, rstate = Pending\<rparr>)]" by (rule jmap_set_new)
  show ?thesis
  proof (cases "limit < usage l + length bs")
    case False
    then have l': "l' = l\<lparr>rtk_storage := rtk_storage l @ [(h, \<lparr>rsize = length bs, rstate = Pending\<rparr>)]\<rparr>" "ok"
      using assms(3) None ext by (auto simp: reserve_def)
    have "rows_ok d f l'"
      using assms(1-2) new None by (fastforce simp: rows_ok_def l' map_add_def split: option.splits)
    with False None new show ?thesis by (simp add: l' usage_def map_add_def refs_ok_def)
  qed (use assms None in \<open>simp add: reserve_def\<close>)
next
  case (Some r)
  with assms show ?thesis by (auto simp: reserve_def)
qed

section \<open>Writing changes one address\<close>

lemma objectPath_inj:
  assumes "objectPath d h = Inr p" and "objectPath d h' = Inr p" shows "h = h'"
proof -
  have v: "validHash h" "validHash h'" and
    p: "p = (d @ js ''/objects/'' @ take 2 h @ js ''/'') @ h" "p = (d @ js ''/objects/'' @ take 2 h' @ js ''/'') @ h'"
    using assms by (auto simp: objectPath_def split: if_splits)
  from p have "(d @ js ''/objects/'' @ take 2 h @ js ''/'') @ h = (d @ js ''/objects/'' @ take 2 h' @ js ''/'') @ h'" by simp
  moreover have "length h = length h'" using v by (simp add: validHash_def)
  ultimately show ?thesis by (metis append_eq_append_conv)
qed

lemma publish_tmp_others:
  assumes "publish_tmp fault c tmp path hash bytes f = (res, f')" and "p \<noteq> tmp" and "p \<noteq> path"
  shows "f' p = f p"
  using assms by (auto simp: publish_tmp_def Let_def split: if_splits option.splits)

lemma publish_tmp_target:
  assumes "publish_tmp fault c tmp path hash bytes f = (res, f')" and "tmp \<noteq> path"
  shows "f' path = f path \<or> f' path = Some bytes"
  using assms by (auto simp: publish_tmp_def Let_def split: if_splits option.splits)

lemma write_others:
  assumes "write_at c (\<lambda>f. f) fault uuid d h bs f = (res, f')"
  shows "h' \<noteq> h \<Longrightarrow> lookup_at d h' f' = lookup_at d h' f"
    and "lookup_at d h f' = lookup_at d h f \<or> lookup_at d h f' = Some bs"
proof -
  have cases: "f' = f \<or> (\<exists>p. objectPath d h = Inr p
      \<and> publish_tmp fault c (tmp_path p h uuid) p h bs f = (res, f'))"
    using assms by (auto simp: write_at_def split: sum.splits option.splits if_splits)
  show "lookup_at d h' f' = lookup_at d h' f" if "h' \<noteq> h"
    using cases
  proof
    assume "\<exists>p. objectPath d h = Inr p \<and> publish_tmp fault c (tmp_path p h uuid) p h bs f = (res, f')"
    then obtain p where p: "objectPath d h = Inr p" "publish_tmp fault c (tmp_path p h uuid) p h bs f = (res, f')" by blast
    show ?thesis
    proof (cases "objectPath d h'")
      case (Inr p')
      moreover have "p' \<noteq> p" using objectPath_inj [OF p(1)] Inr that by blast
      moreover have "p' \<noteq> tmp_path p h uuid" using tmp_not_path [OF p(1) Inr] by metis
      ultimately show ?thesis using publish_tmp_others [OF p(2)] by (simp add: lookup_at_def)
    qed (simp add: lookup_at_def)
  qed simp
  show "lookup_at d h f' = lookup_at d h f \<or> lookup_at d h f' = Some bs"
    using cases
  proof
    assume "\<exists>p. objectPath d h = Inr p \<and> publish_tmp fault c (tmp_path p h uuid) p h bs f = (res, f')"
    then obtain p where p: "objectPath d h = Inr p" "publish_tmp fault c (tmp_path p h uuid) p h bs f = (res, f')" by blast
    from publish_tmp_target [OF p(2) tmp_not_path [OF p(1) p(1)]] show ?thesis by (simp add: lookup_at_def p(1))
  qed simp
qed

lemma write_rows_ok:
  assumes "rows_ok d f l" and "jmap_get (rtk_storage l) h = Some r" and "rsize r = length bs"
    and "\<And>h'. h' \<noteq> h \<Longrightarrow> lookup_at d h' f' = lookup_at d h' f"
    and "lookup_at d h f' = lookup_at d h f \<or> lookup_at d h f' = Some bs"
  shows "rows_ok d f' l"
proof -
  have "\<exists>r. jmap_get (rtk_storage l) h' = Some r \<and> rsize r = length v" if "lookup_at d h' f' = Some v" for h' v
  proof (cases "h' = h \<and> lookup_at d h f' \<noteq> lookup_at d h f")
    case True
    with assms(2,3,5) that show ?thesis by auto
  next
    case False
    then have "lookup_at d h' f = Some v" using assms(4) [of h'] that by (cases "h' = h") auto
    with assms(1) show ?thesis by (auto simp: rows_ok_def)
  qed
  with assms(1) show ?thesis by (auto simp: rows_ok_def)
qed

lemma write_refs_ok:
  assumes "refs_ok d f l" and "\<And>h v. lookup_at d h f = Some v \<Longrightarrow> lookup_at d h f' = Some v"
  shows "refs_ok d f' l"
  using assms by (fastforce simp: refs_ok_def)

section \<open>Publication with crashes\<close>

text \<open>
  A publisher as a step relation over the durable state (files and ledger) and its own volatile
  phase. The process may die at any point, also inside the write: then a temporary file may be
  left, with or without the object being linked.
\<close>

datatype phase = Idle | Held | Reserved "byte list" | Stored "byte list" | Leaving

type_synonym pubState = "fs \<times> ledger \<times> phase"

inductive pub_step :: "(byte list \<Rightarrow> byte list) \<Rightarrow> jstring \<Rightarrow> nat \<Rightarrow> pubState \<Rightarrow> pubState \<Rightarrow> bool"
  for digest dataDir limit where
  acquire: "reconcilePending dataDir f l = Inr l' \<Longrightarrow>
    pub_step digest dataDir limit (f, l, Idle) (f, l', Held)"
| reserved: "reserve (sha256Hex digest bs) (length bs) limit l = (True, l') \<Longrightarrow>
    pub_step digest dataDir limit (f, l, Held) (f, l', Reserved bs)"
| refused: "reserve (sha256Hex digest bs) (length bs) limit l = (False, l') \<Longrightarrow>
    pub_step digest dataDir limit (f, l, Held) (f, l', Leaving)"
| stored: "writeObject digest (\<lambda>f. f) fault uuid dataDir bs f = (Inr r, f') \<Longrightarrow>
    pub_step digest dataDir limit (f, l, Reserved bs) (f', l, Stored bs)"
| failed: "writeObject digest (\<lambda>f. f) fault uuid dataDir bs f = (Inl e, f') \<Longrightarrow>
    pub_step digest dataDir limit (f, l, Reserved bs) (f', l, Leaving)"
| granted: "pub_step digest dataDir limit
    (f, l, Stored bs) (f, grant sessionId (sha256Hex digest bs) l, Leaving)"
| release: "reconcilePending dataDir f l = Inr l' \<Longrightarrow>
    pub_step digest dataDir limit (f, l, Leaving) (f, l', Idle)"
| crash: "pub_step digest dataDir limit (f, l, ph) (f, l, Idle)"
| crash_tmp: "objectPath dataDir (sha256Hex digest bs) = Inr p \<Longrightarrow>
    pub_step digest dataDir limit (f, l, Reserved bs)
      (f(tmp_path p (sha256Hex digest bs) uuid \<mapsto> part), l, Idle)"
| crash_linked: "objectPath dataDir (sha256Hex digest bs) = Inr p \<Longrightarrow> f p = None \<Longrightarrow>
    pub_step digest dataDir limit (f, l, Reserved bs)
      (f(tmp_path p (sha256Hex digest bs) uuid \<mapsto> bs, p \<mapsto> bs), l, Idle)"

inductive_cases pub_stepE: "pub_step digest dataDir limit st st'"

definition phase_ok :: "(byte list \<Rightarrow> byte list) \<Rightarrow> jstring \<Rightarrow> pubState \<Rightarrow> bool" where
  "phase_ok digest d st \<longleftrightarrow>
     (case st of (f, l, ph) \<Rightarrow>
        (case ph of
           Reserved bs \<Rightarrow> (\<exists>r. jmap_get (rtk_storage l) (sha256Hex digest bs) = Some r \<and> rsize r = length bs)
         | Stored bs \<Rightarrow> lookup_at d (sha256Hex digest bs) f = Some bs
         | _ \<Rightarrow> True))"

definition pub_inv :: "(byte list \<Rightarrow> byte list) \<Rightarrow> jstring \<Rightarrow> nat \<Rightarrow> pubState \<Rightarrow> bool" where
  "pub_inv digest d limit st \<longleftrightarrow>
     (case st of (f, l, ph) \<Rightarrow> rows_ok d f l \<and> refs_ok d f l \<and> usage l \<le> limit) \<and> phase_ok digest d st"

text \<open>A change of temporary files and of the one address keeps the other addresses.\<close>

lemma lookup_tmp:
  assumes "objectPath d h = Inr p"
  shows "lookup_at d h' (f(tmp_path p h uuid := v)) = lookup_at d h' f"
proof (cases "objectPath d h'")
  case (Inr p')
  then show ?thesis using tmp_not_path [OF assms Inr, of uuid] by (auto simp: lookup_at_def)
qed (simp add: lookup_at_def)

lemma lookup_path:
  assumes "objectPath d h = Inr p"
  shows "lookup_at d h (f(p \<mapsto> bs)) = Some bs"
    and "h' \<noteq> h \<Longrightarrow> lookup_at d h' (f(p \<mapsto> bs)) = lookup_at d h' f"
proof -
  show "lookup_at d h (f(p \<mapsto> bs)) = Some bs" by (simp add: lookup_at_def assms)
  assume ne: "h' \<noteq> h"
  have "p' \<noteq> p" if "objectPath d h' = Inr p'" for p'
    using objectPath_inj [OF assms] that ne by metis
  then show "lookup_at d h' (f(p \<mapsto> bs)) = lookup_at d h' f" by (auto simp: lookup_at_def split: sum.splits)
qed

lemma pub_inv_files:
  assumes "pub_inv digest d limit (f, l, Reserved bs)" and "h = sha256Hex digest bs"
    and "\<And>h'. h' \<noteq> h \<Longrightarrow> lookup_at d h' f' = lookup_at d h' f"
    and "lookup_at d h f' = lookup_at d h f \<or> lookup_at d h f = None \<and> lookup_at d h f' = Some bs"
    and "phase_ok digest d (f', l, ph)"
  shows "pub_inv digest d limit (f', l, ph)"
proof -
  obtain r where r: "jmap_get (rtk_storage l) h = Some r" "rsize r = length bs"
    using assms(1,2) by (auto simp: pub_inv_def phase_ok_def)
  have inv: "rows_ok d f l" "refs_ok d f l" "usage l \<le> limit" using assms(1) by (auto simp: pub_inv_def)
  have "rows_ok d f' l" using write_rows_ok [OF inv(1) r assms(3)] assms(4) by blast
  moreover have "refs_ok d f' l"
  proof (rule write_refs_ok [OF inv(2)])
    fix h' v
    assume "lookup_at d h' f = Some v"
    then show "lookup_at d h' f' = Some v" using assms(3) [of h'] assms(4) by (cases "h' = h") auto
  qed
  ultimately show ?thesis using inv(3) assms(5) by (simp add: pub_inv_def)
qed

lemma write_pub_inv:
  assumes "pub_inv digest d limit (f, l, Reserved bs)"
    and "writeObject digest (\<lambda>f. f) fault uuid d bs f = (res, f')"
  shows "pub_inv digest d limit (f', l, case res of Inr r \<Rightarrow> Stored bs | Inl e \<Rightarrow> Leaving)"
proof (rule pub_inv_files [OF assms(1) refl])
  note w = assms(2) [unfolded writeObject_def]
  show "lookup_at d h' f' = lookup_at d h' f" if "h' \<noteq> sha256Hex digest bs" for h'
    using write_others(1) [OF w that] .
  show "lookup_at d (sha256Hex digest bs) f' = lookup_at d (sha256Hex digest bs) f
      \<or> lookup_at d (sha256Hex digest bs) f = None \<and> lookup_at d (sha256Hex digest bs) f' = Some bs"
    using write_others(2) [OF w] write_at_keeps [OF only_adds_id w]
    by (cases "lookup_at d (sha256Hex digest bs) f") auto
  show "phase_ok digest d (f', l, case res of Inr r \<Rightarrow> Stored bs | Inl e \<Rightarrow> Leaving)"
    using write_at_result w by (auto simp: phase_ok_def split: sum.splits)
qed

lemma reconcile_pub_inv:
  assumes "pub_inv digest d limit (f, l, ph)" and "reconcilePending d f l = Inr l'" and "ph' \<in> {Idle, Held}"
  shows "pub_inv digest d limit (f, l', ph')"
  using assms reconcile_rows_ok [of d f l l'] usage_reconcile [of d f l l'] refs_reconcile [of d f l l']
  by (auto simp: pub_inv_def phase_ok_def)

lemma pub_step_inv:
  assumes "digest_ok digest" and "pub_step digest d limit st st'" and "pub_inv digest d limit st"
  shows "pub_inv digest d limit st'"
  using assms(2,3)
proof (induction rule: pub_step.induct)
  case (acquire f l l')
  then show ?case by (auto intro: reconcile_pub_inv)
next
  case (reserved bs l l' f)
  then show ?case
    using reserve_rows_ok [OF _ validHash_sha [OF assms(1)] reserved(1), of d f]
    by (auto simp: pub_inv_def phase_ok_def)
next
  case (refused bs l l' f)
  then show ?case
    using reserve_rows_ok [OF _ validHash_sha [OF assms(1)] refused(1), of d f]
    by (auto simp: pub_inv_def phase_ok_def)
next
  case (stored fault uuid bs f r f' l)
  from write_pub_inv [OF stored(2,1)] show ?case by simp
next
  case (failed fault uuid bs f e f' l)
  from write_pub_inv [OF failed(2,1)] show ?case by simp
next
  case (granted f l bs sessionId)
  then show ?case by (auto simp: pub_inv_def phase_ok_def grant_def rows_ok_def refs_ok_def usage_def)
next
  case (release f l l')
  then show ?case by (auto intro: reconcile_pub_inv)
next
  case (crash f l ph)
  then show ?case by (simp add: pub_inv_def phase_ok_def)
next
  case (crash_tmp bs p f l uuid part)
  from pub_inv_files [OF crash_tmp(2) refl] show ?case
    by (simp add: lookup_tmp [OF crash_tmp(1)] phase_ok_def)
next
  case (crash_linked bs p f l uuid)
  have none: "lookup_at d (sha256Hex digest bs) f = None" using crash_linked(1,2) by (simp add: lookup_at_def)
  from pub_inv_files [OF crash_linked(3) refl] show ?case
    by (simp add: lookup_path [OF crash_linked(1)] lookup_tmp [OF crash_linked(1)] phase_ok_def none)
qed

definition stored_bytes :: "jstring \<Rightarrow> fs \<Rightarrow> jstring list \<Rightarrow> nat" where
  "stored_bytes d f hs = sum_list (map (\<lambda>h. case lookup_at d h f of None \<Rightarrow> 0 | Some bs \<Rightarrow> length bs) hs)"

lemma stored_le_usage:
  assumes "rows_ok d f l" and "distinct hs"
  shows "stored_bytes d f hs \<le> usage l"
proof -
  let ?c = "\<lambda>h. case lookup_at d h f of None \<Rightarrow> 0 | Some bs \<Rightarrow> length bs"
  let ?keys = "jmap_keys (rtk_storage l)"
  have dist: "distinct ?keys" using assms(1) by (simp add: rows_ok_def)
  have "stored_bytes d f hs = (\<Sum>h\<in>set hs. ?c h)"
    unfolding stored_bytes_def using assms(2) by (rule sum_list_distinct_conv_sum_set)
  also have "\<dots> = (\<Sum>h\<in>set hs \<inter> set ?keys. ?c h)"
    using assms(1) by (intro sum.mono_neutral_right) (auto simp: rows_ok_def map_of_eq_None_iff split: option.splits dest: map_of_SomeD, force dest: map_of_SomeD)
  also have "\<dots> \<le> (\<Sum>h\<in>set ?keys. ?c h)" by (intro sum_mono2) auto
  also have "\<dots> = sum_list (map ?c ?keys)" using dist by (rule sum_list_distinct_conv_sum_set [symmetric])
  also have "\<dots> = sum_list (map (\<lambda>hr. ?c (fst hr)) (rtk_storage l))" by (simp add: comp_def)
  also have "\<dots> \<le> usage l"
    unfolding usage_def
  proof (rule sum_list_map_le)
    fix hr assume hr: "hr \<in> set (rtk_storage l)"
    obtain h r where e: "hr = (h, r)" by (cases hr)
    have "jmap_get (rtk_storage l) h = Some r" using dist hr e by simp
    with assms(1) show "?c (fst hr) \<le> (rsize \<circ> snd) hr"
      by (fastforce simp: e rows_ok_def split: option.splits)
  qed
  finally show ?thesis .
qed

lemma stored_eq_usage:
  assumes "rows_ok d f l" and "\<forall>(h, r)\<in>set (rtk_storage l). lookup_at d h f \<noteq> None"
  shows "usage l = stored_bytes d f (jmap_keys (rtk_storage l))"
proof -
  have dist: "distinct (jmap_keys (rtk_storage l))" using assms(1) by (simp add: rows_ok_def)
  have "rsize (snd hr) = (case lookup_at d (fst hr) f of None \<Rightarrow> 0 | Some bs \<Rightarrow> length bs)"
    if hr: "hr \<in> set (rtk_storage l)" for hr
  proof -
    obtain h r where e: "hr = (h, r)" by (cases hr)
    obtain bs where bs: "lookup_at d h f = Some bs" using assms(2) hr e by auto
    have "jmap_get (rtk_storage l) h = Some r" using dist hr e by simp
    moreover obtain r' where "jmap_get (rtk_storage l) h = Some r'" "rsize r' = length bs"
      using assms(1) bs unfolding rows_ok_def by blast
    ultimately show ?thesis by (simp add: e bs)
  qed
  then have "map (rsize \<circ> snd) (rtk_storage l)
      = map ((\<lambda>h. case lookup_at d h f of None \<Rightarrow> 0 | Some bs \<Rightarrow> length bs) \<circ> fst) (rtk_storage l)" by simp
  then show ?thesis unfolding usage_def stored_bytes_def map_map by (simp only:)
qed

lemma pub_inv_init: "pub_inv digest d limit (\<lambda>_. None, empty_ledger, Idle)"
  by (simp add: pub_inv_def phase_ok_def rows_ok_def refs_ok_def usage_def empty_ledger_def)

lemma reachable_inv:
  assumes "digest_ok digest"
    and "(pub_step digest d limit)\<^sup>*\<^sup>* (\<lambda>_. None, empty_ledger, Idle) st"
  shows "pub_inv digest d limit st"
  using assms(2) by (induction rule: rtranclp_induct) (auto intro: pub_inv_init pub_step_inv [OF assms(1)])

section \<open>Properties\<close>



text \<open>A crash does not leak quota. In every reachable state the next publisher can start, and after its
  reconciliation the reserved bytes are exactly the bytes of the objects that are there.\<close>

theorem reconcile_releases_crashed:
  assumes "digest_ok digest"
    and "(pub_step digest dataDir limit)\<^sup>*\<^sup>* (\<lambda>_. None, empty_ledger, Idle) (f, l, ph)"
  shows "\<exists>l'. reconcilePending dataDir f l = Inr l'
     \<and> usage l' = stored_bytes dataDir f (jmap_keys (rtk_storage l')) \<and> rtk_refs l' = rtk_refs l"
proof -
  have inv: "rows_ok dataDir f l" "refs_ok dataDir f l"
    using reachable_inv [OF assms] by (auto simp: pub_inv_def)
  obtain l' where l': "reconcilePending dataDir f l = Inr l'" using reconcile_total [OF inv(1)] by blast
  have "\<forall>(h, r)\<in>set (rtk_storage l'). lookup_at dataDir h f \<noteq> None"
    using refs_reconcile [OF inv(2) l'] reconcile_published [OF l'] by (auto simp: refs_ok_def)
  from stored_eq_usage [OF reconcile_rows_ok [OF inv(1) l'] this] l' show ?thesis
    by (auto simp: reconcilePending_def split: if_splits)
qed

theorem reconcile_releases_crashed_witness:
  "\<exists>l'. reconcilePending (js ''/d'') (\<lambda>_. None) empty_ledger = Inr l'
     \<and> usage l' = stored_bytes (js ''/d'') (\<lambda>_. None) (jmap_keys (rtk_storage l')) \<and> rtk_refs l' = rtk_refs empty_ledger"
proof (rule reconcile_releases_crashed)
  show "(pub_step (\<lambda>_. replicate 32 0) (js ''/d'') 9)\<^sup>*\<^sup>* (\<lambda>_. None, empty_ledger, Idle) (\<lambda>_. None, empty_ledger, Held)"
    by (rule r_into_rtranclp, rule acquire) (simp add: reconcilePending_def empty_ledger_def)
qed (simp add: digest_ok_def)

end
