(* ===== verification/Rtk_Engine.thy ===== *)
theory Rtk_Engine
  imports Pipeline Paging Ownership
begin

text \<open>
  \<open>packages/rtk/src/engine.ts\<close>: the operations behind the rtk protocol. \<open>compress\<close> validates its
  parameters, runs the pipeline, publishes the raw text under the quota and records the session
  as an owner; when the store refuses or fails it answers with the raw text. \<open>fetch\<close> returns pages
  of an object to a session that owns it.

  Parameter validation follows the schemas of \<open>packages/contracts/src/rtk.ts\<close>. The durable
  state is the file system and the ledger, the volatile state the counters. The writer mutex
  excludes other publishers while a store runs.
\<close>

section \<open>Parameters\<close>

record compressParams =
  cpTool :: jstring
  cpOutput :: jstring
  cpMetadata :: "json option"
  cpBudgetTokens :: nat
  cpSessionId :: jstring

definition opt_string :: "json \<Rightarrow> string \<Rightarrow> bool" where
  "opt_string j k = (case json_get j (js k) of None \<Rightarrow> True | Some (JStr s) \<Rightarrow> True | _ \<Rightarrow> False)"

definition opt_object :: "json \<Rightarrow> string \<Rightarrow> (json \<Rightarrow> bool) \<Rightarrow> bool" where
  "opt_object j k ok = (case json_get j (js k) of None \<Rightarrow> True | Some (JObj kvs) \<Rightarrow> ok (JObj kvs) | _ \<Rightarrow> False)"

definition scalar :: "json \<Rightarrow> bool" where
  "scalar v = (case v of JArr _ \<Rightarrow> False | JObj _ \<Rightarrow> False | _ \<Rightarrow> True)"

text \<open>A positive integer not above a cap.\<close>

definition positive_int :: "rat \<Rightarrow> bool" where
  "positive_int q \<longleftrightarrow> is_safe_integer q \<and> 0 < q"

definition parse_compress_params :: "json \<Rightarrow> compressParams option" where
  "parse_compress_params j =
     (case (get_string j ''tool'', get_string j ''output'', get_string j ''sessionId'') of
        (Some tool, Some output, Some sessionId) \<Rightarrow>
          if opt_string j ''title'' \<and> opt_string j ''callId''
             \<and> opt_object j ''toolArgs'' (\<lambda>v. case v of JObj kvs \<Rightarrow> list_all (\<lambda>(k, x). scalar x) kvs | _ \<Rightarrow> False)
             \<and> opt_object j ''source'' (\<lambda>v. opt_string v ''path'' \<and> opt_string v ''kind'')
             \<and> opt_object j ''provenance'' (\<lambda>v. opt_string v ''provider'' \<and> opt_string v ''model'' \<and> opt_string v ''callId'')
             \<and> opt_object j ''metadata'' (\<lambda>v. True)
             \<and> sessionId \<noteq> []
          then (case json_get j (js ''budgetTokens'') of
                  None \<Rightarrow> Some \<lparr>cpTool = tool, cpOutput = output, cpMetadata = json_get j (js ''metadata''),
                                cpBudgetTokens = 512, cpSessionId = sessionId\<rparr>
                | Some (JNum q) \<Rightarrow>
                    if positive_int q
                    then Some \<lparr>cpTool = tool, cpOutput = output, cpMetadata = json_get j (js ''metadata''),
                               cpBudgetTokens = nat (fst (quotient_of q)), cpSessionId = sessionId\<rparr>
                    else None
                | _ \<Rightarrow> None)
          else None
      | _ \<Rightarrow> None)"

record fetchParams =
  fpHash :: jstring
  fpSessionId :: jstring
  fpCursor :: "jstring option"
  fpMaxBytes :: "rat option"
  fpMaxTokens :: "rat option"

definition sha256Ref :: "jstring \<Rightarrow> bool" where
  "sha256Ref s \<longleftrightarrow> starts_with s (js ''sha256:'') \<and> validHash (drop 7 s)"

definition opt_limit :: "json \<Rightarrow> string \<Rightarrow> nat \<Rightarrow> (rat option) option" where
  "opt_limit j k cap =
     (case json_get j (js k) of
        None \<Rightarrow> Some None
      | Some (JNum q) \<Rightarrow> if positive_int q \<and> q \<le> of_nat cap then Some (Some q) else None
      | _ \<Rightarrow> None)"

definition parse_fetch_params :: "json \<Rightarrow> fetchParams option" where
  "parse_fetch_params j =
     (case (get_string j ''hash'', get_string j ''sessionId'', opt_limit j ''maxBytes'' 131072, opt_limit j ''maxTokens'' 8192) of
        (Some hash, Some sessionId, Some maxB, Some maxT) \<Rightarrow>
          if sha256Ref hash \<and> sessionId \<noteq> [] \<and> opt_string j ''cursor''
             \<and> (case get_string j ''cursor'' of None \<Rightarrow> True | Some c \<Rightarrow> length c \<le> 4096)
          then Some \<lparr>fpHash = hash, fpSessionId = sessionId, fpCursor = get_string j ''cursor'',
                     fpMaxBytes = maxB, fpMaxTokens = maxT\<rparr>
          else None
      | _ \<Rightarrow> None)"

section \<open>The engine\<close>

datatype engineError = InvalidParams | CasFailure casError | PageFailure pageError

record engine =
  efs :: fs
  eledger :: ledger
  estats :: pipelineStats

datatype fetchResult = NotFound | Found jstring "jstring option" bool

definition pipeline_input :: "compressParams \<Rightarrow> compressInput" where
  "pipeline_input p =
     \<lparr>itool = cpTool p, ioutput = cpOutput p, imetadata = cpMetadata p, ibudgetTokens = Some (cpBudgetTokens p),
      iredactor = None, classifyOverride = None\<rparr>"

text \<open>The callback run under the mutex: reserve, write, check the hash, grant.\<close>

definition store_work :: "(byte list \<Rightarrow> byte list) \<Rightarrow> ioFault option \<Rightarrow> jstring \<Rightarrow> jstring \<Rightarrow> nat \<Rightarrow> jstring \<Rightarrow> jstring \<Rightarrow> jstring
    \<Rightarrow> fs \<times> ledger \<Rightarrow> (ownershipError, degradedReason option) result \<times> fs \<times> ledger" where
  "store_work digest fault uuid dataDir maxStorage sessionId expectedHex raw st =
     (case st of (f, l) \<Rightarrow>
        case reserve expectedHex (byteLength raw) maxStorage l of
          (False, l1) \<Rightarrow> (Inr (Some StorageCapacity), f, l1)
        | (True, l1) \<Rightarrow>
            (case writeObject digest (\<lambda>f. f) fault uuid dataDir (utf8_encode raw) f of
               (Inl e, f1) \<Rightarrow> (Inl WorkFailed, f1, l1)
             | (Inr stored, f1) \<Rightarrow>
                 if whash stored \<noteq> expectedHex then (Inl WorkFailed, f1, l1)
                 else (Inr None, f1, grant sessionId expectedHex l1)))"

definition store_raw :: "(byte list \<Rightarrow> byte list) \<Rightarrow> bool \<Rightarrow> ioFault option \<Rightarrow> jstring \<Rightarrow> jstring \<Rightarrow> nat \<Rightarrow> jstring \<Rightarrow> jstring \<Rightarrow> jstring
    \<Rightarrow> fs \<times> ledger \<Rightarrow> degradedReason option \<times> fs \<times> ledger" where
  "store_raw digest busy fault uuid dataDir maxStorage sessionId expectedHex raw st =
     (case publish busy dataDir (store_work digest fault uuid dataDir maxStorage sessionId expectedHex raw) st of
        (Inl e, st') \<Rightarrow> (Some StorageError, st')
      | (Inr failure, st') \<Rightarrow> (failure, st'))"

fun reason_string :: "degradedReason \<Rightarrow> jstring" where
  "reason_string SpawnFailed = js ''spawn_failed''"
| "reason_string Timeout = js ''timeout''"
| "reason_string Crash = js ''crash''"
| "reason_string Protocol = js ''protocol''"
| "reason_string NoGain = js ''no_gain''"
| "reason_string Overloaded = js ''overloaded''"
| "reason_string StorageCapacity = js ''storage_capacity''"
| "reason_string StorageError = js ''storage_error''"

definition degrade :: "degradedReason \<Rightarrow> jstring \<Rightarrow> compressResult \<Rightarrow> compressResult" where
  "degrade failure raw r =
     r\<lparr>routput := raw, compressed := False, rstatus := Degraded, degraded := Some failure,
       actualTokens := rawTokensEst r, outTokensEst := rawTokensEst r,
       budgetExceeded := (targetTokens r < rawTokensEst r), omittedRanges := [],
       diagnostics := diagnostics r @ [reason_string failure]\<rparr>"

definition engine_compress :: "(byte list \<Rightarrow> byte list) \<Rightarrow> bool \<Rightarrow> ioFault option \<Rightarrow> jstring \<Rightarrow> jstring \<Rightarrow> nat \<Rightarrow> json
    \<Rightarrow> engine \<Rightarrow> (engineError, compressResult) result \<times> engine" where
  "engine_compress digest busy fault uuid dataDir maxStorage params e =
     (case parse_compress_params params of
        None \<Rightarrow> (Inl InvalidParams, e)
      | Some p \<Rightarrow>
          (let run = compressToolOutput digest (pipeline_input p);
               expectedHex = drop 7 (rawHash run);
               result = compressResult.truncate run
           in case store_raw digest busy fault uuid dataDir maxStorage (cpSessionId p) expectedHex (rawForStore run)
                     (efs e, eledger e) of
                (failure, f, l) \<Rightarrow>
                  (let result' = (case failure of None \<Rightarrow> result | Some reason \<Rightarrow> degrade reason (rawForStore run) result)
                   in (Inr result', e\<lparr>efs := f, eledger := l, estats := record_result result' (estats e)\<rparr>))))"

definition fetch_options :: "fetchParams \<Rightarrow> pageOptions" where
  "fetch_options p = \<lparr>pref = fpSessionId p @ js '':'' @ fpHash p, pcursor = fpCursor p,
     pmaxBytes = fpMaxBytes p, pmaxTokens = fpMaxTokens p\<rparr>"

definition engine_fetch :: "(byte list \<Rightarrow> byte list) \<Rightarrow> (fs \<Rightarrow> fs) \<Rightarrow> jstring \<Rightarrow> json \<Rightarrow> engine
    \<Rightarrow> (engineError, fetchResult) result" where
  "engine_fetch digest env dataDir params e =
     (case parse_fetch_params params of
        None \<Rightarrow> Inl InvalidParams
      | Some p \<Rightarrow>
          (let hex = drop 7 (fpHash p)
           in if \<not> owns (fpSessionId p) hex (eledger e) then Inr NotFound
              else case readObject digest env dataDir hex (efs e) of
                Inl err \<Rightarrow> Inl (CasFailure err)
              | Inr None \<Rightarrow> Inr NotFound
              | Inr (Some bytes) \<Rightarrow>
                  (case paginateText (utf8_decode bytes) (fetch_options p) of
                     Inl err \<Rightarrow> Inl (PageFailure err)
                   | Inr page \<Rightarrow> Inr (Found (pcontent page) (nextCursor page) (ptruncated page)))))"

text \<open>Start-up: objects that are already there are entered into the ledger without a limit.\<close>

definition create_engine :: "(jstring \<times> nat) list \<Rightarrow> fs \<Rightarrow> ledger \<Rightarrow> engine" where
  "create_engine existing f l =
     \<lparr>efs = f, eledger = fold (\<lambda>(hash, sz) l. snd (reserve hash sz (2 ^ 53 - 1) l)) existing l,
      estats = createPipelineStats\<rparr>"

section \<open>A store is a run of the publication protocol\<close>

lemma rawHash_hex: "drop 7 (hash_ref digest raw) = sha256Hex digest (utf8_encode raw)"
  by (simp add: hash_ref_def js_def)

lemma store_work_run:
  assumes "store_work digest fault uuid d limit session (sha256Hex digest (utf8_encode raw)) raw (f, l) = (res, f', l')"
  shows "(pub_step digest d limit)\<^sup>*\<^sup>* (f, l, Held) (f', l', Leaving)"
proof -
  let ?bs = "utf8_encode raw"
  obtain ok l1 where r: "reserve (sha256Hex digest ?bs) (length ?bs) limit l = (ok, l1)" by fastforce
  obtain w f1 where w: "writeObject digest (\<lambda>f. f) fault uuid d ?bs f = (w, f1)" by fastforce
  show ?thesis
  proof (cases ok)
    case False
    with assms r have "(f', l') = (f, l1)" by (auto simp: store_work_def byteLength_def)
    with refused [of digest ?bs limit l l1 d f] r False show ?thesis by auto
  next
    case True
    have step1: "pub_step digest d limit (f, l, Held) (f, l1, Reserved ?bs)"
      using reserved [of digest ?bs limit l l1 d f] r True by simp
    note ok = r True
    show ?thesis
    proof (cases w)
      case (Inl e)
      with assms ok w have e: "f' = f1" "l' = l1" by (auto simp: store_work_def byteLength_def)
      have "pub_step digest d limit (f, l1, Reserved ?bs) (f1, l1, Leaving)"
        using failed w Inl by blast
      with step1 show ?thesis unfolding e by (meson converse_rtranclp_into_rtranclp r_into_rtranclp)
    next
      case (Inr res0)
      have hash: "whash res0 = sha256Hex digest ?bs"
        using w Inr write_at_whash by (auto simp: writeObject_def)
      with assms ok w Inr have e: "f' = f1" "l' = grant session (sha256Hex digest ?bs) l1"
        by (auto simp: store_work_def byteLength_def)
      have "pub_step digest d limit (f, l1, Reserved ?bs) (f1, l1, Stored ?bs)"
        using stored w Inr by blast
      with step1 granted [of digest d limit f1 l1 ?bs session] show ?thesis
        unfolding e by (meson converse_rtranclp_into_rtranclp r_into_rtranclp)
    qed
  qed
qed

lemma store_raw_run:
  assumes "store_raw digest busy fault uuid d limit session (sha256Hex digest (utf8_encode raw)) raw (f, l) = (failure, f', l')"
  shows "(pub_step digest d limit)\<^sup>*\<^sup>* (f, l, Idle) (f', l', Idle)"
proof (cases "busy \<or> (\<exists>e. reconcilePending d f l = Inl e)")
  case True
  with assms have "f' = f" "l' = l" by (auto simp: store_raw_def publish_def split: if_splits)
  then show ?thesis by simp
next
  case False
  then obtain l1 where l1: "reconcilePending d f l = Inr l1" "\<not> busy" by (cases "reconcilePending d f l") auto
  obtain res f2 l2 where work: "store_work digest fault uuid d limit session (sha256Hex digest (utf8_encode raw)) raw (f, l1)
      = (res, f2, l2)" by (cases "store_work digest fault uuid d limit session (sha256Hex digest (utf8_encode raw)) raw (f, l1)")
  have run: "(pub_step digest d limit)\<^sup>*\<^sup>* (f, l, Idle) (f2, l2, Leaving)"
    using acquire [OF l1(1)] store_work_run [OF work] by (meson converse_rtranclp_into_rtranclp)
  show ?thesis
  proof (cases "reconcilePending d f2 l2")
    case (Inl e)
    with assms l1 work have "f' = f2" "l' = l2" by (auto simp: store_raw_def publish_def)
    with run crash show ?thesis by (metis rtranclp.rtrancl_into_rtrancl)
  next
    case (Inr l3)
    with assms l1 work have "f' = f2" "l' = l3" by (auto simp: store_raw_def publish_def split: sum.splits)
    with run release [OF Inr] show ?thesis by (metis rtranclp.rtrancl_into_rtrancl)
  qed
qed

lemma engine_compress_run:
  assumes "engine_compress digest busy fault uuid d limit params e = (res, e')"
  shows "(pub_step digest d limit)\<^sup>*\<^sup>* (efs e, eledger e, Idle) (efs e', eledger e', Idle)"
proof (cases "parse_compress_params params")
  case None
  with assms show ?thesis by (simp add: engine_compress_def)
next
  case (Some p)
  let ?raw = "raw_of (pipeline_input p)"
  obtain failure f l where st: "store_raw digest busy fault uuid d limit (cpSessionId p)
      (sha256Hex digest (utf8_encode ?raw)) ?raw (efs e, eledger e) = (failure, f, l)"
    by (cases "store_raw digest busy fault uuid d limit (cpSessionId p)
      (sha256Hex digest (utf8_encode ?raw)) ?raw (efs e, eledger e)")
  with assms Some have "efs e' = f" "eledger e' = l"
    by (auto simp: engine_compress_def rawHash_hex Let_def)
  with store_raw_run [OF st] show ?thesis by simp
qed

section \<open>Calls in sequence\<close>

record compressCall =
  callBusy :: bool
  callFault :: "ioFault option"
  callUuid :: jstring
  callParams :: json

definition run_calls :: "(byte list \<Rightarrow> byte list) \<Rightarrow> jstring \<Rightarrow> nat \<Rightarrow> compressCall list \<Rightarrow> engine \<Rightarrow> engine" where
  "run_calls digest d limit calls e =
     fold (\<lambda>c e. snd (engine_compress digest (callBusy c) (callFault c) (callUuid c) d limit (callParams c) e)) calls e"

definition fresh_engine :: engine where
  "fresh_engine = create_engine [] (\<lambda>_. None) empty_ledger"

lemma run_calls_run:
  "(pub_step digest d limit)\<^sup>*\<^sup>* (efs e, eledger e, Idle)
     (efs (run_calls digest d limit calls e), eledger (run_calls digest d limit calls e), Idle)"
proof (induction calls arbitrary: e)
  case (Cons c calls)
  obtain res e' where e': "engine_compress digest (callBusy c) (callFault c) (callUuid c) d limit (callParams c) e = (res, e')"
    by fastforce
  from rtranclp_trans [OF engine_compress_run [OF e'] Cons [of e']] show ?case by (simp add: run_calls_def e')
qed (simp add: run_calls_def)

lemma fresh_engine_simps [simp]: "efs fresh_engine = (\<lambda>_. None)" "eledger fresh_engine = empty_ledger"
  by (simp_all add: fresh_engine_def create_engine_def)

text \<open>Who may read what: a grant is only ever made to the session of the call, for the hash of its text.\<close>

lemma reserve_refs: "rtk_refs (snd (reserve h n limit l)) = rtk_refs l"
  by (auto simp: reserve_def split: option.splits)

lemma reconcile_refs: "reconcilePending d f l = Inr l' \<Longrightarrow> rtk_refs l' = rtk_refs l"
  by (auto simp: reconcilePending_def split: if_splits)

lemma store_work_refs:
  assumes "store_work digest fault uuid d limit session h raw (f, l) = (res, f', l')"
  shows "set (rtk_refs l') \<subseteq> insert (session, h) (set (rtk_refs l))"
  using assms reserve_refs [of h "byteLength raw" limit l]
  by (auto simp: store_work_def grant_def split: prod.splits bool.splits sum.splits if_splits)

lemma store_raw_refs:
  assumes "store_raw digest busy fault uuid d limit session h raw (f, l) = (failure, f', l')"
  shows "set (rtk_refs l') \<subseteq> insert (session, h) (set (rtk_refs l))"
proof (cases "busy \<or> (\<exists>e. reconcilePending d f l = Inl e)")
  case True
  with assms have "l' = l" by (auto simp: store_raw_def publish_def split: if_splits)
  then show ?thesis by auto
next
  case False
  then obtain l1 where l1: "reconcilePending d f l = Inr l1" "\<not> busy" by (cases "reconcilePending d f l") auto
  obtain res f2 l2 where work: "store_work digest fault uuid d limit session h raw (f, l1) = (res, f2, l2)"
    by (cases "store_work digest fault uuid d limit session h raw (f, l1)")
  have "rtk_refs l' = rtk_refs l2"
    using assms l1 work reconcile_refs [of d f2 l2]
    by (auto simp: store_raw_def publish_def split: sum.splits)
  with store_work_refs [OF work] reconcile_refs [OF l1(1)] show ?thesis by simp
qed

definition call_ref :: "(byte list \<Rightarrow> byte list) \<Rightarrow> json \<Rightarrow> (jstring \<times> jstring) option" where
  "call_ref digest params =
     (case parse_compress_params params of
        None \<Rightarrow> None
      | Some p \<Rightarrow> Some (cpSessionId p, sha256Hex digest (utf8_encode (raw_of (pipeline_input p)))))"

lemma engine_compress_refs:
  "set (rtk_refs (eledger (snd (engine_compress digest busy fault uuid d limit params e))))
   \<subseteq> set (rtk_refs (eledger e)) \<union> set_option (call_ref digest params)"
proof (cases "parse_compress_params params")
  case (Some p)
  let ?raw = "raw_of (pipeline_input p)"
  obtain failure f l where st: "store_raw digest busy fault uuid d limit (cpSessionId p)
      (sha256Hex digest (utf8_encode ?raw)) ?raw (efs e, eledger e) = (failure, f, l)"
    by (cases "store_raw digest busy fault uuid d limit (cpSessionId p)
      (sha256Hex digest (utf8_encode ?raw)) ?raw (efs e, eledger e)")
  with store_raw_refs [OF st] Some show ?thesis
    by (auto simp: engine_compress_def rawHash_hex Let_def call_ref_def)
qed (simp add: engine_compress_def)

lemma run_calls_refs:
  "set (rtk_refs (eledger (run_calls digest d limit calls e)))
   \<subseteq> set (rtk_refs (eledger e)) \<union> (\<Union>c\<in>set calls. set_option (call_ref digest (callParams c)))"
proof (induction calls arbitrary: e)
  case (Cons c calls)
  show ?case
    using Cons [of "snd (engine_compress digest (callBusy c) (callFault c) (callUuid c) d limit (callParams c) e)"]
      engine_compress_refs [of digest "callBusy c" "callFault c" "callUuid c" d limit "callParams c" e]
    by (auto simp: run_calls_def)
qed (simp add: run_calls_def)

section \<open>Storing and fetching back\<close>

lemma store_raw_ok:
  assumes "store_raw digest busy fault uuid d limit session (sha256Hex digest (utf8_encode raw)) raw (f, l) = (None, f', l')"
  shows "lookup_at d (sha256Hex digest (utf8_encode raw)) f' = Some (utf8_encode raw)
     \<and> owns session (sha256Hex digest (utf8_encode raw)) l'"
proof -
  let ?h = "sha256Hex digest (utf8_encode raw)"
  obtain l1 where l1: "reconcilePending d f l = Inr l1" "\<not> busy"
    using assms by (auto simp: store_raw_def publish_def split: if_splits sum.splits)
  obtain res f2 l2 where work: "store_work digest fault uuid d limit session ?h raw (f, l1) = (res, f2, l2)"
    by (cases "store_work digest fault uuid d limit session ?h raw (f, l1)")
  obtain l3 where l3: "reconcilePending d f2 l2 = Inr l3" "res = Inr None" "f' = f2" "l' = l3"
    using assms l1 work by (auto simp: store_raw_def publish_def split: sum.splits)
  have w: "\<exists>r lx. writeObject digest (\<lambda>f. f) fault uuid d (utf8_encode raw) f = (Inr r, f2) \<and> l2 = grant session ?h lx"
    using work l3(2) by (auto simp: store_work_def split: prod.splits bool.splits sum.splits if_splits)
  then have "lookup_at d ?h f2 = Some (utf8_encode raw)" by (auto simp: writeObject_def intro: write_at_result)
  moreover have "owns session ?h l3"
    using w reconcile_refs [OF l3(1)] by (auto simp: owns_def grant_def)
  ultimately show ?thesis using l3 by simp
qed

definition fetch_request :: "jstring \<Rightarrow> jstring \<Rightarrow> jstring option \<Rightarrow> json" where
  "fetch_request hash sessionId cursor =
     JObj ([(js ''hash'', JStr hash), (js ''sessionId'', JStr sessionId)]
           @ (case cursor of None \<Rightarrow> [] | Some c \<Rightarrow> [(js ''cursor'', JStr c)]))"

text \<open>A client fetches page after page with the cursor of the last answer.\<close>

fun fetch_all :: "(byte list \<Rightarrow> byte list) \<Rightarrow> (fs \<Rightarrow> fs) \<Rightarrow> jstring \<Rightarrow> nat \<Rightarrow> jstring \<Rightarrow> jstring \<Rightarrow> jstring option \<Rightarrow> engine
    \<Rightarrow> jstring option" where
  "fetch_all digest env d 0 hash sessionId cursor e = None"
| "fetch_all digest env d (Suc k) hash sessionId cursor e =
     (case engine_fetch digest env d (fetch_request hash sessionId cursor) e of
        Inr (Found content nxt trunc) \<Rightarrow>
          (case nxt of
             None \<Rightarrow> Some content
           | Some c \<Rightarrow> map_option (\<lambda>rest. content @ rest) (fetch_all digest env d k hash sessionId (Some c) e))
      | _ \<Rightarrow> None)"

definition fetch_opts :: "jstring \<Rightarrow> jstring \<Rightarrow> jstring option \<Rightarrow> pageOptions" where
  "fetch_opts hash sessionId cursor =
     \<lparr>pref = sessionId @ js '':'' @ hash, pcursor = cursor, pmaxBytes = None, pmaxTokens = None\<rparr>"

lemma parse_fetch_request:
  assumes "sha256Ref hash" and "sessionId \<noteq> []" and "case cursor of None \<Rightarrow> True | Some c \<Rightarrow> length c \<le> 4096"
  shows "\<exists>p. parse_fetch_params (fetch_request hash sessionId cursor) = Some p
     \<and> fpHash p = hash \<and> fpSessionId p = sessionId \<and> fetch_options p = fetch_opts hash sessionId cursor"
  using assms
  by (cases cursor) (auto simp: parse_fetch_params_def fetch_request_def get_string_def opt_string_def opt_limit_def
      js_def fetch_options_def fetch_opts_def)

lemma paginate_next:
  "paginateText raw options = Inr page \<Longrightarrow> nextCursor page = Some c \<Longrightarrow>
   \<exists>n < length raw. c = encodeCursor (pref options) n"
  by (auto simp: paginateText_def Let_def split: sum.splits if_splits prod.splits)

lemma fetch_all_walk:
  assumes "owns sessionId (drop 7 hash) (eledger e)"
    and "readObject digest env d (drop 7 hash) (efs e) = Inr (Some bytes)" and "utf8_decode bytes = raw"
    and "sha256Ref hash" and "sessionId \<noteq> []" and "length raw < 2 ^ 53"
    and "list_all (\<lambda>c. c < 65536) (sessionId @ js '':'' @ hash)" and "length (sessionId @ js '':'' @ hash) \<le> 500"
  shows "walk_pages k raw (fetch_opts hash sessionId cursor) = Some (Inr pages) \<Longrightarrow>
     (case cursor of None \<Rightarrow> True | Some c \<Rightarrow> length c \<le> 4096) \<Longrightarrow>
     fetch_all digest env d k hash sessionId cursor e = Some (concat (map pcontent pages))"
proof (induction k arbitrary: cursor pages)
  case (Suc k)
  let ?o = "fetch_opts hash sessionId cursor"
  obtain page where page: "paginateText raw ?o = Inr page"
    using Suc(2) by (cases "paginateText raw ?o") auto
  obtain p where p: "parse_fetch_params (fetch_request hash sessionId cursor) = Some p"
      "fpHash p = hash" "fpSessionId p = sessionId" "fetch_options p = ?o"
    using parse_fetch_request [OF assms(4,5) Suc(3)] by blast
  have f: "engine_fetch digest env d (fetch_request hash sessionId cursor) e
      = Inr (Found (pcontent page) (nextCursor page) (ptruncated page))"
    using assms(1-3) page by (simp add: engine_fetch_def p)
  show ?case
  proof (cases "nextCursor page")
    case None
    with Suc(2) page show ?thesis by (auto simp: f)
  next
    case (Some c)
    have "?o\<lparr>pcursor := Some c\<rparr> = fetch_opts hash sessionId (Some c)" by (simp add: fetch_opts_def)
    with Suc(2) page Some obtain rest where rest: "walk_pages k raw (fetch_opts hash sessionId (Some c)) = Some (Inr rest)"
        "pages = page # rest"
      by (auto split: option.splits sum.splits)
    obtain n where "n < length raw" "c = encodeCursor (sessionId @ js '':'' @ hash) n"
      using paginate_next [OF page Some] by (auto simp: fetch_opts_def)
    then have "length c \<le> 4096" using length_encodeCursor [OF assms(8) _ assms(7)] assms(6) by simp
    with Suc(1) [OF rest(1)] rest(2) Some show ?thesis by (simp add: f)
  qed
qed simp

lemma validHash_units: "validHash h \<Longrightarrow> list_all (\<lambda>c. c < 65536) h \<and> length h = 64"
  by (auto simp: validHash_def is_hex_def list_all_iff)

lemma fetch_stored:
  assumes "digest_ok digest" and "only_adds env" and "well_formed raw" and "raw = [] \<or> hd raw \<noteq> 0xFEFF"
    and "length raw < 2 ^ 53" and "sessionId \<noteq> []" and "length sessionId \<le> 400" and "list_all (\<lambda>c. c < 65536) sessionId"
    and "lookup_at d (sha256Hex digest (utf8_encode raw)) (efs e) = Some (utf8_encode raw)"
    and "owns sessionId (sha256Hex digest (utf8_encode raw)) (eledger e)"
  shows "fetch_all digest env d (length raw + 1) (hash_ref digest raw) sessionId None e = Some raw"
proof -
  let ?h = "sha256Hex digest (utf8_encode raw)"
  let ?ref = "sessionId @ js '':'' @ hash_ref digest raw"
  have v: "list_all (\<lambda>c. c < 65536) ?h" "length ?h = 64"
    using validHash_units [OF validHash_sha [OF assms(1)], of "utf8_encode raw"] by simp_all
  have ref: "list_all (\<lambda>c. c < 65536) ?ref" "length ?ref \<le> 500"
    using assms(7,8) v by (simp_all add: hash_ref_def js_def)
  have sha: "sha256Ref (hash_ref digest raw)"
    using validHash_sha [OF assms(1)] by (simp add: sha256Ref_def hash_ref_def js_def starts_with_def)
  have read: "readObject digest env d (drop 7 (hash_ref digest raw)) (efs e) = Inr (Some (utf8_encode raw))"
    using readObject_lookup [OF assms(1,9,2)] by (simp add: rawHash_hex)
  have room: "page_room (fetch_opts (hash_ref digest raw) sessionId None) = Some 2048"
    by (simp add: page_room_def fetch_opts_def page_limit_def paging_defs)
  have "\<exists>pages. walk_pages (length raw + 1) raw (fetch_opts (hash_ref digest raw) sessionId None) = Some (Inr pages)
      \<and> concat (map pcontent pages) = drop 0 raw
      \<and> list_all (\<lambda>p. pbytes p = byteLength (pcontent p) \<and> pbytes p \<le> 2048) pages"
    by (rule walk_from [OF room]) (use assms ref in \<open>simp_all add: fetch_opts_def decodeCursor_def\<close>)
  then obtain pages where w: "walk_pages (length raw + 1) raw (fetch_opts (hash_ref digest raw) sessionId None) = Some (Inr pages)"
      "concat (map pcontent pages) = raw" by (metis drop0)
  have "owns sessionId (drop 7 (hash_ref digest raw)) (eledger e)" using assms(10) by (simp add: rawHash_hex)
  from fetch_all_walk [OF this read utf8_decode_encode [OF assms(3,4)] sha assms(6,5) ref w(1)] w(2)
  show ?thesis by (simp del: fetch_all.simps)
qed

lemma truncate_simps [simp]:
  "routput (compressResult.truncate r) = routput r" "compressed (compressResult.truncate r) = compressed r"
  "rstatus (compressResult.truncate r) = rstatus r" "rawTokensEst (compressResult.truncate r) = rawTokensEst r"
  "outTokensEst (compressResult.truncate r) = outTokensEst r" "actualTokens (compressResult.truncate r) = actualTokens r"
  "targetTokens (compressResult.truncate r) = targetTokens r" "budgetExceeded (compressResult.truncate r) = budgetExceeded r"
  "omittedRanges (compressResult.truncate r) = omittedRanges r" "degraded (compressResult.truncate r) = degraded r"
  "rawHash (compressResult.truncate r) = rawHash r"
  by (simp_all add: compressResult.truncate_def)

text \<open>The outcome of a valid call, by what the store answered.\<close>

lemma engine_compress_cases:
  assumes "engine_compress digest busy fault uuid d limit params e = (Inr r, e')"
  obtains p failure where "parse_compress_params params = Some p"
    "store_raw digest busy fault uuid d limit (cpSessionId p) (sha256Hex digest (utf8_encode (raw_of (pipeline_input p))))
       (raw_of (pipeline_input p)) (efs e, eledger e) = (failure, efs e', eledger e')"
    "r = (case failure of None \<Rightarrow> compressResult.truncate (compressToolOutput digest (pipeline_input p))
          | Some reason \<Rightarrow> degrade reason (raw_of (pipeline_input p)) (compressResult.truncate (compressToolOutput digest (pipeline_input p))))"
    "estats e' = record_result r (estats e)"
proof -
  obtain p where p: "parse_compress_params params = Some p"
    using assms by (auto simp: engine_compress_def split: option.splits)
  let ?raw = "raw_of (pipeline_input p)"
  obtain failure f l where st: "store_raw digest busy fault uuid d limit (cpSessionId p)
      (sha256Hex digest (utf8_encode ?raw)) ?raw (efs e, eledger e) = (failure, f, l)"
    by (cases "store_raw digest busy fault uuid d limit (cpSessionId p)
      (sha256Hex digest (utf8_encode ?raw)) ?raw (efs e, eledger e)")
  show ?thesis
    using assms p st by (intro that [of p failure]) (auto simp: engine_compress_def rawHash_hex Let_def split: option.splits)
qed

lemma degraded_store:
  assumes "engine_compress digest busy fault uuid d limit params e = (Inr r, e')"
  shows "degraded r = None \<longleftrightarrow> (\<exists>p. parse_compress_params params = Some p
     \<and> store_raw digest busy fault uuid d limit (cpSessionId p) (sha256Hex digest (utf8_encode (raw_of (pipeline_input p))))
       (raw_of (pipeline_input p)) (efs e, eledger e) = (None, efs e', eledger e'))"
  using assms by (rule engine_compress_cases) (auto simp: degrade_def split: option.splits)

lemma publish_result:
  "publish busy d work st = (Inr v, st') \<Longrightarrow> \<exists>s. fst (work s) = Inr v"
  by (auto simp: publish_def split: prod.splits sum.splits if_splits) (metis fst_conv)

lemma store_work_result:
  "fst (store_work digest fault uuid d limit session h raw s) = Inr v \<Longrightarrow> v \<in> {None, Some StorageCapacity}"
  by (auto simp: store_work_def split: prod.splits bool.splits sum.splits if_splits)

lemma store_raw_reason:
  assumes "store_raw digest busy fault uuid d limit session h raw st = (failure, st')"
  shows "failure \<in> {None, Some StorageCapacity, Some StorageError}"
proof -
  obtain res st2 where pub: "publish busy d (store_work digest fault uuid d limit session h raw) st = (res, st2)"
    by (metis surj_pair)
  show ?thesis
  proof (cases res)
    case (Inr v)
    from publish_result [OF pub [unfolded Inr]] store_work_result have "v \<in> {None, Some StorageCapacity}" by blast
    with assms pub Inr show ?thesis by (auto simp: store_raw_def)
  qed (use assms pub in \<open>auto simp: store_raw_def\<close>)
qed

lemma compress_refine: "compressResult_refine (compressToolOutput digest input)"
proof (cases digest input rule: compress_cases)
  case budgeted
  then show ?thesis using omitted_ranges_ordered by (simp add: compressResult_refine_def)
qed (simp add: compressResult_refine_def)

section \<open>Properties\<close>

text \<open>C6: Everything compressed can be retrieved. After a call whose result is not degraded, the session that
  made it fetches the whole stored text, page after page, under the reported hash; other processes may
  meanwhile add objects. The text must be free of lone surrogates and of a leading byte order mark.\<close>

theorem compress_then_fetch:
  assumes "digest_ok digest" and "only_adds env"
    and "engine_compress digest busy fault uuid dataDir limit params e = (Inr r, e')" and "degraded r = None"
    and "parse_compress_params params = Some p" and "raw = raw_of (pipeline_input p)"
    and "well_formed raw" and "raw = [] \<or> hd raw \<noteq> 0xFEFF" and "length raw < 2 ^ 53"
    and "cpSessionId p \<noteq> []" and "length (cpSessionId p) \<le> 400" and "list_all (\<lambda>c. c < 65536) (cpSessionId p)"
  shows "fetch_all digest env dataDir (length raw + 1) (rawHash r) (cpSessionId p) None e' = Some raw"
proof -
  have st: "store_raw digest busy fault uuid dataDir limit (cpSessionId p) (sha256Hex digest (utf8_encode raw)) raw
      (efs e, eledger e) = (None, efs e', eledger e')"
    using degraded_store [OF assms(3)] assms(4,5) by (auto simp: assms(6))
  have "rawHash r = hash_ref digest raw"
    using assms(3-6) by (elim engine_compress_cases) (auto simp: degrade_def split: option.splits)
  with fetch_stored [OF assms(1,2,7,8,9,10,11,12)] store_raw_ok [OF st] show ?thesis by auto
qed

definition demo_params :: json where
  "demo_params = JObj [(js ''tool'', JStr (js ''read'')), (js ''output'', JStr (js ''hi'')), (js ''sessionId'', JStr (js ''s''))]"

lemma demo_parsed: "parse_compress_params demo_params
    = Some \<lparr>cpTool = js ''read'', cpOutput = js ''hi'', cpMetadata = None, cpBudgetTokens = 512, cpSessionId = js ''s''\<rparr>"
  by code_simp

lemma demo_stored: "case fst (engine_compress (\<lambda>_. replicate 32 0) False None (js ''u'') (js ''/d'') 100 demo_params fresh_engine) of
    Inr r \<Rightarrow> degraded r = None | Inl e \<Rightarrow> False"
  by code_simp

lemma demo_busy: "case fst (engine_compress (\<lambda>_. replicate 32 0) True None (js ''u'') (js ''/d'') 100 demo_params fresh_engine) of
    Inr r \<Rightarrow> degraded r = Some StorageError | Inl e \<Rightarrow> False"
  by code_simp

theorem compress_then_fetch_witness:
  "\<exists>r e'. engine_compress (\<lambda>_. replicate 32 0) False None (js ''u'') (js ''/d'') 100 demo_params fresh_engine = (Inr r, e')
     \<and> fetch_all (\<lambda>_. replicate 32 0) (\<lambda>f. f) (js ''/d'') (length (js ''hi'') + 1) (rawHash r) (js ''s'') None e' = Some (js ''hi'')"
proof -
  let ?p = "\<lparr>cpTool = js ''read'', cpOutput = js ''hi'', cpMetadata = None, cpBudgetTokens = 512, cpSessionId = js ''s''\<rparr>"
  obtain r e' where c: "engine_compress (\<lambda>_. replicate 32 0) False None (js ''u'') (js ''/d'') 100 demo_params fresh_engine
      = (Inr r, e')" "degraded r = None"
    using demo_stored
    by (cases "engine_compress (\<lambda>_. replicate 32 0) False None (js ''u'') (js ''/d'') 100 demo_params fresh_engine")
      (auto split: sum.splits)
  have raw: "raw_of (pipeline_input ?p) = js ''hi''" by code_simp
  have "fetch_all (\<lambda>_. replicate 32 0) (\<lambda>f. f) (js ''/d'') (length (js ''hi'') + 1) (rawHash r) (cpSessionId ?p) None e'
      = Some (js ''hi'')"
    by (rule compress_then_fetch [OF _ only_adds_id c demo_parsed raw [symmetric]]) (simp_all add: digest_ok_def js_def is_surrogate_def is_high_def is_low_def)
  with c(1) show ?thesis by auto
qed

text \<open>C36: One session cannot read what only another one archived. After any sequence of calls on a new
  engine, a fetch by a session none of whose calls produced the text of that hash finds nothing.\<close>

theorem fetch_isolated:
  assumes "parse_fetch_params params = Some p"
    and "\<forall>c\<in>set calls. call_ref digest (callParams c) \<noteq> Some (fpSessionId p, drop 7 (fpHash p))"
  shows "engine_fetch digest env dataDir params (run_calls digest dataDir limit calls fresh_engine) = Inr NotFound"
proof -
  have "(fpSessionId p, drop 7 (fpHash p)) \<notin> set (rtk_refs (eledger (run_calls digest dataDir limit calls fresh_engine)))"
    using run_calls_refs [of digest dataDir limit calls fresh_engine] assms(2)
    by (auto simp: empty_ledger_def)
  then show ?thesis using assms(1) by (simp add: engine_fetch_def owns_def)
qed

theorem fetch_isolated_witness:
  "engine_fetch (\<lambda>_. replicate 32 0) (\<lambda>f. f) (js ''/d'') (fetch_request (js ''sha256:'' @ replicate 64 48) (js ''t'') None)
     (run_calls (\<lambda>_. replicate 32 0) (js ''/d'') 100
        [\<lparr>callBusy = False, callFault = None, callUuid = js ''u'', callParams = demo_params\<rparr>] fresh_engine) = Inr NotFound"
proof (rule fetch_isolated)
  show "parse_fetch_params (fetch_request (js ''sha256:'' @ replicate 64 48) (js ''t'') None)
      = Some \<lparr>fpHash = js ''sha256:'' @ replicate 64 48, fpSessionId = js ''t'', fpCursor = None, fpMaxBytes = None, fpMaxTokens = None\<rparr>"
    by code_simp
qed (simp add: call_ref_def demo_parsed js_def)

text \<open>C37: Whatever the calls and however their stores fail, the bytes of all stored objects stay within the
  storage limit.\<close>

theorem engine_within_quota:
  assumes "digest_ok digest" and "distinct hs"
  shows "stored_bytes dataDir (efs (run_calls digest dataDir limit calls fresh_engine)) hs \<le> limit"
proof -
  have "pub_inv digest dataDir limit (efs (run_calls digest dataDir limit calls fresh_engine),
      eledger (run_calls digest dataDir limit calls fresh_engine), Idle)"
    using reachable_inv [OF assms(1)] run_calls_run [of digest dataDir limit fresh_engine calls] by simp
  then show ?thesis using stored_le_usage [OF _ assms(2)] by (fastforce simp: pub_inv_def)
qed

theorem engine_within_quota_witness:
  "stored_bytes (js ''/d'') (efs (run_calls (\<lambda>_. replicate 32 0) (js ''/d'') 100
     [\<lparr>callBusy = False, callFault = Some LinkFail, callUuid = js ''u'', callParams = demo_params\<rparr>] fresh_engine))
     [replicate 64 48] \<le> 100"
  by (rule engine_within_quota) (simp_all add: digest_ok_def)

text \<open>Every answer of compress satisfies the wire contract, also when the store failed; then it is the
  raw text, marked as degraded with the reason, and it is counted.\<close>

theorem engine_compress_valid:
  assumes "parse_compress_params params = Some p"
    and "engine_compress digest busy fault uuid dataDir limit params e = (Inr r, e')"
  shows "compressResult_refine r \<and> outTokensEst r \<le> rawTokensEst r
     \<and> requests (estats e') = requests (estats e) + 1
     \<and> (degraded r = None \<or> degraded r \<in> {Some StorageCapacity, Some StorageError} \<and> rstatus r = Degraded
          \<and> routput r = raw_of (pipeline_input p) \<and> omittedRanges r = [])"
proof -
  let ?run = "compressToolOutput digest (pipeline_input p)"
  obtain failure where st: "store_raw digest busy fault uuid dataDir limit (cpSessionId p)
        (sha256Hex digest (utf8_encode (raw_of (pipeline_input p)))) (raw_of (pipeline_input p)) (efs e, eledger e)
        = (failure, efs e', eledger e')"
      "r = (case failure of None \<Rightarrow> compressResult.truncate ?run
          | Some reason \<Rightarrow> degrade reason (raw_of (pipeline_input p)) (compressResult.truncate ?run))"
      "estats e' = record_result r (estats e)"
    using assms by (elim engine_compress_cases) auto
  have count: "requests (record_result r s) = requests s + 1" for s
    by (auto simp: record_result_def Let_def split: option.splits)
  have ref: "compressResult_refine ?run" by (rule compress_refine)
  have le: "outTokensEst ?run \<le> rawTokensEst ?run"
    by (cases digest "pipeline_input p" rule: compress_cases) simp_all
  show ?thesis
  proof (cases failure)
    case None
    with st(2) have r: "r = compressResult.truncate ?run" by simp
    have "degraded r = None" by (simp add: r)
    moreover have "compressResult_refine r" using ref unfolding r compressResult_refine_def truncate_simps by blast
    ultimately show ?thesis using le count st(3) by (simp add: r)
  next
    case (Some reason)
    with st(2) have r: "r = degrade reason (raw_of (pipeline_input p)) (compressResult.truncate ?run)" by simp
    have "reason \<in> {StorageCapacity, StorageError}" using store_raw_reason [OF st(1)] Some by auto
    then show ?thesis using count st(3) by (auto simp: r degrade_def compressResult_refine_def)
  qed
qed

theorem engine_compress_valid_witness:
  "\<exists>r e'. engine_compress (\<lambda>_. replicate 32 0) True None (js ''u'') (js ''/d'') 100 demo_params fresh_engine = (Inr r, e')
     \<and> compressResult_refine r"
proof -
  obtain r e' where "engine_compress (\<lambda>_. replicate 32 0) True None (js ''u'') (js ''/d'') 100 demo_params fresh_engine = (Inr r, e')"
    using demo_busy
    by (cases "engine_compress (\<lambda>_. replicate 32 0) True None (js ''u'') (js ''/d'') 100 demo_params fresh_engine")
      (auto split: sum.splits)
  with engine_compress_valid [OF demo_parsed this] show ?thesis by blast
qed

end
