(* ===== verification/Rtk_Server.thy ===== *)
theory Rtk_Server
  imports Rtk_Engine Wire
begin

text \<open>
  \<open>packages/rtk/src/server.ts\<close>: the JSONL protocol loop around the engine, with the response schemas of
  \<open>packages/contracts/src/rtk.ts\<close> and the error codes of \<open>packages/contracts/src/errors.ts\<close>. One call of
  \<open>handleLine\<close> takes one complete line and writes one frame; diagnostics on stderr are not part of
  the model.

  Parameters: \<open>issues\<close> is the report of the schema library about parameters it rejects, and
  \<open>cas_message\<close> the text of a storage error, which contains paths and messages of the system.
\<close>

section \<open>Errors and frames\<close>

datatype errorCode = E_PROTOCOL | E_UNKNOWN_OP | E_INVALID_PARAMS | E_INTERNAL

fun code_string :: "errorCode \<Rightarrow> jstring" where
  "code_string E_PROTOCOL = js ''E_PROTOCOL''"
| "code_string E_UNKNOWN_OP = js ''E_UNKNOWN_OP''"
| "code_string E_INVALID_PARAMS = js ''E_INVALID_PARAMS''"
| "code_string E_INTERNAL = js ''E_INTERNAL''"

record protocolError =
  ecode :: errorCode
  emessage :: jstring
  edetail :: "json option"

abbreviation jnat :: "nat \<Rightarrow> json" where
  "jnat n \<equiv> JNum (of_nat n)"

definition PROTOCOL_VERSION :: nat where "PROTOCOL_VERSION = 3"
definition UNKNOWN_ID :: jstring where "UNKNOWN_ID = js ''?''"

definition error_json :: "protocolError \<Rightarrow> json" where
  "error_json e = JObj ([(js ''code'', JStr (code_string (ecode e))), (js ''message'', JStr (emessage e))]
     @ (case edetail e of None \<Rightarrow> [] | Some d \<Rightarrow> [(js ''detail'', d)]))"

definition error_frame :: "jstring \<Rightarrow> protocolError \<Rightarrow> json" where
  "error_frame i e = JObj [(js ''v'', jnat PROTOCOL_VERSION), (js ''id'', JStr i), (js ''ok'', JBool False), (js ''error'', error_json e)]"

definition result_frame :: "jstring \<Rightarrow> json \<Rightarrow> json" where
  "result_frame i r = JObj [(js ''v'', jnat PROTOCOL_VERSION), (js ''id'', JStr i), (js ''ok'', JBool True), (js ''result'', r)]"

definition internalError :: "jstring \<Rightarrow> protocolError" where
  "internalError message = \<lparr>ecode = E_INTERNAL, emessage = message, edetail = None\<rparr>"

section \<open>The schemas of outgoing values\<close>

definition num_at :: "json \<Rightarrow> string \<Rightarrow> rat option" where
  "num_at j k = (case json_get j (js k) of Some (JNum q) \<Rightarrow> Some q | _ \<Rightarrow> None)"

definition bool_at :: "json \<Rightarrow> string \<Rightarrow> bool option" where
  "bool_at j k = (case json_get j (js k) of Some (JBool b) \<Rightarrow> Some b | _ \<Rightarrow> None)"

definition errorSchema :: "json \<Rightarrow> bool" where
  "errorSchema j \<longleftrightarrow>
     (case (get_string j ''code'', get_string j ''message'') of
        (Some c, Some m) \<Rightarrow> c \<in> set (map code_string [E_PROTOCOL, E_UNKNOWN_OP, E_INVALID_PARAMS, E_INTERNAL])
      | _ \<Rightarrow> False)"

definition responseSchema :: "json \<Rightarrow> bool" where
  "responseSchema j \<longleftrightarrow>
     num_at j ''v'' = Some 3 \<and> (case get_string j ''id'' of Some i \<Rightarrow> i \<noteq> [] | None \<Rightarrow> False)
     \<and> (case bool_at j ''ok'' of
          Some True \<Rightarrow> True
        | Some False \<Rightarrow> (case json_get j (js ''error'') of Some e \<Rightarrow> errorSchema e | None \<Rightarrow> False)
        | None \<Rightarrow> False)"

fun strategy_string :: "strategyName \<Rightarrow> jstring" where
  "strategy_string Ls = js ''ls''"
| "strategy_string Grep = js ''grep''"
| "strategy_string Read = js ''read''"
| "strategy_string Diff = js ''diff''"
| "strategy_string Test = js ''test''"
| "strategy_string Unknown = js ''unknown''"

fun status_string :: "compressStatus \<Rightarrow> jstring" where
  "status_string Compressed = js ''compressed''"
| "status_string Unchanged = js ''unchanged''"
| "status_string Skipped = js ''skipped''"
| "status_string Degraded = js ''degraded''"

text \<open>The result of compress as the object the engine returns, in the order of its properties.\<close>

definition compress_json :: "compressResult \<Rightarrow> json" where
  "compress_json r = JObj
     [(js ''output'', JStr (routput r)), (js ''status'', JStr (status_string (rstatus r))), (js ''targetTokens'', jnat (targetTokens r)),
      (js ''actualTokens'', jnat (actualTokens r)), (js ''budgetExceeded'', JBool (budgetExceeded r)),
      (js ''omittedRanges'', JArr (map (\<lambda>(a, b). JObj [(js ''startLine'', jnat a), (js ''endLine'', jnat b)]) (omittedRanges r))),
      (js ''diagnostics'', JArr (map JStr (diagnostics r))), (js ''rawHash'', JStr (rawHash r)),
      (js ''strategy'', JStr (strategy_string (rstrategy r))), (js ''compressed'', JBool (compressed r)),
      (js ''truncated'', JBool (truncated r)), (js ''rawTokensEst'', jnat (rawTokensEst r)), (js ''outTokensEst'', jnat (outTokensEst r)),
      (js ''degraded'', case degraded r of None \<Rightarrow> JNull | Some reason \<Rightarrow> JObj [(js ''reason'', JStr (reason_string reason))])]"

definition range_of :: "json \<Rightarrow> (rat \<times> rat) option" where
  "range_of v = (case (num_at v ''startLine'', num_at v ''endLine'') of
     (Some a, Some b) \<Rightarrow> if positive_int a \<and> positive_int b then Some (a, b) else None | _ \<Rightarrow> None)"

fun rat_ranges_ordered :: "(rat \<times> rat) list \<Rightarrow> bool" where
  "rat_ranges_ordered [] = True"
| "rat_ranges_ordered [(a, b)] = (a \<le> b)"
| "rat_ranges_ordered ((a, b) # (c, d) # rs) = (a \<le> b \<and> b < c \<and> rat_ranges_ordered ((c, d) # rs))"

definition ranges_at :: "json \<Rightarrow> (rat \<times> rat) list option" where
  "ranges_at j = (case json_get j (js ''omittedRanges'') of
     Some (JArr vs) \<Rightarrow> if list_all (\<lambda>v. range_of v \<noteq> None) vs then Some (List.map_filter range_of vs) else None | _ \<Rightarrow> None)"

definition degradedSchema :: "json \<Rightarrow> bool" where
  "degradedSchema j \<longleftrightarrow> (case json_get j (js ''degraded'') of
     Some JNull \<Rightarrow> True | Some (JObj kvs) \<Rightarrow> get_string (JObj kvs) ''reason'' \<in> Some ` set (map reason_string DEGRADED_REASONS) | _ \<Rightarrow> False)"

definition compressResultSchema :: "json \<Rightarrow> bool" where
  "compressResultSchema j \<longleftrightarrow>
     get_string j ''output'' \<noteq> None \<and> get_string j ''status'' \<in> Some ` set (map status_string [Compressed, Unchanged, Skipped, Degraded])
     \<and> (case json_get j (js ''diagnostics'') of Some (JArr ds) \<Rightarrow> list_all (\<lambda>d. case d of JStr s \<Rightarrow> True | _ \<Rightarrow> False) ds | _ \<Rightarrow> False)
     \<and> (case get_string j ''rawHash'' of Some h \<Rightarrow> sha256Ref h | None \<Rightarrow> False)
     \<and> get_string j ''strategy'' \<in> Some ` set (map strategy_string [Ls, Grep, Read, Diff, Test, Unknown])
     \<and> bool_at j ''truncated'' \<noteq> None \<and> degradedSchema j
     \<and> (case (num_at j ''targetTokens'', num_at j ''actualTokens'', num_at j ''rawTokensEst'', num_at j ''outTokensEst'') of
          (Some target, Some actual, Some rawTok, Some outTok) \<Rightarrow>
            positive_int target \<and> 0 \<le> actual \<and> 0 \<le> rawTok \<and> 0 \<le> outTok
            \<and> (case (bool_at j ''compressed'', bool_at j ''budgetExceeded'', ranges_at j) of
                 (Some c, Some over, Some rs) \<Rightarrow>
                   c = (get_string j ''status'' = Some (js ''compressed'')) \<and> (\<not> c \<or> outTok < rawTok) \<and> actual = outTok
                   \<and> over = (target < actual) \<and> rat_ranges_ordered rs
               | _ \<Rightarrow> False)
        | _ \<Rightarrow> False)"

fun fetch_json :: "fetchResult \<Rightarrow> json" where
  "fetch_json NotFound = JObj [(js ''found'', JBool False)]"
| "fetch_json (Found content cursor more_left) =
     JObj [(js ''found'', JBool True), (js ''content'', JStr content),
           (js ''nextCursor'', case cursor of None \<Rightarrow> JNull | Some c \<Rightarrow> JStr c), (js ''truncated'', JBool more_left)]"

definition fetchResultSchema :: "json \<Rightarrow> bool" where
  "fetchResultSchema j \<longleftrightarrow>
     (case bool_at j ''found'' of
        Some True \<Rightarrow> get_string j ''content'' \<noteq> None
          \<and> (case json_get j (js ''nextCursor'') of Some JNull \<Rightarrow> True | Some (JStr c) \<Rightarrow> True | _ \<Rightarrow> False)
          \<and> bool_at j ''truncated'' \<noteq> None
      | Some False \<Rightarrow> True
      | None \<Rightarrow> False)"

definition ping_json :: "rat \<Rightarrow> json" where
  "ping_json uptime = JObj [(js ''pong'', JBool True), (js ''uptimeMs'', JNum uptime)]"

definition pingResultSchema :: "json \<Rightarrow> bool" where
  "pingResultSchema j \<longleftrightarrow> bool_at j ''pong'' = Some True \<and> num_at j ''uptimeMs'' \<noteq> None"

definition stats_json :: "pipelineStats \<Rightarrow> rat \<Rightarrow> json" where
  "stats_json s uptime = JObj
     [(js ''requests'', jnat (requests s)), (js ''compressedCount'', jnat (compressedCount s)),
      (js ''passthroughCount'', jnat (passthroughCount s)),
      (js ''degradedCounts'', JObj (map (\<lambda>(r, n). (reason_string r, jnat n)) (degradedCounts s))), (js ''uptimeMs'', JNum uptime)]"

definition statsResultSchema :: "json \<Rightarrow> bool" where
  "statsResultSchema j \<longleftrightarrow>
     num_at j ''requests'' \<noteq> None \<and> num_at j ''compressedCount'' \<noteq> None \<and> num_at j ''passthroughCount'' \<noteq> None
     \<and> num_at j ''uptimeMs'' \<noteq> None
     \<and> (case json_get j (js ''degradedCounts'') of
          Some (JObj kvs) \<Rightarrow>
            list_all (\<lambda>(k, v). k \<in> set (map reason_string DEGRADED_REASONS) \<and> (case v of JNum q \<Rightarrow> True | _ \<Rightarrow> False)) kvs
            \<and> list_all (\<lambda>r. map_of kvs (reason_string r) \<noteq> None) DEGRADED_REASONS
        | _ \<Rightarrow> False)"

section \<open>The server\<close>

datatype rtkOp = OpCompress | OpFetch | OpPing | OpStats | OpSimulateCrash

definition rtkOpSchema :: "jstring \<Rightarrow> rtkOp option" where
  "rtkOpSchema op = map_of [(js ''compress'', OpCompress), (js ''fetch'', OpFetch), (js ''ping'', OpPing), (js ''stats'', OpStats),
     (js ''simulateCrash'', OpSimulateCrash)] op"

fun RESULT_SCHEMAS :: "rtkOp \<Rightarrow> json \<Rightarrow> bool" where
  "RESULT_SCHEMAS OpCompress = compressResultSchema"
| "RESULT_SCHEMAS OpFetch = fetchResultSchema"
| "RESULT_SCHEMAS OpPing = pingResultSchema"
| "RESULT_SCHEMAS OpStats = statsResultSchema"
| "RESULT_SCHEMAS OpSimulateCrash = (\<lambda>j. True)"

record issue =
  ipath :: "jstring list option"
  imessage :: "jstring option"

definition asParamIssueList :: "issue list \<Rightarrow> jstring list" where
  "asParamIssueList is = map (\<lambda>i.
     let path = (case ipath i of None \<Rightarrow> [] | Some ks \<Rightarrow> join_with (js ''.'') ks);
         message = (case imessage i of None \<Rightarrow> js ''invalid'' | Some m \<Rightarrow> m)
     in if path \<noteq> [] then path @ js '': '' @ message else message) is"

record envelope =
  envId :: jstring
  envOp :: jstring
  envParams :: "json option"

definition ENVELOPE_PRE_SCHEMA :: "json \<Rightarrow> envelope option" where
  "ENVELOPE_PRE_SCHEMA v =
     (if num_at v ''v'' \<noteq> Some 3 then None
      else case (get_string v ''id'', get_string v ''op'') of
        (Some i, Some op) \<Rightarrow> if i = [] then None else Some \<lparr>envId = i, envOp = op, envParams = json_get v (js ''params'')\<rparr>
      | _ \<Rightarrow> None)"

record serverConfig =
  testMode :: bool
  cfgDataDir :: jstring
  cfgMaxStorage :: nat

text \<open>What the world does during one request: the writer mutex, faults, temporary names, other
  processes on the files, and the clock.\<close>

record lineEnv =
  envBusy :: bool
  envFault :: "ioFault option"
  envUuid :: jstring
  envFiles :: "fs \<Rightarrow> fs"
  envUptime :: rat

record server =
  sengine :: engine
  linesSeen :: nat
  sent :: "jstring list"

datatype serverStep = Served server | Exited nat server

definition start_server :: "nat \<Rightarrow> engine \<Rightarrow> server" where
  "start_server pid e = \<lparr>sengine = e, linesSeen = 0,
     sent = [encodeFrame (JObj [(js ''proto'', jnat PROTOCOL_VERSION), (js ''pid'', jnat pid)])]\<rparr>"

definition writeChecked :: "json \<Rightarrow> server \<Rightarrow> server" where
  "writeChecked frame s =
     (let frame' = (if responseSchema frame then frame
                    else error_frame UNKNOWN_ID (internalError (js ''outgoing frame failed response schema'')))
      in s\<lparr>sent := sent s @ [encodeFrame frame']\<rparr>)"

definition emitResult :: "jstring \<Rightarrow> json \<Rightarrow> rtkOp \<Rightarrow> server \<Rightarrow> server" where
  "emitResult i result op s =
     writeChecked (if \<not> RESULT_SCHEMAS op result then error_frame i (internalError (js ''result failed schema'')) else result_frame i result) s"

definition emitError :: "jstring \<Rightarrow> protocolError \<Rightarrow> server \<Rightarrow> server" where
  "emitError i e s = writeChecked (error_frame i e) s"

fun page_message :: "pageError \<Rightarrow> jstring" where
  "page_message BadBudget = js ''Page budget must be a positive integer''"
| "page_message InvalidCursor = js ''Invalid retrieval cursor''"
| "page_message CursorMismatch = js ''Retrieval cursor does not match reference''"
| "page_message OutsideBoundary = js ''Cursor outside content boundary''"
| "page_message BudgetTooSmall = js ''Page budget cannot fit the next code point''"

text \<open>The \<open>catch\<close> of the dispatch layer.\<close>

definition failure_error :: "(json option \<Rightarrow> issue list) \<Rightarrow> (casError \<Rightarrow> jstring) \<Rightarrow> json option \<Rightarrow> engineError \<Rightarrow> protocolError" where
  "failure_error issues cas_message params err =
     (case err of
        InvalidParams \<Rightarrow> \<lparr>ecode = E_INVALID_PARAMS, emessage = js ''params failed schema validation'',
                          edetail = Some (JArr (map JStr (asParamIssueList (issues params))))\<rparr>
      | CasFailure e \<Rightarrow> internalError (cas_message e)
      | PageFailure e \<Rightarrow> internalError (page_message e))"

definition line_error :: "string \<Rightarrow> nat \<Rightarrow> protocolError" where
  "line_error message n = \<lparr>ecode = E_PROTOCOL, emessage = js message, edetail = Some (JObj [(js ''line'', jnat n)])\<rparr>"

definition handleLine :: "(byte list \<Rightarrow> byte list) \<Rightarrow> (json option \<Rightarrow> issue list) \<Rightarrow> (casError \<Rightarrow> jstring) \<Rightarrow> serverConfig \<Rightarrow> lineEnv
    \<Rightarrow> jstring \<Rightarrow> server \<Rightarrow> serverStep" where
  "handleLine digest issues cas_message cfg env line s0 =
     (let s = s0\<lparr>linesSeen := linesSeen s0 + 1\<rparr>; n = linesSeen s
      in if js_trim line = [] then Served (emitError UNKNOWN_ID (line_error ''empty line is not a valid frame'' n) s)
         else case json_parse line of
           None \<Rightarrow> Served (emitError UNKNOWN_ID (line_error ''frame is not valid JSON'' n) s)
         | Some parsed \<Rightarrow>
             (case ENVELOPE_PRE_SCHEMA parsed of
                None \<Rightarrow> Served (emitError UNKNOWN_ID (line_error ''malformed request envelope (expected {v:3,id,op,params})'' n) s)
              | Some e \<Rightarrow>
                  (case rtkOpSchema (envOp e) of
                     None \<Rightarrow> Served (emitError (envId e)
                       \<lparr>ecode = E_UNKNOWN_OP, emessage = js ''unknown op '' @ json_quote (envOp e), edetail = None\<rparr> s)
                   | Some OpPing \<Rightarrow> Served (emitResult (envId e) (ping_json (envUptime env)) OpPing s)
                   | Some OpStats \<Rightarrow> Served (emitResult (envId e) (stats_json (estats (sengine s)) (envUptime env)) OpStats s)
                   | Some OpCompress \<Rightarrow>
                       (case engine_compress digest (envBusy env) (envFault env) (envUuid env) (cfgDataDir cfg) (cfgMaxStorage cfg)
                               (case envParams e of None \<Rightarrow> JNull | Some p \<Rightarrow> p) (sengine s) of
                          (Inr r, eng) \<Rightarrow> Served (emitResult (envId e) (compress_json r) OpCompress (s\<lparr>sengine := eng\<rparr>))
                        | (Inl err, eng) \<Rightarrow>
                            Served (emitError (envId e) (failure_error issues cas_message (envParams e) err) (s\<lparr>sengine := eng\<rparr>)))
                   | Some OpFetch \<Rightarrow>
                       (case engine_fetch digest (envFiles env) (cfgDataDir cfg) (case envParams e of None \<Rightarrow> JNull | Some p \<Rightarrow> p) (sengine s) of
                          Inr r \<Rightarrow> Served (emitResult (envId e) (fetch_json r) OpFetch s)
                        | Inl err \<Rightarrow> Served (emitError (envId e) (failure_error issues cas_message (envParams e) err) s))
                   | Some OpSimulateCrash \<Rightarrow>
                       if testMode cfg then Exited 137 s
                       else Served (emitError (envId e)
                         \<lparr>ecode = E_PROTOCOL, emessage = js ''simulateCrash requires BLUECODE_TEST=1 (test-only op)'', edetail = None\<rparr> s))))"

definition abortProtocol :: "jstring \<Rightarrow> server \<Rightarrow> server" where
  "abortProtocol message s = emitError UNKNOWN_ID
     \<lparr>ecode = E_PROTOCOL, emessage = message, edetail = Some (JObj [(js ''fatal'', JBool True)])\<rparr> s"

section \<open>Every frame is well formed\<close>

lemma code_string_mem: "code_string c \<in> set (map code_string [E_PROTOCOL, E_UNKNOWN_OP, E_INVALID_PARAMS, E_INTERNAL])"
  by (cases c) simp_all

lemma errorSchema_json: "errorSchema (error_json e)"
  using code_string_mem [of "ecode e"] by (simp add: errorSchema_def error_json_def get_string_def)

lemma error_frame_ok: "responseSchema (error_frame i e) \<longleftrightarrow> i \<noteq> []"
  using errorSchema_json [of e]
  by (simp add: responseSchema_def error_frame_def num_at_def bool_at_def get_string_def PROTOCOL_VERSION_def)

lemma result_frame_ok: "responseSchema (result_frame i r) \<longleftrightarrow> i \<noteq> []"
  by (simp add: responseSchema_def result_frame_def num_at_def bool_at_def get_string_def PROTOCOL_VERSION_def)

lemma frame_ids [simp]: "get_string (error_frame i e) ''id'' = Some i" "get_string (result_frame i r) ''id'' = Some i"
  by (simp_all add: error_frame_def result_frame_def get_string_def)

text \<open>One frame with the given id, and nothing else written.\<close>

definition answers :: "jstring \<Rightarrow> server \<Rightarrow> server \<Rightarrow> bool" where
  "answers i s s' \<longleftrightarrow> (\<exists>frame. sent s' = sent s @ [encodeFrame frame] \<and> responseSchema frame \<and> get_string frame ''id'' = Some i)"

lemma emitError_answers: "i \<noteq> [] \<Longrightarrow> sent s1 = sent s \<Longrightarrow> answers i s (emitError i e s1)"
  by (auto simp: answers_def emitError_def writeChecked_def error_frame_ok Let_def)

lemma emitResult_answers: "i \<noteq> [] \<Longrightarrow> sent s1 = sent s \<Longrightarrow> answers i s (emitResult i r op s1)"
  by (auto simp: answers_def emitResult_def writeChecked_def error_frame_ok result_frame_ok Let_def)

definition reply_id :: "jstring \<Rightarrow> jstring" where
  "reply_id line =
     (if js_trim line = [] then UNKNOWN_ID
      else case json_parse line of
        None \<Rightarrow> UNKNOWN_ID
      | Some v \<Rightarrow> (case ENVELOPE_PRE_SCHEMA v of None \<Rightarrow> UNKNOWN_ID | Some e \<Rightarrow> envId e))"

lemma envelope_id: "ENVELOPE_PRE_SCHEMA v = Some e \<Longrightarrow> envId e \<noteq> []"
  by (auto simp: ENVELOPE_PRE_SCHEMA_def split: if_splits option.splits)

lemma UNKNOWN_ID_ne [simp]: "UNKNOWN_ID \<noteq> []"
  by (simp add: UNKNOWN_ID_def js_def)

lemma handleLine_answers:
  "case handleLine digest issues cas_message cfg env line s of
     Served s' \<Rightarrow> answers (reply_id line) s s'
   | Exited code s' \<Rightarrow> testMode cfg \<and> code = 137 \<and> sent s' = sent s"
proof (cases "js_trim line = [] \<or> json_parse line = None")
  case True
  then show ?thesis by (auto simp: handleLine_def reply_id_def Let_def intro!: emitError_answers)
next
  case False
  then obtain v where v: "js_trim line \<noteq> []" "json_parse line = Some v" by auto
  show ?thesis
  proof (cases "ENVELOPE_PRE_SCHEMA v")
    case None
    with v show ?thesis by (auto simp: handleLine_def reply_id_def Let_def intro!: emitError_answers)
  next
    case (Some e)
    note ne = envelope_id [OF Some]
    have i: "reply_id line = envId e" using v Some by (simp add: reply_id_def)
    show ?thesis
    proof (cases "rtkOpSchema (envOp e)")
      case None
      with v Some show ?thesis by (auto simp: handleLine_def i ne Let_def intro!: emitError_answers)
    next
      case op: (Some op)
      with v Some show ?thesis
        by (cases op) (auto simp: handleLine_def i ne Let_def split: prod.splits sum.splits intro!: emitError_answers emitResult_answers)
    qed
  qed
qed

section \<open>Results pass their schemas\<close>

lemma fetch_json_ok: "fetchResultSchema (fetch_json r)"
  by (cases r) (auto simp: fetchResultSchema_def bool_at_def get_string_def split: option.splits)

lemma ping_json_ok: "pingResultSchema (ping_json q)"
  by (simp add: pingResultSchema_def ping_json_def bool_at_def num_at_def)

definition safe_ranges :: "(nat \<times> nat) list \<Rightarrow> bool" where
  "safe_ranges rs \<longleftrightarrow> list_all (\<lambda>(a, b). 0 < a \<and> a < 2 ^ 53 \<and> 0 < b \<and> b < 2 ^ 53) rs"

lemma positive_nat: "0 < n \<Longrightarrow> n < 2 ^ 53 \<Longrightarrow> positive_int (of_nat n)"
  by (simp add: positive_int_def safe_nat)

lemma range_of_json: "0 < a \<Longrightarrow> a < 2 ^ 53 \<Longrightarrow> 0 < b \<Longrightarrow> b < 2 ^ 53 \<Longrightarrow>
  range_of (JObj [(js ''startLine'', jnat a), (js ''endLine'', jnat b)]) = Some (of_nat a, of_nat b)"
  by (simp add: range_of_def num_at_def positive_nat)

lemma ranges_at_json:
  assumes "safe_ranges (omittedRanges r)"
  shows "ranges_at (compress_json r) = Some (map (\<lambda>(a, b). (of_nat a, of_nat b)) (omittedRanges r))"
proof -
  let ?f = "\<lambda>(a, b). JObj [(js ''startLine'', jnat a), (js ''endLine'', jnat b)]"
  have "list_all (\<lambda>v. range_of v \<noteq> None) (map ?f rs) \<and> List.map_filter range_of (map ?f rs) = map (\<lambda>(a, b). (of_nat a, of_nat b)) rs"
    if "safe_ranges rs" for rs
    using that by (induction rs) (auto simp: safe_ranges_def range_of_json List.map_filter_simps)
  from this [OF assms] show ?thesis by (simp add: ranges_at_def compress_json_def)
qed

lemma rat_ranges: "rat_ranges_ordered (map (\<lambda>(a, b). (of_nat a, of_nat b)) rs) = ranges_ordered rs"
  by (induction rs rule: ranges_ordered.induct) auto

lemma compress_json_ok:
  assumes "compressResult_refine r" and "sha256Ref (rawHash r)" and "0 < targetTokens r" and "targetTokens r < 2 ^ 53"
    and "safe_ranges (omittedRanges r)"
  shows "compressResultSchema (compress_json r)"
proof -
  have get: "get_string (compress_json r) ''output'' = Some (routput r)" "get_string (compress_json r) ''status'' = Some (status_string (rstatus r))"
    "get_string (compress_json r) ''rawHash'' = Some (rawHash r)" "get_string (compress_json r) ''strategy'' = Some (strategy_string (rstrategy r))"
    "json_get (compress_json r) (js ''diagnostics'') = Some (JArr (map JStr (diagnostics r)))"
    "bool_at (compress_json r) ''truncated'' = Some (truncated r)" "bool_at (compress_json r) ''compressed'' = Some (compressed r)"
    "bool_at (compress_json r) ''budgetExceeded'' = Some (budgetExceeded r)"
    "num_at (compress_json r) ''targetTokens'' = Some (of_nat (targetTokens r))" "num_at (compress_json r) ''actualTokens'' = Some (of_nat (actualTokens r))"
    "num_at (compress_json r) ''rawTokensEst'' = Some (of_nat (rawTokensEst r))" "num_at (compress_json r) ''outTokensEst'' = Some (of_nat (outTokensEst r))"
    by (simp_all add: compress_json_def get_string_def bool_at_def num_at_def)
  have deg: "degradedSchema (compress_json r)"
    by (cases "degraded r"; cases "the (degraded r)") (simp_all add: degradedSchema_def compress_json_def get_string_def DEGRADED_REASONS_def)
  have "status_string (rstatus r) \<in> set (map status_string [Compressed, Unchanged, Skipped, Degraded])" by (cases "rstatus r") simp_all
  moreover have "strategy_string (rstrategy r) \<in> set (map strategy_string [Ls, Grep, Read, Diff, Test, Unknown])" by (cases "rstrategy r") simp_all
  moreover have "(status_string (rstatus r) = js ''compressed'') = (rstatus r = Compressed)" by (cases "rstatus r") simp_all
  ultimately show ?thesis
    using assms(1,2) deg positive_nat [OF assms(3,4)]
    unfolding compressResultSchema_def get ranges_at_json [OF assms(5)]
    by (simp add: compressResult_refine_def rat_ranges list.pred_map comp_def list.pred_True del: set_map map_map)
qed

lemma length_split_on: "length (split_on c s) \<le> length s + 1"
  by (induction s) (auto split: list.splits)

lemma omitted_ranges_bound: "r \<in> set (omitted_ranges retained n) \<Longrightarrow> 1 \<le> fst r \<and> fst r \<le> snd r \<and> snd r \<le> n"
  using omit_fold [of retained n] by (simp add: omit_inv_def omitted_ranges_def ranges_ordered_iff)

lemma compress_ranges_safe:
  assumes "length (raw_of input) < 2 ^ 52"
  shows "safe_ranges (omittedRanges (compressToolOutput digest input))"
proof (cases digest input rule: compress_cases)
  case budgeted
  have "length (source_lines (raw_of input)) \<le> length (raw_of input) + 1"
    using length_split_on [of LF "raw_of input"] by (auto simp: source_lines_def Let_def)
  then have "safe_ranges (omitted_ranges retained (length (source_lines (raw_of input))))" for retained
    using assms omitted_ranges_bound [of _ retained "length (source_lines (raw_of input))"]
    by (fastforce simp: safe_ranges_def list_all_iff)
  then show ?thesis by (simp add: budgeted(3))
qed (simp add: safe_ranges_def)

lemma parsed_budget:
  assumes "parse_compress_params j = Some p"
  shows "0 < cpBudgetTokens p \<and> cpBudgetTokens p < 2 ^ 53"
proof -
  have "0 < nat (fst (quotient_of q)) \<and> nat (fst (quotient_of q)) < 2 ^ 53" if q: "positive_int q" for q
  proof -
    have "quotient_of q = (fst (quotient_of q), 1)" using q by (metis positive_int_def is_safe_integer_def prod.collapse)
    from quotient_of_div [OF this] have "q = of_int (fst (quotient_of q))" by simp
    then obtain n where n: "q = of_int n" by blast
    with q show ?thesis by (auto simp: positive_int_def is_safe_integer_def)
  qed
  with assms show ?thesis
    by (auto simp: parse_compress_params_def split: option.splits if_splits json.splits)
qed

lemma engine_compress_total:
  "parse_compress_params params = Some p \<Longrightarrow> \<exists>r e'. engine_compress digest busy fault uuid d limit params e = (Inr r, e')"
  by (simp add: engine_compress_def Let_def split: prod.split)

lemma engine_compress_sendable:
  assumes "digest_ok digest" and "parse_compress_params params = Some p" and "length (raw_of (pipeline_input p)) < 2 ^ 52"
    and "engine_compress digest busy fault uuid d limit params e = (Inr r, e')"
  shows "compressResultSchema (compress_json r)"
proof -
  have p: "targetTokens r = cpBudgetTokens p" "rawHash r = hash_ref digest (raw_of (pipeline_input p))" "safe_ranges (omittedRanges r)"
    using assms(2,4) compress_ranges_safe [OF assms(3)]
    by (auto elim!: engine_compress_cases simp: degrade_def budget_of_def pipeline_input_def safe_ranges_def split: option.splits)
  have "sha256Ref (rawHash r)"
    using validHash_sha [OF assms(1)] by (simp add: p sha256Ref_def hash_ref_def js_def starts_with_def)
  then show ?thesis
    using engine_compress_valid [OF assms(2,4)] p parsed_budget [OF assms(2)] by (intro compress_json_ok) auto
qed

section \<open>Properties\<close>


text \<open>A valid compress request is answered with its result. The engine's result always passes the
  result schema, so the answer is never the internal error of a schema violation, also when the store
  failed.\<close>

theorem compress_request_answered:
  assumes "digest_ok digest" and "js_trim line \<noteq> []" and "json_parse line = Some v" and "ENVELOPE_PRE_SCHEMA v = Some e"
    and "envOp e = js ''compress''" and "envParams e = Some params" and "parse_compress_params params = Some p"
    and "length (raw_of (pipeline_input p)) < 2 ^ 52"
  shows "\<exists>r eng. engine_compress digest (envBusy env) (envFault env) (envUuid env) (cfgDataDir cfg) (cfgMaxStorage cfg) params (sengine s) = (Inr r, eng)
    \<and> handleLine digest issues cas_message cfg env line s
      = Served (s\<lparr>linesSeen := linesSeen s + 1, sengine := eng,
                  sent := sent s @ [encodeFrame (result_frame (envId e) (compress_json r))]\<rparr>)"
proof -
  obtain r eng where r: "engine_compress digest (envBusy env) (envFault env) (envUuid env) (cfgDataDir cfg) (cfgMaxStorage cfg)
      params (sengine s) = (Inr r, eng)"
    using engine_compress_total [OF assms(7)] by blast
  have "compressResultSchema (compress_json r)" using engine_compress_sendable [OF assms(1,7,8) r] .
  moreover have "rtkOpSchema (envOp e) = Some OpCompress" by (simp add: assms(5) rtkOpSchema_def)
  ultimately show ?thesis
    using assms(2-6) r envelope_id [OF assms(4)]
    by (simp add: handleLine_def emitResult_def writeChecked_def result_frame_ok Let_def)
qed

definition demo_request :: json where
  "demo_request = JObj [(js ''v'', JNum 3), (js ''id'', JStr (js ''a'')), (js ''op'', JStr (js ''compress'')), (js ''params'', demo_params)]"

definition demo_config :: serverConfig where
  "demo_config = \<lparr>testMode = False, cfgDataDir = js ''/d'', cfgMaxStorage = 100\<rparr>"

definition demo_env :: lineEnv where
  "demo_env = \<lparr>envBusy = False, envFault = None, envUuid = js ''u'', envFiles = (\<lambda>f. f), envUptime = 5\<rparr>"

theorem compress_request_answered_witness:
  "\<exists>r s. handleLine (\<lambda>_. replicate 32 0) (\<lambda>_. []) (\<lambda>_. []) demo_config demo_env (json_stringify demo_request) (start_server 7 fresh_engine) = Served s
     \<and> last (sent s) = encodeFrame (result_frame (js ''a'') (compress_json r))"
proof -
  let ?p = "\<lparr>cpTool = js ''read'', cpOutput = js ''hi'', cpMetadata = None, cpBudgetTokens = 512, cpSessionId = js ''s''\<rparr>"
  let ?e = "\<lparr>envId = js ''a'', envOp = js ''compress'', envParams = Some demo_params\<rparr>"
  have "js_trim (json_stringify demo_request) \<noteq> []" by code_simp
  moreover have "plain demo_request" by code_simp
  then have "json_parse (json_stringify demo_request) = Some demo_request" by (rule json_parse_stringify)
  moreover have "ENVELOPE_PRE_SCHEMA demo_request = Some ?e" by code_simp
  moreover have "length (raw_of (pipeline_input ?p)) < 2 ^ 52" by code_simp
  moreover have "digest_ok (\<lambda>_. replicate 32 0)" by (simp add: digest_ok_def)
  ultimately show ?thesis
    using compress_request_answered [of "\<lambda>_. replicate 32 0" "json_stringify demo_request" demo_request ?e demo_params ?p
        demo_env demo_config "start_server 7 fresh_engine" "\<lambda>_. []" "\<lambda>_. []", OF _ _ _ _ _ _ demo_parsed] by fastforce
qed

end
