(* ===== verification/Rtk_Main.thy ===== *)
theory Rtk_Main
  imports Rtk_Server
begin

text \<open>
  \<open>packages/rtk/src/bin.ts\<close>: the process around the server. Bytes of stdin go through a streaming
  decoder and the line reconstructor to \<open>handleLine\<close>; an oversized line ends the process after one
  last error frame; at the end of the stream the decoder and the reconstructor are flushed.

  \<open>envs\<close> gives the circumstances of every line by its number. An exception that leaves the top level
  of the script ends the process with status 1.
\<close>

record stdin =
  inFrames :: frameState
  inDecoder :: textDecoder

definition stdin_start :: stdin where
  "stdin_start = \<lparr>inFrames = frame_reset, inDecoder = new_decoder\<rparr>"

fun handle_lines :: "(byte list \<Rightarrow> byte list) \<Rightarrow> (json option \<Rightarrow> issue list) \<Rightarrow> (casError \<Rightarrow> jstring) \<Rightarrow> serverConfig
    \<Rightarrow> (nat \<Rightarrow> lineEnv) \<Rightarrow> jstring list \<Rightarrow> server \<Rightarrow> serverStep" where
  "handle_lines digest issues cas_message cfg envs [] s = Served s"
| "handle_lines digest issues cas_message cfg envs (l # ls) s =
     (case handleLine digest issues cas_message cfg (envs (linesSeen s)) l s of
        Served s' \<Rightarrow> handle_lines digest issues cas_message cfg envs ls s'
      | Exited code s' \<Rightarrow> Exited code s')"

definition overflow_message :: "nat \<Rightarrow> jstring" where
  "overflow_message n = js ''frame exceeded '' @ dec n @ js '' bytes without a newline''"

definition stdin_end :: "(byte list \<Rightarrow> byte list) \<Rightarrow> (json option \<Rightarrow> issue list) \<Rightarrow> (casError \<Rightarrow> jstring) \<Rightarrow> serverConfig
    \<Rightarrow> (nat \<Rightarrow> lineEnv) \<Rightarrow> nat \<Rightarrow> stdin \<Rightarrow> server \<Rightarrow> serverStep" where
  "stdin_end digest issues cas_message cfg envs maxB i s =
     (case frame_push maxB (decode_end (inDecoder i)) (inFrames i) of
        (Inl e, fr) \<Rightarrow> Exited 1 s
      | (Inr lines, fr) \<Rightarrow>
          (case handle_lines digest issues cas_message cfg envs lines s of
             Exited code s' \<Rightarrow> Exited code s'
           | Served s' \<Rightarrow>
               (case handle_lines digest issues cas_message cfg envs (fst (frame_flush fr)) s' of
                  Exited code s'' \<Rightarrow> Exited code s''
                | Served s'' \<Rightarrow> Exited 0 s'')))"

fun bin_main :: "(byte list \<Rightarrow> byte list) \<Rightarrow> (json option \<Rightarrow> issue list) \<Rightarrow> (casError \<Rightarrow> jstring) \<Rightarrow> serverConfig
    \<Rightarrow> (nat \<Rightarrow> lineEnv) \<Rightarrow> nat \<Rightarrow> byte list list \<Rightarrow> stdin \<Rightarrow> server \<Rightarrow> serverStep" where
  "bin_main digest issues cas_message cfg envs maxB [] i s = stdin_end digest issues cas_message cfg envs maxB i s"
| "bin_main digest issues cas_message cfg envs maxB (chunk # chunks) i s =
     (case decode_chunk chunk (inDecoder i) of (t, d) \<Rightarrow>
      case frame_push maxB t (inFrames i) of
        (Inl e, fr) \<Rightarrow> Exited 0 (abortProtocol (overflow_message (maxFrameBytes e)) s)
      | (Inr lines, fr) \<Rightarrow>
          (case handle_lines digest issues cas_message cfg envs lines s of
             Exited code s' \<Rightarrow> Exited code s'
           | Served s' \<Rightarrow> bin_main digest issues cas_message cfg envs maxB chunks \<lparr>inFrames = fr, inDecoder = d\<rparr> s'))"

section \<open>The process as one pass over its lines\<close>

lemma handle_lines_append:
  "handle_lines digest issues cas_message cfg envs (xs @ ys) s =
     (case handle_lines digest issues cas_message cfg envs xs s of
        Served s' \<Rightarrow> handle_lines digest issues cas_message cfg envs ys s'
      | Exited code s' \<Rightarrow> Exited code s')"
  by (induction xs arbitrary: s) (auto split: serverStep.splits)

definition exit_normally :: "serverStep \<Rightarrow> serverStep" where
  "exit_normally st = (case st of Served s \<Rightarrow> Exited 0 s | Exited code s \<Rightarrow> Exited code s)"

definition unfinished :: "jstring \<Rightarrow> jstring list" where
  "unfinished rest = (if rest = [] then [] else [rest])"

text \<open>The characters still to come: what the remaining chunks decode to, and the final \<open>decode()\<close>.\<close>

definition rest_text :: "byte list list \<Rightarrow> textDecoder \<Rightarrow> jstring" where
  "rest_text chunks d = (case decode_chunks chunks d of (ts, d') \<Rightarrow> concat ts @ decode_end d')"

lemma rest_text_simps [simp]:
  "rest_text [] d = decode_end d"
  "rest_text (c # cs) d = fst (decode_chunk c d) @ rest_text cs (snd (decode_chunk c d))"
  by (simp_all add: rest_text_def split: prod.splits)

lemma frame_push_frames:
  assumes "frame_ok maxB fr" and "frames_of maxB (buffered fr @ t) = (ls, Some r)"
  shows "\<exists>fr'. frame_push maxB t fr = (Inr ls, fr') \<and> frame_ok maxB fr' \<and> buffered fr' = r"
  using push_loop_spec [OF assms(1), where chunk = t and lines = "[]"] assms(2) by (simp add: frame_push_def)

lemma bin_main_lines:
  assumes "frame_ok maxB (inFrames i)"
    and "frames_of maxB (buffered (inFrames i) @ rest_text chunks (inDecoder i)) = (ls, Some r)"
  shows "bin_main digest issues cas_message cfg envs maxB chunks i s
    = exit_normally (handle_lines digest issues cas_message cfg envs (ls @ unfinished r) s)"
  using assms
proof (induction digest issues cas_message cfg envs maxB chunks i s arbitrary: ls rule: bin_main.induct)
  case (1 digest issues cas_message cfg envs maxB i s)
  then obtain fr' where "frame_push maxB (decode_end (inDecoder i)) (inFrames i) = (Inr ls, fr')" "buffered fr' = r"
    using frame_push_frames by fastforce
  then show ?case
    by (auto simp: stdin_end_def handle_lines_append exit_normally_def frame_flush_def unfinished_def buffered_def Let_def
        split: serverStep.splits)
next
  case (2 digest issues cas_message cfg envs maxB chunk chunks i s)
  obtain t d where d: "decode_chunk chunk (inDecoder i) = (t, d)" by (metis surj_pair)
  then have all: "frames_of maxB ((buffered (inFrames i) @ t) @ rest_text chunks d) = (ls, Some r)" using 2(3) by simp
  obtain ls1 r1 where f1: "frames_of maxB (buffered (inFrames i) @ t) = (ls1, Some r1)"
    using all unfolding frames_of_extend [of maxB "buffered (inFrames i) @ t"] by (auto split: prod.splits option.splits)
  then obtain ls2 where f2: "frames_of maxB (r1 @ rest_text chunks d) = (ls2, Some r)" "ls = ls1 @ ls2"
    using all unfolding frames_of_extend [of maxB "buffered (inFrames i) @ t"]
    by (cases "frames_of maxB (r1 @ rest_text chunks d)") auto
  obtain fr' where fr': "frame_push maxB t (inFrames i) = (Inr ls1, fr')" "frame_ok maxB fr'" "buffered fr' = r1"
    using frame_push_frames [OF 2(2) f1] by blast
  show ?case
  proof (cases "handle_lines digest issues cas_message cfg envs ls1 s")
    case (Served s')
    with 2(1) [OF d [symmetric] fr'(1) [symmetric] refl Served] fr' f2 d show ?thesis
      by (simp add: handle_lines_append)
  qed (use d fr' f2 in \<open>simp add: handle_lines_append exit_normally_def\<close>)
qed

text \<open>The text of the whole stream does not depend on its cutting.\<close>

definition stdin_text :: "byte list \<Rightarrow> jstring" where
  "stdin_text bytes = rest_text [bytes] new_decoder"

lemma stdin_text_chunks: "rest_text chunks new_decoder = stdin_text (concat chunks)"
proof -
  obtain out st where o: "dec_bytes (dstate new_decoder) (concat chunks) = (out, st)" by (metis surj_pair)
  from decode_chunks_bytes [OF this] decode_chunks_bytes [of new_decoder "[concat chunks]", OF _] o show ?thesis
    by (auto simp: stdin_text_def rest_text_def decode_end_def)
qed

lemma stdin_start_simps [simp]:
  "inFrames stdin_start = frame_reset" "inDecoder stdin_start = new_decoder"
  by (simp_all add: stdin_start_def)

text \<open>Decoding a chunk that ends between two characters.\<close>

lemma dec_bytes_need0: "bs \<noteq> [] \<Longrightarrow> dec_bytes (0, l, h, c) bs = dec_bytes dec_start bs"
  by (cases bs) (simp_all add: dec_byte_def dec_start_def)

lemma decode_chunk_encode:
  assumes "well_formed t" and "t \<noteq> []" and "fst (dstate d) = 0" and "dstarted d \<or> hd t \<noteq> 0xFEFF"
  shows "\<exists>d'. decode_chunk (utf8_encode t) d = (t, d') \<and> fst (dstate d') = 0 \<and> dstarted d'"
proof -
  obtain l h c where e: "dec_bytes dec_start (utf8_encode t) = (t, 0, l, h, c)"
    using dec_bytes_encode [OF assms(1)] by blast
  with assms(2) have "utf8_encode t \<noteq> []" by auto
  then have "dec_bytes (dstate d) (utf8_encode t) = (t, 0, l, h, c)"
    using e assms(3) dec_bytes_need0 by (cases "dstate d") auto
  with assms(2,4) show ?thesis by (auto simp: decode_chunk_def)
qed

lemma frame_push_overflow:
  assumes "frame_ok maxB fr" and "frames_of maxB (buffered fr @ t) = (ls, None)"
  shows "frame_push maxB t fr = (Inl (FrameOverflow maxB ls), frame_reset)"
  using push_loop_spec [OF assms(1), where chunk = t and lines = "[]"] assms(2) by (simp add: frame_push_def)

section \<open>Properties\<close>



text \<open>C39: An oversized line swallows the complete lines that arrived in the same read: they get no
  answer, although the reconstructor hands them over with the overflow, and although the same bytes in
  two reads are answered.\<close>

theorem overflow_drops_completed_lines:
  assumes "well_formed l" and "l = [] \<or> hd l \<noteq> 0xFEFF" and "well_formed over"
    and "LF \<notin> set l" and "LF \<notin> set over" and "fits maxB l" and "\<not> fits maxB over"
  shows "bin_main digest issues cas_message cfg envs maxB [utf8_encode (l @ [LF] @ over)] stdin_start s
      = Exited 0 (abortProtocol (overflow_message maxB) s)
    \<and> bin_main digest issues cas_message cfg envs maxB [utf8_encode (l @ [LF]), utf8_encode over] stdin_start s
      = (case handleLine digest issues cas_message cfg (envs (linesSeen s)) (strip_cr l) s of
           Served s' \<Rightarrow> Exited 0 (abortProtocol (overflow_message maxB) s') | Exited code s' \<Rightarrow> Exited code s')"
proof -
  have ne: "over \<noteq> []" using assms(7) by (auto simp: fits_def)
  have wf: "well_formed (l @ [LF])" "well_formed (l @ [LF] @ over)"
    using assms(1,3) by (auto intro!: well_formed_append well_formed_append [of "[LF]", simplified] well_formed_plain [of "[LF]", simplified])
  have start: "fst (dstate new_decoder) = 0" by (simp add: new_decoder_def dec_start_def)
  have hd: "hd (l @ [LF]) \<noteq> 0xFEFF" "hd (l @ [LF] @ over) \<noteq> 0xFEFF" using assms(2) by (auto simp: hd_append)
  have segs: "split_on LF (l @ LF # over) = [l, over]" "split_on LF (l @ [LF]) = [l, []]"
    using split_on_append_sep [OF assms(4), of over] split_on_append_sep [OF assms(4), of "[]"] assms(5) by (simp_all add: split_on_self)
  have f0: "frame_push maxB (l @ [LF] @ over) frame_reset = (Inl (FrameOverflow maxB [strip_cr l]), frame_reset)"
    using assms(6,7) by (intro frame_push_overflow) (simp_all add: frames_of_def segs)
  obtain fr where f1: "frame_push maxB (l @ [LF]) frame_reset = (Inr [strip_cr l], fr)" "frame_ok maxB fr" "buffered fr = []"
    using assms(6) frame_push_frames [of maxB frame_reset "l @ [LF]" "[strip_cr l]" "[]"]
    by (auto simp: frames_of_def segs fits_def)
  have f2: "frame_push maxB over fr = (Inl (FrameOverflow maxB []), frame_reset)"
    using assms(5,7) f1(2,3) by (intro frame_push_overflow) (simp_all add: frames_of_def split_on_self)
  obtain d0 where d0: "decode_chunk (utf8_encode (l @ [LF] @ over)) new_decoder = (l @ [LF] @ over, d0)"
    using decode_chunk_encode [OF wf(2) _ start] hd(2) by auto
  obtain d1 where d1: "decode_chunk (utf8_encode (l @ [LF])) new_decoder = (l @ [LF], d1)" "fst (dstate d1) = 0" "dstarted d1"
    using decode_chunk_encode [OF wf(1) _ start] hd(1) by auto
  obtain d2 where d2: "decode_chunk (utf8_encode over) d1 = (over, d2)"
    using decode_chunk_encode [OF assms(3) ne d1(2)] d1(3) by auto
  have "bin_main digest issues cas_message cfg envs maxB [utf8_encode (l @ [LF] @ over)] stdin_start s
      = Exited 0 (abortProtocol (overflow_message maxB) s)"
    unfolding bin_main.simps stdin_start_simps d0 prod.case f0 by simp
  moreover have "bin_main digest issues cas_message cfg envs maxB [utf8_encode (l @ [LF]), utf8_encode over] stdin_start s
      = (case handleLine digest issues cas_message cfg (envs (linesSeen s)) (strip_cr l) s of
           Served s' \<Rightarrow> Exited 0 (abortProtocol (overflow_message maxB) s') | Exited code s' \<Rightarrow> Exited code s')"
    unfolding bin_main.simps stdin_start_simps d1(1) prod.case f1(1) by (simp add: d2 f2 split: serverStep.splits)
  ultimately show ?thesis ..
qed

theorem overflow_drops_completed_lines_witness:
  "bin_main (\<lambda>_. replicate 32 0) (\<lambda>_. []) (\<lambda>_. []) demo_config (\<lambda>_. demo_env) 2 [utf8_encode ([123] @ [LF] @ [120, 120, 120])] stdin_start
     (start_server 7 fresh_engine)
   = Exited 0 (abortProtocol (overflow_message 2) (start_server 7 fresh_engine))"
  by (rule overflow_drops_completed_lines [THEN conjunct1]) (simp_all add: is_surrogate_def is_high_def is_low_def fits_def byteLength_Cons_Cons enc_cp_def)

end
