(* ===== verification/Turns.thy ===== *)
theory Turns
  imports Wire Cas "HOL-Library.List_Lexorder"
begin

text \<open>
  Chat history as headroomd sees it. The message projection is \<open>chatMessageSchema\<close> of
  \<open>packages/contracts/src/headroom.ts\<close>; turn segmentation, canonical JSON and the two-level hash
  scheme are \<open>packages/headroomd/src/turns.ts\<close>. An optional field of a message is an \<open>option\<close>,
  \<open>None\<close> standing for \<open>undefined\<close>. SHA-256 is the parameter \<open>digest\<close>.
\<close>

section \<open>Messages\<close>

datatype role = User | Assistant

record toolPart =
  ptool :: jstring
  pcallId :: "jstring option"
  pinput :: "json option"
  pstatus :: jstring
  perror :: "jstring option"
  poutput :: "jstring option"

datatype part = TextPart jstring | ToolPart toolPart

datatype memoryKind = Constraints | Decisions | Changes | Verification | Failures | Open

record memoryEntry =
  mkind :: memoryKind
  mtext :: jstring
  msourceIds :: "jstring list"

record archive =
  ahistoryHash :: jstring
  amemory :: "memoryEntry list"
  anodeIds :: "jstring list option"
  aprotectedMemory :: "memoryEntry list option"

record chatMessage =
  mid :: jstring
  mrole :: role
  mparts :: "part list"
  mprotected :: "bool option"
  marchive :: "archive option"

section \<open>Turns\<close>

definition COMPACTION_MARKER :: jstring where
  "COMPACTION_MARKER = js ''[bluecode '' @ [0x5386, 0x53F2, 0x538B, 0x7F29] @ js '']''"

definition compaction_id :: "jstring \<Rightarrow> jstring" where
  "compaction_id h = js ''compaction-'' @ h"

definition isCompactionReplacement :: "chatMessage \<Rightarrow> bool" where
  "isCompactionReplacement m \<longleftrightarrow>
     mrole m = User \<and> (case marchive m of None \<Rightarrow> False | Some a \<Rightarrow> mid m = compaction_id (ahistoryHash a))"

record turn =
  tindex :: nat
  tmessageIds :: "jstring list"
  tmessages :: "chatMessage list"
  tstart :: nat

text \<open>One iteration of the loop of \<open>splitTurns\<close>; the pair counts the messages seen.\<close>

definition turn_step :: "chatMessage \<Rightarrow> turn list \<times> nat \<Rightarrow> turn list \<times> nat" where
  "turn_step m st =
     (case st of (turns, i) \<Rightarrow>
        if mrole m = User \<or> turns = []
        then (turns @ [\<lparr>tindex = length turns, tmessageIds = [mid m], tmessages = [m], tstart = i\<rparr>], i + 1)
        else (let t = last turns
              in (butlast turns @ [t\<lparr>tmessageIds := tmessageIds t @ [mid m], tmessages := tmessages t @ [m]\<rparr>], i + 1)))"

definition splitTurns :: "chatMessage list \<Rightarrow> turn list" where
  "splitTurns messages = fst (fold turn_step messages ([], 0))"

section \<open>Canonical JSON\<close>

fun canonicalValue :: "json \<Rightarrow> jstring" where
  "canonicalValue (JArr vs) = [91] @ join_with [44] (map canonicalValue vs) @ [93]"
| "canonicalValue (JObj kvs) =
     [123] @ join_with [44] (map snd (sort_key fst (map (\<lambda>(k, v). (k, json_quote k @ [58] @ canonicalValue v)) kvs))) @ [125]"
| "canonicalValue v = json_stringify v"

definition canonicalJSON :: "json \<Rightarrow> jstring" where
  "canonicalJSON v = canonicalValue v"

section \<open>The hash inputs\<close>

text \<open>An optional property of an object literal: absent when the value is \<open>undefined\<close>.\<close>

definition opt_field :: "string \<Rightarrow> ('a \<Rightarrow> json) \<Rightarrow> 'a option \<Rightarrow> (jstring \<times> json) list" where
  "opt_field k f x = (case x of None \<Rightarrow> [] | Some v \<Rightarrow> [(js k, f v)])"

fun role_string :: "role \<Rightarrow> jstring" where
  "role_string User = js ''user''"
| "role_string Assistant = js ''assistant''"

fun kind_string :: "memoryKind \<Rightarrow> jstring" where
  "kind_string Constraints = js ''constraints''"
| "kind_string Decisions = js ''decisions''"
| "kind_string Changes = js ''changes''"
| "kind_string Verification = js ''verification''"
| "kind_string Failures = js ''failures''"
| "kind_string Open = js ''open''"

fun part_json :: "part \<Rightarrow> json" where
  "part_json (TextPart t) = JObj [(js ''type'', JStr (js ''text'')), (js ''text'', JStr t)]"
| "part_json (ToolPart p) =
     JObj ([(js ''type'', JStr (js ''tool'')), (js ''tool'', JStr (ptool p))]
       @ opt_field ''callId'' JStr (pcallId p) @ opt_field ''input'' id (pinput p)
       @ [(js ''state'', JObj ([(js ''status'', JStr (pstatus p))] @ opt_field ''error'' JStr (perror p)
            @ opt_field ''output'' JStr (poutput p)))])"

definition memory_json :: "memoryEntry \<Rightarrow> json" where
  "memory_json e = JObj [(js ''kind'', JStr (kind_string (mkind e))), (js ''text'', JStr (mtext e)),
     (js ''sourceIds'', JArr (map JStr (msourceIds e)))]"

definition archive_json :: "archive \<Rightarrow> json" where
  "archive_json a = JObj ([(js ''historyHash'', JStr (ahistoryHash a)), (js ''memory'', JArr (map memory_json (amemory a)))]
     @ opt_field ''nodeIds'' (\<lambda>ids. JArr (map JStr ids)) (anodeIds a)
     @ opt_field ''protectedMemory'' (\<lambda>es. JArr (map memory_json es)) (aprotectedMemory a))"

definition messageHashInput :: "chatMessage \<Rightarrow> json" where
  "messageHashInput m =
     JObj ([(js ''version'', JNum 2),
            (js ''info'', JObj [(js ''id'', JStr (mid m)), (js ''role'', JStr (role_string (mrole m)))]),
            (js ''parts'', JArr (map part_json (mparts m)))]
       @ opt_field ''archive'' archive_json (marchive m)
       @ (if mprotected m = Some True then [(js ''protected'', JBool True)] else []))"

fun text_of :: "part \<Rightarrow> jstring option" where
  "text_of (TextPart t) = Some t"
| "text_of (ToolPart p) = None"

fun tool_of :: "part \<Rightarrow> toolPart option" where
  "tool_of (TextPart t) = None"
| "tool_of (ToolPart p) = Some p"

definition or_empty :: "jstring option \<Rightarrow> jstring" where
  "or_empty s = (case s of None \<Rightarrow> [] | Some t \<Rightarrow> t)"

fun legacy_loop :: "part list \<Rightarrow> jstring \<times> json list \<Rightarrow> jstring \<times> json list" where
  "legacy_loop [] acc = acc"
| "legacy_loop (TextPart t # ps) (textParts, toolParts) =
     legacy_loop ps (if length textParts = 0 then t else textParts @ [LF] @ t, toolParts)"
| "legacy_loop (ToolPart p # ps) (textParts, toolParts) =
     legacy_loop ps (textParts, toolParts @ [JObj [(js ''tool'', JStr (ptool p)), (js ''output'', JStr (or_empty (poutput p)))]])"

definition legacyMessageHashInput :: "chatMessage \<Rightarrow> json" where
  "legacyMessageHashInput m =
     (case legacy_loop (mparts m) ([], []) of (textParts, toolParts) \<Rightarrow>
        JObj [(js ''id'', JStr (mid m)), (js ''role'', JStr (role_string (mrole m))),
              (js ''textParts'', JStr textParts), (js ''toolParts'', JArr toolParts)])"

definition hashText :: "(byte list \<Rightarrow> byte list) \<Rightarrow> jstring \<Rightarrow> jstring" where
  "hashText digest t = sha256Hex digest (utf8_encode t)"

definition legacyContentHash :: "(byte list \<Rightarrow> byte list) \<Rightarrow> chatMessage \<Rightarrow> jstring" where
  "legacyContentHash digest m = hashText digest (canonicalJSON (legacyMessageHashInput m))"

definition contentDigest :: "(byte list \<Rightarrow> byte list) \<Rightarrow> chatMessage \<Rightarrow> jstring" where
  "contentDigest digest m = hashText digest (canonicalJSON (messageHashInput m))"

definition turnHashes :: "(byte list \<Rightarrow> byte list) \<Rightarrow> turn list \<Rightarrow> jstring list list" where
  "turnHashes digest turns = map (\<lambda>t. map (contentDigest digest) (tmessages t)) turns"

definition historyHash :: "(byte list \<Rightarrow> byte list) \<Rightarrow> turn list \<Rightarrow> jstring" where
  "historyHash digest turns =
     hashText digest (canonicalJSON (JArr (map (\<lambda>hs. JArr (map JStr hs)) (turnHashes digest turns))))"

section \<open>Segmentation\<close>

fun starts_at :: "nat \<Rightarrow> turn list \<Rightarrow> bool" where
  "starts_at n [] = True"
| "starts_at n (t # ts) = (tstart t = n \<and> starts_at (n + length (tmessages t)) ts)"

text \<open>One turn: the recorded ids are those of its messages, and only its first message may be a
  user message.\<close>

definition turn_ok :: "turn \<Rightarrow> bool" where
  "turn_ok t \<longleftrightarrow> tmessages t \<noteq> [] \<and> tmessageIds t = map mid (tmessages t)
     \<and> list_all (\<lambda>m. mrole m = Assistant) (tl (tmessages t))"

definition turns_ok :: "chatMessage list \<Rightarrow> turn list \<Rightarrow> bool" where
  "turns_ok ms ts \<longleftrightarrow>
     concat (map tmessages ts) = ms \<and> map tindex ts = [0 ..< length ts] \<and> starts_at 0 ts
     \<and> list_all turn_ok ts \<and> list_all (\<lambda>t. mrole (hd (tmessages t)) = User) (tl ts)"

lemma starts_at_append: "starts_at n (ts @ us) \<longleftrightarrow> starts_at n ts \<and> starts_at (n + length (concat (map tmessages ts))) us"
  by (induction ts arbitrary: n) (auto simp: add.assoc)

lemma turn_step_ok:
  assumes "turns_ok ms ts"
  shows "turns_ok (ms @ [m]) (fst (turn_step m (ts, length ms))) \<and> snd (turn_step m (ts, length ms)) = length (ms @ [m])"
proof (cases "mrole m = User \<or> ts = []")
  case True
  then show ?thesis using assms
    by (cases ts) (auto simp: turns_ok_def turn_step_def turn_ok_def starts_at_append)
next
  case False
  then obtain us t where ts: "ts = us @ [t]" by (cases ts rule: rev_cases) auto
  with False have "mrole m = Assistant" by (cases "mrole m") auto
  moreover have "tmessages t \<noteq> []" using assms by (simp add: ts turns_ok_def turn_ok_def)
  ultimately show ?thesis using assms False
    by (cases us) (auto simp: ts turns_ok_def turn_step_def turn_ok_def starts_at_append Let_def)
qed

lemma split_fold: "turns_ok ms (fst (fold turn_step ms ([], 0))) \<and> snd (fold turn_step ms ([], 0)) = length ms"
proof (induction ms rule: rev_induct)
  case Nil
  then show ?case by (simp add: turns_ok_def)
next
  case (snoc m ms)
  then show ?case using turn_step_ok [of ms "fst (fold turn_step ms ([], 0))" m]
    by (cases "fold turn_step ms ([], 0)") simp
qed

section \<open>Canonical JSON is a normal form\<close>

fun json_sort :: "json \<Rightarrow> json" where
  "json_sort (JArr vs) = JArr (map json_sort vs)"
| "json_sort (JObj kvs) = JObj (sort_key fst (map (\<lambda>(k, v). (k, json_sort v)) kvs))"
| "json_sort v = v"

lemma insort_fst_map:
  "insort_key fst (k, g k v) (map (\<lambda>(k, v). (k, g k v)) xs) = map (\<lambda>(k, v). (k, g k v)) (insort_key fst (k, v) xs)"
  by (induction xs) auto

lemma sort_fst_map: "sort_key fst (map (\<lambda>(k, v). (k, g k v)) xs) = map (\<lambda>(k, v). (k, g k v)) (sort_key fst xs)"
  by (induction xs) (auto simp: insort_fst_map)

lemma canonicalValue_sort: "canonicalValue v = json_stringify (json_sort v)"
proof (induction v)
  case (JArr vs)
  then show ?case by (simp cong: map_cong)
next
  case (JObj kvs)
  have "map (\<lambda>(k, v). (k, json_quote k @ [58] @ canonicalValue v)) kvs
      = map (\<lambda>(k, v). (k, json_quote k @ [58] @ json_stringify v)) (map (\<lambda>(k, v). (k, json_sort v)) kvs)"
    using JObj by (auto simp: snds.simps)
  then show ?case
    by (simp only: canonicalValue.simps sort_fst_map json_sort.simps json_stringify.simps)
      (simp add: case_prod_unfold comp_def)
qed simp_all

lemma plain_sort: "plain v \<Longrightarrow> plain (json_sort v)"
proof (induction v)
  case (JObj kvs)
  have "map fst (sort_key fst (map (\<lambda>(k, v). (k, json_sort v)) kvs)) = map fst (sort_key fst kvs)"
    unfolding sort_fst_map [of "\<lambda>k v. json_sort v"] by (simp add: case_prod_unfold comp_def)
  moreover have "distinct (map fst (sort_key fst kvs))"
    using JObj(2) by (simp add: distinct_map)
  ultimately show ?case using JObj by (fastforce simp: list_all_iff)
qed (auto simp: list_all_iff)

lemma canonical_sort_eq:
  assumes "plain v" and "plain w"
  shows "canonicalJSON v = canonicalJSON w \<longleftrightarrow> json_sort v = json_sort w"
  using json_parse_stringify [OF plain_sort [OF assms(1)]] json_parse_stringify [OF plain_sort [OF assms(2)]]
  unfolding canonicalJSON_def canonicalValue_sort by (metis option.inject)

text \<open>Objects with the same members in another order have the same normal form.\<close>

lemma sort_key_permuted:
  fixes xs ys :: "(jstring \<times> 'a) list"
  assumes "distinct (map fst xs)" and "distinct (map fst ys)" and "set xs = set ys"
  shows "sort_key fst xs = sort_key fst ys"
proof -
  have "inj_on fst (set (sort_key fst xs) \<union> set (sort_key fst ys))" using assms by (simp add: distinct_map)
  then show ?thesis using assms by (intro map_sorted_distinct_set_unique) (auto simp: distinct_map)
qed

lemma get_sort:
  assumes "distinct (map fst kvs)"
  shows "json_get (json_sort (JObj kvs)) k = map_option json_sort (map_of kvs k)"
proof -
  let ?xs = "map (\<lambda>(k, v). (k, json_sort v)) kvs"
  have "map fst ?xs = map fst kvs" by (simp add: case_prod_unfold comp_def)
  with assms have d: "distinct (map fst ?xs)" by (simp only:)
  then have "distinct (map fst (sort_key fst ?xs))" by (simp only: distinct_map distinct_sort set_sort)
  with d have "map_of (sort_key fst ?xs) = map_of ?xs" by (simp only: map_of_inject_set set_sort)
  moreover have "map_of ?xs k = map_option json_sort (map_of kvs k)" by (induction kvs) auto
  ultimately show ?thesis by simp
qed

section \<open>The projection of a message loses nothing\<close>

text \<open>A tool input counts up to the order of its object keys, and \<open>protected: false\<close> counts as absent.\<close>

fun part_norm :: "part \<Rightarrow> part" where
  "part_norm (TextPart t) = TextPart t"
| "part_norm (ToolPart p) = ToolPart (p\<lparr>pinput := map_option json_sort (pinput p)\<rparr>)"

definition message_norm :: "chatMessage \<Rightarrow> chatMessage" where
  "message_norm m = m\<lparr>mparts := map part_norm (mparts m), mprotected := (if mprotected m = Some True then Some True else None)\<rparr>"

text \<open>Every string holds code units and every number of a tool input is an exact integer.\<close>

abbreviation units :: "jstring \<Rightarrow> bool" where
  "units s \<equiv> list_all (\<lambda>c. c < 65536) s"

fun part_plain :: "part \<Rightarrow> bool" where
  "part_plain (TextPart t) = units t"
| "part_plain (ToolPart p) = (units (ptool p) \<and> units (pstatus p) \<and> pred_option units (pcallId p)
     \<and> pred_option plain (pinput p) \<and> pred_option units (perror p) \<and> pred_option units (poutput p))"

definition entry_plain :: "memoryEntry \<Rightarrow> bool" where
  "entry_plain e \<longleftrightarrow> units (mtext e) \<and> list_all units (msourceIds e)"

definition archive_plain :: "archive \<Rightarrow> bool" where
  "archive_plain a \<longleftrightarrow> units (ahistoryHash a) \<and> list_all entry_plain (amemory a)
     \<and> pred_option (list_all units) (anodeIds a) \<and> pred_option (list_all entry_plain) (aprotectedMemory a)"

definition message_plain :: "chatMessage \<Rightarrow> bool" where
  "message_plain m \<longleftrightarrow> units (mid m) \<and> list_all part_plain (mparts m) \<and> pred_option archive_plain (marchive m)"

lemma units_js [simp]: "units (js s)"
  using order_less_trans [OF of_char_bound] by (simp add: js_def list_all_iff)

lemma plain_entry: "entry_plain e \<Longrightarrow> plain (memory_json e)"
  by (cases "mkind e") (simp_all add: memory_json_def entry_plain_def list.pred_map comp_def)

lemma list_all_mono: "list_all P xs \<Longrightarrow> (\<And>x. P x \<Longrightarrow> Q x) \<Longrightarrow> list_all Q xs"
  by (induction xs) auto

lemma plain_part: "part_plain p \<Longrightarrow> plain (part_json p)"
  by (cases p) (auto simp: opt_field_def split: option.splits)

lemma plain_archive: "archive_plain a \<Longrightarrow> plain (archive_json a)"
  by (auto simp: archive_json_def archive_plain_def opt_field_def list.pred_map comp_def split: option.splits
      intro: list_all_mono plain_entry)

lemma plain_message: "message_plain m \<Longrightarrow> plain (messageHashInput m)"
  by (cases "mrole m")
    (auto simp: messageHashInput_def message_plain_def opt_field_def list.pred_map comp_def is_safe_integer_def plain_archive
      split: option.splits intro: list_all_mono plain_part)

text \<open>Reading the members of the normal forms gives the fields back.\<close>

lemma sort_text_get: "json_get (json_sort (part_json (TextPart t))) k =
    (if k = js ''type'' then Some (JStr (js ''text'')) else if k = js ''text'' then Some (JStr t) else None)"
  by (simp only: part_json.simps) (subst get_sort, simp_all)

lemma sort_tool_get:
  "json_get (json_sort (part_json (ToolPart p))) k =
    (if k = js ''type'' then Some (JStr (js ''tool'')) else if k = js ''tool'' then Some (JStr (ptool p))
     else if k = js ''callId'' then map_option JStr (pcallId p) else if k = js ''input'' then map_option json_sort (pinput p)
     else if k = js ''state'' then Some (json_sort (JObj ([(js ''status'', JStr (pstatus p))] @ opt_field ''error'' JStr (perror p)
            @ opt_field ''output'' JStr (poutput p)))) else None)"
  by (simp only: part_json.simps) (subst get_sort, auto simp: opt_field_def split: option.splits)

lemma sort_state_get:
  "json_get (json_sort (JObj ([(js ''status'', JStr s)] @ opt_field ''error'' JStr e @ opt_field ''output'' JStr u))) k =
    (if k = js ''status'' then Some (JStr s) else if k = js ''error'' then map_option JStr e
     else if k = js ''output'' then map_option JStr u else None)"
  by (subst get_sort, auto simp: opt_field_def split: option.splits)

lemma JStr_map_eq [simp]:
  "map_option JStr x = map_option JStr y \<longleftrightarrow> x = y"
  "map JStr xs = map JStr ys \<longleftrightarrow> xs = ys"
  by (cases x; cases y; simp) (simp add: inj_map_eq_map inj_def)

lemma state_sort_inj:
  assumes "json_sort (JObj ([(js ''status'', JStr s)] @ opt_field ''error'' JStr e @ opt_field ''output'' JStr u))
      = json_sort (JObj ([(js ''status'', JStr s')] @ opt_field ''error'' JStr e' @ opt_field ''output'' JStr u'))"
  shows "s = s' \<and> e = e' \<and> u = u'"
proof -
  note get = arg_cong [OF assms, where f = "\<lambda>j. json_get j k" for k]
  show ?thesis
    using get [of "js ''status''"] get [of "js ''error''"] get [of "js ''output''"] by (simp only: sort_state_get) simp
qed

lemma part_sort_inj:
  assumes "json_sort (part_json p) = json_sort (part_json q)" shows "part_norm p = part_norm q"
proof -
  note get = arg_cong [OF assms, where f = "\<lambda>j. json_get j k" for k]
  show ?thesis
  proof (cases p; cases q)
    fix a b assume pq: "p = ToolPart a" "q = ToolPart b"
    have "pstatus a = pstatus b \<and> perror a = perror b \<and> poutput a = poutput b"
      using get [of "js ''state''"] unfolding pq sort_tool_get by (intro state_sort_inj) simp
    moreover have "ptool a = ptool b" using get [of "js ''tool''"] unfolding pq sort_tool_get by simp
    moreover have "pcallId a = pcallId b" using get [of "js ''callId''"] unfolding pq sort_tool_get by simp
    moreover have "map_option json_sort (pinput a) = map_option json_sort (pinput b)"
      using get [of "js ''input''"] unfolding pq sort_tool_get by simp
    ultimately show ?thesis by (simp add: pq)
  next
    fix a b assume "p = TextPart a" "q = TextPart b"
    then show ?thesis using get [of "js ''text''"] by (simp add: sort_text_get del: part_json.simps json_sort.simps)
  qed (use get [of "js ''type''"] in \<open>auto simp: sort_text_get sort_tool_get simp del: part_json.simps json_sort.simps\<close>)
qed

lemma kind_string_inj: "kind_string a = kind_string b \<longleftrightarrow> a = b"
  by (cases a; cases b) simp_all

lemma sort_strings: "map json_sort (map JStr xs) = map JStr xs"
  by simp

lemma sort_entry_get:
  "json_get (json_sort (memory_json e)) k =
    (if k = js ''kind'' then Some (JStr (kind_string (mkind e))) else if k = js ''text'' then Some (JStr (mtext e))
     else if k = js ''sourceIds'' then Some (JArr (map JStr (msourceIds e))) else None)"
  unfolding memory_json_def by (subst get_sort, auto simp: comp_def)

lemma entry_sort_inj: "json_sort (memory_json e) = json_sort (memory_json e') \<longleftrightarrow> e = e'"
proof
  assume a: "json_sort (memory_json e) = json_sort (memory_json e')"
  note get = arg_cong [OF a, where f = "\<lambda>j. json_get j k" for k]
  show "e = e'"
    using get [of "js ''kind''"] get [of "js ''text''"] get [of "js ''sourceIds''"]
    by (simp add: sort_entry_get kind_string_inj)
qed simp

lemma entries_sort_inj:
  "map json_sort (map memory_json es) = map json_sort (map memory_json es') \<longleftrightarrow> es = es'"
  using inj_map_eq_map [of "\<lambda>e. json_sort (memory_json e)" es es'] by (simp add: comp_def inj_def entry_sort_inj)

lemma sort_archive_get:
  "json_get (json_sort (archive_json a)) k =
    (if k = js ''historyHash'' then Some (JStr (ahistoryHash a))
     else if k = js ''memory'' then Some (JArr (map json_sort (map memory_json (amemory a))))
     else if k = js ''nodeIds'' then map_option (\<lambda>ids. JArr (map JStr ids)) (anodeIds a)
     else if k = js ''protectedMemory'' then map_option (\<lambda>es. JArr (map json_sort (map memory_json es))) (aprotectedMemory a)
     else None)"
  unfolding archive_json_def by (subst get_sort, auto simp: opt_field_def comp_def split: option.splits)

lemma archive_sort_inj:
  assumes "json_sort (archive_json a) = json_sort (archive_json b)" shows "a = b"
proof -
  note get = arg_cong [OF assms, where f = "\<lambda>j. json_get j k" for k, unfolded sort_archive_get]
  have "ahistoryHash a = ahistoryHash b" using get [of "js ''historyHash''"] by simp
  moreover have "amemory a = amemory b" using get [of "js ''memory''"] by (simp only: entries_sort_inj if_True simp_thms) (simp add: entries_sort_inj del: map_map)
  moreover have "anodeIds a = anodeIds b" using get [of "js ''nodeIds''"] by (cases "anodeIds a"; cases "anodeIds b") simp_all
  moreover have "aprotectedMemory a = aprotectedMemory b"
    using get [of "js ''protectedMemory''"] by (cases "aprotectedMemory a"; cases "aprotectedMemory b") (simp_all add: entries_sort_inj del: map_map)
  ultimately show ?thesis by simp
qed

lemma role_string_inj: "role_string a = role_string b \<longleftrightarrow> a = b"
  by (cases a; cases b) simp_all

lemma sort_message_get:
  "json_get (json_sort (messageHashInput m)) k =
    (if k = js ''version'' then Some (JNum 2)
     else if k = js ''info'' then Some (JObj [(js ''id'', JStr (mid m)), (js ''role'', JStr (role_string (mrole m)))])
     else if k = js ''parts'' then Some (JArr (map json_sort (map part_json (mparts m))))
     else if k = js ''archive'' then map_option (\<lambda>a. json_sort (archive_json a)) (marchive m)
     else if k = js ''protected'' \<and> mprotected m = Some True then Some (JBool True) else None)"
proof -
  have "js ''id'' < js ''role''" by (simp add: js_def)
  then have "sort_key fst [(js ''id'', a), (js ''role'', b)] = [(js ''id'', a), (js ''role'', b)]" for a b :: json
    by simp
  then show ?thesis
    unfolding messageHashInput_def by (subst get_sort, auto simp: opt_field_def comp_def split: option.splits)
qed

lemma message_sort_inj:
  assumes "json_sort (messageHashInput m) = json_sort (messageHashInput m')" shows "message_norm m = message_norm m'"
proof -
  note get = arg_cong [OF assms, where f = "\<lambda>j. json_get j k" for k, unfolded sort_message_get]
  have "mid m = mid m'" "mrole m = mrole m'" using get [of "js ''info''"] by (simp_all add: role_string_inj)
  moreover have "map part_norm (mparts m) = map part_norm (mparts m')"
  proof -
    have eq: "map (\<lambda>p. json_sort (part_json p)) (mparts m) = map (\<lambda>p. json_sort (part_json p)) (mparts m')"
      using get [of "js ''parts''"] by (simp add: comp_def)
    then have "length (mparts m) = length (mparts m')" using map_eq_imp_length_eq by blast
    with eq show ?thesis by (auto simp: list_eq_iff_nth_eq intro: part_sort_inj)
  qed
  moreover have "marchive m = marchive m'"
    using get [of "js ''archive''"] by (cases "marchive m"; cases "marchive m'") (auto intro: archive_sort_inj)
  moreover have "mprotected m = Some True \<longleftrightarrow> mprotected m' = Some True"
    using get [of "js ''protected''"] by (auto split: if_splits)
  ultimately show ?thesis by (simp add: message_norm_def)
qed

lemma json_sort_idem [simp]: "json_sort (json_sort v) = json_sort v"
proof (induction v)
  case (JObj kvs)
  let ?s = "sort_key fst (map (\<lambda>(k, v). (k, json_sort v)) kvs)"
  have "map (\<lambda>(k, v). (k, json_sort v)) ?s = ?s"
    using JObj by (intro map_idI) (fastforce simp: snds.simps)
  then show ?case by (simp add: sort_key_id_if_sorted)
qed simp_all

lemma part_sort_norm: "json_sort (part_json (part_norm p)) = json_sort (part_json p)"
  by (cases p) (auto simp: opt_field_def split: option.splits)

lemma message_sort_norm: "json_sort (messageHashInput (message_norm m)) = json_sort (messageHashInput m)"
  by (simp add: messageHashInput_def message_norm_def comp_def part_sort_norm del: part_json.simps)

text \<open>Canonical text is well-formed, so its UTF-8 bytes determine it.\<close>

lemma canonical_bytes_inj:
  assumes "plain v" "plain w" and "utf8_encode (canonicalJSON v) = utf8_encode (canonicalJSON w)"
  shows "json_sort v = json_sort w"
proof -
  have "well_formed (canonicalJSON v)" "well_formed (canonicalJSON w)"
    using line_ok_stringify [OF plain_sort [OF assms(1)]] line_ok_stringify [OF plain_sort [OF assms(2)]]
    by (simp_all add: canonicalJSON_def canonicalValue_sort line_ok_def)
  with assms(3) have "canonicalJSON v = canonicalJSON w" by (metis buffer_utf8_encode)
  with canonical_sort_eq [OF assms(1,2)] show ?thesis by simp
qed

section \<open>Properties\<close>

text \<open>Turns cut the history without loss. Their messages, in order, are the input; every recorded
  index, start offset and id list is right; a user message opens a turn and only the first turn may open
  without one.\<close>

theorem split_turns_partition: "turns_ok messages (splitTurns messages)"
  using split_fold [of messages] by (simp add: splitTurns_def)

text \<open>The content digest binds the whole message. Unless SHA-256 collides on the two hash inputs,
  two messages have the same digest exactly if they agree in id, role, every part in order, archive and
  protection, where tool inputs are compared up to the order of object keys.\<close>

theorem content_digest_binds:
  assumes "message_plain m" and "message_plain m'"
    and "sha256Hex digest (utf8_encode (canonicalJSON (messageHashInput m)))
           = sha256Hex digest (utf8_encode (canonicalJSON (messageHashInput m')))
         \<longrightarrow> utf8_encode (canonicalJSON (messageHashInput m)) = utf8_encode (canonicalJSON (messageHashInput m'))"
  shows "contentDigest digest m = contentDigest digest m' \<longleftrightarrow> message_norm m = message_norm m'"
proof
  assume "contentDigest digest m = contentDigest digest m'"
  with assms(3) canonical_bytes_inj [OF plain_message [OF assms(1)] plain_message [OF assms(2)]]
  show "message_norm m = message_norm m'" by (intro message_sort_inj) (simp add: contentDigest_def hashText_def)
next
  assume "message_norm m = message_norm m'"
  then have "json_sort (messageHashInput m) = json_sort (messageHashInput m')" by (metis message_sort_norm)
  then show "contentDigest digest m = contentDigest digest m'"
    by (simp add: contentDigest_def canonicalJSON_def canonicalValue_sort)
qed

definition sample_message :: "string \<Rightarrow> chatMessage" where
  "sample_message t = \<lparr>mid = js ''m1'', mrole = User, mparts = [TextPart (js t)], mprotected = None, marchive = None\<rparr>"

theorem content_digest_binds_witness:
  "contentDigest (\<lambda>bs. bs) (sample_message ''a'') \<noteq> contentDigest (\<lambda>bs. bs) (sample_message ''b'')"
proof -
  have "message_plain (sample_message ''a'')" "message_plain (sample_message ''b'')"
    by (simp_all add: message_plain_def sample_message_def)
  moreover have "sha256Hex (\<lambda>bs. bs) (utf8_encode (canonicalJSON (messageHashInput (sample_message ''a''))))
      \<noteq> sha256Hex (\<lambda>bs. bs) (utf8_encode (canonicalJSON (messageHashInput (sample_message ''b''))))" by code_simp
  ultimately have "contentDigest (\<lambda>bs. bs) (sample_message ''a'') = contentDigest (\<lambda>bs. bs) (sample_message ''b'')
      \<longleftrightarrow> message_norm (sample_message ''a'') = message_norm (sample_message ''b'')"
    by (intro content_digest_binds) auto
  then show ?thesis by (simp add: message_norm_def sample_message_def)
qed

end
