(* ===== verification/Operations.thy ===== *)
theory Operations
  imports Turns
begin

text \<open>
  \<open>packages/headroomd/src/layered-operations.ts\<close>: atomic edits of the visible history. A plan is a list
  of operations bound to a snapshot of the messages by content digests: it replaces whole ranges of
  messages, outputs of completed tools and ranges of text. Everything is validated against the
  original messages first; then all edits are published together or none is. The operations are
  \<open>viewOperationSchema\<close> of \<open>packages/contracts/src/headroom.ts\<close>.
\<close>

section \<open>Operations and snapshots\<close>

record sourceSnapshot =
  snapIds :: "jstring list"
  snapDigests :: "jstring list"

datatype viewOperation =
    RangeOp (operationId: jstring) (sourceVersion: int) (nodeId: jstring)
      (opMessageIds: "jstring list") (opSourceDigests: "jstring list") (opReplacement: chatMessage)
  | ToolOutputOp (operationId: jstring) (sourceVersion: int) (nodeId: jstring)
      (opMessageId: jstring) (opSourceDigest: jstring) (opPartIndex: int) (outputDigest: jstring) (opText: jstring)
  | TextRangeOp (operationId: jstring) (sourceVersion: int) (nodeId: jstring)
      (opMessageId: jstring) (opSourceDigest: jstring) (opPartIndex: int) (opStart: int) (opEnd: int)
      (opTextDigest: jstring) (opText: jstring)

definition archive_valid :: "archive \<Rightarrow> bool" where
  "archive_valid a \<longleftrightarrow> validHash (ahistoryHash a) \<and> pred_option (list_all validHash) (anodeIds a)"

definition chatMessage_valid :: "chatMessage \<Rightarrow> bool" where
  "chatMessage_valid m \<longleftrightarrow> pred_option archive_valid (marchive m)"

definition op_base_valid :: "viewOperation \<Rightarrow> bool" where
  "op_base_valid op \<longleftrightarrow> validHash (operationId op) \<and> sourceVersion op = 1 \<and> validHash (nodeId op)"

fun op_body_valid :: "viewOperation \<Rightarrow> bool" where
  "op_body_valid (RangeOp i v n ids ds r) \<longleftrightarrow>
     ids \<noteq> [] \<and> ds \<noteq> [] \<and> list_all validHash ds \<and> chatMessage_valid r \<and> length ids = length ds \<and> distinct ids"
| "op_body_valid (ToolOutputOp i v n m d p od r) \<longleftrightarrow> validHash d \<and> 0 \<le> p \<and> validHash od"
| "op_body_valid (TextRangeOp i v n m d p s e td r) \<longleftrightarrow> validHash d \<and> 0 \<le> p \<and> 0 \<le> s \<and> 0 < e \<and> validHash td \<and> s < e"

definition viewOperation_valid :: "viewOperation \<Rightarrow> bool" where
  "viewOperation_valid op \<longleftrightarrow> op_base_valid op \<and> op_body_valid op"

section \<open>Materializing a plan\<close>

datatype applyStatus = Applied | NoMatch | Invalid | AlreadyCompacted

type_synonym materialized = "applyStatus \<times> chatMessage list"

definition COMPLETED_TOOL_STATUSES :: "jstring list" where
  "COMPLETED_TOOL_STATUSES = map js [''completed'', ''error'', ''ok'', ''success'', ''failed'']"

definition textDigest :: "(byte list \<Rightarrow> byte list) \<Rightarrow> jstring \<Rightarrow> jstring" where
  "textDigest digest t = sha256Hex digest (utf8_encode t)"

fun completed_part :: "part \<Rightarrow> bool" where
  "completed_part (TextPart t) = True"
| "completed_part (ToolPart p) = (pstatus p \<in> set COMPLETED_TOOL_STATUSES)"

definition is_protected :: "chatMessage \<Rightarrow> bool" where
  "is_protected m \<longleftrightarrow> mprotected m = Some True"

record range_edit =
  rstart :: nat
  rend :: nat
  rmessage :: chatMessage

type_synonym part_edits = "(nat, viewOperation list) jmap"

record opState =
  oranges :: "range_edit list"
  oparts :: "(nat, part_edits) jmap"
  owhole :: "nat list"
  oids :: "jstring list"

definition by_id :: "chatMessage list \<Rightarrow> jstring \<Rightarrow> nat option" where
  "by_id messages i = map_of (zip (map mid messages) [0 ..< length messages]) i"

definition snapshot_matches :: "(byte list \<Rightarrow> byte list) \<Rightarrow> chatMessage list \<Rightarrow> sourceSnapshot \<Rightarrow> bool" where
  "snapshot_matches digest messages snap \<longleftrightarrow>
     length (snapIds snap) = length (snapDigests snap) \<and> distinct (snapIds snap)
     \<and> list_all (\<lambda>(i, h, k). k < length messages \<and> mid (messages ! k) = i \<and> contentDigest digest (messages ! k) = h)
         (zip (snapIds snap) (zip (snapDigests snap) [0 ..< length (snapIds snap)]))"

text \<open>\<open>matches\<close>: the digest map has entries for the validated prefix only.\<close>

definition digest_matches :: "(byte list \<Rightarrow> byte list) \<Rightarrow> chatMessage list \<Rightarrow> sourceSnapshot \<Rightarrow> nat \<Rightarrow> jstring \<Rightarrow> bool" where
  "digest_matches digest messages snap k d \<longleftrightarrow> k < length (snapIds snap) \<and> contentDigest digest (messages ! k) = d"

text \<open>The loop over the messages of a range operation; \<open>None\<close> where the code fails.\<close>

fun range_loop :: "(nat \<Rightarrow> jstring \<Rightarrow> bool) \<Rightarrow> chatMessage list \<Rightarrow> nat list \<Rightarrow> nat \<Rightarrow> (jstring \<times> jstring) list \<Rightarrow> nat list \<Rightarrow> nat list option" where
  "range_loop matches messages edited k [] whole = Some whole"
| "range_loop matches messages edited k ((i, d) # rest) whole =
     (if k < length messages \<and> mid (messages ! k) = i \<and> \<not> is_protected (messages ! k) \<and> k \<notin> set whole
         \<and> k \<notin> set edited \<and> matches k d \<and> list_all completed_part (mparts (messages ! k))
      then range_loop matches messages edited (k + 1) rest (whole @ [k])
      else None)"

definition nth_part :: "chatMessage \<Rightarrow> int \<Rightarrow> part option" where
  "nth_part m p = (if 0 \<le> p \<and> nat p < length (mparts m) then Some (mparts m ! nat p) else None)"

definition part_op_valid :: "(byte list \<Rightarrow> byte list) \<Rightarrow> chatMessage \<Rightarrow> viewOperation \<Rightarrow> bool" where
  "part_op_valid digest m op =
     (case op of
        ToolOutputOp i v n mi d p od r \<Rightarrow>
          (case nth_part m p of
             Some (ToolPart t) \<Rightarrow> pstatus t \<in> set COMPLETED_TOOL_STATUSES \<and> textDigest digest (or_empty (poutput t)) = od
           | _ \<Rightarrow> False)
      | TextRangeOp i v n mi d p s e td r \<Rightarrow>
          (case nth_part m p of
             Some (TextPart t) \<Rightarrow> s < e \<and> e \<le> int (length t) \<and> textDigest digest (js_slice t (nat s) (nat e)) = td
           | _ \<Rightarrow> False)
      | RangeOp i v n ids ds r \<Rightarrow> False)"

definition push_edit :: "nat \<Rightarrow> viewOperation \<Rightarrow> (nat, part_edits) jmap \<Rightarrow> (nat, part_edits) jmap" where
  "push_edit k op parts =
     (let messageParts = get_or parts k []; p = nat (opPartIndex op)
      in jmap_set k (jmap_set p (get_or messageParts p [] @ [op]) messageParts) parts)"

text \<open>One iteration of the loop over the operations; \<open>Inl\<close> carries the status the code fails with.\<close>

definition op_step :: "(byte list \<Rightarrow> byte list) \<Rightarrow> chatMessage list \<Rightarrow> sourceSnapshot \<Rightarrow> viewOperation \<Rightarrow> opState
    \<Rightarrow> (applyStatus, opState) result" where
  "op_step digest messages snap op st =
     (if \<not> viewOperation_valid op \<or> operationId op \<in> set (oids st) then Inl Invalid
      else let st1 = st\<lparr>oids := oids st @ [operationId op]\<rparr>; matches = digest_matches digest messages snap
           in case op of
                RangeOp i v n ids ds r \<Rightarrow>
                  (if length ids \<noteq> length ds \<or> \<not> distinct ids then Inl Invalid
                   else case by_id messages (hd ids) of
                     None \<Rightarrow> Inl NoMatch
                   | Some start \<Rightarrow>
                       (case range_loop matches messages (jmap_keys (oparts st1)) start (zip ids ds) (owhole st1) of
                          None \<Rightarrow> Inl Invalid
                        | Some whole \<Rightarrow>
                            (case by_id messages (mid r) of
                               Some k \<Rightarrow>
                                 if k < start \<or> start + length ids \<le> k then Inl Invalid
                                 else Inr (st1\<lparr>owhole := whole,
                                   oranges := oranges st1 @ [\<lparr>rstart = start, rend = start + length ids, rmessage = r\<rparr>]\<rparr>)
                             | None \<Rightarrow>
                                 Inr (st1\<lparr>owhole := whole,
                                   oranges := oranges st1 @ [\<lparr>rstart = start, rend = start + length ids, rmessage = r\<rparr>]\<rparr>))))
              | _ \<Rightarrow>
                  (case by_id messages (opMessageId op) of
                     None \<Rightarrow> Inl NoMatch
                   | Some k \<Rightarrow>
                       if is_protected (messages ! k) \<or> k \<in> set (owhole st1) \<or> \<not> matches k (opSourceDigest op)
                          \<or> \<not> part_op_valid digest (messages ! k) op
                       then Inl Invalid
                       else Inr (st1\<lparr>oparts := push_edit k op (oparts st1)\<rparr>)))"

fun op_loop :: "(byte list \<Rightarrow> byte list) \<Rightarrow> chatMessage list \<Rightarrow> sourceSnapshot \<Rightarrow> viewOperation list \<Rightarrow> opState
    \<Rightarrow> (applyStatus, opState) result" where
  "op_loop digest messages snap [] st = Inr st"
| "op_loop digest messages snap (op # ops) st =
     (case op_step digest messages snap op st of
        Inl e \<Rightarrow> Inl e
      | Inr st' \<Rightarrow> op_loop digest messages snap ops st')"

definition edit_start :: "viewOperation \<Rightarrow> int" where
  "edit_start op = (case op of TextRangeOp i v n m d p s e td r \<Rightarrow> s | _ \<Rightarrow> 0)"

definition is_text_range :: "viewOperation \<Rightarrow> bool" where
  "is_text_range op = (case op of TextRangeOp i v n m d p s e td r \<Rightarrow> True | _ \<Rightarrow> False)"

text \<open>Adjacent edits of a part after sorting: only text ranges, one ending before the next begins.\<close>

fun edits_disjoint :: "viewOperation list \<Rightarrow> bool" where
  "edits_disjoint (a # b # es) \<longleftrightarrow> is_text_range a \<and> is_text_range b \<and> opEnd a \<le> opStart b \<and> edits_disjoint (b # es)"
| "edits_disjoint es \<longleftrightarrow> True"

definition sort_edits :: "part_edits \<Rightarrow> part_edits" where
  "sort_edits messageParts = map (\<lambda>(p, es). (p, sort_key edit_start es)) messageParts"

text \<open>The new text of a part, chunk by chunk.\<close>

fun edit_chunks :: "jstring \<Rightarrow> nat \<Rightarrow> viewOperation list \<Rightarrow> jstring list" where
  "edit_chunks t d [] = [drop d t]"
| "edit_chunks t d (e # es) = js_slice t d (nat (opStart e)) # opText e # edit_chunks t (nat (opEnd e)) es"

definition edit_part :: "part \<Rightarrow> viewOperation list \<Rightarrow> part option" where
  "edit_part pt es =
     (case (hd es, pt) of
        (ToolOutputOp i v n m d p od r, ToolPart t) \<Rightarrow> Some (ToolPart (t\<lparr>poutput := Some r\<rparr>))
      | (_, TextPart t) \<Rightarrow> if list_all is_text_range es then Some (TextPart (concat (edit_chunks t 0 es))) else None
      | _ \<Rightarrow> Some pt)"

fun edit_parts :: "part list \<Rightarrow> part_edits \<Rightarrow> part list \<Rightarrow> part list option" where
  "edit_parts orig [] parts = Some parts"
| "edit_parts orig ((p, es) # rest) parts =
     (case edit_part (orig ! p) es of
        None \<Rightarrow> None
      | Some pt \<Rightarrow> edit_parts orig rest (parts[p := pt]))"

fun edit_messages :: "chatMessage list \<Rightarrow> (nat, part_edits) jmap \<Rightarrow> chatMessage list \<Rightarrow> chatMessage list option" where
  "edit_messages orig [] next = Some next"
| "edit_messages orig ((k, messageParts) # rest) next =
     (case edit_parts (mparts (orig ! k)) messageParts (mparts (orig ! k)) of
        None \<Rightarrow> None
      | Some parts \<Rightarrow> edit_messages orig rest (next[k := (orig ! k)\<lparr>mparts := parts\<rparr>]))"

fun emit_ranges :: "chatMessage list \<Rightarrow> nat \<Rightarrow> range_edit list \<Rightarrow> chatMessage list" where
  "emit_ranges next cursor [] = drop cursor next"
| "emit_ranges next cursor (r # rs) = js_slice next cursor (rstart r) @ rmessage r # emit_ranges next (rend r) rs"

definition op_start :: opState where
  "op_start = \<lparr>oranges = [], oparts = [], owhole = [], oids = []\<rparr>"

definition materializeOperations :: "(byte list \<Rightarrow> byte list) \<Rightarrow> chatMessage list \<Rightarrow> viewOperation list \<Rightarrow> sourceSnapshot option
    \<Rightarrow> materialized" where
  "materializeOperations digest messages operations snapshot =
     (case snapshot of
        None \<Rightarrow> (Invalid, messages)
      | Some snap \<Rightarrow>
          if operations = [] \<or> \<not> distinct (map mid messages) \<or> \<not> snapshot_matches digest messages snap
          then (Invalid, messages)
          else case op_loop digest messages snap operations op_start of
            Inl status \<Rightarrow> (status, messages)
          | Inr st \<Rightarrow>
              (let parts = map (\<lambda>(k, mp). (k, sort_edits mp)) (oparts st)
               in if \<not> list_all (\<lambda>(k, mp). list_all (\<lambda>(p, es). edits_disjoint es) mp) parts then (Invalid, messages)
                  else case edit_messages messages parts messages of
                    None \<Rightarrow> (Invalid, messages)
                  | Some next \<Rightarrow>
                      (let output = emit_ranges next 0 (sort_key rstart (oranges st))
                       in if distinct (map mid output) then (Applied, output) else (Invalid, messages))))"

section \<open>The reference: splicing one edit after the other\<close>

text \<open>
  A cut replaces the elements from its start up to its end. The reference applies the edits of a
  part, and the range operations, by splicing from the last to the first; it reads the operations
  directly, without the tables of the implementation.
\<close>

type_synonym 'a cut = "nat \<times> nat \<times> 'a list"

fun splice_cut :: "'a cut \<Rightarrow> 'a list \<Rightarrow> 'a list" where
  "splice_cut (s, e, ys) xs = take s xs @ ys @ drop e xs"

definition text_cut :: "viewOperation \<Rightarrow> code_unit cut" where
  "text_cut op = (nat (opStart op), nat (opEnd op), opText op)"

definition is_range :: "viewOperation \<Rightarrow> bool" where
  "is_range op = (case op of RangeOp i v n ids ds r \<Rightarrow> True | _ \<Rightarrow> False)"

definition part_ops :: "viewOperation list \<Rightarrow> chatMessage \<Rightarrow> nat \<Rightarrow> viewOperation list" where
  "part_ops ops m p = filter (\<lambda>op. \<not> is_range op \<and> opMessageId op = mid m \<and> nat (opPartIndex op) = p) ops"

definition spliced_part :: "viewOperation list \<Rightarrow> part \<Rightarrow> part" where
  "spliced_part es pt =
     (case pt of
        TextPart t \<Rightarrow> TextPart (foldr splice_cut (map text_cut es) t)
      | ToolPart t \<Rightarrow> (case es of [] \<Rightarrow> pt | op # _ \<Rightarrow> ToolPart (t\<lparr>poutput := Some (opText op)\<rparr>)))"

definition spliced_message :: "viewOperation list \<Rightarrow> chatMessage \<Rightarrow> chatMessage" where
  "spliced_message ops m =
     m\<lparr>mparts := map (\<lambda>p. spliced_part (sort_key edit_start (part_ops ops m p)) (mparts m ! p)) [0 ..< length (mparts m)]\<rparr>"

definition range_cut :: "chatMessage list \<Rightarrow> viewOperation \<Rightarrow> chatMessage cut" where
  "range_cut messages op =
     (let start = the (by_id messages (hd (opMessageIds op)))
      in (start, start + length (opMessageIds op), [opReplacement op]))"

definition spliced :: "chatMessage list \<Rightarrow> viewOperation list \<Rightarrow> chatMessage list" where
  "spliced messages ops =
     foldr splice_cut (sort_key fst (map (range_cut messages) (filter is_range ops))) (map (spliced_message ops) messages)"

section \<open>Streaming equals splicing\<close>

fun emit_cuts :: "'a list \<Rightarrow> nat \<Rightarrow> 'a cut list \<Rightarrow> 'a list" where
  "emit_cuts xs c [] = drop c xs"
| "emit_cuts xs c ((s, e, ys) # cuts) = js_slice xs c s @ ys @ emit_cuts xs e cuts"

fun cuts_ok :: "nat \<Rightarrow> nat \<Rightarrow> 'a cut list \<Rightarrow> bool" where
  "cuts_ok c n [] \<longleftrightarrow> c \<le> n"
| "cuts_ok c n ((s, e, ys) # cuts) \<longleftrightarrow> c \<le> s \<and> s \<le> e \<and> cuts_ok e n cuts"

lemma cuts_ok_le: "cuts_ok c n cuts \<Longrightarrow> c \<le> n"
  by (induction cuts arbitrary: c rule: cuts_ok.induct) (auto dest: order_trans)

lemma take_foldr_splice:
  "cuts_ok c (length xs) cuts \<Longrightarrow> c' \<le> c \<Longrightarrow> take c' (foldr splice_cut cuts xs) = take c' xs"
proof (induction c "length xs" cuts arbitrary: c' rule: cuts_ok.induct)
  case (2 c s e ys cuts)
  then have "take s (foldr splice_cut cuts xs) = take s xs" by simp
  moreover have "c' \<le> s" "s \<le> length xs" using 2 cuts_ok_le [of e "length xs" cuts] by auto
  ultimately show ?case by (simp add: min_absorb1)
qed simp

lemma emit_splice: "cuts_ok c (length xs) cuts \<Longrightarrow> emit_cuts xs c cuts = drop c (foldr splice_cut cuts xs)"
proof (induction c "length xs" cuts rule: cuts_ok.induct)
  case (2 c s e ys cuts)
  have "take s (foldr splice_cut cuts xs) = take s xs" using 2 take_foldr_splice [of e xs cuts s] by simp
  moreover have "s \<le> length xs" "c \<le> s" using 2 cuts_ok_le [of e "length xs" cuts] by auto
  ultimately show ?case using 2 by (simp add: js_slice_def drop_take)
qed simp

lemma emit_ranges_cuts: "emit_ranges next c rs = emit_cuts next c (map (\<lambda>r. (rstart r, rend r, [rmessage r])) rs)"
  by (induction rs arbitrary: c) auto

lemma edit_chunks_cuts: "concat (edit_chunks t c es) = emit_cuts t c (map text_cut es)"
  by (induction es arbitrary: c) (auto simp: text_cut_def)

text \<open>What lies outside the cuts is still there, in order, and what follows the last cut is a suffix.\<close>

lemma drop_slice: "c \<le> n \<Longrightarrow> drop c xs = js_slice xs c n @ drop n xs"
  using append_take_drop_id [of "n - c" "drop c xs"] by (simp add: js_slice_def)

lemma emit_cuts_suffix:
  "cuts_ok c n cuts \<Longrightarrow> n \<le> length xs \<Longrightarrow> \<exists>pre. emit_cuts xs c cuts = pre @ drop n xs"
proof (induction c n cuts rule: cuts_ok.induct)
  case (1 c n)
  then show ?case using drop_slice [of c n xs] by auto
next
  case (2 c n s e ys cuts)
  then obtain pre where "emit_cuts xs e cuts = pre @ drop n xs" by auto
  then show ?case by simp
qed

lemma emit_cuts_keeps:
  assumes "cuts_ok c n cuts" and "\<forall>(s, e, ys)\<in>set cuts. \<forall>x\<in>set (js_slice xs s e). \<not> P x"
  shows "subseq (filter P (drop c xs)) (emit_cuts xs c cuts)"
  using assms
proof (induction c n cuts rule: cuts_ok.induct)
  case (2 c n s e ys cuts)
  have "filter P (js_slice xs s e) = []" using 2(3) by auto
  then have "filter P (drop c xs) = filter P (js_slice xs c s) @ filter P (drop e xs)"
    using 2(2) by (simp add: drop_slice [of c s xs] drop_slice [of s e xs])
  moreover have "subseq (filter P (drop e xs)) (ys @ emit_cuts xs e cuts)"
    using 2 by (auto intro: list_emb_append2)
  ultimately show ?case by (simp add: list_emb_append_mono)
qed simp

section \<open>The state of the loop\<close>

lemma insort_key_map: "insort_key k (f x) (map f xs) = map f (insort_key (\<lambda>x. k (f x)) x xs)"
  by (induction xs) auto

lemma sort_key_map: "sort_key k (map f xs) = map f (sort_key (\<lambda>x. k (f x)) xs)"
  by (induction xs) (simp_all add: insort_key_map)

definition range_as_cut :: "range_edit \<Rightarrow> chatMessage cut" where
  "range_as_cut r = (rstart r, rend r, [rmessage r])"

definition ranges_ok :: "nat \<Rightarrow> range_edit list \<Rightarrow> bool" where
  "ranges_ok n rs \<longleftrightarrow> distinct rs \<and> (\<forall>r\<in>set rs. rstart r < rend r \<and> rend r \<le> n)
     \<and> (\<forall>r\<in>set rs. \<forall>r'\<in>set rs. r \<noteq> r' \<longrightarrow> rend r \<le> rstart r' \<or> rend r' \<le> rstart r)"

lemma ranges_ok_sorted:
  assumes "ranges_ok n rs" and "sorted (map rstart rs)" and "c \<le> n" and "\<forall>r\<in>set rs. c \<le> rstart r"
  shows "cuts_ok c n (map range_as_cut rs)"
  using assms
proof (induction rs arbitrary: c)
  case (Cons r rs)
  have "rend r \<le> rstart r'" if "r' \<in> set rs" for r'
    using Cons(2,3) that by (force simp: ranges_ok_def)
  then have "cuts_ok (rend r) n (map range_as_cut rs)"
    using Cons by (intro Cons(1)) (auto simp: ranges_ok_def)
  moreover have "c \<le> rstart r" "rstart r \<le> rend r" using Cons(2,5) by (auto simp: ranges_ok_def)
  ultimately show ?case by (simp add: range_as_cut_def [of r])
qed simp

lemma ranges_ok_sort: "ranges_ok n rs \<Longrightarrow> cuts_ok 0 n (map range_as_cut (sort_key rstart rs))"
  by (intro ranges_ok_sorted) (auto simp: ranges_ok_def)

definition edits_at :: "(nat, part_edits) jmap \<Rightarrow> nat \<Rightarrow> nat \<Rightarrow> viewOperation list" where
  "edits_at parts k p = get_or (get_or parts k []) p []"

lemma edits_at_push:
  "edits_at (push_edit k op parts) k' p' = edits_at parts k' p' @ (if k' = k \<and> p' = nat (opPartIndex op) then [op] else [])"
  by (simp add: edits_at_def push_edit_def Let_def get_or_set)

text \<open>An entry of the table of part edits: valid operations on that part.\<close>

definition edits_valid :: "(byte list \<Rightarrow> byte list) \<Rightarrow> chatMessage \<Rightarrow> nat \<Rightarrow> viewOperation list \<Rightarrow> bool" where
  "edits_valid digest m p es \<longleftrightarrow> es \<noteq> [] \<and> p < length (mparts m)
     \<and> (\<forall>op\<in>set es. part_op_valid digest m op \<and> viewOperation_valid op \<and> \<not> is_range op \<and> nat (opPartIndex op) = p)"

definition parts_ok :: "(byte list \<Rightarrow> byte list) \<Rightarrow> chatMessage list \<Rightarrow> (nat, part_edits) jmap \<Rightarrow> bool" where
  "parts_ok digest messages parts \<longleftrightarrow> jmap_all (\<lambda>k. jmap_all (edits_valid digest (messages ! k))) parts"

lemma part_op_in_range: "part_op_valid digest m op \<Longrightarrow> nat (opPartIndex op) < length (mparts m)"
  by (auto simp: part_op_valid_def nth_part_def split: viewOperation.splits if_splits)

lemma parts_ok_push:
  assumes "parts_ok digest messages parts" and "part_op_valid digest (messages ! k) op" and "viewOperation_valid op"
    and "\<not> is_range op"
  shows "parts_ok digest messages (push_edit k op parts)"
proof -
  let ?p = "nat (opPartIndex op)" and ?mp = "get_or parts k []"
  have mp: "jmap_all (edits_valid digest (messages ! k)) ?mp"
    using jmap_all_get [OF assms(1) [unfolded parts_ok_def], of k "[]"] by auto
  have "edits_valid digest (messages ! k) ?p (get_or ?mp ?p [] @ [op])"
    using jmap_all_get [OF mp, of ?p "[]"] assms(2-4) part_op_in_range [OF assms(2)]
    by (auto simp: edits_valid_def simp del: viewOperation.sel)
  with assms(1) mp show ?thesis
    unfolding parts_ok_def push_edit_def Let_def by (intro jmap_all_set)
qed

lemma by_id_Some: "by_id messages i = Some k \<Longrightarrow> k < length messages \<and> mid (messages ! k) = i"
  by (auto simp: by_id_def in_set_zip dest!: map_of_SomeD)

lemma range_loop_Some:
  assumes "range_loop (digest_matches digest messages snap) messages edited k zs whole = Some whole'"
  shows "whole' = whole @ [k ..< k + length zs]
    \<and> (\<forall>j\<in>{k ..< k + length zs}. j < length (snapIds snap) \<and> \<not> is_protected (messages ! j) \<and> j \<notin> set whole
        \<and> j \<notin> set edited \<and> mid (messages ! j) \<in> set (map fst zs))"
  using assms
proof (induction zs arbitrary: k whole)
  case (Cons z zs)
  obtain i d where z: "z = (i, d)" by (cases z)
  then have here: "mid (messages ! k) = i" "\<not> is_protected (messages ! k)" "k \<notin> set whole" "k \<notin> set edited" "k < length (snapIds snap)"
    and rest: "range_loop (digest_matches digest messages snap) messages edited (k + 1) zs (whole @ [k]) = Some whole'"
    using Cons(2) by (auto simp: digest_matches_def [of _ _ _ k] split: if_splits)
  note ih = Cons(1) [OF rest]
  have "[k ..< k + length (z # zs)] = k # [k + 1 ..< k + 1 + length zs]" using upt_conv_Cons [of k "k + length (z # zs)"] by simp
  moreover have "{k ..< k + length (z # zs)} = insert k {k + 1 ..< k + 1 + length zs}" by auto
  ultimately show ?case using ih here by (auto simp: z)
qed simp

definition op_targets :: "viewOperation \<Rightarrow> jstring list" where
  "op_targets op = (if is_range op then opMessageIds op else [opMessageId op])"

text \<open>A message the plan touches: inside the snapshot, not protected, named by an operation.\<close>

definition target_ok :: "chatMessage list \<Rightarrow> sourceSnapshot \<Rightarrow> viewOperation list \<Rightarrow> nat \<Rightarrow> bool" where
  "target_ok messages snap ops k \<longleftrightarrow>
     k < length (snapIds snap) \<and> \<not> is_protected (messages ! k) \<and> mid (messages ! k) \<in> (\<Union>op\<in>set ops. set (op_targets op))"

lemma target_ok_snoc: "target_ok messages snap ops k \<Longrightarrow> target_ok messages snap (ops @ [op]) k"
  by (auto simp: target_ok_def)

definition op_inv :: "(byte list \<Rightarrow> byte list) \<Rightarrow> chatMessage list \<Rightarrow> sourceSnapshot \<Rightarrow> viewOperation list \<Rightarrow> opState \<Rightarrow> bool" where
  "op_inv digest messages snap ops st \<longleftrightarrow>
     ranges_ok (length (snapIds snap)) (oranges st)
     \<and> map range_as_cut (oranges st) = map (range_cut messages) (filter is_range ops)
     \<and> set (owhole st) = (\<Union>r\<in>set (oranges st). {rstart r ..< rend r})
     \<and> parts_ok digest messages (oparts st)
     \<and> (\<forall>k\<in>set (owhole st) \<union> set (jmap_keys (oparts st)). target_ok messages snap ops k)
     \<and> set (owhole st) \<inter> set (jmap_keys (oparts st)) = {}
     \<and> (\<forall>k p. k < length messages \<longrightarrow> edits_at (oparts st) k p = part_ops ops (messages ! k) p)"

lemma op_invD:
  assumes "op_inv digest messages snap ops st"
  shows "ranges_ok (length (snapIds snap)) (oranges st)"
    "map range_as_cut (oranges st) = map (range_cut messages) (filter is_range ops)"
    "set (owhole st) = (\<Union>r\<in>set (oranges st). {rstart r ..< rend r})"
    "parts_ok digest messages (oparts st)"
    "\<And>k. k \<in> set (owhole st) \<union> set (jmap_keys (oparts st)) \<Longrightarrow> target_ok messages snap ops k"
    "set (owhole st) \<inter> set (jmap_keys (oparts st)) = {}"
    "\<And>k p. k < length messages \<Longrightarrow> edits_at (oparts st) k p = part_ops ops (messages ! k) p"
  using assms unfolding op_inv_def by blast+

lemma op_inv_start: "op_inv digest messages snap [] op_start"
  by (simp add: op_inv_def op_start_def ranges_ok_def parts_ok_def part_ops_def edits_at_def get_or_def)

lemma keys_push_edit: "set (jmap_keys (push_edit k op parts)) = insert k (set (jmap_keys parts))"
  by (auto simp: push_edit_def Let_def keys_jmap_set simp del: set_map)

lemma ranges_ok_snoc:
  assumes "ranges_ok n rs" and "a < b" and "b \<le> n" and "\<forall>r\<in>set rs. {a ..< b} \<inter> {rstart r ..< rend r} = {}"
  shows "ranges_ok n (rs @ [\<lparr>rstart = a, rend = b, rmessage = m\<rparr>])"
proof -
  have sep: "b \<le> rstart r \<or> rend r \<le> a" "\<not> (rstart r = a \<and> rend r = b)" if "r \<in> set rs" for r
  proof -
    have "rstart r < rend r" "{a ..< b} \<inter> {rstart r ..< rend r} = {}" using assms(1,4) that by (auto simp: ranges_ok_def)
    with assms(2) show "b \<le> rstart r \<or> rend r \<le> a" "\<not> (rstart r = a \<and> rend r = b)" by auto
  qed
  then show ?thesis using assms(1-3) unfolding ranges_ok_def by fastforce
qed

text \<open>What a successful step has checked and done.\<close>

lemma op_step_range:
  assumes "op_step digest messages snap op st = Inr st'" and "is_range op"
  obtains start where "by_id messages (hd (opMessageIds op)) = Some start" and "opMessageIds op \<noteq> []"
    and "range_loop (digest_matches digest messages snap) messages (jmap_keys (oparts st)) start
           (zip (opMessageIds op) (opSourceDigests op)) (owhole st) = Some (owhole st')"
    and "length (opMessageIds op) = length (opSourceDigests op)"
    and "oranges st' = oranges st @ [\<lparr>rstart = start, rend = start + length (opMessageIds op), rmessage = opReplacement op\<rparr>]"
    and "oparts st' = oparts st"
  using assms
  by (cases op) (auto simp: op_step_def is_range_def viewOperation_valid_def Let_def split: if_splits option.splits)

lemma op_step_part:
  assumes "op_step digest messages snap op st = Inr st'" and "\<not> is_range op"
  obtains k where "by_id messages (opMessageId op) = Some k" and "\<not> is_protected (messages ! k)" and "k \<notin> set (owhole st)"
    and "k < length (snapIds snap)" and "part_op_valid digest (messages ! k) op" and "viewOperation_valid op"
    and "oparts st' = push_edit k op (oparts st)" and "oranges st' = oranges st" and "owhole st' = owhole st"
  using assms
  by (cases op) (auto simp: op_step_def is_range_def digest_matches_def Let_def split: if_splits option.splits)

lemma op_inv_range:
  assumes inv: "op_inv digest messages snap ops st" and step: "op_step digest messages snap op st = Inr st'" and "is_range op"
  shows "op_inv digest messages snap (ops @ [op]) st'"
proof -
  from step assms(3) obtain start where
    start: "by_id messages (hd (opMessageIds op)) = Some start" "opMessageIds op \<noteq> []"
    and loop: "range_loop (digest_matches digest messages snap) messages (jmap_keys (oparts st)) start
           (zip (opMessageIds op) (opSourceDigests op)) (owhole st) = Some (owhole st')"
    and len: "length (opMessageIds op) = length (opSourceDigests op)"
    and st': "oranges st' = oranges st @ [\<lparr>rstart = start, rend = start + length (opMessageIds op), rmessage = opReplacement op\<rparr>]"
      "oparts st' = oparts st"
    by (rule op_step_range)
  let ?n = "length (opMessageIds op)"
  have whole: "owhole st' = owhole st @ [start ..< start + ?n]"
    and new: "\<And>j. j \<in> {start ..< start + ?n} \<Longrightarrow> j < length (snapIds snap) \<and> \<not> is_protected (messages ! j) \<and> j \<notin> set (owhole st)
        \<and> j \<notin> set (jmap_keys (oparts st)) \<and> mid (messages ! j) \<in> set (opMessageIds op)"
    using range_loop_Some [OF loop] len by auto
  have "ranges_ok (length (snapIds snap)) (oranges st')"
    unfolding st'
  proof (rule ranges_ok_snoc)
    show "start + ?n \<le> length (snapIds snap)" using new [of "start + ?n - 1"] start(2) by (cases "opMessageIds op") auto
    show "\<forall>r\<in>set (oranges st). {start ..< start + ?n} \<inter> {rstart r ..< rend r} = {}"
      using new op_invD(3) [OF inv] by blast
  qed (use op_invD(1) [OF inv] start in auto)
  moreover have "map range_as_cut (oranges st') = map (range_cut messages) (filter is_range (ops @ [op]))"
    using op_invD(2) [OF inv] start assms(3)
    by (simp add: st' range_as_cut_def [of "\<lparr>rstart = _, rend = _, rmessage = _\<rparr>"] range_cut_def [of _ op])
  moreover have "edits_at (oparts st') k p = part_ops (ops @ [op]) (messages ! k) p" if "k < length messages" for k p
    using assms(3) op_invD(7) [OF inv that] by (simp add: part_ops_def st')
  moreover have "set (owhole st') = (\<Union>r\<in>set (oranges st'). {rstart r ..< rend r})"
    using op_invD(3) [OF inv] by (auto simp: whole st')
  moreover have "set (owhole st') \<inter> set (jmap_keys (oparts st')) = {}"
    using op_invD(6) [OF inv] new unfolding whole st' set_append set_upt by blast
  moreover have "target_ok messages snap (ops @ [op]) k" if "k \<in> set (owhole st') \<union> set (jmap_keys (oparts st'))" for k
  proof (cases "k \<in> {start ..< start + ?n}")
    case True
    then show ?thesis using new [OF True] assms(3) by (simp add: target_ok_def op_targets_def [of op])
  next
    case False
    with that have "k \<in> set (owhole st) \<union> set (jmap_keys (oparts st))" by (simp only: whole st' set_append set_upt) blast
    then show ?thesis using op_invD(5) [OF inv] target_ok_snoc by blast
  qed
  ultimately show ?thesis using op_invD(4) [OF inv] unfolding op_inv_def st'(2) by blast
qed

lemma op_inv_part:
  assumes inv: "op_inv digest messages snap ops st" and step: "op_step digest messages snap op st = Inr st'" and "\<not> is_range op"
    and "distinct (map mid messages)"
  shows "op_inv digest messages snap (ops @ [op]) st'"
proof -
  from step assms(3) obtain k where k: "by_id messages (opMessageId op) = Some k" "\<not> is_protected (messages ! k)"
      "k \<notin> set (owhole st)" "k < length (snapIds snap)" "part_op_valid digest (messages ! k) op" "viewOperation_valid op"
    and st': "oparts st' = push_edit k op (oparts st)" "oranges st' = oranges st" "owhole st' = owhole st"
    by (rule op_step_part)
  have "edits_at (oparts st') k' p = part_ops (ops @ [op]) (messages ! k') p" if "k' < length messages" for k' p
  proof -
    have "opMessageId op = mid (messages ! k') \<longleftrightarrow> k' = k"
      using by_id_Some [OF k(1)] that assms(4) by (metis length_map nth_eq_iff_index_eq nth_map)
    then show ?thesis using op_invD(7) [OF inv that] assms(3) by (auto simp: st' edits_at_push part_ops_def)
  qed
  moreover have "parts_ok digest messages (oparts st')"
    using parts_ok_push [OF op_invD(4) [OF inv] k(5,6) assms(3)] by (simp add: st')
  moreover have "mid (messages ! k) = opMessageId op" using by_id_Some [OF k(1)] by simp
  then have "target_ok messages snap (ops @ [op]) k" using k assms(3) by (simp add: target_ok_def op_targets_def [of op])
  then have "target_ok messages snap (ops @ [op]) j" if "j \<in> set (owhole st') \<union> set (jmap_keys (oparts st'))" for j
    using that op_invD(5) [OF inv, of j] target_ok_snoc unfolding st' keys_push_edit by blast
  moreover have "set (owhole st') \<inter> set (jmap_keys (oparts st')) = {}"
    using op_invD(6) [OF inv] k(3) unfolding st' keys_push_edit by blast
  moreover have "map range_as_cut (oranges st') = map (range_cut messages) (filter is_range (ops @ [op]))"
    using op_invD(2) [OF inv] assms(3) by (simp add: st')
  ultimately show ?thesis using op_invD(1,3) [OF inv] unfolding op_inv_def st'(2,3) by blast
qed

lemma op_loop_inv:
  assumes "op_loop digest messages snap ops st = Inr st'" and "op_inv digest messages snap done_ops st" and "distinct (map mid messages)"
  shows "op_inv digest messages snap (done_ops @ ops) st'"
  using assms
proof (induction ops arbitrary: done_ops st)
  case (Cons op ops)
  then obtain st1 where st1: "op_step digest messages snap op st = Inr st1" "op_loop digest messages snap ops st1 = Inr st'"
    by (auto split: sum.splits)
  have "op_inv digest messages snap (done_ops @ [op]) st1"
    using op_inv_range [OF Cons(3) st1(1)] op_inv_part [OF Cons(3) st1(1) _ Cons(4)] by blast
  from Cons(1) [OF st1(2) this Cons(4)] show ?case by simp
qed simp

section \<open>Publishing the edits\<close>

lemma edit_parts_nth:
  assumes "edit_parts orig mp parts = Some res" and "distinct (jmap_keys mp)"
  shows "length res = length parts \<and>
    (\<forall>p<length parts. case map_of mp p of None \<Rightarrow> res ! p = parts ! p | Some es \<Rightarrow> edit_part (orig ! p) es = Some (res ! p))"
  using assms
proof (induction orig mp parts rule: edit_parts.induct)
  case (2 orig p es rest parts)
  then obtain pt where pt: "edit_part (orig ! p) es = Some pt" "edit_parts orig rest (parts[p := pt]) = Some res"
    by (auto split: option.splits)
  have "map_of rest p = None" using 2(3) by (simp add: map_of_eq_None_iff)
  with 2(1) [OF pt] 2(3) pt(1) show ?case by (fastforce simp: nth_list_update split: option.splits)
qed simp

lemma edit_messages_nth:
  assumes "edit_messages orig ps next = Some res" and "distinct (jmap_keys ps)"
  shows "length res = length next \<and>
    (\<forall>k<length next. case map_of ps k of None \<Rightarrow> res ! k = next ! k
       | Some mp \<Rightarrow> \<exists>parts. edit_parts (mparts (orig ! k)) mp (mparts (orig ! k)) = Some parts
                          \<and> res ! k = (orig ! k)\<lparr>mparts := parts\<rparr>)"
  using assms
proof (induction orig ps "next" rule: edit_messages.induct)
  case (2 orig k mp rest "next")
  then obtain parts where parts: "edit_parts (mparts (orig ! k)) mp (mparts (orig ! k)) = Some parts"
    "edit_messages orig rest (next[k := (orig ! k)\<lparr>mparts := parts\<rparr>]) = Some res"
    by (auto split: option.splits)
  have "map_of rest k = None" using 2(3) by (simp add: map_of_eq_None_iff)
  with 2(1) [OF parts] 2(3) parts(1) show ?case by (fastforce simp: nth_list_update split: option.splits)
qed simp

definition text_edit_ok :: "nat \<Rightarrow> viewOperation \<Rightarrow> bool" where
  "text_edit_ok n op \<longleftrightarrow> is_text_range op \<and> 0 \<le> opStart op \<and> opStart op < opEnd op \<and> opEnd op \<le> int n"

lemma text_cuts_ok:
  assumes "edits_disjoint es" and "\<forall>op\<in>set es. text_edit_ok n op" and "c \<le> n" and "es \<noteq> [] \<Longrightarrow> c \<le> nat (opStart (hd es))"
  shows "cuts_ok c n (map text_cut es)"
  using assms
proof (induction es arbitrary: c rule: edits_disjoint.induct)
  case (1 a b es)
  have "cuts_ok (nat (opEnd a)) n (map text_cut (b # es))"
    using 1(2,3) by (intro 1(1)) (auto simp: text_edit_ok_def)
  then show ?case using 1(2-5) by (auto simp: text_cut_def [of a] text_edit_ok_def)
qed (auto simp: text_cut_def text_edit_ok_def)

lemma edits_valid_text:
  assumes "edits_valid digest m p es" and "mparts m ! p = TextPart t" and "op \<in> set es"
  shows "text_edit_ok (length t) op"
proof -
  have "part_op_valid digest m op" "viewOperation_valid op" "nat (opPartIndex op) = p"
    using assms by (auto simp: edits_valid_def)
  with assms(2) show ?thesis
    by (cases op) (auto simp: part_op_valid_def nth_part_def viewOperation_valid_def text_edit_ok_def is_text_range_def split: if_splits)
qed

lemma edits_valid_tool:
  assumes "edits_valid digest m p es" and "mparts m ! p = ToolPart t" and "op \<in> set es"
  shows "\<exists>i v n mi d q od r. op = ToolOutputOp i v n mi d q od r"
proof -
  have "part_op_valid digest m op" "nat (opPartIndex op) = p" using assms by (auto simp: edits_valid_def)
  with assms(2) show ?thesis by (cases op) (auto simp: part_op_valid_def nth_part_def split: if_splits)
qed

lemma edit_part_spliced:
  assumes "edits_valid digest m p es" and "edits_disjoint (sort_key edit_start es)"
  shows "edit_part (mparts m ! p) (sort_key edit_start es) = Some (spliced_part (sort_key edit_start es) (mparts m ! p))"
proof -
  let ?es = "sort_key edit_start es"
  have ne: "?es \<noteq> []" "hd ?es \<in> set es"
    using assms(1) hd_in_set [of ?es] by (auto simp: edits_valid_def simp flip: set_empty)
  show ?thesis
  proof (cases "mparts m ! p")
    case (TextPart t)
    have ok: "\<forall>op\<in>set ?es. text_edit_ok (length t) op" using edits_valid_text [OF assms(1) TextPart] by simp
    then have "cuts_ok 0 (length t) (map text_cut ?es)" by (intro text_cuts_ok assms(2)) auto
    from emit_splice [OF this] ok TextPart ne show ?thesis
      by (auto simp: edit_part_def spliced_part_def edit_chunks_cuts text_edit_ok_def list_all_iff split: viewOperation.splits)
  next
    case (ToolPart t)
    with edits_valid_tool [OF assms(1) ToolPart ne(2)] ne(1) show ?thesis
      by (cases ?es) (auto simp: edit_part_def spliced_part_def)
  qed
qed

lemma spliced_message_id: "(\<And>p. part_ops ops m p = []) \<Longrightarrow> spliced_message ops m = m"
proof -
  assume "\<And>p. part_ops ops m p = []"
  then have "map (\<lambda>p. spliced_part (sort_key edit_start (part_ops ops m p)) (mparts m ! p)) [0 ..< length (mparts m)] = mparts m"
    by (intro nth_equalityI) (auto simp: spliced_part_def split: part.splits)
  then show "spliced_message ops m = m" by (simp add: spliced_message_def)
qed

lemma op_step_status: "op_step digest messages snap op st = Inl e \<Longrightarrow> e \<in> {Invalid, NoMatch}"
  by (auto simp: op_step_def Let_def split: if_splits viewOperation.splits option.splits)

lemma op_loop_status: "op_loop digest messages snap ops st = Inl e \<Longrightarrow> e \<in> {Invalid, NoMatch}"
  by (induction ops arbitrary: st) (auto split: sum.splits dest: op_step_status)

definition sorted_parts :: "opState \<Rightarrow> (nat, part_edits) jmap" where
  "sorted_parts st = map (\<lambda>(k, mp). (k, sort_edits mp)) (oparts st)"

text \<open>A result is either a refusal with the messages untouched, or the outcome of a validated run.\<close>

lemma materialize_cases:
  obtains (refused) "fst (materializeOperations digest messages ops snapshot) \<in> {Invalid, NoMatch}"
      "snd (materializeOperations digest messages ops snapshot) = messages"
  | (applied) snap st "next" where "snapshot = Some snap" "distinct (map mid messages)" "snapshot_matches digest messages snap"
      "op_inv digest messages snap ops st"
      "list_all (\<lambda>(k, mp). list_all (\<lambda>(p, es). edits_disjoint es) mp) (sorted_parts st)"
      "edit_messages messages (sorted_parts st) messages = Some next"
      "materializeOperations digest messages ops snapshot = (Applied, emit_ranges next 0 (sort_key rstart (oranges st)))"
proof (cases snapshot)
  case None
  then show ?thesis by (intro refused) (simp_all add: materializeOperations_def)
next
  case (Some snap)
  show ?thesis
  proof (cases "ops = [] \<or> \<not> distinct (map mid messages) \<or> \<not> snapshot_matches digest messages snap")
    case True
    then show ?thesis by (intro refused) (simp_all add: materializeOperations_def Some)
  next
    case valid: False
    show ?thesis
    proof (cases "op_loop digest messages snap ops op_start")
      case (Inl e)
      then show ?thesis using valid op_loop_status [OF Inl] by (intro refused) (auto simp: materializeOperations_def Some)
    next
      case (Inr st)
      from op_loop_inv [OF Inr op_inv_start] valid have inv: "op_inv digest messages snap ops st" by simp
      note eqs = materializeOperations_def Some Inr sorted_parts_def [symmetric] Let_def
      show ?thesis
      proof (cases "list_all (\<lambda>(k, mp). list_all (\<lambda>(p, es). edits_disjoint es) mp) (sorted_parts st)")
        case False
        then show ?thesis using valid by (intro refused) (auto simp: eqs)
      next
        case True
        then show ?thesis using valid inv
          by (cases "edit_messages messages (sorted_parts st) messages"; cases "distinct (map mid (emit_ranges (the (edit_messages messages (sorted_parts st) messages)) 0 (sort_key rstart (oranges st))))")
            (auto simp: eqs intro: refused applied [OF Some])
      qed
    qed
  qed
qed

lemma map_of_map_snd: "map_of (map (\<lambda>(k, v). (k, f v)) m) k = map_option f (map_of m k)"
  by (induction m) auto

lemma edited_parts:
  assumes mp: "jmap_all (edits_valid digest m) mp" and at: "\<And>p. get_or mp p [] = part_ops ops m p"
    and disj: "list_all (\<lambda>(p, es). edits_disjoint es) (sort_edits mp)"
    and run: "edit_parts (mparts m) (sort_edits mp) (mparts m) = Some parts"
  shows "m\<lparr>mparts := parts\<rparr> = spliced_message ops m"
proof -
  have "distinct (jmap_keys (sort_edits mp))"
    using mp by (simp add: jmap_all_def sort_edits_def case_prod_unfold comp_def)
  note pn = edit_parts_nth [OF run this]
  have nth: "parts ! p = spliced_part (sort_key edit_start (part_ops ops m p)) (mparts m ! p)" if p: "p < length (mparts m)" for p
  proof (cases "map_of mp p")
    case None
    then have "part_ops ops m p = []" using at [of p] by (simp add: get_or_def)
    then show ?thesis using None p pn [THEN conjunct2, rule_format, OF p]
      by (simp add: sort_edits_def map_of_map_snd spliced_part_def split: part.splits)
  next
    case (Some es)
    have "edits_valid digest m p es" using mp map_of_SomeD [OF Some] unfolding jmap_all_def by blast
    moreover have "edits_disjoint (sort_key edit_start es)"
      using disj map_of_SomeD [OF Some] by (fastforce simp: list_all_iff sort_edits_def)
    moreover have "part_ops ops m p = es" using at [of p] Some by (simp add: get_or_def)
    ultimately show ?thesis using Some pn [THEN conjunct2, rule_format, OF p] edit_part_spliced [of digest m p es]
      by (simp add: sort_edits_def map_of_map_snd)
  qed
  then have "parts = map (\<lambda>p. spliced_part (sort_key edit_start (part_ops ops m p)) (mparts m ! p)) [0 ..< length (mparts m)]"
    using pn by (intro nth_equalityI) simp_all
  then show ?thesis by (simp add: spliced_message_def)
qed

lemma edited_messages:
  assumes inv: "op_inv digest messages snap ops st"
    and disj: "list_all (\<lambda>(k, mp). list_all (\<lambda>(p, es). edits_disjoint es) mp) (sorted_parts st)"
    and run: "edit_messages messages (sorted_parts st) messages = Some next"
  shows "next = map (spliced_message ops) messages"
proof (rule nth_equalityI)
  have ok: "jmap_all (\<lambda>k. jmap_all (edits_valid digest (messages ! k))) (oparts st)"
    using op_invD(4) [OF inv] by (simp add: parts_ok_def)
  have keys: "distinct (jmap_keys (sorted_parts st))"
    using ok by (simp add: jmap_all_def sorted_parts_def case_prod_unfold comp_def)
  note next_nth = edit_messages_nth [OF run keys]
  show "length next = length (map (spliced_message ops) messages)" using next_nth by simp
  fix k assume "k < length next"
  then have k: "k < length messages" using next_nth by simp
  note at = op_invD(7) [OF inv k] and next_k = next_nth [THEN conjunct2, rule_format, OF k]
  show "next ! k = map (spliced_message ops) messages ! k"
  proof (cases "map_of (oparts st) k")
    case None
    then have "part_ops ops (messages ! k) p = []" for p using at [of p] by (simp add: edits_at_def get_or_def)
    then have "spliced_message ops (messages ! k) = messages ! k" by (rule spliced_message_id)
    then show ?thesis using next_k k None by (simp add: sorted_parts_def map_of_map_snd)
  next
    case (Some mp)
    have "jmap_all (edits_valid digest (messages ! k)) mp"
      using ok map_of_SomeD [OF Some] unfolding jmap_all_def by blast
    moreover have "get_or mp p [] = part_ops ops (messages ! k) p" for p
      using at [of p] Some by (simp add: edits_at_def get_or_def [of "oparts st"])
    moreover have "(k, sort_edits mp) \<in> set (sorted_parts st)"
      using map_of_SomeD [OF Some] by (force simp: sorted_parts_def)
    with disj have "list_all (\<lambda>(p, es). edits_disjoint es) (sort_edits mp)" by (auto simp: list_all_iff)
    moreover obtain parts where "edit_parts (mparts (messages ! k)) (sort_edits mp) (mparts (messages ! k)) = Some parts"
      "next ! k = (messages ! k)\<lparr>mparts := parts\<rparr>"
      using next_k Some by (auto simp: sorted_parts_def map_of_map_snd)
    ultimately show ?thesis using edited_parts [of digest "messages ! k" mp ops] k by simp
  qed
qed

lemma applied_cuts:
  assumes inv: "op_inv digest messages snap ops st" and "length (snapIds snap) \<le> length messages"
    and "length next = length messages"
  shows "emit_ranges next 0 (sort_key rstart (oranges st)) = emit_cuts next 0 (sort_key fst (map (range_cut messages) (filter is_range ops)))"
    and "cuts_ok 0 (length (snapIds snap)) (sort_key fst (map (range_cut messages) (filter is_range ops)))"
proof -
  have "sort_key fst (map (range_cut messages) (filter is_range ops)) = map range_as_cut (sort_key rstart (oranges st))"
    unfolding op_invD(2) [OF inv, symmetric] by (simp add: sort_key_map range_as_cut_def)
  then show "emit_ranges next 0 (sort_key rstart (oranges st)) = emit_cuts next 0 (sort_key fst (map (range_cut messages) (filter is_range ops)))"
    "cuts_ok 0 (length (snapIds snap)) (sort_key fst (map (range_cut messages) (filter is_range ops)))"
    using ranges_ok_sort [OF op_invD(1) [OF inv]] by (simp_all add: emit_ranges_cuts range_as_cut_def [abs_def])
qed

lemma cuts_ok_mono: "cuts_ok c n cuts \<Longrightarrow> n \<le> n' \<Longrightarrow> cuts_ok c n' cuts"
  by (induction c n cuts rule: cuts_ok.induct) auto

lemma snapshot_prefix:
  assumes "snapshot_matches digest messages snap"
  shows "length (snapIds snap) \<le> length messages"
    and "map mid (take (length (snapIds snap)) messages) = snapIds snap"
    and "map (contentDigest digest) (take (length (snapIds snap)) messages) = snapDigests snap"
proof -
  have len: "length (snapDigests snap) = length (snapIds snap)" using assms by (simp add: snapshot_matches_def)
  have at: "k < length messages \<and> mid (messages ! k) = snapIds snap ! k \<and> contentDigest digest (messages ! k) = snapDigests snap ! k"
    if "k < length (snapIds snap)" for k
    using assms that len by (auto simp: snapshot_matches_def list_all_length dest!: spec [of _ k])
  show "length (snapIds snap) \<le> length messages"
    using at [of "length (snapIds snap) - 1"] by (cases "snapIds snap") auto
  then show "map mid (take (length (snapIds snap)) messages) = snapIds snap"
    "map (contentDigest digest) (take (length (snapIds snap)) messages) = snapDigests snap"
    using at len by (auto intro!: nth_equalityI)
qed

lemma untouched_message:
  assumes "op_inv digest messages snap ops st" and "k < length messages" and "\<not> target_ok messages snap ops k"
  shows "spliced_message ops (messages ! k) = messages ! k"
proof (rule spliced_message_id)
  fix p
  have "k \<notin> set (jmap_keys (oparts st))" using op_invD(5) [OF assms(1), of k] assms(3) by blast
  then have "map_of (oparts st) k = None" by (simp add: map_of_eq_None_iff)
  then show "part_ops ops (messages ! k) p = []"
    using op_invD(7) [OF assms(1,2), of p] by (simp add: edits_at_def get_or_def)
qed

lemma cut_targets:
  assumes inv: "op_inv digest messages snap ops st" and cut: "(s, e, ys) \<in> set (map (range_cut messages) (filter is_range ops))"
    and "j \<in> {s ..< e}"
  shows "target_ok messages snap ops j"
proof -
  obtain r where "r \<in> set (oranges st)" "(s, e, ys) = range_as_cut r"
    using cut unfolding op_invD(2) [OF inv, symmetric] by auto
  then have "j \<in> set (owhole st)" using assms(3) op_invD(3) [OF inv] by (auto simp: range_as_cut_def)
  then show ?thesis using op_invD(5) [OF inv] by blast
qed

lemma slice_member: "x \<in> set (js_slice xs s e) \<Longrightarrow> \<exists>j\<in>{s ..< e}. j < length xs \<and> x = xs ! j"
proof -
  assume "x \<in> set (js_slice xs s e)"
  then obtain i where "i < e - s" "i < length xs - s" "x = xs ! (s + i)" by (auto simp: js_slice_def in_set_conv_nth)
  then show ?thesis by (intro bexI [of _ "s + i"]) auto
qed

text \<open>Messages that are not targets survive, for every property that an edit does not change.\<close>

lemma untouched_survive:
  assumes inv: "op_inv digest messages snap ops st" and len: "length (snapIds snap) \<le> length messages"
    and P: "\<And>m. P (spliced_message ops m) = P m" "\<And>k. target_ok messages snap ops k \<Longrightarrow> \<not> P (messages ! k)"
  shows "subseq (filter P messages) (emit_cuts (map (spliced_message ops) messages) 0 (sort_key fst (map (range_cut messages) (filter is_range ops))))"
proof -
  let ?next = "map (spliced_message ops) messages" and ?cuts = "sort_key fst (map (range_cut messages) (filter is_range ops))"
  have "filter P ?next = filter P messages"
  proof -
    have "spliced_message ops m = m" if "m \<in> set messages" "P m" for m
      using that P(2) untouched_message [OF inv] by (metis in_set_conv_nth)
    then show ?thesis using P(1) by (induction messages) auto
  qed
  moreover have "\<forall>(s, e, ys)\<in>set ?cuts. \<forall>x\<in>set (js_slice ?next s e). \<not> P x"
  proof clarify
    fix s e ys x assume cut: "(s, e, ys) \<in> set ?cuts" and mem: "x \<in> set (js_slice ?next s e)" and "P x"
    obtain j where j: "j \<in> {s ..< e}" "j < length messages" "x = ?next ! j"
      using slice_member [OF mem] by auto
    with P \<open>P x\<close> cut_targets [OF inv, of s e ys j] cut show False by simp
  qed
  ultimately show ?thesis
    using emit_cuts_keeps [OF applied_cuts(2) [OF inv len, of ?next], where xs = ?next and P = P] by simp
qed

section \<open>Properties\<close>

text \<open>C4: A plan is applied completely or not at all. Either the result is the history with every operation
  spliced in, each edit at the position it names in the original messages, or the messages come back
  unchanged with the status that says why; the tables and the streaming pass of the implementation
  are equivalent to splicing one edit after the other.\<close>

theorem operations_all_or_nothing:
  "materializeOperations digest messages ops snapshot = (Applied, spliced messages ops)
   \<or> fst (materializeOperations digest messages ops snapshot) \<in> {Invalid, NoMatch}
     \<and> snd (materializeOperations digest messages ops snapshot) = messages"
proof (cases rule: materialize_cases [of digest messages ops snapshot])
  case (applied snap st "next")
  note edited = edited_messages [OF applied(4-6)]
  note len = snapshot_prefix(1) [OF applied(3)]
  have n: "length next = length messages" by (simp add: edited)
  have "emit_ranges next 0 (sort_key rstart (oranges st)) = spliced messages ops"
    using emit_splice [OF cuts_ok_mono [OF applied_cuts(2) [OF applied(4) len n]], of "next"] len n
      applied_cuts(1) [OF applied(4) len n] by (simp add: edited spliced_def)
  with applied(7) show ?thesis by simp
qed simp

text \<open>An applied plan touches only what it may. The snapshot is a prefix of the current messages,
  digest by digest; messages appended after it stay a suffix of the result; every message that no
  operation names is still there, in order and unchanged; and so is every protected message.\<close>

theorem operations_touch_targets_only:
  assumes "materializeOperations digest messages ops (Some snap) = (Applied, output)"
  shows "map (contentDigest digest) (take (length (snapIds snap)) messages) = snapDigests snap
    \<and> (\<exists>edited. output = edited @ drop (length (snapIds snap)) messages)
    \<and> subseq (filter (\<lambda>m. mid m \<notin> (\<Union>op\<in>set ops. set (op_targets op))) messages) output
    \<and> subseq (filter is_protected messages) output"
proof (cases rule: materialize_cases [of digest messages ops "Some snap"])
  case refused
  then show ?thesis using assms by simp
next
  case (applied snap' st "next")
  let ?next = "map (spliced_message ops) messages" and ?cuts = "sort_key fst (map (range_cut messages) (filter is_range ops))"
  have [simp]: "snap' = snap" using applied(1) by simp
  note edited = edited_messages [OF applied(4-6)] and pre = snapshot_prefix [OF applied(3), simplified] and inv = applied(4) [simplified]
  note cuts = applied_cuts [OF inv pre(1), of ?next, simplified]
  have out: "output = emit_cuts ?next 0 ?cuts" using assms applied(7) cuts(1) by (simp add: edited)
  have "drop (length (snapIds snap)) ?next = drop (length (snapIds snap)) messages"
    using untouched_message [OF inv] by (intro nth_equalityI) (auto simp: target_ok_def)
  moreover obtain e where "output = e @ drop (length (snapIds snap)) ?next"
    using emit_cuts_suffix [OF cuts(2), of ?next] pre(1) out by auto
  moreover have "subseq (filter (\<lambda>m. mid m \<notin> (\<Union>op\<in>set ops. set (op_targets op))) messages) output"
    unfolding out by (rule untouched_survive [OF inv pre(1)]) (auto simp: spliced_message_def target_ok_def)
  moreover have "subseq (filter is_protected messages) output"
    unfolding out by (rule untouched_survive [OF inv pre(1)]) (auto simp: spliced_message_def target_ok_def is_protected_def)
  ultimately show ?thesis using pre(3) by auto
qed

definition zero_digest :: "byte list \<Rightarrow> byte list" where
  "zero_digest bs = replicate 32 0"

definition demo_history :: "chatMessage list" where
  "demo_history =
     [\<lparr>mid = js ''m1'', mrole = User, mparts = [TextPart (js ''hello big world'')], mprotected = None, marchive = None\<rparr>,
      \<lparr>mid = js ''m2'', mrole = Assistant, mparts = [TextPart (js ''ok'')], mprotected = Some True, marchive = None\<rparr>,
      \<lparr>mid = js ''m3'', mrole = User, mparts = [TextPart (js ''later'')], mprotected = None, marchive = None\<rparr>]"

definition demo_snapshot :: sourceSnapshot where
  "demo_snapshot = \<lparr>snapIds = [js ''m1'', js ''m2''], snapDigests = [replicate 64 48, replicate 64 48]\<rparr>"

definition demo_ops :: "viewOperation list" where
  "demo_ops = [TextRangeOp (replicate 64 48) 1 (replicate 64 48) (js ''m1'') (replicate 64 48) 0 6 9 (replicate 64 48) (js ''wide'')]"

theorem operations_touch_targets_only_witness:
  "subseq (filter is_protected demo_history) (snd (materializeOperations zero_digest demo_history demo_ops (Some demo_snapshot)))
   \<and> map (\<lambda>m. mparts m) (snd (materializeOperations zero_digest demo_history demo_ops (Some demo_snapshot)))
     = [[TextPart (js ''hello wide world'')], [TextPart (js ''ok'')], [TextPart (js ''later'')]]"
proof -
  have "fst (materializeOperations zero_digest demo_history demo_ops (Some demo_snapshot)) = Applied" by code_simp
  then have run: "materializeOperations zero_digest demo_history demo_ops (Some demo_snapshot)
      = (Applied, snd (materializeOperations zero_digest demo_history demo_ops (Some demo_snapshot)))"
    by (metis prod.collapse)
  have "map (\<lambda>m. mparts m) (snd (materializeOperations zero_digest demo_history demo_ops (Some demo_snapshot)))
     = [[TextPart (js ''hello wide world'')], [TextPart (js ''ok'')], [TextPart (js ''later'')]]" by code_simp
  with operations_touch_targets_only [OF run] show ?thesis by blast
qed

end
