(* ===== verification/Token_Counter.thy ===== *)
theory Token_Counter
  imports Operations
begin

text \<open>
  \<open>packages/headroomd/src/token-counter.ts\<close>: the counting interface of the planner, the default
  estimate, and the cache in front of a counter. A \<open>Map\<close> lists its entries by insertion, so
  deleting and setting a key moves it to the end; the first key is the least recently used one.
\<close>

section \<open>The interface\<close>

fun count_all :: "(jstring \<Rightarrow> 's \<Rightarrow> ('e, nat) result \<times> 's) \<Rightarrow> jstring list \<Rightarrow> 's \<Rightarrow> ('e, nat) result list \<times> 's" where
  "count_all count [] s = ([], s)"
| "count_all count (t # ts) s =
     (case count t s of (r, s1) \<Rightarrow> case count_all count ts s1 of (rs, s2) \<Rightarrow> (r # rs, s2))"

text \<open>
  A counter may keep state. What its users rely on: the answer for a text does not depend on the
  history of calls, and the invariant of the counter is kept.
\<close>

locale token_counter =
  fixes invar :: "'s \<Rightarrow> bool" and count :: "jstring \<Rightarrow> 's \<Rightarrow> ('e, nat) result \<times> 's"
    and tokens :: "jstring \<Rightarrow> ('e, nat) result" and domain :: "jstring \<Rightarrow> bool"
  assumes count_tokens: "invar s \<Longrightarrow> domain t \<Longrightarrow> fst (count t s) = tokens t"
    and count_invar: "invar s \<Longrightarrow> domain t \<Longrightarrow> invar (snd (count t s))"
begin

lemma count_all_tokens:
  "invar s \<Longrightarrow> list_all domain ts \<Longrightarrow> fst (count_all count ts s) = map tokens ts \<and> invar (snd (count_all count ts s))"
proof (induction ts arbitrary: s)
  case (Cons t ts)
  obtain r s1 where c: "count t s = (r, s1)" by (metis surj_pair)
  have "r = tokens t" "invar s1" using Cons(2,3) count_tokens [of s t] count_invar [of s t] c by simp_all
  with Cons.IH [of s1] Cons(3) c show ?case by (cases "count_all count ts s1") simp
qed simp

end

section \<open>The estimate and the cache\<close>

datatype counterError = BadCapacity | BadCount

definition estimated_count :: "jstring \<Rightarrow> unit \<Rightarrow> (counterError, nat) result \<times> unit" where
  "estimated_count t s = (Inr (estimateTokens t), s)"

interpretation estimated: token_counter "\<lambda>s. True" estimated_count "\<lambda>t. Inr (estimateTokens t)" "\<lambda>t. True"
  by unfold_locales (simp_all add: estimated_count_def)

type_synonym tokenCache = "(jstring, nat) jmap"

text \<open>A counter passed in may answer anything; only a non-negative safe integer is accepted.\<close>

definition checked_count :: "(jstring \<Rightarrow> rat) \<Rightarrow> jstring \<Rightarrow> (counterError, nat) result" where
  "checked_count counter t =
     (if is_safe_integer (counter t) \<and> 0 \<le> counter t then Inr (nat (fst (quotient_of (counter t)))) else Inl BadCount)"

definition createCachedTokenCounter :: "rat \<Rightarrow> (counterError, tokenCache) result" where
  "createCachedTokenCounter maxEntries = (if is_safe_integer maxEntries \<and> 1 \<le> maxEntries then Inr [] else Inl BadCapacity)"

definition cached_count :: "(byte list \<Rightarrow> byte list) \<Rightarrow> (jstring \<Rightarrow> rat) \<Rightarrow> nat \<Rightarrow> jstring \<Rightarrow> tokenCache
    \<Rightarrow> (counterError, nat) result \<times> tokenCache" where
  "cached_count digest counter maxEntries t cache =
     (let key = textDigest digest t
      in case map_of cache key of
           Some previous \<Rightarrow> (Inr previous, jmap_set key previous (jmap_delete key cache))
         | None \<Rightarrow>
             (case checked_count counter t of
                Inl e \<Rightarrow> (Inl e, cache)
              | Inr c \<Rightarrow>
                  (let cache' = jmap_set key c cache
                   in (Inr c, if maxEntries < length cache' then jmap_delete (fst (hd cache')) cache' else cache'))))"

section \<open>The cache is transparent\<close>

text \<open>The texts a client counts, no two of which collide under SHA-256.\<close>

definition collision_free :: "(byte list \<Rightarrow> byte list) \<Rightarrow> (jstring \<Rightarrow> bool) \<Rightarrow> bool" where
  "collision_free digest D \<longleftrightarrow> (\<forall>t u. D t \<longrightarrow> D u \<longrightarrow> textDigest digest t = textDigest digest u \<longrightarrow> t = u)"

definition cache_inv :: "(byte list \<Rightarrow> byte list) \<Rightarrow> (jstring \<Rightarrow> rat) \<Rightarrow> nat \<Rightarrow> (jstring \<Rightarrow> bool) \<Rightarrow> tokenCache \<Rightarrow> bool" where
  "cache_inv digest counter maxEntries D cache \<longleftrightarrow>
     length cache \<le> maxEntries
     \<and> jmap_all (\<lambda>k c. \<exists>t. D t \<and> k = textDigest digest t \<and> checked_count counter t = Inr c) cache"

lemma jmap_set_fresh: "k \<notin> set (jmap_keys m) \<Longrightarrow> jmap_set k v m = m @ [(k, v)]"
  by (induction m) auto

lemma delete_first: "distinct (jmap_keys m) \<Longrightarrow> m \<noteq> [] \<Longrightarrow> jmap_delete (fst (hd m)) m = tl m"
  by (cases m) (auto simp: jmap_delete_def filter_id_conv image_iff)

lemma length_delete: "distinct (jmap_keys m) \<Longrightarrow> map_of m k = Some v \<Longrightarrow> Suc (length (jmap_delete k m)) = length m"
proof (induction m)
  case (Cons a m)
  show ?case
  proof (cases "fst a = k")
    case True
    with Cons(2) have "filter (\<lambda>e. fst e \<noteq> k) m = m" by (auto simp: filter_id_conv image_iff)
    with True show ?thesis by (simp add: jmap_delete_def)
  qed (use Cons in \<open>auto simp: jmap_delete_def\<close>)
qed simp

lemma cached_count_hit:
  assumes "map_of cache (textDigest digest t) = Some c"
  shows "cached_count digest counter n t cache
    = (Inr c, jmap_delete (textDigest digest t) cache @ [(textDigest digest t, c)])"
proof -
  have "textDigest digest t \<notin> set (jmap_keys (jmap_delete (textDigest digest t) cache))" by (auto simp: jmap_delete_def)
  with assms show ?thesis by (simp add: cached_count_def Let_def jmap_set_fresh del: set_map)
qed

lemma cached_count_miss:
  assumes "distinct (jmap_keys cache)" and "map_of cache (textDigest digest t) = None" and "checked_count counter t = Inr c"
  shows "cached_count digest counter n t cache
    = (Inr c, if n \<le> length cache then tl (cache @ [(textDigest digest t, c)]) else cache @ [(textDigest digest t, c)])"
proof -
  have "textDigest digest t \<notin> set (jmap_keys cache)" using assms(2) by (simp add: map_of_eq_None_iff)
  moreover from this assms(1) have "jmap_delete (fst (hd (cache @ [(textDigest digest t, c)]))) (cache @ [(textDigest digest t, c)])
      = tl (cache @ [(textDigest digest t, c)])" by (intro delete_first) auto
  ultimately show ?thesis using assms(2,3) by (simp add: cached_count_def Let_def jmap_set_fresh less_Suc_eq_le)
qed

lemma jmap_all_sub: "jmap_all R m \<Longrightarrow> set m' \<subseteq> set m \<Longrightarrow> distinct (jmap_keys m') \<Longrightarrow> jmap_all R m'"
  by (auto simp: jmap_all_def)

lemma cached_count_tokens:
  assumes "cache_inv digest counter n D cache" and "collision_free digest D" and "D t"
  shows "fst (cached_count digest counter n t cache) = checked_count counter t"
proof (cases "map_of cache (textDigest digest t)")
  case None
  then show ?thesis by (auto simp: cached_count_def Let_def split: sum.splits)
next
  case (Some c)
  then obtain u where "D u" "textDigest digest t = textDigest digest u" "checked_count counter u = Inr c"
    using assms(1) map_of_SomeD [OF Some] by (auto simp: cache_inv_def jmap_all_def)
  with assms(2,3) Some show ?thesis by (auto simp: collision_free_def cached_count_hit)
qed

lemma cached_count_inv:
  assumes inv: "cache_inv digest counter n D cache" and "D t" and "1 \<le> n"
  shows "cache_inv digest counter n D (snd (cached_count digest counter n t cache))"
proof (cases "map_of cache (textDigest digest t)")
  case (Some c)
  let ?k = "textDigest digest t"
  let ?cache' = "jmap_delete ?k cache @ [(?k, c)]"
  have d: "distinct (jmap_keys cache)" using inv by (simp add: cache_inv_def jmap_all_def)
  have sub: "set ?cache' \<subseteq> set cache" using map_of_SomeD [OF Some] by (auto simp: jmap_delete_def)
  have dist: "distinct (jmap_keys ?cache')" using distinct_jmap_delete [OF d, of ?k] by (auto simp: jmap_delete_def)
  have "length ?cache' = length cache" using length_delete [OF d Some] by simp
  moreover note jmap_all_sub [OF inv [unfolded cache_inv_def, THEN conjunct2] sub dist]
  ultimately show ?thesis using inv by (simp only: cached_count_hit [OF Some] cache_inv_def snd_conv)
next
  case None
  let ?k = "textDigest digest t"
  have d: "distinct (jmap_keys cache)" using inv by (simp add: cache_inv_def jmap_all_def)
  show ?thesis
  proof (cases "checked_count counter t")
    case (Inl e)
    with None inv show ?thesis by (simp add: cached_count_def Let_def)
  next
    case (Inr c)
    have all: "jmap_all (\<lambda>k c. \<exists>t. D t \<and> k = textDigest digest t \<and> checked_count counter t = Inr c) (cache @ [(?k, c)])"
      using inv None Inr assms(2) by (auto simp: cache_inv_def jmap_all_def map_of_eq_None_iff)
    then have "jmap_all (\<lambda>k c. \<exists>t. D t \<and> k = textDigest digest t \<and> checked_count counter t = Inr c) (tl (cache @ [(?k, c)]))"
      by (cases "cache @ [(?k, c)]") (auto simp: jmap_all_def)
    with all inv assms(3) show ?thesis
      by (simp add: cached_count_miss [OF d None Inr] cache_inv_def)
  qed
qed

section \<open>Least recently used\<close>

definition last_n :: "nat \<Rightarrow> 'a list \<Rightarrow> 'a list" where
  "last_n n xs = drop (length xs - n) xs"

lemma remdups_snoc: "remdups (xs @ [x]) = filter (\<lambda>y. y \<noteq> x) (remdups xs) @ [x]"
  by (induction xs) auto

lemma last_n_split: obtains as where "xs = as @ last_n n xs" "as = [] \<or> length (last_n n xs) = n"
proof
  show "xs = take (length xs - n) xs @ last_n n xs" by (simp add: last_n_def)
  show "take (length xs - n) xs = [] \<or> length (last_n n xs) = n" by (cases "n \<le> length xs") (auto simp: last_n_def)
qed

lemma last_n_append: "n \<le> length ys \<Longrightarrow> last_n n (xs @ ys) = last_n n ys"
  by (simp add: last_n_def)

lemma last_n_all: "length xs \<le> n \<Longrightarrow> last_n n xs = xs"
  by (simp add: last_n_def)

text \<open>Using a key again moves it to the end; a new key pushes out the oldest one.\<close>

lemma lru_step:
  assumes "distinct L" and "1 \<le> n" and "ks = last_n n L"
  shows "last_n n (filter (\<lambda>y. y \<noteq> k) L @ [k]) =
    (if k \<in> set ks then filter (\<lambda>y. y \<noteq> k) ks @ [k] else if n \<le> length ks then tl (ks @ [k]) else ks @ [k])"
proof -
  obtain as where L: "L = as @ ks" "as = [] \<or> length ks = n" using last_n_split [of L n] assms(3) by metis
  have ksn: "length ks \<le> n" by (simp add: assms(3) last_n_def)
  show ?thesis
  proof (cases "k \<in> set ks")
    case True
    have "length (filter (\<lambda>y. y \<noteq> k) ks @ [k]) = length ks"
    proof -
      have "distinct ks" using assms(1) L by simp
      then have "length (filter (\<lambda>y. y \<noteq> k) ks) = card (set ks - {k})"
        using distinct_card [of "filter (\<lambda>y. y \<noteq> k) ks"] by (simp add: set_diff_eq Collect_conj_eq [symmetric] Int_def)
      with True \<open>distinct ks\<close> show ?thesis by (simp add: distinct_card card_Diff_singleton) (metis length_pos_if_in_set Suc_pred)
    qed
    moreover have "filter (\<lambda>y. y \<noteq> k) as = as" using assms(1) L True by (auto simp: filter_id_conv)
    moreover have "last_n n (as @ (filter (\<lambda>y. y \<noteq> k) ks @ [k])) = filter (\<lambda>y. y \<noteq> k) ks @ [k]"
      using L(2) ksn calculation(1) last_n_append [of n "filter (\<lambda>y. y \<noteq> k) ks @ [k]" as] by (auto simp: last_n_all)
    ultimately show ?thesis using True by (simp add: L(1))
  next
    case False
    then have "filter (\<lambda>y. y \<noteq> k) ks = ks" by (auto simp: filter_id_conv)
    then have eq: "filter (\<lambda>y. y \<noteq> k) L @ [k] = filter (\<lambda>y. y \<noteq> k) as @ (ks @ [k])" by (simp add: L(1))
    show ?thesis
    proof (cases "n \<le> length ks")
      case True
      with ksn have n: "length ks = n" by simp
      then have "last_n n (filter (\<lambda>y. y \<noteq> k) as @ (ks @ [k])) = last_n n (ks @ [k])" by (intro last_n_append) simp
      also have "\<dots> = tl (ks @ [k])" using assms(2) n by (cases ks) (simp_all add: last_n_def)
      finally show ?thesis using False True eq by simp
    next
      case short: False
      then have "as = []" using L(2) ksn by auto
      then show ?thesis using False short eq by (simp add: last_n_all)
    qed
  qed
qed

lemma cached_keys:
  assumes "jmap_keys cache = last_n n (remdups ks)" and "1 \<le> n" and "checked_count counter t = Inr c"
  shows "jmap_keys (snd (cached_count digest counter n t cache)) = last_n n (remdups (ks @ [textDigest digest t]))"
proof -
  let ?k = "textDigest digest t"
  note step = lru_step [OF distinct_remdups assms(2) assms(1), where k = ?k]
  have d: "distinct (jmap_keys cache)" unfolding assms(1) by (simp add: last_n_def)
  show ?thesis
  proof (cases "map_of cache ?k")
    case (Some v)
    then have "?k \<in> set (jmap_keys cache)" by (metis domI dom_map_of_conv_image_fst set_map)
    moreover have "jmap_keys (jmap_delete ?k cache) = filter (\<lambda>y. y \<noteq> ?k) (jmap_keys cache)"
      by (simp add: jmap_delete_def filter_map comp_def)
    ultimately show ?thesis by (simp add: cached_count_hit [OF Some] remdups_snoc step del: set_map)
  next
    case None
    then have "?k \<notin> set (jmap_keys cache)" by (simp add: map_of_eq_None_iff)
    then show ?thesis using cached_count_miss [OF d None assms(3), of n]
      by (simp add: remdups_snoc step map_tl del: set_map)
  qed
qed

definition cache_ok :: "(byte list \<Rightarrow> byte list) \<Rightarrow> (jstring \<Rightarrow> rat) \<Rightarrow> nat \<Rightarrow> (jstring \<Rightarrow> bool) \<Rightarrow> tokenCache \<Rightarrow> bool" where
  "cache_ok digest counter n D cache \<longleftrightarrow> collision_free digest D \<and> 1 \<le> n \<and> cache_inv digest counter n D cache"

interpretation cached: token_counter "cache_ok digest counter n D" "cached_count digest counter n" "checked_count counter" D
  for digest counter n D
  by unfold_locales (auto simp: cache_ok_def cached_count_tokens cached_count_inv)

lemma count_all_keys:
  assumes "jmap_keys cache = last_n n (remdups ks)" and "1 \<le> n" and "list_all (\<lambda>t. \<not> isl (checked_count counter t)) ts"
  shows "jmap_keys (snd (count_all (cached_count digest counter n) ts cache))
    = last_n n (remdups (ks @ map (textDigest digest) ts))"
  using assms
proof (induction ts arbitrary: cache ks)
  case (Cons t ts)
  obtain c where c: "checked_count counter t = Inr c" using Cons(4) by (cases "checked_count counter t") auto
  obtain r cache1 where s: "cached_count digest counter n t cache = (r, cache1)" by (metis surj_pair)
  have "jmap_keys cache1 = last_n n (remdups (ks @ [textDigest digest t]))"
    using cached_keys [OF Cons(2,3) c, of digest] s by simp
  from Cons.IH [OF this Cons(3)] Cons(4) s show ?case
    by (cases "count_all (cached_count digest counter n) ts cache1") simp
qed simp

section \<open>Properties\<close>

text \<open>The cache changes no count. For texts without SHA-256 collisions among them, every answer of the cached
  counter is the checked answer of the counter behind it, and never more than the configured number
  of entries is kept.\<close>

theorem cached_counts_exact:
  assumes "collision_free digest (\<lambda>t. t \<in> set ts)" and "1 \<le> n"
  shows "fst (count_all (cached_count digest counter n) ts []) = map (checked_count counter) ts
    \<and> length (snd (count_all (cached_count digest counter n) ts [])) \<le> n"
proof -
  have "cache_ok digest counter n (\<lambda>t. t \<in> set ts) []" using assms by (simp add: cache_ok_def cache_inv_def)
  from cached.count_all_tokens [OF this, of ts] show ?thesis by (auto simp: list_all_iff cache_ok_def cache_inv_def)
qed

theorem cached_counts_exact_witness:
  "fst (count_all (cached_count (\<lambda>bs. bs) (\<lambda>t. of_nat (length t)) 1) [js ''ab'', js ''c'', js ''ab''] []) = [Inr 2, Inr 1, Inr 2]"
proof -
  have "textDigest (\<lambda>bs. bs) (js ''ab'') \<noteq> textDigest (\<lambda>bs. bs) (js ''c'')" by code_simp
  then have "collision_free (\<lambda>bs. bs) (\<lambda>t. t \<in> set [js ''ab'', js ''c'', js ''ab''])"
    by (auto simp: collision_free_def)
  from cached_counts_exact [OF this, of 1 "\<lambda>t. of_nat (length t)"] show ?thesis
    by (simp add: checked_count_def js_def is_safe_integer_def)
qed

text \<open>Eviction is least recently used. After any sequence of counts that the counter accepts, the cached keys
  are the most recently used distinct ones, oldest first.\<close>

theorem cache_is_lru:
  assumes "1 \<le> n" and "list_all (\<lambda>t. \<not> isl (checked_count counter t)) ts"
  shows "jmap_keys (snd (count_all (cached_count digest counter n) ts [])) = last_n n (remdups (map (textDigest digest) ts))"
  using count_all_keys [where cache = "[]" and ks = "[]", OF _ assms] by (simp add: last_n_def)

theorem cache_is_lru_witness:
  "jmap_keys (snd (count_all (cached_count (\<lambda>bs. bs) (\<lambda>t. 1) 2) [js ''a'', js ''b'', js ''a'', js ''c''] []))
   = map (textDigest (\<lambda>bs. bs)) [js ''a'', js ''c'']"
proof -
  have "list_all (\<lambda>t. \<not> isl (checked_count (\<lambda>t. 1) t)) [js ''a'', js ''b'', js ''a'', js ''c'']"
    by (simp add: checked_count_def is_safe_integer_def)
  moreover have "last_n 2 (remdups (map (textDigest (\<lambda>bs. bs)) [js ''a'', js ''b'', js ''a'', js ''c'']))
      = map (textDigest (\<lambda>bs. bs)) [js ''a'', js ''c'']" by code_simp
  ultimately show ?thesis using cache_is_lru [of 2 "\<lambda>t. 1" "[js ''a'', js ''b'', js ''a'', js ''c'']" "\<lambda>bs. bs"] by simp
qed

end
