(* ===== verification/Compaction.thy ===== *)
theory Compaction
  imports Operations
begin

text \<open>
  \<open>packages/headroomd/src/compaction.ts\<close> and \<open>packages/plugin/src/apply-plan.ts\<close>: applying a compaction
  plan to the visible history. A layered plan carries operations and is materialized as in
  \<open>Operations\<close>; a legacy plan replaces one contiguous run of messages by a single message that
  names the archived history.
\<close>

record compactionPlan =
  planHistoryHash :: "jstring option"
  planSummary :: "jstring option"
  replacedMessageIds :: "jstring list"
  planDigests :: "jstring list option"
  planMemory :: "memoryEntry list option"
  planOperations :: "viewOperation list option"
  planSnapshot :: "sourceSnapshot option"

definition buildReplacementText :: "compactionPlan \<Rightarrow> jstring" where
  "buildReplacementText plan =
     COMPACTION_MARKER @ [32, 0x4EE5, 0x4E0B, 0x5386, 0x53F2, 0x5DF2, 0x5F52, 0x6863, 0x3002]
     @ (case planSummary plan of None \<Rightarrow> [] | Some s \<Rightarrow> [LF, LF, 0x6458, 0x8981, 0xFF1A, LF] @ s)
     @ (case planHistoryHash plan of
          None \<Rightarrow> []
        | Some h \<Rightarrow> [LF, LF, 0x5982, 0x9700, 0x5206, 0x9875, 0x6062, 0x590D, 0x5B8C, 0x6574, 0x5386, 0x53F2, 0xFF0C,
                     0x8BF7, 0x8C03, 0x7528, 32, 96] @ js ''headroom_retrieve(historyHash='' @ [34] @ h @ [34, 41, 96, 0x3002])"

definition replacement_id :: "compactionPlan \<Rightarrow> jstring" where
  "replacement_id plan = js ''compaction-'' @ (case planHistoryHash plan of None \<Rightarrow> js ''unknown'' | Some h \<Rightarrow> h)"

definition buildReplacementMessage :: "compactionPlan \<Rightarrow> chatMessage" where
  "buildReplacementMessage plan =
     \<lparr>mid = replacement_id plan, mrole = User, mparts = [TextPart (buildReplacementText plan)], mprotected = None,
      marchive = (case planHistoryHash plan of
                    None \<Rightarrow> None
                  | Some h \<Rightarrow> if h = [] then None
                              else Some \<lparr>ahistoryHash = h, amemory = (case planMemory plan of None \<Rightarrow> [] | Some es \<Rightarrow> es),
                                         anodeIds = None, aprotectedMemory = None\<rparr>)\<rparr>"

text \<open>\<open>indexById\<close> keeps the first index of an id, \<open>duplicateSourceIds\<close> the ids that occur again.\<close>

definition duplicate_id :: "chatMessage list \<Rightarrow> jstring \<Rightarrow> bool" where
  "duplicate_id messages i \<longleftrightarrow> 1 < length (filter (\<lambda>m. mid m = i) messages)"

definition materializeCompaction :: "(byte list \<Rightarrow> byte list) \<Rightarrow> chatMessage list \<Rightarrow> compactionPlan \<Rightarrow> materialized" where
  "materializeCompaction digest messages plan =
     (case planOperations plan of
        Some ops \<Rightarrow> materializeOperations digest messages ops (planSnapshot plan)
      | None \<Rightarrow>
          let ids = replacedMessageIds plan; indices = map (by_id messages) ids
          in if ids = [] \<or> \<not> distinct ids then (Invalid, messages)
             else if list_ex (duplicate_id messages) ids then (Invalid, messages)
             else if list_all (\<lambda>i. i = None) indices
             then (if list_ex (\<lambda>m. mid m = replacement_id plan \<and> isCompactionReplacement m) messages then AlreadyCompacted else NoMatch,
                   messages)
             else if list_ex (\<lambda>i. i = None) indices then (Invalid, messages)
             else let start = the (hd indices)
                  in if indices \<noteq> map Some [start ..< start + length ids] then (Invalid, messages)
                     else let targets = js_slice messages start (start + length ids)
                          in if (case planDigests plan of None \<Rightarrow> False | Some ds \<Rightarrow> map (contentDigest digest) targets \<noteq> ds)
                             then (Invalid, messages)
                             else if list_all isCompactionReplacement targets then (AlreadyCompacted, messages)
                             else (Applied, take start messages @ [buildReplacementMessage plan] @ drop (start + length ids) messages))"

text \<open>The adapter of the plugin: the host array takes the new messages exactly when the plan applies.\<close>

definition applyPlanInPlace :: "(byte list \<Rightarrow> byte list) \<Rightarrow> chatMessage list \<Rightarrow> compactionPlan \<Rightarrow> applyStatus \<times> chatMessage list" where
  "applyPlanInPlace digest messages plan =
     (case materializeCompaction digest messages plan of (status, result) \<Rightarrow>
        (status, if status = Applied then result else messages))"

section \<open>A legacy plan replaces one run of messages\<close>

lemma by_id_None: "by_id messages i = None \<longleftrightarrow> i \<notin> mid ` set messages"
  by (auto simp: by_id_def map_of_zip_is_None)

lemma ids_of_run:
  assumes "map (by_id messages) ids = map Some [start ..< start + length ids]"
  shows "map mid (js_slice messages start (start + length ids)) = ids \<and> start + length ids \<le> length messages \<or> ids = []"
proof (cases "ids = []")
  case False
  have at: "start + k < length messages \<and> mid (messages ! (start + k)) = ids ! k" if "k < length ids" for k
  proof -
    have "by_id messages (ids ! k) = Some (start + k)"
      using arg_cong [OF assms, where f = "\<lambda>l. l ! k"] that by simp
    then show ?thesis using by_id_Some by blast
  qed
  have "start + length ids \<le> length messages" using at [of "length ids - 1"] False by (cases ids) auto
  then show ?thesis using at by (intro disjI1 conjI nth_equalityI) (auto simp: js_slice_def)
qed simp

lemma unique_outside:
  assumes "messages = before @ targets @ rest" and "\<forall>i\<in>set (map mid targets). \<not> duplicate_id messages i"
    and "m \<in> set (before @ rest)"
  shows "mid m \<notin> set (map mid targets)"
proof
  assume i: "mid m \<in> set (map mid targets)"
  let ?f = "filter (\<lambda>x. mid x = mid m)"
  have "?f (before @ rest) \<noteq> []" unfolding filter_empty_conv using assms(3) by auto
  moreover have "?f targets \<noteq> []" unfolding filter_empty_conv using i by auto
  moreover have "length (?f messages) = length (?f (before @ rest)) + length (?f targets)" by (simp add: assms(1))
  ultimately have "1 < length (?f messages)" by (simp only: length_greater_0_conv [symmetric])
  then have "duplicate_id messages (mid m)" by (simp add: duplicate_id_def)
  with assms(2) i show False by blast
qed

lemma legacy_cases:
  assumes "planOperations plan = None"
  obtains (kept) "fst (materializeCompaction digest messages plan) \<noteq> Applied"
      "snd (materializeCompaction digest messages plan) = messages"
  | (applied) before targets rest where "messages = before @ targets @ rest" "map mid targets = replacedMessageIds plan"
      "distinct (replacedMessageIds plan)" "\<not> list_all isCompactionReplacement targets"
      "\<And>m. m \<in> set (before @ rest) \<Longrightarrow> mid m \<notin> set (replacedMessageIds plan)"
      "pred_option (\<lambda>ds. map (contentDigest digest) targets = ds) (planDigests plan)"
      "materializeCompaction digest messages plan = (Applied, before @ [buildReplacementMessage plan] @ rest)"
proof -
  let ?r = "materializeCompaction digest messages plan" and ?ids = "replacedMessageIds plan"
  let ?start = "the (hd (map (by_id messages) ?ids))"
  let ?T = "js_slice messages ?start (?start + length ?ids)"
  note unfold = materializeCompaction_def [of digest messages plan] assms Let_def
  show ?thesis
  proof (cases "fst ?r = Applied")
    case False
    then have "snd ?r = messages" by (auto simp: unfold split: if_splits option.splits)
    with False show ?thesis by (rule kept)
  next
    case True
    then have ids: "?ids \<noteq> []" "distinct ?ids" "\<not> list_ex (duplicate_id messages) ?ids"
      "map (by_id messages) ?ids = map Some [?start ..< ?start + length ?ids]"
      "\<not> list_all isCompactionReplacement ?T"
      "pred_option (\<lambda>ds. map (contentDigest digest) ?T = ds) (planDigests plan)"
      "?r = (Applied, take ?start messages @ [buildReplacementMessage plan] @ drop (?start + length ?ids) messages)"
      by (auto simp: unfold split: if_splits option.splits)
    note run = ids_of_run [OF ids(4)]
    have split: "messages = take ?start messages @ ?T @ drop (?start + length ?ids) messages"
      using drop_slice [of ?start "?start + length ?ids" messages] by (metis append_take_drop_id le_add1)
    have ids_T: "map mid ?T = ?ids" using run ids(1) by blast
    have out: "mid m \<notin> set ?ids" if "m \<in> set (take ?start messages @ drop (?start + length ?ids) messages)" for m
      using unique_outside [OF split _ that] ids(3) unfolding ids_T list_ex_iff by blast
    from applied [OF split ids_T ids(2,5) out ids(6,7)] show ?thesis .
  qed
qed

section \<open>Properties\<close>

text \<open>C34: A legacy plan replaces exactly the run it names. When it applies, the messages split into a
  prefix, a run whose ids are the listed ones and whose digests match the plan, and a suffix; the
  run becomes the one replacement message and everything else stays. Otherwise nothing changes, and
  the array of the host changes only with status \<open>applied\<close>.\<close>

theorem compaction_replaces_run:
  assumes "planOperations plan = None"
  shows "(\<exists>before targets rest. messages = before @ targets @ rest \<and> map mid targets = replacedMessageIds plan
            \<and> targets \<noteq> [] \<and> pred_option (\<lambda>ds. map (contentDigest digest) targets = ds) (planDigests plan)
            \<and> applyPlanInPlace digest messages plan = (Applied, before @ [buildReplacementMessage plan] @ rest))
    \<or> fst (applyPlanInPlace digest messages plan) \<noteq> Applied \<and> snd (applyPlanInPlace digest messages plan) = messages"
  using assms
proof (cases rule: legacy_cases [of plan digest messages])
  case kept
  then show ?thesis by (cases "materializeCompaction digest messages plan") (simp add: applyPlanInPlace_def)
next
  case (applied before targets rest)
  then have "targets \<noteq> []" by auto
  with applied show ?thesis by (auto simp: applyPlanInPlace_def)
qed

text \<open>Replaying a plan is harmless. Once a plan with an archived history has been applied, applying it
  again is recognised and changes nothing.\<close>

theorem compaction_replay:
  assumes "planOperations plan = None" and "planHistoryHash plan = Some h" and "h \<noteq> []"
    and "replacement_id plan \<notin> set (replacedMessageIds plan)"
    and "materializeCompaction digest messages plan = (Applied, output)"
  shows "materializeCompaction digest output plan = (AlreadyCompacted, output)"
  using assms(1)
proof (cases rule: legacy_cases [of plan digest messages])
  case kept
  then show ?thesis using assms(5) by simp
next
  case (applied before targets rest)
  let ?ids = "replacedMessageIds plan" and ?m = "buildReplacementMessage plan"
  have out: "output = before @ [?m] @ rest" using assms(5) applied(7) by simp
  have m: "mid ?m = replacement_id plan" "isCompactionReplacement ?m"
    using assms(2,3) by (simp_all add: buildReplacementMessage_def isCompactionReplacement_def replacement_id_def compaction_id_def)
  have none: "i \<notin> mid ` set output" if "i \<in> set ?ids" for i
    using applied(5) assms(4) m(1) that by (auto simp: out)
  then have "list_all (\<lambda>i. i = None) (map (by_id output) ?ids)" by (auto simp: list_all_iff by_id_None)
  moreover have "\<not> list_ex (duplicate_id output) ?ids"
  proof -
    have "filter (\<lambda>x. mid x = i) output = []" if "i \<in> set ?ids" for i
      unfolding filter_empty_conv using none [OF that] by auto
    then show ?thesis by (auto simp: list_ex_iff duplicate_id_def)
  qed
  moreover have "?ids \<noteq> []" using applied(2,4) by auto
  moreover have "list_ex (\<lambda>x. mid x = replacement_id plan \<and> isCompactionReplacement x) output" using m by (simp add: out)
  ultimately show ?thesis using assms(1) applied(3) by (simp add: materializeCompaction_def Let_def)
qed

definition demo_plan :: compactionPlan where
  "demo_plan = \<lparr>planHistoryHash = Some (replicate 64 97), planSummary = Some (js ''s''), replacedMessageIds = [js ''m1'', js ''m2''],
     planDigests = Some [replicate 64 48, replicate 64 48], planMemory = None, planOperations = None, planSnapshot = None\<rparr>"

theorem compaction_replaces_run_witness:
  "fst (applyPlanInPlace zero_digest demo_history demo_plan) = Applied
   \<and> (\<exists>before targets rest. demo_history = before @ targets @ rest \<and> map mid targets = [js ''m1'', js ''m2'']
      \<and> applyPlanInPlace zero_digest demo_history demo_plan = (Applied, before @ [buildReplacementMessage demo_plan] @ rest))"
proof -
  have a: "fst (applyPlanInPlace zero_digest demo_history demo_plan) = Applied" by code_simp
  have "planOperations demo_plan = None" "replacedMessageIds demo_plan = [js ''m1'', js ''m2'']" by (simp_all add: demo_plan_def)
  note run = this
  from compaction_replaces_run [OF run(1), of demo_history zero_digest] show ?thesis
    unfolding run(2)
  proof (elim disjE exE conjE)
    fix before targets rest
    assume "demo_history = before @ targets @ rest" "map mid targets = [js ''m1'', js ''m2'']"
      "applyPlanInPlace zero_digest demo_history demo_plan = (Applied, before @ [buildReplacementMessage demo_plan] @ rest)"
    with a show ?thesis by (intro conjI exI)
  qed (use a in simp)
qed

theorem compaction_replay_witness:
  "materializeCompaction zero_digest (snd (materializeCompaction zero_digest demo_history demo_plan)) demo_plan
   = (AlreadyCompacted, snd (materializeCompaction zero_digest demo_history demo_plan))"
proof (rule compaction_replay [where h = "replicate 64 97"])
  have "fst (materializeCompaction zero_digest demo_history demo_plan) = Applied" by code_simp
  then show "materializeCompaction zero_digest demo_history demo_plan
      = (Applied, snd (materializeCompaction zero_digest demo_history demo_plan))" by (metis prod.collapse)
  show "replacement_id demo_plan \<notin> set (replacedMessageIds demo_plan)" by code_simp
qed (simp_all add: demo_plan_def)

end
