(* ===== verification/Memory.thy ===== *)
theory Memory
  imports Turns JS_Regex
begin

text \<open>
  \<open>packages/headroomd/src/memory.ts\<close> and \<open>packages/headroomd/src/summarize.ts\<close>: the extractive memory
  of an archived history and the deterministic summaries. The patterns of the sources are terms of
  the matcher in \<open>JS_Regex\<close>.
\<close>

section \<open>String library\<close>

text \<open>\<open>s.match(/r/g)\<close> from position \<open>i\<close>: after an empty match the search goes on one unit later. The
  bound on the rounds is one for each position.\<close>

primrec re_matches_from :: "nat \<Rightarrow> re \<Rightarrow> jstring \<Rightarrow> nat \<Rightarrow> jstring list" where
  "re_matches_from 0 r s i = []"
| "re_matches_from (Suc k) r s i =
     (case re_exec_from r s i of
        None \<Rightarrow> []
      | Some (a, st) \<Rightarrow> js_slice s a (fst st) # re_matches_from k r s (if fst st = a then Suc a else fst st))"

definition re_matches :: "re \<Rightarrow> jstring \<Rightarrow> jstring list" where
  "re_matches r s = re_matches_from (Suc (length s)) r s 0"

text \<open>\<open>s.replace(/\s+/g, " ")\<close>.\<close>

fun collapse_spaces :: "bool \<Rightarrow> jstring \<Rightarrow> jstring" where
  "collapse_spaces after [] = []"
| "collapse_spaces after (c # s) =
     (if is_space c then (if after then collapse_spaces True s else 32 # collapse_spaces True s)
      else c # collapse_spaces False s)"

definition ascii_lower :: "jstring \<Rightarrow> jstring" where
  "ascii_lower s = map (\<lambda>c. if 65 \<le> c \<and> c \<le> 90 then c + 32 else c) s"

definition rany :: re where "rany = RSet True []"

section \<open>memory.ts\<close>

definition SPAN_RE :: re where
  "SPAN_RE = RSeq (RStar False rany)
     (ralt [RSet False [(0x3002, 0x3002), (0xFF01, 0xFF01), (0xFF1F, 0xFF1F)],
            RSeq (rset ''.!?'') (RLook (RAlt rspace REol)), rchr LF, REol])"

definition span_counts :: "jstring list \<Rightarrow> (jstring, nat) jmap" where
  "span_counts spans = fold (\<lambda>span counts. jmap_set (js_trim span) (get_or counts (js_trim span) 0 + 1) counts) spans []"

definition compactRepetition :: "jstring \<Rightarrow> jstring" where
  "compactRepetition t =
     join_with [LF] (map (\<lambda>(span, count). if 1 < count then span @ js '' [repeated '' @ dec count @ js '' times]'' else span)
       (span_counts (filter (\<lambda>s. js_trim s \<noteq> []) (re_matches SPAN_RE t))))"

definition word_re :: "string list \<Rightarrow> jstring list \<Rightarrow> re" where
  "word_re ws cjk = ralt (rseq [RWordB, ralt (map rlit_i ws), RWordB] # map rstr cjk)"

definition FAILURE_RE :: re where
  "FAILURE_RE = word_re [''failed'', ''failure'', ''fail'', ''error'', ''exception'', ''panic''] [[0x5931, 0x8D25], [0x9519, 0x8BEF]]"
definition OPEN_RE :: re where
  "OPEN_RE = word_re [''todo'', ''pending'', ''next'', ''will'', ''unresolved''] [[0x5F85, 0x529E], [0x4E0B, 0x4E00, 0x6B65], [0x5C1A, 0x672A]]"
definition VERIFIED_RE :: re where
  "VERIFIED_RE = word_re [''verified'', ''passed'', ''success'', ''completed''] [[0x9A8C, 0x8BC1], [0x901A, 0x8FC7], [0x5B8C, 0x6210]]"
definition CHANGED_RE :: re where
  "CHANGED_RE = word_re [''changed'', ''updated'', ''added'', ''removed'', ''fixed''] [[0x4FEE, 0x6539], [0x4FEE, 0x590D], [0x65B0, 0x589E]]"

definition category :: "jstring \<Rightarrow> memoryKind" where
  "category t = (if re_test FAILURE_RE t then Failures else if re_test OPEN_RE t then Open
     else if re_test VERIFIED_RE t then Verification else if re_test CHANGED_RE t then Changes else Decisions)"

definition entry_key :: "memoryEntry \<Rightarrow> jstring" where
  "entry_key e = kind_string (mkind e) @ [0] @ mtext e"

text \<open>\<open>[...new Set([...a, ...b])]\<close>: the first occurrence of each element stays.\<close>

definition set_union :: "'a list \<Rightarrow> 'a list \<Rightarrow> 'a list" where
  "set_union a b = rev (remdups (rev (a @ b)))"

definition add_entry :: "memoryEntry \<Rightarrow> (jstring, memoryEntry) jmap \<Rightarrow> (jstring, memoryEntry) jmap" where
  "add_entry e entries =
     (if js_trim (mtext e) = [] then entries
      else case map_of entries (entry_key e) of
        Some previous \<Rightarrow> jmap_set (entry_key e) (previous\<lparr>msourceIds := set_union (msourceIds previous) (msourceIds e)\<rparr>) entries
      | None \<Rightarrow> jmap_set (entry_key e) e entries)"

definition tool_content :: "toolPart \<Rightarrow> jstring" where
  "tool_content p = join_with [LF] (filter (\<lambda>s. s \<noteq> [])
     [case pinput p of None \<Rightarrow> [] | Some v \<Rightarrow> js ''input: '' @ json_stringify v, or_empty (poutput p), or_empty (perror p)])"

fun part_entry :: "chatMessage \<Rightarrow> part \<Rightarrow> memoryEntry" where
  "part_entry m (TextPart t) =
     \<lparr>mkind = (if mrole m = User then Constraints else category t),
      mtext = (if mrole m = User then t else compactRepetition t), msourceIds = [mid m]\<rparr>"
| "part_entry m (ToolPart p) =
     \<lparr>mkind = (if pstatus p = js ''error'' then Failures else category (tool_content p)),
      mtext = js ''tool '' @ ptool p @ js '' ('' @ pstatus p @ js ''): '' @ compactRepetition (tool_content p),
      msourceIds = [mid m]\<rparr>"

definition carried_memory :: "chatMessage \<Rightarrow> memoryEntry list" where
  "carried_memory m =
     (case marchive m of Some a \<Rightarrow> if mid m = compaction_id (ahistoryHash a) then amemory a else [] | None \<Rightarrow> [])"

text \<open>A replacement message contributes the memory it carries; one without memory its visible parts.\<close>

definition message_entries :: "chatMessage \<Rightarrow> memoryEntry list" where
  "message_entries m = (if carried_memory m \<noteq> [] then carried_memory m else map (part_entry m) (mparts m))"

definition buildMemory :: "chatMessage list \<Rightarrow> memoryEntry list" where
  "buildMemory messages = map snd (fold (\<lambda>m entries. fold add_entry (message_entries m) entries) messages [])"

definition RENDER_KINDS :: "memoryKind list" where
  "RENDER_KINDS = [Constraints, Decisions, Changes, Verification, Failures, Open]"

definition entry_line :: "memoryEntry \<Rightarrow> jstring" where
  "entry_line e = js ''['' @ join_with (js '','') (msourceIds e) @ js ''] '' @ mtext e"

definition renderMemory :: "memoryEntry list \<Rightarrow> jstring" where
  "renderMemory memory =
     join_with [LF] (concat (map (\<lambda>kind.
       let entries = filter (\<lambda>e. mkind e = kind) memory
       in if entries = [] then [] else (kind_string kind @ js '':'') # map entry_line entries) RENDER_KINDS))"

section \<open>summarize.ts\<close>

definition SENTENCE_CAP :: nat where "SENTENCE_CAP = 120"
definition ANCHOR_CAP :: nat where "ANCHOR_CAP = 100"
definition MAX_ACTION_POINTS :: nat where "MAX_ACTION_POINTS = 3"
definition MAX_TOOL_ANCHORS :: nat where "MAX_TOOL_ANCHORS = 5"

definition cap :: "jstring \<Rightarrow> nat \<Rightarrow> jstring" where
  "cap t n = (let flat = js_trim (collapse_spaces False t) in if length flat \<le> n then flat else take (n - 1) flat @ [0x2026])"

definition SENTENCE_RE :: re where
  "SENTENCE_RE = RAlt
     (rseq [RBol, RStar False rany,
        ralt [RSet False [(0x3002, 0x3002), (0xFF01, 0xFF01), (0xFF1F, 0xFF1F), (33, 33), (63, 63), (0xFF1B, 0xFF1B), (59, 59)],
              RSeq (rchr 46) (RLook (RAlt rspace REol)), rchr LF]])
     (rseq [RBol, RStar True rany, REol])"

definition firstSentence :: "jstring \<Rightarrow> jstring" where
  "firstSentence t =
     (let trimmed = js_trim t
      in if trimmed = [] then []
         else cap (js_trim (case re_exec SENTENCE_RE trimmed of None \<Rightarrow> trimmed | Some (a, st) \<Rightarrow> js_slice trimmed a (fst st))) SENTENCE_CAP)"

definition messageText :: "chatMessage \<Rightarrow> jstring" where
  "messageText m = join_with [LF] (List.map_filter text_of (mparts m))"

definition first_nonblank :: "jstring \<Rightarrow> jstring" where
  "first_nonblank t = (case find (\<lambda>l. js_trim l \<noteq> []) (split_on LF t) of None \<Rightarrow> [] | Some l \<Rightarrow> l)"

definition firstToolOutputLine :: "chatMessage \<Rightarrow> (jstring \<times> jstring) list" where
  "firstToolOutputLine m = map (\<lambda>p. (ptool p, first_nonblank (or_empty (poutput p)))) (List.map_filter tool_of (mparts m))"

definition intent_segments :: "turn \<Rightarrow> jstring list" where
  "intent_segments t = (case find (\<lambda>m. mrole m = User \<and> messageText m \<noteq> []) (tmessages t) of
     None \<Rightarrow> [] | Some m \<Rightarrow> [js ''intent: '' @ firstSentence (messageText m)])"

definition action_segments :: "turn \<Rightarrow> jstring list" where
  "action_segments t = map (\<lambda>m. js ''action: '' @ firstSentence (messageText m))
     (take MAX_ACTION_POINTS (filter (\<lambda>m. mrole m = Assistant \<and> js_trim (messageText m) \<noteq> []) (tmessages t)))"

definition tool_segment :: "jstring \<times> jstring \<Rightarrow> jstring" where
  "tool_segment anchor = js ''tool '' @ fst anchor @ js '': '' @ cap (snd anchor) ANCHOR_CAP"

definition anchor_segments :: "turn \<Rightarrow> jstring list" where
  "anchor_segments t = map tool_segment (take MAX_TOOL_ANCHORS (concat (map firstToolOutputLine (tmessages t))))"

definition turnSummary :: "turn \<Rightarrow> jstring" where
  "turnSummary t = join_with (js '' | '') (intent_segments t @ action_segments t @ anchor_segments t)"

definition historySummary :: "turn list \<Rightarrow> jstring" where
  "historySummary turns = renderMemory (buildMemory (concat (map tmessages turns)))"

definition messageSummary :: "chatMessage \<Rightarrow> jstring" where
  "messageSummary m =
     (let tag = (if mrole m = User then (if isCompactionReplacement m then js ''compacted-history'' else js ''user'') else js ''assistant'');
          t = js_trim (messageText m)
      in if t = []
         then (let tools = firstToolOutputLine m
               in if tools = [] then tag @ js '': (empty)'' else tag @ js '': '' @ join_with (js '' | '') (map tool_segment (take 2 tools)))
         else tag @ js '': '' @ firstSentence t)"

fun excerpt_part :: "part \<Rightarrow> jstring" where
  "excerpt_part (TextPart t) = t"
| "excerpt_part (ToolPart p) = join_with [LF]
     [ptool p, case pinput p of None \<Rightarrow> [] | Some v \<Rightarrow> json_stringify v, or_empty (poutput p), or_empty (perror p)]"

definition messageExcerpt :: "chatMessage \<Rightarrow> jstring" where
  "messageExcerpt m = join_with [LF] (map excerpt_part (mparts m))"

definition messageTokens :: "chatMessage \<Rightarrow> nat" where
  "messageTokens m = estimateTokens (messageExcerpt m)"

definition STOPWORDS :: "jstring list" where
  "STOPWORDS = map js [''the'', ''a'', ''an'', ''and'', ''or'', ''of'', ''to'', ''in'', ''is'', ''are'', ''was'', ''were'', ''for'',
       ''on'', ''with'', ''at'', ''by'', ''it'', ''this'', ''that'', ''be'', ''as'', ''from'']
     @ [[0x7684], [0x4E86], [0x662F], [0x5728], [0x6211], [0x6709], [0x548C], [0x5C31], [0x4E0D], [0x4EBA], [0x90FD],
        [0x4E00, 0x4E2A], [0x4E0A], [0x4E5F], [0x5F88], [0x5230], [0x8BF4], [0x8981], [0x53BB], [0x4F60], [0x4F1A],
        [0x7740], [0x6CA1, 0x6709], [0x770B]]"

definition cjk_char :: "jstring \<Rightarrow> bool" where
  "cjk_char ch \<longleftrightarrow> length ch = 1 \<and> (0x3040 \<le> hd ch \<and> hd ch \<le> 0x30FF \<or> 0x3400 \<le> hd ch \<and> hd ch \<le> 0x9FFF \<or> 0xF900 \<le> hd ch \<and> hd ch \<le> 0xFAFF)"

definition WORD_RE :: re where
  "WORD_RE = RSeq (RSet False [(65, 90), (97, 122), (95, 95)]) (RStar True (RSet False [(65, 90), (97, 122), (48, 57), (95, 95), (45, 45)]))"

definition keyword_tokens :: "jstring \<Rightarrow> jstring list" where
  "keyword_tokens t = map ascii_lower (re_matches WORD_RE t) @ filter cjk_char (code_points t)"

definition counted_token :: "jstring \<Rightarrow> bool" where
  "counted_token w \<longleftrightarrow> w \<noteq> [] \<and> w \<notin> set STOPWORDS \<and> \<not> list_all (\<lambda>c. 48 \<le> c \<and> c \<le> 57) w"

definition term_counts :: "jstring \<Rightarrow> (jstring, nat) jmap" where
  "term_counts t = fold (\<lambda>w counts. jmap_set w (get_or counts w 0 + 1) counts) (filter counted_token (keyword_tokens t)) []"

definition ranked_terms :: "jstring \<Rightarrow> (jstring \<times> nat) list" where
  "ranked_terms t = sort_key (\<lambda>(w, n). - int n) (term_counts t)"

definition keyword_terms :: "jstring \<Rightarrow> nat \<Rightarrow> jstring" where
  "keyword_terms t limit = join_with (js '' '') (map fst (take limit (ranked_terms t)))"

section \<open>Memory keeps its evidence\<close>

lemma kind_string_nonzero: "list_all (\<lambda>c. c \<noteq> 0) (kind_string k)"
  by (cases k) (simp_all add: js_def)

lemma entry_key_inj: "entry_key e = entry_key e' \<longleftrightarrow> mkind e = mkind e' \<and> mtext e = mtext e'"
proof
  assume eq: "entry_key e = entry_key e'"
  have cut: "takeWhile (\<lambda>c. c \<noteq> 0) (entry_key x) = kind_string (mkind x)"
    "drop (length (kind_string (mkind x)) + 1) (entry_key x) = mtext x" for x
    using kind_string_nonzero [of "mkind x"] by (simp_all add: entry_key_def takeWhile_append2 list_all_iff)
  from cut(1) [of e] cut(1) [of e'] eq have "mkind e = mkind e'" by (simp add: kind_string_inj)
  with cut(2) [of e] cut(2) [of e'] eq show "mkind e = mkind e' \<and> mtext e = mtext e'" by simp
qed (simp add: entry_key_def)

definition entries_ok :: "(jstring, memoryEntry) jmap \<Rightarrow> bool" where
  "entries_ok m \<longleftrightarrow> jmap_all (\<lambda>k e. k = entry_key e \<and> js_trim (mtext e) \<noteq> []) m"

text \<open>An entry of the same kind and text that names at least the same sources.\<close>

definition covers :: "memoryEntry \<Rightarrow> memoryEntry \<Rightarrow> bool" where
  "covers e' e \<longleftrightarrow> mkind e' = mkind e \<and> mtext e' = mtext e \<and> set (msourceIds e) \<subseteq> set (msourceIds e')"

definition remembered :: "(jstring, memoryEntry) jmap \<Rightarrow> memoryEntry \<Rightarrow> bool" where
  "remembered m e \<longleftrightarrow> (\<exists>e'. map_of m (entry_key e) = Some e' \<and> covers e' e)"

lemma set_set_union [simp]: "set (set_union a b) = set a \<union> set b"
  by (auto simp: set_union_def)

lemma add_entry_ok: "entries_ok m \<Longrightarrow> entries_ok (add_entry e m)"
  unfolding entries_ok_def add_entry_def
  by (auto simp: entry_key_def [of "_\<lparr>msourceIds := _\<rparr>"] split: option.splits intro!: jmap_all_set)
    (auto simp: jmap_all_def entry_key_def dest!: map_of_SomeD)

lemma entries_ok_get: "entries_ok m \<Longrightarrow> map_of m (entry_key e) = Some e' \<Longrightarrow> mkind e' = mkind e \<and> mtext e' = mtext e"
  by (drule map_of_SomeD) (auto simp: entries_ok_def jmap_all_def entry_key_inj [symmetric])

lemma add_entry_remembers:
  assumes "entries_ok m" and "js_trim (mtext e) \<noteq> []" shows "remembered (add_entry e m) e"
proof (cases "map_of m (entry_key e)")
  case (Some e')
  with entries_ok_get [OF assms(1) Some] assms(2) show ?thesis
    by (simp add: remembered_def add_entry_def covers_def map_of_jmap_set)
qed (use assms(2) in \<open>simp add: remembered_def add_entry_def covers_def map_of_jmap_set\<close>)

lemma add_entry_keeps:
  assumes "remembered m x" shows "remembered (add_entry e m) x"
  using assms by (auto simp: remembered_def add_entry_def covers_def map_of_jmap_set split: option.splits)

lemma fold_add_ok: "entries_ok m \<Longrightarrow> entries_ok (fold add_entry es m)"
  by (induction es arbitrary: m) (auto simp: add_entry_ok)

lemma fold_add_keeps: "remembered m x \<Longrightarrow> remembered (fold add_entry es m) x"
  by (induction es arbitrary: m) (auto simp: add_entry_keeps)

lemma fold_add_remembers:
  "entries_ok m \<Longrightarrow> e \<in> set es \<Longrightarrow> js_trim (mtext e) \<noteq> [] \<Longrightarrow> remembered (fold add_entry es m) e"
proof (induction es arbitrary: m)
  case (Cons a es)
  then show ?case using add_entry_remembers [of m e] fold_add_keeps by (auto simp: add_entry_ok)
qed simp

lemma buildMemory_fold: "buildMemory ms = map snd (fold add_entry (concat (map message_entries ms)) [])"
proof -
  have "fold (\<lambda>m entries. fold add_entry (message_entries m) entries) ms m0 = fold add_entry (concat (map message_entries ms)) m0" for m0
    by (induction ms arbitrary: m0) simp_all
  then show ?thesis by (simp add: buildMemory_def)
qed

lemma buildMemory_covers:
  assumes "m \<in> set ms" and "e \<in> set (message_entries m)" and "js_trim (mtext e) \<noteq> []"
  shows "\<exists>e'\<in>set (buildMemory ms). covers e' e"
proof -
  have "remembered (fold add_entry (concat (map message_entries ms)) []) e"
    using assms by (intro fold_add_remembers) (auto simp: entries_ok_def)
  then show ?thesis by (force simp: remembered_def buildMemory_fold dest: map_of_SomeD)
qed

lemma entries_distinct: "entries_ok m \<Longrightarrow> distinct (map (\<lambda>e. (mkind e, mtext e)) (map snd m))"
proof (induction m)
  case (Cons a m)
  obtain k e where a: "a = (k, e)" by (cases a)
  have "(mkind e, mtext e) \<noteq> (mkind (snd b), mtext (snd b))" if "b \<in> set m" for b
  proof -
    have "k = entry_key e" "fst b = entry_key (snd b)" "k \<noteq> fst b"
      using Cons(2) that by (cases b; force simp: entries_ok_def jmap_all_def a)+
    then show ?thesis by (auto simp: entry_key_inj)
  qed
  moreover have "entries_ok m" using Cons(2) by (simp add: entries_ok_def jmap_all_def a)
  ultimately show ?case using Cons(1) by (auto simp: a)
qed simp

lemma buildMemory_distinct: "distinct (map (\<lambda>e. (mkind e, mtext e)) (buildMemory ms))"
  unfolding buildMemory_fold by (intro entries_distinct fold_add_ok) (simp add: entries_ok_def)

lemma join_member: "x \<in> set xs \<Longrightarrow> \<exists>a b. join_with sep xs = a @ x @ b"
proof (induction sep xs rule: join_with.induct)
  case (3 sep x' y ys)
  show ?case
  proof (cases "x = x'")
    case False
    with 3 obtain a b where "join_with sep (y # ys) = a @ x @ b" by auto
    then have "join_with sep (x' # y # ys) = (x' @ sep @ a) @ x @ b" by simp
    then show ?thesis by blast
  qed (metis append.left_neutral join_with.simps(3))
qed (auto intro: exI [of _ "[]"])

lemma render_shows: "e \<in> set memory \<Longrightarrow> \<exists>a b. renderMemory memory = a @ entry_line e @ b"
proof -
  assume e: "e \<in> set memory"
  have "mkind e \<in> set RENDER_KINDS" by (cases "mkind e") (simp_all add: RENDER_KINDS_def)
  moreover have "filter (\<lambda>x. mkind x = mkind e) memory \<noteq> []" using e by (auto simp: filter_empty_conv)
  ultimately have "entry_line e \<in> set (concat (map (\<lambda>kind.
       let entries = filter (\<lambda>e. mkind e = kind) memory
       in if entries = [] then [] else (kind_string kind @ js '':'') # map entry_line entries) RENDER_KINDS))"
    using e unfolding set_concat set_map Let_def by (intro UN_I [OF imageI [of "mkind e"]]) auto
  then show ?thesis unfolding renderMemory_def by (rule join_member)
qed

lemma message_entry_text:
  "TextPart t \<in> set (mparts m) \<Longrightarrow> carried_memory m = [] \<Longrightarrow> part_entry m (TextPart t) \<in> set (message_entries m)"
  by (simp add: message_entries_def del: part_entry.simps)

section \<open>Bounded summaries and ranked terms\<close>

lemma cap_bound: "1 \<le> n \<Longrightarrow> length (cap t n) \<le> n"
  by (simp add: cap_def Let_def)

lemma firstSentence_bound: "length (firstSentence t) \<le> SENTENCE_CAP"
  by (simp add: firstSentence_def Let_def cap_bound SENTENCE_CAP_def)

text \<open>The counts are frequencies, each counted term once.\<close>

lemma count_fold:
  "distinct (jmap_keys m) \<Longrightarrow> distinct (jmap_keys (fold (\<lambda>w c. jmap_set w (get_or c w 0 + 1) c) ws m))
     \<and> (\<forall>w. get_or (fold (\<lambda>w c. jmap_set w (get_or c w 0 + 1) c) ws m) w 0 = get_or m w 0 + count_list ws w)
     \<and> set (jmap_keys (fold (\<lambda>w c. jmap_set w (get_or c w 0 + 1) c) ws m)) = set (jmap_keys m) \<union> set ws"
proof (induction ws arbitrary: m)
  case (Cons a ws)
  have "distinct (jmap_keys (jmap_set a (get_or m a 0 + 1) m))" using Cons(2) by (rule distinct_jmap_set)
  from Cons(1) [OF this] show ?case by (auto simp: get_or_set keys_jmap_set simp del: set_map)
qed simp

lemma term_counts_spec:
  "distinct (jmap_keys (term_counts t))"
  "set (term_counts t) = {(w, count_list (keyword_tokens t) w) | w. w \<in> set (keyword_tokens t) \<and> counted_token w}"
proof -
  let ?ws = "filter counted_token (keyword_tokens t)"
  note c = count_fold [of "[] :: (jstring, nat) jmap" ?ws, folded term_counts_def, simplified]
  show d: "distinct (jmap_keys (term_counts t))" using c by simp
  have cnt: "counted_token w \<Longrightarrow> count_list (filter counted_token ws) w = count_list ws w" for w ws
    by (induction ws) auto
  have "(w, n) \<in> set (term_counts t) \<longleftrightarrow> w \<in> set ?ws \<and> n = count_list ?ws w" for w n
  proof -
    have "(w, n) \<in> set (term_counts t) \<longleftrightarrow> map_of (term_counts t) w = Some n" using d by simp
    also have "\<dots> \<longleftrightarrow> w \<in> set (jmap_keys (term_counts t)) \<and> get_or (term_counts t) w 0 = n"
      by (cases "map_of (term_counts t) w") (force simp: get_or_def map_of_eq_None_iff dest: map_of_SomeD)+
    finally show ?thesis using c by (auto simp: get_or_def)
  qed
  then show "set (term_counts t) = {(w, count_list (keyword_tokens t) w) | w. w \<in> set (keyword_tokens t) \<and> counted_token w}"
    using cnt by auto
qed

section \<open>Properties\<close>

text \<open>A user request is never paraphrased away. Every non-blank text of a user message that is not an
  archive with memory of its own becomes a constraint of the memory word for word, with the message
  as its source, and the rendered summary shows it; the memory lists no kind and text twice.\<close>

theorem user_requests_verbatim:
  assumes "m \<in> set messages" and "mrole m = User" and "carried_memory m = []"
    and "TextPart t \<in> set (mparts m)" and "js_trim t \<noteq> []"
  shows "distinct (map (\<lambda>e. (mkind e, mtext e)) (buildMemory messages))
    \<and> (\<exists>e\<in>set (buildMemory messages). mkind e = Constraints \<and> mtext e = t \<and> mid m \<in> set (msourceIds e)
         \<and> (\<exists>a b. historySummary (splitTurns messages) = a @ entry_line e @ b))"
proof -
  obtain e where e: "e \<in> set (buildMemory messages)" "covers e (part_entry m (TextPart t))"
    using buildMemory_covers [OF assms(1) message_entry_text [OF assms(4,3)]] assms(2,5) by auto
  have "historySummary (splitTurns messages) = renderMemory (buildMemory messages)"
    using split_fold [of messages] by (simp add: historySummary_def turns_ok_def splitTurns_def)
  with e assms(2) render_shows [OF e(1)] buildMemory_distinct show ?thesis by (auto simp: covers_def)
qed

definition demo_chat :: "chatMessage list" where
  "demo_chat = [\<lparr>mid = js ''u1'', mrole = User, mparts = [TextPart (js ''keep me'')], mprotected = None, marchive = None\<rparr>]"

theorem user_requests_verbatim_witness:
  "\<exists>e\<in>set (buildMemory demo_chat). mkind e = Constraints \<and> mtext e = js ''keep me'' \<and> js ''u1'' \<in> set (msourceIds e)"
  using user_requests_verbatim [of "hd demo_chat" demo_chat "js ''keep me''"]
  by (simp add: demo_chat_def carried_memory_def) (simp add: js_def js_trim_def is_space_def, blast)

text \<open>Memory survives repeated compaction. Every non-blank entry carried by an archive in the history is
  in the new memory with the same kind and text and at least the same sources.\<close>

theorem memory_carried_over:
  assumes "m \<in> set messages" and "e \<in> set (carried_memory m)" and "js_trim (mtext e) \<noteq> []"
  shows "\<exists>e'\<in>set (buildMemory messages). mkind e' = mkind e \<and> mtext e' = mtext e \<and> set (msourceIds e) \<subseteq> set (msourceIds e')"
proof -
  have "e \<in> set (message_entries m)" using assms(2) by (auto simp: message_entries_def)
  from buildMemory_covers [OF assms(1) this assms(3)] show ?thesis by (auto simp: covers_def)
qed

definition demo_archive :: chatMessage where
  "demo_archive = \<lparr>mid = compaction_id (js ''h''), mrole = User, mparts = [], mprotected = None,
     marchive = Some \<lparr>ahistoryHash = js ''h'', amemory = [\<lparr>mkind = Open, mtext = js ''todo'', msourceIds = [js ''u0'']\<rparr>],
                      anodeIds = None, aprotectedMemory = None\<rparr>\<rparr>"

theorem memory_carried_over_witness:
  "\<exists>e'\<in>set (buildMemory [demo_archive]). mkind e' = Open \<and> mtext e' = js ''todo'' \<and> js ''u0'' \<in> set (msourceIds e')"
  using memory_carried_over [of demo_archive "[demo_archive]" "\<lparr>mkind = Open, mtext = js ''todo'', msourceIds = [js ''u0'']\<rparr>"]
  by (simp add: demo_archive_def carried_memory_def) (simp add: js_def js_trim_def is_space_def)

text \<open>Keywords are the most frequent terms. The ranking lists every counted term once with its number of
  occurrences, by falling frequency, and the result takes the first ones.\<close>

theorem keyword_terms_ranked:
  "set (ranked_terms t) = {(w, count_list (keyword_tokens t) w) | w. w \<in> set (keyword_tokens t) \<and> counted_token w}
   \<and> distinct (map fst (ranked_terms t)) \<and> sorted_wrt (\<ge>) (map snd (ranked_terms t))
   \<and> keyword_terms t limit = join_with (js '' '') (take limit (map fst (ranked_terms t)))"
proof -
  have "sorted (map (\<lambda>x. - int (snd x)) (ranked_terms t))"
    unfolding ranked_terms_def case_prod_unfold by (rule sorted_sort_key)
  then have "sorted_wrt (\<ge>) (map snd (ranked_terms t))" unfolding sorted_map sorted_wrt_map by simp
  moreover have "distinct (map fst (ranked_terms t))"
    using term_counts_spec(1) [of t] by (simp add: ranked_terms_def distinct_map)
  ultimately show ?thesis using term_counts_spec(2) [of t] by (simp add: ranked_terms_def keyword_terms_def take_map)
qed

end
