(* ===== verification/Headroom_Plan.thy ===== *)
theory Headroom_Plan
  imports Compaction Memory JS_Number
begin

text \<open>
  Planning a compaction. The legacy planner is \<open>compress\<close> and \<open>planArchive\<close> of
  \<open>packages/headroomd/src/engine.ts\<close> up to the point where rows are written; the contract of its
  result is \<open>headroomCompressResultSchema\<close> of \<open>packages/contracts/src/headroom.ts\<close> with the alignment of
  operations and sources. Token counts are integers, so that a gain may be negative.
\<close>

section \<open>Parameters and results\<close>

datatype planStrategy = Legacy | Layered

fun DEFAULT_RETAIN_RECENT_TURNS :: "planStrategy \<Rightarrow> nat" where
  "DEFAULT_RETAIN_RECENT_TURNS Legacy = 4"
| "DEFAULT_RETAIN_RECENT_TURNS Layered = 1"

record planParams =
  ppMessages :: "chatMessage list"
  ppWindow :: rat
  ppTarget :: "rat option"
  ppEpoch :: "jstring option"
  ppProtectedIds :: "jstring list option"
  ppRetain :: nat

text \<open>The transform of the parameter schema: an omitted number of turns takes the default of the strategy.\<close>

definition retain_turns :: "planStrategy option \<Rightarrow> nat option \<Rightarrow> nat" where
  "retain_turns strategy given =
     (case given of Some n \<Rightarrow> n | None \<Rightarrow> DEFAULT_RETAIN_RECENT_TURNS (case strategy of None \<Rightarrow> Legacy | Some s \<Rightarrow> s))"

record compactionRef =
  refHash :: jstring
  refRole :: role
  refTurn :: nat

record headroomResult =
  hrCompacted :: bool
  hrBudgetExceeded :: "bool option"
  hrHistoryHash :: "jstring option"
  hrSummary :: "jstring option"
  hrRefs :: "compactionRef list"
  hrReplacedIds :: "jstring list"
  hrDigests :: "jstring list option"
  hrMemory :: "memoryEntry list option"
  hrEpoch :: "jstring option"
  hrOperations :: "viewOperation list option"
  hrSnapshot :: "sourceSnapshot option"
  hrRaw :: int
  hrSummaryTokens :: int
  hrSource :: int
  hrEvicted :: int
  hrRetained :: int
  hrReplacement :: int
  hrFinal :: int
  hrFreed :: int

section \<open>The contract of a result\<close>

record alignState =
  alTouched :: "jstring list"
  alIds :: "jstring list"
  alSpans :: "(jstring \<times> int, (int \<times> int option) list) jmap"
  alWhole :: "jstring list"

definition snapshot_entry :: "sourceSnapshot \<Rightarrow> jstring \<Rightarrow> (nat \<times> jstring) option" where
  "snapshot_entry snap i = map_of (rev (zip (snapIds snap) (zip [0 ..< length (snapIds snap)] (snapDigests snap)))) i"

text \<open>The loop over the sources of one operation; \<open>first\<close> is the position of the first one.\<close>

fun align_sources :: "sourceSnapshot \<Rightarrow> bool \<Rightarrow> nat \<Rightarrow> nat \<Rightarrow> (jstring \<times> jstring) list \<Rightarrow> alignState \<Rightarrow> alignState option" where
  "align_sources snap ranged first i [] st = Some st"
| "align_sources snap ranged first i ((m, d) # rest) st =
     (case snapshot_entry snap m of
        None \<Rightarrow> None
      | Some (k, h) \<Rightarrow>
          if h \<noteq> d then None
          else if ranged \<and> k \<noteq> first + i then None
          else let st1 = st\<lparr>alTouched := List.insert m (alTouched st)\<rparr>
               in if ranged \<and> m \<in> set (alWhole st1) then None
                  else align_sources snap ranged first (i + 1) rest
                         (if ranged then st1\<lparr>alWhole := m # alWhole st1\<rparr> else st1))"

fun op_sources :: "viewOperation \<Rightarrow> (jstring \<times> jstring) list" where
  "op_sources (RangeOp i v n ids ds r) = zip ids ds"
| "op_sources (ToolOutputOp i v n m d p od r) = [(m, d)]"
| "op_sources (TextRangeOp i v n m d p s e td r) = [(m, d)]"

fun op_span :: "viewOperation \<Rightarrow> (int \<times> int option) option" where
  "op_span (RangeOp i v n ids ds r) = None"
| "op_span (ToolOutputOp i v n m d p od r) = Some (0, None)"
| "op_span (TextRangeOp i v n m d p s e td r) = Some (s, Some e)"

definition align_op :: "sourceSnapshot \<Rightarrow> viewOperation \<Rightarrow> alignState \<Rightarrow> alignState option" where
  "align_op snap op st =
     (if operationId op \<in> set (alIds st) then None
      else let st1 = st\<lparr>alIds := operationId op # alIds st\<rparr>;
               first = (case snapshot_entry snap (fst (hd (op_sources op))) of None \<Rightarrow> 0 | Some (k, h) \<Rightarrow> k)
           in case align_sources snap (op_span op = None) first 0 (op_sources op) st1 of
                None \<Rightarrow> None
              | Some st2 \<Rightarrow>
                  (case op_span op of
                     None \<Rightarrow> Some st2
                   | Some sp \<Rightarrow>
                       (let key = (opMessageId op, opPartIndex op)
                        in Some (st2\<lparr>alSpans := jmap_set key (get_or (alSpans st2) key [] @ [sp]) (alSpans st2)\<rparr>))))"

fun align_ops :: "sourceSnapshot \<Rightarrow> viewOperation list \<Rightarrow> alignState \<Rightarrow> alignState option" where
  "align_ops snap [] st = Some st"
| "align_ops snap (op # ops) st = (case align_op snap op st of None \<Rightarrow> None | Some st' \<Rightarrow> align_ops snap ops st')"

fun spans_disjoint :: "(int \<times> int option) list \<Rightarrow> bool" where
  "spans_disjoint ((a, b) # (c, d) # rest) \<longleftrightarrow> (case b of None \<Rightarrow> False | Some e \<Rightarrow> e \<le> c) \<and> spans_disjoint ((c, d) # rest)"
| "spans_disjoint spans \<longleftrightarrow> True"

definition operationSourcesAligned :: "headroomResult \<Rightarrow> bool" where
  "operationSourcesAligned r =
     (case hrOperations r of
        None \<Rightarrow> True
      | Some ops \<Rightarrow>
          if \<not> hrCompacted r then ops = []
          else if ops = [] then False
          else case hrSnapshot r of
            None \<Rightarrow> False
          | Some snap \<Rightarrow>
              (case align_ops snap ops \<lparr>alTouched = [], alIds = [], alSpans = [], alWhole = []\<rparr> of
                 None \<Rightarrow> False
               | Some st \<Rightarrow>
                   list_all (\<lambda>op. op_span op = None \<or> opMessageId op \<notin> set (alWhole st)) ops
                   \<and> list_all (\<lambda>(key, spans). spans_disjoint (sort_key fst spans)) (alSpans st)
                   \<and> (let ordered = filter (\<lambda>m. m \<in> set (alTouched st)) (snapIds snap)
                      in length ordered = length (hrReplacedIds r)
                         \<and> list_all (\<lambda>(i, m). m = hrReplacedIds r ! i
                              \<and> (case hrDigests r of
                                   None \<Rightarrow> False
                                 | Some ds \<Rightarrow> i < length ds \<and> map_option snd (snapshot_entry snap m) = Some (ds ! i)))
                              (zip [0 ..< length ordered] ordered))))"

definition result_numbers :: "headroomResult \<Rightarrow> int list" where
  "result_numbers r = [hrRaw r, hrSummaryTokens r, hrSource r, hrEvicted r, hrRetained r, hrReplacement r, hrFinal r, hrFreed r]"

definition headroomResult_refine :: "headroomResult \<Rightarrow> bool" where
  "headroomResult_refine r \<longleftrightarrow>
     operationSourcesAligned r \<and> hrRaw r = hrSource r \<and> hrFinal r = hrRetained r + hrReplacement r
     \<and> hrFreed r = hrSource r - hrFinal r
     \<and> (if hrCompacted r
        then (case hrDigests r of
                None \<Rightarrow> False
              | Some ds \<Rightarrow> length ds = length (hrReplacedIds r) \<and> length ds = length (hrRefs r) \<and> 0 < length ds
                           \<and> distinct (hrReplacedIds r) \<and> ds = map refHash (hrRefs r))
             \<and> hrMemory r \<noteq> None \<and> hrHistoryHash r \<noteq> None \<and> hrSummary r \<noteq> None
             \<and> hrSource r = hrEvicted r + hrRetained r \<and> 0 < hrFreed r
        else hrHistoryHash r = None \<and> hrSummary r = None \<and> hrFreed r = 0 \<and> hrRefs r = [] \<and> hrReplacedIds r = []
             \<and> hrEvicted r = 0 \<and> hrRetained r = hrSource r \<and> hrReplacement r = 0)"

text \<open>The whole schema: the shapes of the fields, and the refinement.\<close>

definition headroomCompressResult_valid :: "headroomResult \<Rightarrow> bool" where
  "headroomCompressResult_valid r \<longleftrightarrow>
     pred_option (list_all viewOperation_valid) (hrOperations r)
     \<and> pred_option (\<lambda>s. length (snapIds s) = length (snapDigests s) \<and> distinct (snapIds s) \<and> list_all validHash (snapDigests s)) (hrSnapshot r)
     \<and> pred_option (list_all validHash) (hrDigests r) \<and> pred_option validHash (hrHistoryHash r)
     \<and> list_all (\<lambda>ref. validHash (refHash ref)) (hrRefs r) \<and> list_all (\<lambda>n. 0 \<le> n) (result_numbers r)
     \<and> headroomResult_refine r"

section \<open>The legacy planner\<close>

record archivePlan =
  apTurns :: "turn list"
  apMessages :: "chatMessage list"
  apHashes :: "jstring list"
  apHistoryHash :: jstring
  apSummary :: jstring
  apSummaryTokens :: nat

definition planArchive :: "(byte list \<Rightarrow> byte list) \<Rightarrow> turn list \<Rightarrow> archivePlan" where
  "planArchive digest oldTurns =
     (let messages = concat (map tmessages oldTurns); summary = historySummary oldTurns
      in \<lparr>apTurns = oldTurns, apMessages = messages, apHashes = map (contentDigest digest) messages,
          apHistoryHash = historyHash digest oldTurns, apSummary = summary, apSummaryTokens = estimateTokens summary\<rparr>)"

fun turn_index_loop :: "nat \<Rightarrow> nat \<Rightarrow> turn list \<Rightarrow> nat option" where
  "turn_index_loop flatIndex cursor [] = None"
| "turn_index_loop flatIndex cursor (t # ts) =
     (if flatIndex < cursor + length (tmessages t) then Some (tindex t)
      else turn_index_loop flatIndex (cursor + length (tmessages t)) ts)"

definition turnIndexOf :: "turn list \<Rightarrow> nat \<Rightarrow> nat" where
  "turnIndexOf turns flatIndex =
     (case turn_index_loop flatIndex 0 turns of
        Some i \<Rightarrow> i
      | None \<Rightarrow> if turns = [] then 0 else tindex (last turns))"

definition turn_blocked :: "jstring list \<Rightarrow> turn \<Rightarrow> bool" where
  "turn_blocked protectedIds t \<longleftrightarrow>
     list_ex (\<lambda>m. is_protected m \<or> mid m \<in> set protectedIds \<or> list_ex (\<lambda>p. \<not> completed_part p) (mparts m)) (tmessages t)"

text \<open>The turns that may be archived: all but the retained ones, up to the first blocked turn.\<close>

definition old_turns :: "planParams \<Rightarrow> turn list" where
  "old_turns params =
     (let turns = splitTurns (ppMessages params);
          tailCount = min (ppRetain params + 1) (length turns);
          candidateTurns = take (length turns - max 1 tailCount) turns
      in takeWhile (\<lambda>t. \<not> turn_blocked (case ppProtectedIds params of None \<Rightarrow> [] | Some ids \<Rightarrow> ids) t) candidateTurns)"

definition tokens_of :: "chatMessage list \<Rightarrow> int" where
  "tokens_of ms = int (sum_list (map messageTokens ms))"

definition target_tokens :: "planParams \<Rightarrow> rat" where
  "target_tokens params = (case ppTarget params of Some t \<Rightarrow> t | None \<Rightarrow> of_int \<lfloor>fmul (ppWindow params) (rd (55 / 100))\<rfloor>)"

text \<open>The replacement the planner weighs: its text does not depend on the ids and digests.\<close>

definition archive_plan :: "archivePlan \<Rightarrow> jstring list \<Rightarrow> jstring list option \<Rightarrow> compactionPlan" where
  "archive_plan plan ids ds =
     \<lparr>planHistoryHash = Some (apHistoryHash plan), planSummary = Some (apSummary plan), replacedMessageIds = ids, planDigests = ds,
      planMemory = Some (buildMemory (apMessages plan)), planOperations = None, planSnapshot = None\<rparr>"

definition plan_gain :: "archivePlan \<Rightarrow> int" where
  "plan_gain plan = tokens_of (apMessages plan) - int (messageTokens (buildReplacementMessage (archive_plan plan [] None)))"

text \<open>The loop over the number of archived turns; it stops at the first one that reaches the target.\<close>

fun plan_loop :: "(byte list \<Rightarrow> byte list) \<Rightarrow> turn list \<Rightarrow> int \<Rightarrow> rat \<Rightarrow> nat list \<Rightarrow> archivePlan \<Rightarrow> archivePlan" where
  "plan_loop digest oldTurns rawTokens target [] plan = plan"
| "plan_loop digest oldTurns rawTokens target (count # counts) plan =
     (let candidate = planArchive digest (take count oldTurns); gain = plan_gain candidate
      in if 0 < gain \<and> of_int (rawTokens - gain) \<le> target then candidate
         else plan_loop digest oldTurns rawTokens target counts (if 0 < gain then candidate else plan))"

definition inert_result :: "int \<Rightarrow> headroomResult" where
  "inert_result rawTokens =
     \<lparr>hrCompacted = False, hrBudgetExceeded = None, hrHistoryHash = None, hrSummary = None, hrRefs = [], hrReplacedIds = [],
      hrDigests = None, hrMemory = None, hrEpoch = None, hrOperations = None, hrSnapshot = None, hrRaw = rawTokens, hrSummaryTokens = 0,
      hrSource = rawTokens, hrEvicted = 0, hrRetained = rawTokens, hrReplacement = 0, hrFinal = rawTokens, hrFreed = 0\<rparr>"

definition chosen_plan :: "(byte list \<Rightarrow> byte list) \<Rightarrow> planParams \<Rightarrow> archivePlan" where
  "chosen_plan digest params =
     (let oldTurns = old_turns params
      in plan_loop digest oldTurns (tokens_of (ppMessages params)) (target_tokens params) [1 ..< length oldTurns + 1]
           (planArchive digest oldTurns))"

definition plan_result :: "planParams \<Rightarrow> archivePlan \<Rightarrow> headroomResult" where
  "plan_result params plan =
     (let rawTokens = tokens_of (ppMessages params);
          evicted = tokens_of (apMessages plan);
          retained = rawTokens - evicted;
          refs = map (\<lambda>(i, m). \<lparr>refHash = apHashes plan ! i, refRole = mrole m, refTurn = turnIndexOf (apTurns plan) i\<rparr>)
                   (zip [0 ..< length (apMessages plan)] (apMessages plan));
          replacement = int (messageTokens (buildReplacementMessage
                          (archive_plan plan (map mid (apMessages plan)) (Some (apHashes plan)))));
          final = retained + replacement
      in \<lparr>hrCompacted = True, hrBudgetExceeded = Some (target_tokens params < of_int final),
          hrHistoryHash = Some (apHistoryHash plan), hrSummary = Some (apSummary plan), hrRefs = refs,
          hrReplacedIds = map mid (apMessages plan), hrDigests = Some (apHashes plan), hrMemory = Some (buildMemory (apMessages plan)),
          hrEpoch = ppEpoch params, hrOperations = None, hrSnapshot = None, hrRaw = rawTokens,
          hrSummaryTokens = int (apSummaryTokens plan), hrSource = rawTokens, hrEvicted = evicted, hrRetained = retained,
          hrReplacement = replacement, hrFinal = final, hrFreed = rawTokens - final\<rparr>)"

definition compress_plan :: "(byte list \<Rightarrow> byte list) \<Rightarrow> planParams \<Rightarrow> archivePlan option \<times> headroomResult" where
  "compress_plan digest params =
     (if old_turns params = [] then (None, inert_result (tokens_of (ppMessages params)))
      else let plan = chosen_plan digest params; result = plan_result params plan
           in if hrFreed result \<le> 0 then (None, inert_result (tokens_of (ppMessages params))) else (Some plan, result))"

section \<open>What the planner archives is a prefix of whole turns\<close>

lemma plan_loop_prefix:
  assumes "plan = planArchive digest (take k oldTurns)" and "1 \<le> k" and "list_all (\<lambda>n. 1 \<le> n) counts"
  shows "\<exists>j\<ge>1. plan_loop digest oldTurns raw target counts plan = planArchive digest (take j oldTurns)"
  using assms
proof (induction counts arbitrary: plan k)
  case (Cons c cs)
  show ?case
  proof (cases "0 < plan_gain (planArchive digest (take c oldTurns))")
    case True
    with Cons(1) [OF refl, of c] Cons(4) show ?thesis by (auto simp: Let_def)
  next
    case False
    with Cons(1) [OF Cons(2)] Cons(3,4) show ?thesis by (simp add: Let_def)
  qed
qed auto

lemma chosen_prefix:
  assumes "old_turns params \<noteq> []"
  shows "\<exists>j\<ge>1. chosen_plan digest params = planArchive digest (take j (old_turns params))"
  using plan_loop_prefix [of "planArchive digest (old_turns params)" digest "length (old_turns params)" "old_turns params" "[1 ..< length (old_turns params) + 1]"]
    assms by (auto simp: chosen_plan_def Let_def list_all_iff Suc_le_eq simp del: upt_Suc)

lemma takeWhile_take: "takeWhile P (take n xs) = take (length (takeWhile P (take n xs))) xs"
  by (metis takeWhile_eq_take take_take min_def length_take takeWhile_eq_take length_takeWhile_le)

text \<open>The archived turns are a prefix of the turns that ends before the retained ones.\<close>

lemma old_turns_prefix:
  "\<exists>n. old_turns params = take n (splitTurns (ppMessages params))
     \<and> n \<le> length (splitTurns (ppMessages params)) - max 1 (min (ppRetain params + 1) (length (splitTurns (ppMessages params))))"
proof -
  let ?ts = "splitTurns (ppMessages params)"
  let ?c = "length ?ts - max 1 (min (ppRetain params + 1) (length ?ts))"
  let ?P = "\<lambda>t. \<not> turn_blocked (case ppProtectedIds params of None \<Rightarrow> [] | Some ids \<Rightarrow> ids) t"
  have "old_turns params = take (length (takeWhile ?P (take ?c ?ts))) ?ts"
    unfolding old_turns_def Let_def by (rule takeWhile_take)
  moreover have "length (takeWhile ?P (take ?c ?ts)) \<le> ?c"
    using length_takeWhile_le [of ?P "take ?c ?ts"] by simp
  ultimately show ?thesis by blast
qed

lemma old_turns_free: "t \<in> set (old_turns params) \<Longrightarrow> \<not> turn_blocked (case ppProtectedIds params of None \<Rightarrow> [] | Some ids \<Rightarrow> ids) t"
  unfolding old_turns_def Let_def by (drule set_takeWhileD) simp

lemma split_ok: "turns_ok ms (splitTurns ms)"
  using split_fold [of ms] by (simp add: splitTurns_def)

lemma split_concat: "concat (map tmessages (splitTurns ms)) = ms"
  using split_ok [of ms] by (simp add: turns_ok_def)

lemma split_nonempty: "t \<in> set (splitTurns ms) \<Longrightarrow> tmessages t \<noteq> []"
  using split_ok [of ms] by (auto simp: turns_ok_def turn_ok_def list_all_iff)

text \<open>The run a plan names, and what stays behind it.\<close>

lemma chosen_run:
  assumes "old_turns params \<noteq> []"
  obtains run rest kept where "ppMessages params = run @ rest" "run \<noteq> []" "apMessages (chosen_plan digest params) = run"
    "apHashes (chosen_plan digest params) = map (contentDigest digest) run"
    "rest = kept @ concat (map tmessages (drop (length (splitTurns (ppMessages params)) - (ppRetain params + 1)) (splitTurns (ppMessages params))))"
    "\<And>m. m \<in> set run \<Longrightarrow> \<not> is_protected m \<and> mid m \<notin> set (case ppProtectedIds params of None \<Rightarrow> [] | Some ids \<Rightarrow> ids)
       \<and> list_all completed_part (mparts m)"
proof -
  let ?ts = "splitTurns (ppMessages params)"
  obtain j where j: "1 \<le> j" "chosen_plan digest params = planArchive digest (take j (old_turns params))"
    using chosen_prefix [OF assms] by blast
  obtain n where n: "old_turns params = take n ?ts"
      "n \<le> length ?ts - max 1 (min (ppRetain params + 1) (length ?ts))" using old_turns_prefix by blast
  define k where "k = min j n"
  have take_k: "take j (old_turns params) = take k ?ts" by (simp add: n k_def)
  let ?cut = "length ?ts - (ppRetain params + 1)"
  have le: "k \<le> ?cut" using n(2) by (auto simp: k_def)
  let ?run = "concat (map tmessages (take k ?ts))" and ?rest = "concat (map tmessages (drop k ?ts))"
  have "ppMessages params = ?run @ ?rest" using split_concat [of "ppMessages params"]
    by (metis append_take_drop_id concat_append map_append)
  moreover have "?run \<noteq> []"
  proof -
    have "take j (old_turns params) \<noteq> []" using assms j(1) by simp
    then obtain t where "t \<in> set (take k ?ts)" using take_k by (metis list.set_intros(1) neq_Nil_conv)
    then show ?thesis using split_nonempty [of t] by (auto dest: in_set_takeD)
  qed
  moreover have "drop k ?ts = take (?cut - k) (drop k ?ts) @ drop ?cut ?ts"
    using le by (metis append_take_drop_id drop_drop le_add_diff_inverse2)
  then have "?rest = concat (map tmessages (take (?cut - k) (drop k ?ts))) @ concat (map tmessages (drop ?cut ?ts))"
    by (metis concat_append map_append)
  moreover have "\<not> is_protected m \<and> mid m \<notin> set (case ppProtectedIds params of None \<Rightarrow> [] | Some ids \<Rightarrow> ids)
       \<and> list_all completed_part (mparts m)" if mem: "m \<in> set ?run" for m
  proof -
    obtain t where t: "t \<in> set (take k ?ts)" "m \<in> set (tmessages t)" using mem by auto
    then have "t \<in> set (old_turns params)" using take_k by (metis in_set_takeD)
    from old_turns_free [OF this] t(2) show ?thesis by (auto simp: turn_blocked_def list_ex_iff list_all_iff)
  qed
  ultimately show ?thesis using j(2) take_k by (intro that [of ?run ?rest]) (simp_all add: planArchive_def Let_def)
qed

lemma tokens_append [simp]: "tokens_of (xs @ ys) = tokens_of xs + tokens_of ys"
  by (simp add: tokens_of_def)

lemma tokens_Cons [simp]: "tokens_of (m # ms) = int (messageTokens m) + tokens_of ms"
  by (simp add: tokens_of_def)

lemma tokens_nonneg [simp]: "0 \<le> tokens_of ms"
  by (simp add: tokens_of_def)

section \<open>The plan of a result\<close>

definition result_plan :: "headroomResult \<Rightarrow> compactionPlan" where
  "result_plan r = \<lparr>planHistoryHash = hrHistoryHash r, planSummary = hrSummary r, replacedMessageIds = hrReplacedIds r,
     planDigests = hrDigests r, planMemory = hrMemory r, planOperations = hrOperations r, planSnapshot = hrSnapshot r\<rparr>"

lemma result_plan_archive:
  "result_plan (plan_result params plan) = archive_plan plan (map mid (apMessages plan)) (Some (apHashes plan))"
  by (simp add: result_plan_def plan_result_def archive_plan_def Let_def)

lemma result_replacement:
  "hrReplacement (plan_result params plan) = int (messageTokens (buildReplacementMessage (result_plan (plan_result params plan))))"
  unfolding result_plan_archive by (simp add: plan_result_def Let_def)

lemma by_id_distinct:
  assumes "distinct (map mid messages)" and "k < length messages"
  shows "by_id messages (mid (messages ! k)) = Some k"
  using map_of_zip_nth [of "map mid messages" "[0 ..< length messages]" k] assms by (simp add: by_id_def)

lemma not_duplicate: "distinct (map mid messages) \<Longrightarrow> \<not> duplicate_id messages i"
proof -
  assume "distinct (map mid messages)"
  then have "length (filter (\<lambda>m. mid m = i) messages) \<le> 1"
    by (induction messages) (auto simp: filter_empty_conv image_iff)
  then show ?thesis by (simp add: duplicate_id_def)
qed

lemma materialize_prefix:
  assumes "distinct (map mid (run @ rest))" and "run \<noteq> []" and "\<not> list_all isCompactionReplacement run"
    and "planOperations plan = None" and "replacedMessageIds plan = map mid run"
    and "planDigests plan = Some (map (contentDigest digest) run)"
  shows "materializeCompaction digest (run @ rest) plan = (Applied, buildReplacementMessage plan # rest)"
proof -
  have idx: "map (by_id (run @ rest)) (map mid run) = map Some [0 ..< 0 + length (map mid run)]"
  proof (intro nth_equalityI)
    fix i assume "i < length (map (by_id (run @ rest)) (map mid run))"
    then show "map (by_id (run @ rest)) (map mid run) ! i = map Some [0 ..< 0 + length (map mid run)] ! i"
      using by_id_distinct [OF assms(1), of i] by (simp add: nth_append)
  qed simp
  have some: "\<not> list_all (\<lambda>i. i = None) (map (by_id (run @ rest)) (map mid run))"
    "\<not> list_ex (\<lambda>i. i = None) (map (by_id (run @ rest)) (map mid run))"
    unfolding idx using assms(2) by (auto simp: list_all_iff list_ex_iff)
  have start: "the (hd (map Some [0 ..< length run])) = 0"
    using assms(2) by (simp add: hd_map)
  have nodup: "\<not> list_ex (duplicate_id (run @ rest)) (map mid run)"
    using not_duplicate [OF assms(1)] by (simp add: list_ex_iff)
  have sl: "js_slice (run @ rest) 0 (0 + length (map mid run)) = run" by (simp add: js_slice_def)
  show ?thesis
    unfolding materializeCompaction_def assms(4) option.case Let_def assms(5)
    using assms(1,2,3,6) some nodup unfolding idx by (simp add: start sl [simplified])
qed

lemma result_refs:
  "map refHash (hrRefs (plan_result params plan)) = map (\<lambda>i. apHashes plan ! i) [0 ..< length (apMessages plan)]"
  by (intro nth_equalityI) (simp_all add: plan_result_def Let_def case_prod_unfold)

lemma plan_result_simps [simp]:
  "hrCompacted (plan_result params plan)" "hrOperations (plan_result params plan) = None" "hrSnapshot (plan_result params plan) = None"
  "hrReplacedIds (plan_result params plan) = map mid (apMessages plan)" "hrDigests (plan_result params plan) = Some (apHashes plan)"
  "hrMemory (plan_result params plan) = Some (buildMemory (apMessages plan))"
  "hrHistoryHash (plan_result params plan) = Some (apHistoryHash plan)" "hrSummary (plan_result params plan) = Some (apSummary plan)"
  "length (hrRefs (plan_result params plan)) = length (apMessages plan)"
  "hrRaw (plan_result params plan) = tokens_of (ppMessages params)" "hrSource (plan_result params plan) = tokens_of (ppMessages params)"
  "hrEvicted (plan_result params plan) = tokens_of (apMessages plan)"
  "hrRetained (plan_result params plan) = tokens_of (ppMessages params) - tokens_of (apMessages plan)"
  "hrFinal (plan_result params plan) = hrRetained (plan_result params plan) + hrReplacement (plan_result params plan)"
  "hrFreed (plan_result params plan) = hrRaw (plan_result params plan) - hrFinal (plan_result params plan)"
  "0 \<le> hrReplacement (plan_result params plan)" "0 \<le> hrSummaryTokens (plan_result params plan)"
  by (simp_all add: plan_result_def Let_def)

lemma plan_result_valid:
  assumes "apMessages plan = run" and "ppMessages params = run @ rest" and "run \<noteq> []" and "distinct (map mid run)"
    and "apHashes plan = map f run" and "list_all (\<lambda>m. validHash (f m)) run" and "validHash (apHistoryHash plan)"
    and "0 < hrFreed (plan_result params plan)"
  shows "headroomCompressResult_valid (plan_result params plan)"
proof -
  have refs: "map refHash (hrRefs (plan_result params plan)) = apHashes plan"
    unfolding result_refs using assms(1,5) by (intro nth_equalityI) simp_all
  have "list_all (\<lambda>ref. validHash (refHash ref)) (hrRefs (plan_result params plan)) = list_all validHash (map refHash (hrRefs (plan_result params plan)))"
    by (simp add: list.pred_map comp_def)
  also have "\<dots>" unfolding refs assms(5) using assms(6) by (simp add: list.pred_map comp_def)
  finally have "list_all (\<lambda>ref. validHash (refHash ref)) (hrRefs (plan_result params plan))" .
  moreover have "headroomResult_refine (plan_result params plan)"
    unfolding headroomResult_refine_def operationSourcesAligned_def using refs assms by simp
  moreover have "list_all (\<lambda>n. 0 \<le> n) (result_numbers (plan_result params plan))"
    unfolding result_numbers_def using assms(1,2,8) by simp
  ultimately show ?thesis
    unfolding headroomCompressResult_valid_def using assms by (simp add: list.pred_map comp_def)
qed

section \<open>Properties\<close>

text \<open>C27: Every result of the legacy planner satisfies the published contract. The token accounts balance, a
  result that compacts frees tokens and lists its sources with their digests, and any other result
  is inert. Message ids must be distinct.\<close>

theorem legacy_result_valid:
  assumes "digest_ok digest" and "distinct (map mid (ppMessages params))"
  shows "headroomCompressResult_valid (snd (compress_plan digest params))"
proof (cases "old_turns params = [] \<or> hrFreed (plan_result params (chosen_plan digest params)) \<le> 0")
  case True
  then show ?thesis
    by (auto simp: compress_plan_def headroomCompressResult_valid_def headroomResult_refine_def operationSourcesAligned_def
        inert_result_def result_numbers_def Let_def)
next
  case False
  let ?plan = "chosen_plan digest params"
  obtain run rest where run: "ppMessages params = run @ rest" "run \<noteq> []" "apMessages ?plan = run"
      "apHashes ?plan = map (contentDigest digest) run"
    using chosen_run [of params digest] False by metis
  have hash: "validHash (contentDigest digest m)" for m
    by (simp add: contentDigest_def hashText_def validHash_sha [OF assms(1)])
  have hist: "validHash (apHistoryHash ?plan)"
    using chosen_prefix [of params digest] False
    by (auto simp: planArchive_def Let_def historyHash_def hashText_def validHash_sha [OF assms(1)])
  have "headroomCompressResult_valid (plan_result params ?plan)"
    using plan_result_valid [OF run(3) run(1) run(2) _ run(4)] assms(2) run(1) hash hist False by (simp add: list_all_iff)
  with False show ?thesis by (simp add: compress_plan_def Let_def)
qed

definition demo_talk :: planParams where
  "demo_talk = \<lparr>ppMessages =
       [\<lparr>mid = js ''u1'', mrole = User, mparts = replicate 7 (TextPart (replicate 32 97)), mprotected = None, marchive = None\<rparr>,
        \<lparr>mid = js ''u2'', mrole = User, mparts = [TextPart (js ''go on'')], mprotected = None, marchive = None\<rparr>],
     ppWindow = 1000, ppTarget = Some 0, ppEpoch = None, ppProtectedIds = None, ppRetain = 0\<rparr>"

theorem legacy_result_valid_witness:
  "headroomCompressResult_valid (snd (compress_plan (\<lambda>_. replicate 32 0) demo_talk))"
  by (rule legacy_result_valid) (simp_all add: digest_ok_def demo_talk_def)


lemma demo_frees: "0 < hrFreed (snd (compress_plan (\<lambda>_. replicate 32 0) demo_talk))"
  by code_simp


end
