(* ===== verification/Objects.thy ===== *)
theory Objects
  imports Operations Paging
begin

text \<open>
  Stored messages: \<open>packages/headroomd/src/store/objects.ts\<close>. A message is stored under its content
  digest as gzipped JSON; reading it back parses the schema \<open>chatMessageSchema\<close> of
  \<open>packages/contracts/src/headroom.ts\<close> and checks the digest again.

  Parameters: \<open>gzip\<close> and \<open>gunzip\<close> are those of the runtime; \<open>gunzip\<close> fails with \<open>None\<close> on damaged input
  and on an output above its limit of 64 MiB. The code relies on the law \<open>gzip_ok\<close>.
\<close>

lemma pred_option_code [code]:
  "pred_option P None = True"
  "pred_option P (Some x) = P x"
  by simp_all

section \<open>The message schema\<close>

definition parse_opt_string :: "json \<Rightarrow> string \<Rightarrow> (jstring option) option" where
  "parse_opt_string j k =
     (case json_get j (js k) of None \<Rightarrow> Some None | Some (JStr s) \<Rightarrow> Some (Some s) | _ \<Rightarrow> None)"

text \<open>An array all of whose members parse.\<close>

fun parse_all :: "('a \<Rightarrow> 'b option) \<Rightarrow> 'a list \<Rightarrow> 'b list option" where
  "parse_all f [] = Some []"
| "parse_all f (x # xs) = (case f x of None \<Rightarrow> None | Some y \<Rightarrow> map_option (\<lambda>ys. y # ys) (parse_all f xs))"

definition parse_array :: "(json \<Rightarrow> 'b option) \<Rightarrow> json option \<Rightarrow> 'b list option" where
  "parse_array f j = (case j of Some (JArr vs) \<Rightarrow> parse_all f vs | _ \<Rightarrow> None)"

definition parse_opt_array :: "(json \<Rightarrow> 'b option) \<Rightarrow> json option \<Rightarrow> ('b list option) option" where
  "parse_opt_array f j = (case j of None \<Rightarrow> Some None | Some v \<Rightarrow> map_option Some (parse_array f (Some v)))"

fun parse_string :: "json \<Rightarrow> jstring option" where
  "parse_string (JStr s) = Some s"
| "parse_string _ = None"

definition parse_hash :: "json \<Rightarrow> jstring option" where
  "parse_hash j = (case j of JStr s \<Rightarrow> if validHash s then Some s else None | _ \<Rightarrow> None)"

definition textPartSchema :: "json \<Rightarrow> part option" where
  "textPartSchema j =
     (if get_string j ''type'' = Some (js ''text'') then map_option TextPart (get_string j ''text'') else None)"

definition toolPartSchema :: "json \<Rightarrow> part option" where
  "toolPartSchema j =
     (if get_string j ''type'' \<noteq> Some (js ''tool'') then None
      else case (get_string j ''tool'', parse_opt_string j ''callId'', json_get j (js ''state'')) of
        (Some t, Some c, Some (JObj kvs)) \<Rightarrow>
          (case (get_string (JObj kvs) ''status'', parse_opt_string (JObj kvs) ''error'', parse_opt_string (JObj kvs) ''output'') of
             (Some st, Some e, Some u) \<Rightarrow>
               Some (ToolPart \<lparr>ptool = t, pcallId = c, pinput = json_get j (js ''input''), pstatus = st, perror = e, poutput = u\<rparr>)
           | _ \<Rightarrow> None)
      | _ \<Rightarrow> None)"

definition partSchema :: "json \<Rightarrow> part option" where
  "partSchema j = (case textPartSchema j of Some p \<Rightarrow> Some p | None \<Rightarrow> toolPartSchema j)"

definition MEMORY_KINDS :: "memoryKind list" where
  "MEMORY_KINDS = [Constraints, Decisions, Changes, Verification, Failures, Open]"

definition parse_kind :: "jstring \<Rightarrow> memoryKind option" where
  "parse_kind s = map_of (map (\<lambda>k. (kind_string k, k)) MEMORY_KINDS) s"

definition memoryEntrySchema :: "json \<Rightarrow> memoryEntry option" where
  "memoryEntrySchema j =
     (case (Option.bind (get_string j ''kind'') parse_kind, get_string j ''text'', parse_array parse_string (json_get j (js ''sourceIds''))) of
        (Some k, Some t, Some ids) \<Rightarrow> Some \<lparr>mkind = k, mtext = t, msourceIds = ids\<rparr>
      | _ \<Rightarrow> None)"

definition archiveSchema :: "json \<Rightarrow> archive option" where
  "archiveSchema j =
     (case (Option.bind (json_get j (js ''historyHash'')) parse_hash, parse_array memoryEntrySchema (json_get j (js ''memory'')),
            parse_opt_array parse_hash (json_get j (js ''nodeIds'')), parse_opt_array memoryEntrySchema (json_get j (js ''protectedMemory''))) of
        (Some h, Some es, Some ns, Some pm) \<Rightarrow> Some \<lparr>ahistoryHash = h, amemory = es, anodeIds = ns, aprotectedMemory = pm\<rparr>
      | _ \<Rightarrow> None)"

definition parse_role :: "jstring \<Rightarrow> role option" where
  "parse_role s = map_of [(js ''user'', User), (js ''assistant'', Assistant)] s"

definition infoSchema :: "json option \<Rightarrow> (jstring \<times> role) option" where
  "infoSchema j =
     (case j of
        Some (JObj kvs) \<Rightarrow>
          (case (get_string (JObj kvs) ''id'', Option.bind (get_string (JObj kvs) ''role'') parse_role) of
             (Some i, Some r) \<Rightarrow> Some (i, r)
           | _ \<Rightarrow> None)
      | _ \<Rightarrow> None)"

definition parse_opt_bool :: "json option \<Rightarrow> (bool option) option" where
  "parse_opt_bool j = (case j of None \<Rightarrow> Some None | Some (JBool b) \<Rightarrow> Some (Some b) | _ \<Rightarrow> None)"

definition parse_opt_archive :: "json option \<Rightarrow> (archive option) option" where
  "parse_opt_archive j = (case j of None \<Rightarrow> Some None | Some v \<Rightarrow> map_option Some (archiveSchema v))"

definition chatMessageSchema :: "json \<Rightarrow> chatMessage option" where
  "chatMessageSchema j =
     (case (infoSchema (json_get j (js ''info'')), parse_array partSchema (json_get j (js ''parts'')),
            parse_opt_bool (json_get j (js ''protected'')), parse_opt_archive (json_get j (js ''archive''))) of
        (Some (i, r), Some ps, Some pr, Some a) \<Rightarrow>
          Some \<lparr>mid = i, mrole = r, mparts = ps, mprotected = pr, marchive = a\<rparr>
      | _ \<Rightarrow> None)"

text \<open>The parsed message as an object: known keys in the order of the schema.\<close>

definition message_json :: "chatMessage \<Rightarrow> json" where
  "message_json m =
     JObj ([(js ''info'', JObj [(js ''id'', JStr (mid m)), (js ''role'', JStr (role_string (mrole m)))]),
            (js ''parts'', JArr (map part_json (mparts m)))]
       @ opt_field ''protected'' JBool (mprotected m) @ opt_field ''archive'' archive_json (marchive m))"

section \<open>Reading and writing\<close>

datatype objectError = ObjCas casError | ObjDamaged | ObjSchema | ObjMismatch

definition writeMessageObject :: "(byte list \<Rightarrow> byte list) \<Rightarrow> (byte list \<Rightarrow> byte list) \<Rightarrow> (fs \<Rightarrow> fs) \<Rightarrow> ioFault option \<Rightarrow> jstring
    \<Rightarrow> jstring \<Rightarrow> chatMessage \<Rightarrow> jstring \<Rightarrow> fs \<Rightarrow> (objectError, writeObjectResult) result \<times> fs" where
  "writeMessageObject digest gzip env fault uuid dataDir message contentHash f =
     (if \<not> chatMessage_valid message then (Inl ObjSchema, f)
      else if contentDigest digest message \<noteq> contentHash then (Inl ObjMismatch, f)
      else case writeObjectAs env fault uuid dataDir contentHash (gzip (utf8_encode (json_stringify (message_json message)))) f of
        (Inl e, f') \<Rightarrow> (Inl (ObjCas e), f')
      | (Inr r, f') \<Rightarrow> (Inr r, f'))"

definition readMessageObject :: "(byte list \<Rightarrow> byte list) \<Rightarrow> (byte list \<Rightarrow> byte list option) \<Rightarrow> (fs \<Rightarrow> fs) \<Rightarrow> jstring \<Rightarrow> jstring \<Rightarrow> fs
    \<Rightarrow> (objectError, chatMessage option) result" where
  "readMessageObject digest gunzip env dataDir hash f =
     (case readObjectAs env dataDir hash f of
        Inl e \<Rightarrow> Inl (ObjCas e)
      | Inr None \<Rightarrow> Inr None
      | Inr (Some bytes) \<Rightarrow>
          (case gunzip bytes of
             None \<Rightarrow> Inl ObjDamaged
           | Some body \<Rightarrow>
               (case json_parse (utf8_decode body) of
                  None \<Rightarrow> Inl ObjDamaged
                | Some v \<Rightarrow>
                    (case chatMessageSchema v of
                       None \<Rightarrow> Inl ObjSchema
                     | Some m \<Rightarrow>
                         if contentDigest digest m \<noteq> hash \<and> legacyContentHash digest m \<noteq> hash then Inl ObjMismatch
                         else Inr (Some m)))))"

fun part_lines :: "part \<Rightarrow> jstring list" where
  "part_lines (TextPart t) = [t]"
| "part_lines (ToolPart p) =
     [js ''[tool:'' @ ptool p @ js ''] '' @ pstatus p]
     @ (case pinput p of None \<Rightarrow> [] | Some v \<Rightarrow> [json_stringify v])
     @ (if or_empty (poutput p) \<noteq> [] then [or_empty (poutput p)] else [])
     @ (if or_empty (perror p) \<noteq> [] then [or_empty (perror p)] else [])"

definition renderProjection :: "chatMessage \<Rightarrow> jstring" where
  "renderProjection m =
     join_with [LF] ((js ''['' @ role_string (mrole m) @ js '']'') # concat (map part_lines (mparts m)))"

section \<open>The schema reads back what was written\<close>

lemma parse_all_map: "(\<And>x. x \<in> set xs \<Longrightarrow> f (g x) = Some (h x)) \<Longrightarrow> parse_all f (map g xs) = Some (map h xs)"
  by (induction xs) auto

lemma parse_role_string [simp]: "parse_role (role_string r) = Some r"
  by (cases r) (simp_all add: parse_role_def)

lemma parse_kind_string [simp]: "parse_kind (kind_string k) = Some k"
  by (cases k) (simp_all add: parse_kind_def MEMORY_KINDS_def)

lemma partSchema_json: "partSchema (part_json p) = Some p"
  by (cases p)
    (auto simp: partSchema_def textPartSchema_def toolPartSchema_def get_string_def parse_opt_string_def opt_field_def split: option.splits)

lemma memoryEntrySchema_json: "memoryEntrySchema (memory_json e) = Some e"
  using parse_all_map [of "msourceIds e" parse_string JStr id]
  by (simp add: memoryEntrySchema_def memory_json_def get_string_def parse_array_def)

lemma archiveSchema_json: "archive_valid a \<Longrightarrow> archiveSchema (archive_json a) = Some a"
  using parse_all_map [of "amemory a" memoryEntrySchema memory_json id]
    parse_all_map [of "the (aprotectedMemory a)" memoryEntrySchema memory_json id]
    parse_all_map [of "the (anodeIds a)" parse_hash JStr id]
  by (cases a)
    (auto simp: archiveSchema_def archive_json_def archive_valid_def opt_field_def parse_array_def parse_opt_array_def parse_hash_def
      memoryEntrySchema_json list_all_iff split: option.splits)

lemma chatMessageSchema_json: "chatMessage_valid m \<Longrightarrow> chatMessageSchema (message_json m) = Some m"
  using parse_all_map [of "mparts m" partSchema part_json id]
  by (cases m)
    (auto simp: chatMessageSchema_def message_json_def chatMessage_valid_def infoSchema_def get_string_def opt_field_def parse_array_def
      parse_opt_bool_def parse_opt_archive_def partSchema_json archiveSchema_json split: option.splits)

lemma plain_message_json: "message_plain m \<Longrightarrow> plain (message_json m)"
  by (cases "mrole m")
    (auto simp: message_json_def message_plain_def opt_field_def list.pred_map comp_def plain_archive
      split: option.splits intro: list_all_mono plain_part)

lemma message_text:
  assumes "message_plain m"
  shows "json_parse (utf8_decode (utf8_encode (json_stringify (message_json m)))) = Some (message_json m)"
proof -
  note p = plain_message_json [OF assms]
  have "well_formed (json_stringify (message_json m))" using line_ok_stringify [OF p] by (simp add: line_ok_def)
  moreover have "hd (json_stringify (message_json m)) \<noteq> 0xFEFF" using stringify_head [OF p] by auto
  ultimately show ?thesis by (simp add: utf8_decode_encode json_parse_stringify [OF p])
qed

section \<open>Stored messages come back\<close>

definition gzip_ok :: "(byte list \<Rightarrow> byte list) \<Rightarrow> (byte list \<Rightarrow> byte list option) \<Rightarrow> bool" where
  "gzip_ok gzip gunzip \<longleftrightarrow> (\<forall>bs. length bs \<le> 64 * 1024 * 1024 \<longrightarrow> gunzip (gzip bs) = Some bs)"

definition object_bytes :: "(byte list \<Rightarrow> byte list) \<Rightarrow> chatMessage \<Rightarrow> byte list" where
  "object_bytes gzip m = gzip (utf8_encode (json_stringify (message_json m)))"

definition storable :: "chatMessage \<Rightarrow> bool" where
  "storable m \<longleftrightarrow> message_plain m \<and> chatMessage_valid m \<and> byteLength (json_stringify (message_json m)) \<le> 64 * 1024 * 1024"

lemma readObjectAs_lookup: "lookup_at d h f = Some bs \<Longrightarrow> only_adds env \<Longrightarrow> readObjectAs env d h f = Inr (Some bs)"
  by (auto simp: readObjectAs_def lookup_at_def stat_read_def only_adds_def split: sum.splits option.splits)

lemma read_stored:
  assumes "gzip_ok gzip gunzip" and "storable m" and "only_adds env" and "lookup_at d (contentDigest digest m) f = Some (object_bytes gzip m)"
  shows "readMessageObject digest gunzip env d (contentDigest digest m) f = Inr (Some m)"
proof -
  let ?body = "utf8_encode (json_stringify (message_json m))"
  have "gunzip (object_bytes gzip m) = Some ?body"
    using assms(1,2) by (simp add: gzip_ok_def object_bytes_def storable_def byteLength_def)
  moreover have "json_parse (utf8_decode ?body) = Some (message_json m)" "chatMessageSchema (message_json m) = Some m"
    using assms(2) by (simp_all add: message_text chatMessageSchema_json storable_def)
  ultimately show ?thesis using readObjectAs_lookup [OF assms(4,3)] by (simp add: readMessageObject_def)
qed

lemma write_stored:
  assumes "writeMessageObject digest gzip env fault uuid d m h f = (Inr r, f')"
  shows "h = contentDigest digest m \<and> chatMessage_valid m \<and> lookup_at d h f' = Some (object_bytes gzip m)"
proof -
  have ok: "chatMessage_valid m" "contentDigest digest m = h"
    using assms by (auto simp: writeMessageObject_def split: if_splits)
  then have "write_at False env fault uuid d h (object_bytes gzip m) f = (Inr r, f')"
    using assms by (auto simp: writeMessageObject_def writeObjectAs_def object_bytes_def split: prod.splits sum.splits if_splits)
  from write_at_result [OF this] ok show ?thesis by simp
qed

section \<open>Properties\<close>

text \<open>A stored message comes back whole. When writing a message under its digest succeeded, reading the
  digest returns the same message, parts, tool states, memory and archive reference included, however
  often other processes add objects in between.\<close>

theorem message_object_round_trip:
  assumes "gzip_ok gzip gunzip" and "message_plain m" and "byteLength (json_stringify (message_json m)) \<le> 64 * 1024 * 1024"
    and "only_adds env'" and "writeMessageObject digest gzip env fault uuid dataDir m contentHash f = (Inr r, f')"
  shows "readMessageObject digest gunzip env' dataDir contentHash f' = Inr (Some m)"
proof -
  from write_stored [OF assms(5)] have "contentHash = contentDigest digest m" "storable m"
    "lookup_at dataDir (contentDigest digest m) f' = Some (object_bytes gzip m)"
    using assms(2,3) by (auto simp: storable_def)
  with read_stored [OF assms(1) _ assms(4)] show ?thesis by simp
qed

definition demo_message :: chatMessage where
  "demo_message = \<lparr>mid = js ''m'', mrole = Assistant,
     mparts = [TextPart (js ''done''), ToolPart \<lparr>ptool = js ''read'', pcallId = None, pinput = Some (JObj [(js ''path'', JStr (js ''/a''))]),
       pstatus = js ''completed'', perror = None, poutput = Some (js ''x'')\<rparr>], mprotected = Some True, marchive = None\<rparr>"

theorem message_object_round_trip_witness:
  "readMessageObject (\<lambda>_. replicate 32 0) Some (\<lambda>f. f) (js ''/d'') (replicate 64 48)
     (snd (writeMessageObject (\<lambda>_. replicate 32 0) (\<lambda>bs. bs) (\<lambda>f. f) None (js ''u'') (js ''/d'') demo_message (replicate 64 48) (\<lambda>_. None)))
   = Inr (Some demo_message)"
proof -
  let ?w = "writeMessageObject (\<lambda>_. replicate 32 0) (\<lambda>bs. bs) (\<lambda>f. f) None (js ''u'') (js ''/d'') demo_message (replicate 64 48) (\<lambda>_. None)"
  have "isl (fst ?w) = False" by code_simp
  then obtain r f' where w: "?w = (Inr r, f')" by (metis isl_def obj_sumE prod.collapse)
  have "message_plain demo_message" "byteLength (json_stringify (message_json demo_message)) \<le> 64 * 1024 * 1024" by code_simp+
  from message_object_round_trip [OF _ this _ w, of Some "\<lambda>f. f"] show ?thesis by (simp add: w gzip_ok_def)
qed

end
