(* ===== verification/Fts.thy ===== *)
theory Fts
  imports Memory Wire
begin

text \<open>
  The search index of headroomd: \<open>packages/headroomd/src/store/fts.ts\<close> and
  \<open>packages/headroomd/src/search-focus.ts\<close>. The tables of \<open>index.db\<close> are lists of rows. Matching and
  ranking are those of the SQLite FTS5 extension: \<open>bm25 expression rows row\<close> is the score of a row of
  the virtual table for a match expression, \<open>None\<close> for a row that does not match. \<open>lower\<close> stands for
  \<open>toLowerCase\<close> where it is applied to arbitrary text.
\<close>

section \<open>Text preparation\<close>

definition cjk_unit :: "code_unit \<Rightarrow> bool" where
  "cjk_unit c \<longleftrightarrow> 0x3040 \<le> c \<and> c \<le> 0x30FF \<or> 0x3400 \<le> c \<and> c \<le> 0x4DBF \<or> 0x4E00 \<le> c \<and> c \<le> 0x9FFF \<or> 0xF900 \<le> c \<and> c \<le> 0xFAFF"

text \<open>Every maximal run of CJK characters is joined with spaces.\<close>

fun segmentForIndex :: "jstring \<Rightarrow> jstring" where
  "segmentForIndex (c # d # s) =
     (if cjk_unit c \<and> cjk_unit d then c # 32 # segmentForIndex (d # s) else c # segmentForIndex (d # s))"
| "segmentForIndex s = s"

text \<open>One pass of the replacement, from left to right without overlaps, and the loop until nothing changes.\<close>

fun desegment_pass :: "jstring \<Rightarrow> jstring" where
  "desegment_pass (a # b # c # s) =
     (if cjk_unit a \<and> b = 32 \<and> cjk_unit c then a # c # desegment_pass s else a # desegment_pass (b # c # s))"
| "desegment_pass s = s"

lemma desegment_pass_length: "length (desegment_pass s) \<le> length s"
  by (induction s rule: desegment_pass.induct) auto

lemma desegment_pass_shrinks: "desegment_pass s \<noteq> s \<Longrightarrow> length (desegment_pass s) < length s"
proof (induction s rule: desegment_pass.induct)
  case (1 a b c s)
  then show ?case using desegment_pass_length [of s] by (auto split: if_splits)
qed auto

function desegment :: "jstring \<Rightarrow> jstring" where
  "desegment out = (let next = desegment_pass out in if next = out then out else desegment next)"
  by pat_completeness auto
termination
  by (relation "measure length") (simp_all add: desegment_pass_shrinks)

declare desegment.simps [simp del]

definition word_unit :: "code_unit \<Rightarrow> bool" where
  "word_unit c \<longleftrightarrow> 65 \<le> c \<and> c \<le> 90 \<or> 97 \<le> c \<and> c \<le> 122 \<or> 48 \<le> c \<and> c \<le> 57 \<or> c = 95"

text \<open>\<open>query.match(/[class]+/g)\<close>: the maximal runs of units of a class.\<close>

fun runs :: "(code_unit \<Rightarrow> bool) \<Rightarrow> jstring \<Rightarrow> jstring \<Rightarrow> jstring list" where
  "runs P [] [] = []"
| "runs P acc [] = [rev acc]"
| "runs P acc (c # s) = (if P c then runs P (c # acc) s else if acc = [] then runs P [] s else rev acc # runs P [] s)"

definition QUERY_STOPWORDS :: "jstring list" where
  "QUERY_STOPWORDS = map js [''what'', ''which'', ''who'', ''whom'', ''when'', ''where'', ''why'', ''how'', ''was'', ''were'', ''is'', ''are'',
     ''the'', ''a'', ''an'', ''did'', ''does'', ''do'', ''we'', ''our'', ''you'', ''your'', ''it'', ''its'', ''for'', ''of'', ''to'', ''and'',
     ''please'', ''tell'', ''me'']"

abbreviation quoted :: "jstring \<Rightarrow> jstring" where
  "quoted w \<equiv> [34] @ w @ [34]"

definition query_phrases :: "jstring \<Rightarrow> jstring list" where
  "query_phrases query =
     take 32 (filter (\<lambda>w. w \<notin> set QUERY_STOPWORDS) (map ascii_lower (runs word_unit [] query)))
     @ map (\<lambda>run. join_with [32] (map (\<lambda>c. [c]) run)) (runs cjk_unit [] query)"

definition buildMatchQuery :: "jstring \<Rightarrow> jstring option" where
  "buildMatchQuery query =
     (let phrases = map quoted (query_phrases query) in if 0 < length phrases then Some (join_with [32] phrases) else None)"

section \<open>Splitting content\<close>

record segment =
  sgText :: jstring
  sgStart :: nat
  sgEnd :: nat

definition sentence_end :: "code_unit \<Rightarrow> bool" where
  "sentence_end c \<longleftrightarrow> c \<in> {46, 33, 63, 0x3002, 0xFF01, 0xFF1F}"

text \<open>The end of the last match of the boundary pattern in a window, matches taken from left to right.\<close>

fun last_boundary :: "nat \<Rightarrow> jstring \<Rightarrow> nat option \<Rightarrow> nat option" where
  "last_boundary i [] found = found"
| "last_boundary i [c] found = (if c = LF \<or> sentence_end c then Some (i + 1) else found)"
| "last_boundary i (c # d # s) found =
     (if c = LF then last_boundary (i + 1) (d # s) (Some (i + 1))
      else if sentence_end c \<and> is_space d then last_boundary (i + 2) s (Some (i + 2))
      else last_boundary (i + 1) (d # s) found)"

definition low_at :: "jstring \<Rightarrow> nat \<Rightarrow> bool" where
  "low_at t k \<longleftrightarrow> k < length t \<and> is_low (t ! k)"

definition segment_end :: "jstring \<Rightarrow> nat \<Rightarrow> nat" where
  "segment_end t start =
     (let stop = min (length t) (start + 2048)
      in if stop < length t
         then let cut = (case last_boundary 0 (js_slice t (start + 1024) stop) None of
                           None \<Rightarrow> stop
                         | Some k \<Rightarrow> start + 1024 + k)
              in if low_at t cut then cut - 1 else cut
         else stop)"

definition next_start :: "jstring \<Rightarrow> nat \<Rightarrow> nat \<Rightarrow> nat" where
  "next_start t start stop = (let k = max (start + 1) (stop - 256) in if low_at t k then k + 1 else k)"

function split_loop :: "jstring \<Rightarrow> nat \<Rightarrow> segment list" where
  "split_loop t start =
     (if start < length t
      then let stop = segment_end t start; seg = \<lparr>sgText = js_slice t start stop, sgStart = start, sgEnd = stop\<rparr>
           in if stop = length t then [seg] else seg # split_loop t (next_start t start stop)
      else [])"
  by pat_completeness auto
termination
  by (relation "measure (\<lambda>(t, start). length t - start)") (auto simp: next_start_def Let_def)

declare split_loop.simps [simp del]

definition splitContent :: "jstring \<Rightarrow> segment list" where
  "splitContent t = split_loop t 0"

section \<open>The index tables\<close>

record segmentRow =
  srId :: jstring
  srHash :: jstring
  srStart :: nat
  srEnd :: nat
  srText :: jstring

type_synonym ftsRow = "jstring \<times> jstring \<times> jstring"

record chunkInput =
  ckFullText :: "jstring option"
  ckHash :: jstring
  ckProject :: jstring
  ckSession :: jstring
  ckRole :: jstring
  ckTurn :: nat
  ckHistory :: jstring
  ckSummary :: jstring
  ckExcerpt :: jstring
  ckKeywords :: jstring

record chunkRef =
  crProject :: jstring
  crSession :: jstring
  crHistory :: jstring
  crHash :: jstring
  crRole :: jstring
  crTurn :: nat

record indexDb =
  segments :: "segmentRow list"
  segmentFts :: "ftsRow list"
  inventory :: "(jstring, nat) jmap"
  chunks :: "chunkInput list"
  chunksFts :: "(jstring \<times> jstring \<times> jstring \<times> jstring) list"
  chunkRefs :: "chunkRef list"

definition empty_index :: indexDb where
  "empty_index = \<lparr>segments = [], segmentFts = [], inventory = [], chunks = [], chunksFts = [], chunkRefs = []\<rparr>"

definition segment_id :: "jstring \<Rightarrow> segment \<Rightarrow> jstring" where
  "segment_id h sg = h @ js '':'' @ dec (sgStart sg)"

definition chunk_text :: "chunkInput \<Rightarrow> jstring" where
  "chunk_text input = (case ckFullText input of None \<Rightarrow> ckExcerpt input | Some t \<Rightarrow> t)"

definition ref_key :: "chunkRef \<Rightarrow> jstring \<times> jstring \<times> jstring \<times> jstring" where
  "ref_key r = (crProject r, crSession r, crHistory r, crHash r)"

text \<open>The transaction of \<open>insertChunk\<close>; \<open>INSERT OR IGNORE\<close> keeps an existing reference.\<close>

definition insertChunk :: "chunkInput \<Rightarrow> indexDb \<Rightarrow> indexDb" where
  "insertChunk input db =
     (let h = ckHash input; parts = splitContent (chunk_text input);
          ref = \<lparr>crProject = ckProject input, crSession = ckSession input, crHistory = ckHistory input, crHash = h,
                 crRole = ckRole input, crTurn = ckTurn input\<rparr>;
          row = input\<lparr>ckFullText := None, ckSummary := segmentForIndex (ckSummary input), ckExcerpt := segmentForIndex (ckExcerpt input),
                      ckKeywords := segmentForIndex (ckKeywords input)\<rparr>
      in db\<lparr>segments := filter (\<lambda>r. srHash r \<noteq> h) (segments db)
                @ map (\<lambda>sg. \<lparr>srId = segment_id h sg, srHash = h, srStart = sgStart sg, srEnd = sgEnd sg, srText = sgText sg\<rparr>) parts,
            segmentFts := filter (\<lambda>(i, h', t). h' \<noteq> h) (segmentFts db)
                @ map (\<lambda>sg. (segment_id h sg, h, segmentForIndex (sgText sg))) parts,
            inventory := jmap_set h (length parts) (inventory db),
            chunks := filter (\<lambda>c. ckHash c \<noteq> h) (chunks db) @ [row],
            chunksFts := filter (\<lambda>(h', r). h' \<noteq> h) (chunksFts db) @ [(h, ckSummary row, ckExcerpt row, ckKeywords row)],
            chunkRefs := (if ref_key ref \<in> ref_key ` set (chunkRefs db) then chunkRefs db else chunkRefs db @ [ref])\<rparr>)"

section \<open>Searching\<close>

record searchHit =
  hScore :: rat
  hHash :: jstring
  hProject :: jstring
  hSession :: jstring
  hTurn :: nat
  hRole :: jstring
  hSnippet :: jstring
  hChunkId :: jstring
  hStart :: nat
  hEnd :: nat

text \<open>\<open>namespace_refs\<close>: the smallest turn and role among the references of a hash in the namespace.\<close>

definition namespace_ref :: "jstring \<Rightarrow> jstring \<Rightarrow> indexDb \<Rightarrow> jstring \<Rightarrow> (nat \<times> jstring) option" where
  "namespace_ref project session db h =
     (case filter (\<lambda>r. crProject r = project \<and> crSession r = session \<and> crHash r = h) (chunkRefs db) of
        [] \<Rightarrow> None
      | r # rs \<Rightarrow> Some (fold min (map crTurn rs) (crTurn r), fold min (map crRole rs) (crRole r)))"

definition joined_hit :: "(jstring \<Rightarrow> ftsRow list \<Rightarrow> ftsRow \<Rightarrow> rat option) \<Rightarrow> jstring \<Rightarrow> jstring \<Rightarrow> indexDb \<Rightarrow> jstring
    \<Rightarrow> ftsRow \<Rightarrow> segmentRow \<Rightarrow> searchHit option" where
  "joined_hit bm25 project session db expression f s =
     (if srId s \<noteq> fst f then None
      else case (namespace_ref project session db (srHash s), bm25 expression (segmentFts db) f) of
        (Some (turn, rl), Some score) \<Rightarrow>
          Some \<lparr>hScore = score, hHash = srHash s, hProject = project, hSession = session, hTurn = turn, hRole = rl,
                hSnippet = srText s, hChunkId = srId s, hStart = srStart s, hEnd = srEnd s\<rparr>
      | _ \<Rightarrow> None)"

definition search_rows :: "(jstring \<Rightarrow> ftsRow list \<Rightarrow> ftsRow \<Rightarrow> rat option) \<Rightarrow> jstring \<Rightarrow> jstring \<Rightarrow> indexDb \<Rightarrow> jstring \<Rightarrow> nat
    \<Rightarrow> searchHit list" where
  "search_rows bm25 project session db expression n =
     take n (sort_key hScore (sort_key hChunkId
       (concat (map (\<lambda>f. List.map_filter (joined_hit bm25 project session db expression f) (segments db)) (segmentFts db)))))"

definition overlapping :: "searchHit \<Rightarrow> searchHit \<Rightarrow> bool" where
  "overlapping x row \<longleftrightarrow> hHash x = hHash row \<and> hStart x \<le> hEnd row \<and> hStart row \<le> hEnd x"

definition merge_hit :: "searchHit \<Rightarrow> searchHit \<Rightarrow> searchHit" where
  "merge_hit previous row =
     (let first = (if hStart previous \<le> hStart row then previous else row);
          second = (if hStart previous \<le> hStart row then row else previous)
      in previous\<lparr>hSnippet := hSnippet first @ drop (hEnd first - hStart second) (hSnippet second),
                  hStart := min (hStart previous) (hStart row), hEnd := max (hEnd previous) (hEnd row)\<rparr>)"

fun merge_row :: "searchHit \<Rightarrow> searchHit list \<Rightarrow> searchHit list" where
  "merge_row row [] = [row]"
| "merge_row row (x # xs) = (if overlapping x row then merge_hit x row # xs else x # merge_row row xs)"

definition searchChunks :: "(jstring \<Rightarrow> ftsRow list \<Rightarrow> ftsRow \<Rightarrow> rat option) \<Rightarrow> jstring \<Rightarrow> jstring \<Rightarrow> indexDb \<Rightarrow> jstring \<Rightarrow> nat
    \<Rightarrow> searchHit list" where
  "searchChunks bm25 project session db expression limit =
     take limit (fold merge_row (search_rows bm25 project session db expression (limit * 4)) [])"

section \<open>Focusing a hit\<close>

lemma dropWhile_tail [termination_simp]: "length (dropWhile P s) - Suc 0 < Suc (length s)"
  using length_dropWhile_le [of P s] by simp

text \<open>\<open>match(/"([^"]+)"/g)\<close>, each term without its quotes.\<close>

fun quoted_terms :: "jstring \<Rightarrow> jstring list" where
  "quoted_terms [] = []"
| "quoted_terms (c # s) =
     (let body = takeWhile (\<lambda>d. d \<noteq> 34) s; rest = dropWhile (\<lambda>d. d \<noteq> 34) s
      in if c = 34 \<and> body \<noteq> [] \<and> rest \<noteq> [] then body # quoted_terms (tl rest) else quoted_terms s)"

fun index_from :: "jstring \<Rightarrow> jstring \<Rightarrow> nat \<Rightarrow> nat option" where
  "index_from pat [] i = (if pat = [] then Some i else None)"
| "index_from pat (c # s) i = (if starts_with (c # s) pat then Some i else index_from pat s (i + 1))"

definition index_of :: "jstring \<Rightarrow> jstring \<Rightarrow> nat \<Rightarrow> nat option" where
  "index_of s pat k = index_from pat (drop k s) (min k (length s))"

text \<open>The positions of a term, at most 32.\<close>

primrec term_positions :: "nat \<Rightarrow> jstring \<Rightarrow> jstring \<Rightarrow> nat \<Rightarrow> nat list" where
  "term_positions 0 s w k = []"
| "term_positions (Suc n) s w k =
     (case index_of s w k of None \<Rightarrow> [] | Some p \<Rightarrow> p # term_positions n s w (p + max 1 (length w)))"

definition window_score :: "jstring list \<Rightarrow> jstring \<Rightarrow> nat" where
  "window_score terms window = sum_list (map (\<lambda>w. if index_of window w 0 \<noteq> None then min (length w) 32 else 0) terms)"

definition focus_start :: "nat \<Rightarrow> nat \<Rightarrow> nat \<Rightarrow> nat" where
  "focus_start n maxChars position = min (n - maxChars) (position - maxChars div 3)"

fun best_window :: "jstring list \<Rightarrow> jstring \<Rightarrow> nat \<Rightarrow> nat \<Rightarrow> nat list \<Rightarrow> nat \<times> int \<Rightarrow> nat \<times> int" where
  "best_window terms lowered n maxChars [] acc = acc"
| "best_window terms lowered n maxChars (p # ps) (start, best) =
     (let candidate = focus_start n maxChars p;
          score = int (window_score terms (js_slice lowered candidate (candidate + maxChars)))
      in best_window terms lowered n maxChars ps (if best < score then (candidate, score) else (start, best)))"

definition focus_terms :: "(jstring \<Rightarrow> jstring) \<Rightarrow> jstring \<Rightarrow> jstring list" where
  "focus_terms lower query =
     map (\<lambda>w. lower (filter (\<lambda>c. c \<noteq> 32) w)) (case buildMatchQuery query of None \<Rightarrow> [] | Some e \<Rightarrow> quoted_terms e)"

text \<open>The start of the window with the best score, 0 when no term occurs.\<close>

definition focus_window :: "(jstring \<Rightarrow> jstring) \<Rightarrow> jstring \<Rightarrow> jstring \<Rightarrow> nat \<Rightarrow> nat" where
  "focus_window lower snippet query maxChars =
     (let terms = focus_terms lower query; lowered = lower snippet
      in fst (best_window terms lowered (length snippet) maxChars
                (concat (map (\<lambda>w. term_positions 32 lowered w 0) terms)) (0, - 1)))"

definition focusSearchHit :: "(jstring \<Rightarrow> jstring) \<Rightarrow> searchHit \<Rightarrow> jstring \<Rightarrow> nat \<Rightarrow> searchHit" where
  "focusSearchHit lower hit query maxChars =
     (let snippet = hSnippet hit; n = length snippet
      in if n \<le> maxChars then hit
         else let start0 = focus_window lower snippet query maxChars;
                  start = (if low_at snippet start0 then start0 + 1 else start0);
                  stop0 = min n (start + maxChars);
                  stop = (if low_at snippet stop0 then stop0 - 1 else stop0)
              in hit\<lparr>hSnippet := js_slice snippet start stop, hStart := hStart hit + start, hEnd := hStart hit + stop\<rparr>)"

section \<open>Removing the inserted spaces\<close>

text \<open>The reference removes every single space between two CJK characters at once.\<close>

fun unspace :: "jstring \<Rightarrow> jstring" where
  "unspace (a # b # c # s) = (if cjk_unit a \<and> b = 32 \<and> cjk_unit c then a # unspace (c # s) else a # unspace (b # c # s))"
| "unspace s = s"

fun gap_free :: "jstring \<Rightarrow> bool" where
  "gap_free (a # b # c # s) \<longleftrightarrow> \<not> (cjk_unit a \<and> b = 32 \<and> cjk_unit c) \<and> gap_free (b # c # s)"
| "gap_free s \<longleftrightarrow> True"

lemma cjk_not_space [simp]: "\<not> cjk_unit 32"
  by (simp add: cjk_unit_def)

lemma desegment_pass_Cons: "\<exists>t. desegment_pass (a # s) = a # t"
  by (cases "a # s" rule: desegment_pass.cases) auto

lemma unspace_step: "x \<noteq> 32 \<Longrightarrow> unspace (a # x # s) = a # unspace (x # s)"
  by (cases s) auto

lemma unspace_pass: "unspace (desegment_pass s) = unspace s \<and> unspace (a # desegment_pass s) = unspace (a # s)"
proof (induction s arbitrary: a rule: desegment_pass.induct)
  case (1 x y z s)
  show ?case
  proof (cases "cjk_unit x \<and> y = 32 \<and> cjk_unit z")
    case True
    then have "x \<noteq> 32" "z \<noteq> 32" by auto
    with True 1(1) [OF True, of z] show ?thesis by (simp add: unspace_step)
  next
    case False
    then have p: "desegment_pass (x # y # z # s) = x # desegment_pass (y # z # s)" by auto
    obtain t where t: "desegment_pass (y # z # s) = y # t" using desegment_pass_Cons by blast
    note IH = 1(2) [OF False]
    have "unspace (x # desegment_pass (y # z # s)) = unspace (x # y # z # s)" using IH by blast
    moreover have "unspace (a # x # desegment_pass (y # z # s)) = unspace (a # x # y # z # s)"
      using IH [of x] by (simp add: t split del: if_split) (auto simp: t [symmetric] IH)
    ultimately show ?thesis by (simp only: p)
  qed
qed simp_all

lemma unspace_fix: "desegment_pass s = s \<Longrightarrow> unspace s = s"
  by (induction s rule: desegment_pass.induct) (auto split: if_splits)

lemma desegment_unspace: "desegment s = unspace s"
proof (induction s rule: desegment.induct)
  case (1 s)
  then show ?case
    using unspace_pass [of s] unspace_fix [of s] by (subst desegment.simps) (auto simp: Let_def)
qed

lemma segmentForIndex_Cons: "\<exists>t. segmentForIndex (c # s) = c # t"
  by (cases s) auto

lemma unspace_segment: "gap_free t \<Longrightarrow> unspace (segmentForIndex t) = t"
proof (induction t rule: segmentForIndex.induct)
  case (1 c d s)
  have gf: "gap_free (d # s)" using 1(3) by (cases s) auto
  obtain u where u: "segmentForIndex (d # s) = d # u" using segmentForIndex_Cons by blast
  show ?case
  proof (cases "cjk_unit c \<and> cjk_unit d")
    case True
    with 1(1) [OF True gf] u show ?thesis by auto
  next
    case False
    have "\<not> (cjk_unit c \<and> d = 32 \<and> u \<noteq> [] \<and> cjk_unit (hd u))"
    proof
      assume a: "cjk_unit c \<and> d = 32 \<and> u \<noteq> [] \<and> cjk_unit (hd u)"
      then obtain e s' where s: "s = e # s'" using u by (cases s) auto
      obtain v where "segmentForIndex (e # s') = e # v" using segmentForIndex_Cons by blast
      with a u s have "hd u = e" by auto
      with a s 1(3) show False by auto
    qed
    then have "unspace (c # d # u) = c # unspace (d # u)" by (cases u) auto
    with False 1(2) [OF False gf] u show ?thesis by auto
  qed
qed auto

section \<open>Match expressions\<close>

lemma runs_units: "list_all P acc \<Longrightarrow> r \<in> set (runs P acc s) \<Longrightarrow> r \<noteq> [] \<and> list_all P r"
  by (induction P acc s rule: runs.induct) (auto split: if_splits)

definition phrase_ok :: "jstring \<Rightarrow> bool" where
  "phrase_ok p \<longleftrightarrow> p \<noteq> [] \<and> list_all (\<lambda>c. word_unit c \<or> cjk_unit c \<or> c = 32) p"

lemma lower_word: "65 \<le> c \<Longrightarrow> c \<le> 90 \<Longrightarrow> word_unit (c + 32)"
  by (auto simp: word_unit_def)

lemma spaced_units: "list_all P s \<Longrightarrow> list_all (\<lambda>c. P c \<or> c = 32) (join_with [32] (map (\<lambda>c. [c]) s)) \<and> (s \<noteq> [] \<longrightarrow> join_with [32] (map (\<lambda>c. [c]) s) \<noteq> [])"
proof (induction s)
  case (Cons c s)
  then show ?case by (cases s) auto
qed simp

lemma query_phrases_ok: "list_all phrase_ok (query_phrases query)"
proof -
  have "phrase_ok (ascii_lower r)" if "r \<in> set (runs word_unit [] query)" for r
    using runs_units [OF _ that] lower_word by (auto simp: phrase_ok_def ascii_lower_def list_all_iff)
  moreover have "phrase_ok (join_with [32] (map (\<lambda>c. [c]) r))" if "r \<in> set (runs cjk_unit [] query)" for r
    using spaced_units [of cjk_unit r] runs_units [OF _ that] by (auto simp: phrase_ok_def list_all_iff)
  ultimately show ?thesis by (auto simp: query_phrases_def list_all_iff dest!: in_set_takeD)
qed

lemma phrase_no_quote: "phrase_ok p \<Longrightarrow> 34 \<notin> set p"
  by (auto simp: phrase_ok_def list_all_iff word_unit_def cjk_unit_def)

lemma quoted_terms_step: "p \<noteq> [] \<Longrightarrow> 34 \<notin> set p \<Longrightarrow> quoted_terms ([34] @ p @ [34] @ s) = p # quoted_terms s"
proof -
  assume p: "p \<noteq> []" "34 \<notin> set p"
  have "34 \<notin> set p \<Longrightarrow> takeWhile (\<lambda>d. d \<noteq> 34) (p @ 34 # s) = p \<and> dropWhile (\<lambda>d. d \<noteq> 34) (p @ 34 # s) = 34 # s"
    by (induction p) auto
  with p show ?thesis by (simp add: Let_def)
qed

lemma quoted_terms_join: "list_all phrase_ok ps \<Longrightarrow> quoted_terms (join_with [32] (map quoted ps)) = ps"
proof (induction ps)
  case (Cons p ps)
  have p: "p \<noteq> []" "34 \<notin> set p" using Cons(2) phrase_no_quote by (auto simp: phrase_ok_def)
  show ?case
  proof (cases ps)
    case Nil
    then show ?thesis using quoted_terms_step [OF p, of "[]"] by simp
  next
    case (Cons q qs)
    have "quoted_terms (32 # join_with [32] (map quoted ps)) = quoted_terms (join_with [32] (map quoted ps))"
      by (simp add: Let_def)
    with Cons Cons.IH Cons.prems quoted_terms_step [OF p, of "32 # join_with [32] (map quoted ps)"] show ?thesis by simp
  qed
qed simp

section \<open>Segments\<close>

lemma last_boundary_bound:
  "last_boundary i s found = Some k \<Longrightarrow> found = Some k \<or> i < k \<and> k \<le> i + length s"
  by (induction i s found rule: last_boundary.induct) (fastforce split: if_splits)+

lemma segment_end_bounds:
  assumes "start < length t"
  shows "start < segment_end t start \<and> segment_end t start \<le> length t \<and> segment_end t start \<le> start + 2048
    \<and> (segment_end t start = length t \<or> start + 1024 \<le> segment_end t start)"
proof (cases "start + 2048 < length t")
  case True
  let ?w = "js_slice t (start + 1024) (start + 2048)"
  define cut where "cut = (case last_boundary 0 ?w None of None \<Rightarrow> start + 2048 | Some k \<Rightarrow> start + 1024 + k)"
  have "length ?w = 1024" using True by (simp add: js_slice_def)
  then have "start + 1024 < cut \<and> cut \<le> start + 2048"
    using last_boundary_bound [of 0 ?w None] by (auto simp: cut_def split: option.splits)
  moreover have "segment_end t start = (if low_at t cut then cut - 1 else cut)"
    using True by (simp add: segment_end_def cut_def Let_def)
  ultimately show ?thesis using True by auto
next
  case False
  with assms show ?thesis by (simp add: segment_end_def Let_def)
qed

lemma next_start_bounds: "stop \<le> start \<or> start < next_start t start stop \<and> (start + 512 \<le> stop \<longrightarrow> next_start t start stop + 255 \<le> stop)"
  by (auto simp: next_start_def Let_def)

definition segment_ok :: "jstring \<Rightarrow> segment \<Rightarrow> bool" where
  "segment_ok t sg \<longleftrightarrow> sgText sg = js_slice t (sgStart sg) (sgEnd sg) \<and> sgStart sg < sgEnd sg \<and> sgEnd sg \<le> length t
     \<and> sgEnd sg \<le> sgStart sg + 2048"

lemma split_loop_ok: "list_all (segment_ok t) (split_loop t start) \<and> list_all (\<lambda>sg. start \<le> sgStart sg) (split_loop t start)"
proof (induction t start rule: split_loop.induct)
  case (1 t start)
  show ?case
  proof (cases "start < length t")
    case True
    let ?stop = "segment_end t start"
    note b = segment_end_bounds [OF True]
    have "list_all (segment_ok t) (split_loop t (next_start t start ?stop))
      \<and> list_all (\<lambda>sg. start \<le> sgStart sg) (split_loop t (next_start t start ?stop))" if "?stop \<noteq> length t"
      using 1 [OF True refl refl that] next_start_bounds [of ?stop start t] b by (auto simp: list_all_iff)
    with True b show ?thesis by (subst (1 2) split_loop.simps) (auto simp: segment_ok_def Let_def)
  qed (simp add: split_loop.simps)
qed

lemma split_loop_window:
  assumes "start \<le> a" and "a < b" and "b \<le> length t" and "b \<le> a + 255"
  shows "\<exists>sg\<in>set (split_loop t start). sgStart sg \<le> a \<and> b \<le> sgEnd sg"
  using assms
proof (induction t start rule: split_loop.induct)
  case (1 t start)
  then have lt: "start < length t" by simp
  let ?stop = "segment_end t start"
  note bnd = segment_end_bounds [OF lt]
  have unfold: "split_loop t start = (let seg = \<lparr>sgText = js_slice t start ?stop, sgStart = start, sgEnd = ?stop\<rparr>
      in if ?stop = length t then [seg] else seg # split_loop t (next_start t start ?stop))"
    using lt by (subst split_loop.simps) (simp add: Let_def)
  show ?case
  proof (cases "b \<le> ?stop")
    case True
    then show ?thesis using 1(2) by (auto simp: unfold Let_def)
  next
    case False
    then have ne: "?stop \<noteq> length t" using 1(4) by auto
    then have "next_start t start ?stop \<le> a" using next_start_bounds [of ?stop start t] bnd False 1(5) by auto
    from 1(1) [OF lt refl refl ne this 1(3-5)] show ?thesis using ne by (auto simp: unfold Let_def)
  qed
qed

lemma well_formed_low: "well_formed t \<Longrightarrow> k < length t \<Longrightarrow> is_low (t ! k) \<Longrightarrow> 0 < k \<and> is_high (t ! (k - 1))"
proof (induction t arbitrary: k rule: well_formed.induct)
  case (2 c)
  then show ?case by (auto simp: is_surrogate_def)
next
  case (3 c d s)
  show ?case
  proof (cases "is_high c \<and> is_low d")
    case True
    then have nl: "\<not> is_low c" "\<not> is_high d" by (auto simp: is_high_def is_low_def)
    consider "k = 0" | "k = 1" | j where "k = Suc (Suc j)" by (metis One_nat_def not0_implies_Suc)
    then show ?thesis
    proof cases
      case (3 j)
      with True "3.prems" "3.IH"(1) [OF True, of j] show ?thesis by (cases j) auto
    qed (use True nl "3.prems" in auto)
  next
    case False
    with "3.prems"(1) have wf: "\<not> is_surrogate c" "well_formed (d # s)" by (auto split: if_splits)
    show ?thesis
    proof (cases k)
      case 0
      then show ?thesis using wf "3.prems"(3) by (simp add: is_surrogate_def)
    next
      case (Suc j)
      with wf "3.prems" "3.IH"(2) [OF False _ _, of j] False show ?thesis by (cases j) (auto split: if_splits)
    qed
  qed
qed simp

lemma aligned_cuts:
  assumes "well_formed t" and "start < length t" and "\<not> low_at t start"
  shows "\<not> low_at t (segment_end t start) \<and> \<not> low_at t (next_start t start stop)"
proof -
  have down: "\<not> low_at t (k - 1)" if "low_at t k" for k
    using well_formed_low [OF assms(1), of k] that by (auto simp: low_at_def is_high_def is_low_def)
  have up: "\<not> low_at t (k + 1)" if "low_at t k" for k
    using well_formed_low [OF assms(1), of "k + 1"] that by (auto simp: low_at_def is_high_def is_low_def)
  show ?thesis
    using down up by (auto simp: segment_end_def next_start_def Let_def split: option.splits) (auto simp: low_at_def)
qed

lemma split_loop_aligned:
  assumes "well_formed t" and "\<not> low_at t start"
  shows "list_all (\<lambda>sg. \<not> low_at t (sgStart sg) \<and> \<not> low_at t (sgEnd sg)) (split_loop t start)"
  using assms
proof (induction t start rule: split_loop.induct)
  case (1 t start)
  show ?case
  proof (cases "start < length t")
    case True
    note cuts = aligned_cuts [OF 1(2) True 1(3)]
    from 1(1) [OF True refl refl _ 1(2)] cuts True 1(3) show ?thesis
      by (subst split_loop.simps) (auto simp: Let_def)
  qed (simp add: split_loop.simps)
qed

section \<open>Hits are ranges of their source\<close>

text \<open>\<open>source h\<close> is the text indexed under the hash \<open>h\<close>.\<close>

definition index_ok :: "(jstring \<Rightarrow> jstring) \<Rightarrow> indexDb \<Rightarrow> bool" where
  "index_ok source db \<longleftrightarrow> list_all (\<lambda>r. srText r = js_slice (source (srHash r)) (srStart r) (srEnd r)
     \<and> srStart r \<le> srEnd r \<and> srEnd r \<le> length (source (srHash r))) (segments db)"

definition hit_ok :: "(jstring \<Rightarrow> jstring) \<Rightarrow> searchHit \<Rightarrow> bool" where
  "hit_ok source x \<longleftrightarrow> hSnippet x = js_slice (source (hHash x)) (hStart x) (hEnd x)
     \<and> hStart x \<le> hEnd x \<and> hEnd x \<le> length (source (hHash x))"

definition owned_hit :: "jstring \<Rightarrow> jstring \<Rightarrow> indexDb \<Rightarrow> searchHit \<Rightarrow> bool" where
  "owned_hit project session db x \<longleftrightarrow> (\<exists>r\<in>set (chunkRefs db). crProject r = project \<and> crSession r = session \<and> crHash r = hHash x)"

lemma insertChunk_ok:
  assumes "index_ok source db" and "chunk_text input = source (ckHash input)"
  shows "index_ok source (insertChunk input db)"
proof -
  have "list_all (segment_ok (chunk_text input)) (splitContent (chunk_text input))"
    using split_loop_ok by (simp add: splitContent_def)
  with assms show ?thesis by (auto simp: index_ok_def insertChunk_def list_all_iff segment_ok_def Let_def)
qed

lemma index_built: "list_all (\<lambda>c. chunk_text c = source (ckHash c)) inputs \<Longrightarrow> index_ok source (fold insertChunk inputs empty_index)"
proof (induction inputs rule: rev_induct)
  case Nil
  then show ?case by (simp add: index_ok_def empty_index_def)
qed (simp add: insertChunk_ok)

lemma refs_built:
  assumes "r \<in> set (chunkRefs (fold insertChunk inputs empty_index))"
  shows "\<exists>c\<in>set inputs. ckHash c = crHash r \<and> ckProject c = crProject r \<and> ckSession c = crSession r"
  using assms
  by (induction inputs arbitrary: r rule: rev_induct) (auto simp: empty_index_def insertChunk_def Let_def split: if_splits)

lemma joined_hit_ok:
  assumes "index_ok source db" and "s \<in> set (segments db)" and "joined_hit bm25 project session db e f s = Some x"
  shows "hit_ok source x \<and> owned_hit project session db x"
proof -
  have "namespace_ref project session db (srHash s) \<noteq> None"
    and x: "hHash x = srHash s" "hSnippet x = srText s" "hStart x = srStart s" "hEnd x = srEnd s"
    using assms(3) by (auto simp: joined_hit_def split: if_splits option.splits prod.splits)
  then have "filter (\<lambda>r. crProject r = project \<and> crSession r = session \<and> crHash r = srHash s) (chunkRefs db) \<noteq> []"
    by (auto simp: namespace_ref_def)
  then show ?thesis
    using assms(1,2) by (auto simp: filter_empty_conv owned_hit_def hit_ok_def index_ok_def list_all_iff x)
qed

lemma search_rows_ok:
  assumes "index_ok source db" and "x \<in> set (search_rows bm25 project session db e n)"
  shows "hit_ok source x \<and> owned_hit project session db x"
proof -
  obtain f where "x \<in> set (List.map_filter (joined_hit bm25 project session db e f) (segments db))"
    using in_set_takeD [OF assms(2) [unfolded search_rows_def]] by auto
  then obtain s where "s \<in> set (segments db)" "joined_hit bm25 project session db e f s = Some x"
    by (auto simp: List.map_filter_def)
  with joined_hit_ok [OF assms(1)] show ?thesis by blast
qed

text \<open>Two overlapping ranges of a text join to the range that covers both.\<close>

lemma slice_join:
  assumes "a \<le> c" and "c \<le> b" and "a \<le> b" and "b \<le> length t" and "c \<le> d" and "d \<le> length t"
  shows "js_slice t a b @ drop (b - c) (js_slice t c d) = js_slice t a (max b d)"
proof (cases "d \<le> b")
  case True
  then show ?thesis using assms by (simp add: js_slice_def)
next
  case False
  then have m: "max b d = d" by simp
  have "drop (b - c) (js_slice t c d) = js_slice t b d" using assms False by (simp add: js_slice_def drop_take)
  moreover have "js_slice t a b @ js_slice t b d = js_slice t a d"
    using assms False take_add [of "b - a" "d - b" "drop a t"] by (simp add: js_slice_def)
  ultimately show ?thesis by (simp add: m)
qed

lemma merge_hit_ok:
  assumes "hit_ok source x" and "hit_ok source y" and "overlapping x y"
  shows "hit_ok source (merge_hit x y)"
proof (cases "hStart x \<le> hStart y")
  case True
  then show ?thesis
    using assms slice_join [of "hStart x" "hStart y" "hEnd x" "source (hHash x)" "hEnd y"]
    by (auto simp: merge_hit_def hit_ok_def overlapping_def Let_def)
next
  case False
  then show ?thesis
    using assms slice_join [of "hStart y" "hStart x" "hEnd y" "source (hHash x)" "hEnd x"]
    by (auto simp: merge_hit_def hit_ok_def overlapping_def Let_def max.commute)
qed

lemma merge_hit_owned [simp]: "owned_hit project session db (merge_hit x y) = owned_hit project session db x"
  by (simp add: owned_hit_def merge_hit_def Let_def)

lemma merge_row_ok:
  assumes "list_all (\<lambda>x. hit_ok source x \<and> owned_hit project session db x) xs" and "hit_ok source row \<and> owned_hit project session db row"
  shows "list_all (\<lambda>x. hit_ok source x \<and> owned_hit project session db x) (merge_row row xs)"
  using assms by (induction row xs rule: merge_row.induct) (auto simp: merge_hit_ok)

lemma search_ok:
  assumes "index_ok source db"
  shows "list_all (\<lambda>x. hit_ok source x \<and> owned_hit project session db x) (searchChunks bm25 project session db e limit)"
proof -
  have "list_all (\<lambda>x. hit_ok source x \<and> owned_hit project session db x) (fold merge_row rows acc)"
    if "\<forall>x\<in>set rows. hit_ok source x \<and> owned_hit project session db x"
      "list_all (\<lambda>x. hit_ok source x \<and> owned_hit project session db x) acc" for rows acc
    using that by (induction rows arbitrary: acc) (simp_all add: merge_row_ok)
  from this [of "search_rows bm25 project session db e (limit * 4)" "[]"]
  have "\<forall>x\<in>set (fold merge_row (search_rows bm25 project session db e (limit * 4)) []). hit_ok source x \<and> owned_hit project session db x"
    using search_rows_ok [OF assms] by (simp add: list_all_iff)
  then show ?thesis unfolding searchChunks_def list_all_iff by (blast dest: in_set_takeD)
qed

lemma best_window_bound:
  "fst acc \<le> n - maxChars \<Longrightarrow> fst (best_window terms lowered n maxChars ps acc) \<le> n - maxChars"
  by (induction terms lowered n maxChars ps acc rule: best_window.induct) (simp_all add: focus_start_def Let_def)

lemma slice_slice: "a \<le> b \<Longrightarrow> js_slice (js_slice t s e) a b = js_slice t (s + a) (min e (s + b))"
proof -
  have "min (b - a) (e - s - a) = min e (s + b) - (s + a)" by auto
  then show ?thesis by (simp add: js_slice_def drop_take add.commute)
qed

lemma focus_ok:
  assumes "hit_ok source x" and "1 \<le> maxChars"
  shows "hit_ok source (focusSearchHit lower x query maxChars) \<and> hHash (focusSearchHit lower x query maxChars) = hHash x
    \<and> length (hSnippet (focusSearchHit lower x query maxChars)) \<le> maxChars"
proof (cases "length (hSnippet x) \<le> maxChars")
  case True
  with assms show ?thesis by (simp add: focusSearchHit_def Let_def)
next
  case False
  let ?s = "hSnippet x" and ?n = "length (hSnippet x)"
  define start0 where "start0 = focus_window lower ?s query maxChars"
  have s0: "start0 \<le> ?n - maxChars"
    unfolding start0_def focus_window_def Let_def by (rule best_window_bound) simp
  define start where "start = (if low_at ?s start0 then start0 + 1 else start0)"
  define stop where "stop = (let stop0 = min ?n (start + maxChars) in if low_at ?s stop0 then stop0 - 1 else stop0)"
  have b: "start \<le> stop" "stop \<le> ?n" "stop \<le> start + maxChars"
    using False s0 assms(2) by (auto simp: start_def stop_def Let_def low_at_def)
  have n: "?n = hEnd x - hStart x" using assms(1) by (auto simp: hit_ok_def js_slice_def)
  have "min (hEnd x) (hStart x + stop) = hStart x + stop" using assms(1) b(2) n unfolding hit_ok_def by linarith
  then have snip: "js_slice ?s start stop = js_slice (source (hHash x)) (hStart x + start) (hStart x + stop)"
    using assms(1) slice_slice [OF b(1), of "source (hHash x)" "hStart x" "hEnd x"] by (simp add: hit_ok_def)
  have "focusSearchHit lower x query maxChars
      = x\<lparr>hSnippet := js_slice ?s start stop, hStart := hStart x + start, hEnd := hStart x + stop\<rparr>"
    using False by (simp add: focusSearchHit_def start0_def start_def stop_def Let_def)
  with snip b n assms(1) show ?thesis by (auto simp: hit_ok_def js_slice_def)
qed

section \<open>Properties\<close>

text \<open>C28: A search answers with evidence, not with text of its own. Every hit, also after overlapping
  segments were joined and after it was focused to a card, is a contiguous range of the text indexed
  under its hash, with the right offsets, and that hash was indexed for the project and session that
  ask; a card has at most the requested length.\<close>

theorem search_hits_sound:
  assumes "list_all (\<lambda>c. chunk_text c = source (ckHash c)) inputs" and "1 \<le> maxChars"
    and "hit \<in> set (searchChunks bm25 project session (fold insertChunk inputs empty_index) e limit)"
    and "found = focusSearchHit lower hit query maxChars"
  shows "hSnippet hit = js_slice (source (hHash hit)) (hStart hit) (hEnd hit)
    \<and> hSnippet found = js_slice (source (hHash found)) (hStart found) (hEnd found) \<and> length (hSnippet found) \<le> maxChars
    \<and> (\<exists>c\<in>set inputs. ckHash c = hHash found \<and> ckProject c = project \<and> ckSession c = session)"
proof -
  have ok: "hit_ok source hit" "owned_hit project session (fold insertChunk inputs empty_index) hit"
    using search_ok [OF index_built [OF assms(1)], of project session bm25 e limit] assms(3) by (auto simp: list_all_iff)
  then obtain c where "c \<in> set inputs" "ckHash c = hHash hit" "ckProject c = project" "ckSession c = session"
    by (auto simp: owned_hit_def dest: refs_built)
  with focus_ok [OF ok(1) assms(2), of lower query] ok(1) show ?thesis by (auto simp: hit_ok_def assms(4))
qed

definition demo_chunk :: chunkInput where
  "demo_chunk = \<lparr>ckFullText = Some (js ''alpha beta''), ckHash = js ''h'', ckProject = js ''p'', ckSession = js ''s'', ckRole = js ''user'',
     ckTurn = 0, ckHistory = js ''hh'', ckSummary = [], ckExcerpt = [], ckKeywords = []\<rparr>"

theorem search_hits_sound_witness:
  "\<exists>hit. searchChunks (\<lambda>e rows f. Some 0) (js ''p'') (js ''s'') (fold insertChunk [demo_chunk] empty_index) (js ''x'') 5 = [hit]
     \<and> length (hSnippet (focusSearchHit (\<lambda>t. t) hit (js ''beta'') 4)) \<le> 4"
proof -
  have "length (searchChunks (\<lambda>e rows f. Some 0) (js ''p'') (js ''s'') (fold insertChunk [demo_chunk] empty_index) (js ''x'') 5) = 1"
    by code_simp
  then obtain hit where hit: "searchChunks (\<lambda>e rows f. Some 0) (js ''p'') (js ''s'') (fold insertChunk [demo_chunk] empty_index) (js ''x'') 5 = [hit]"
    by (auto simp: length_Suc_conv)
  have "list_all (\<lambda>c. chunk_text c = js ''alpha beta'') [demo_chunk]" by (simp add: demo_chunk_def chunk_text_def)
  moreover have "hit \<in> set (searchChunks (\<lambda>e rows f. Some 0) (js ''p'') (js ''s'') (fold insertChunk [demo_chunk] empty_index) (js ''x'') 5)"
    unfolding hit by simp
  ultimately have "length (hSnippet (focusSearchHit (\<lambda>t. t) hit (js ''beta'') 4)) \<le> 4"
    using search_hits_sound [where source = "\<lambda>h. js ''alpha beta''" and maxChars = 4, OF _ _ _ refl] by (metis one_le_numeral)
  with hit show ?thesis by blast
qed

text \<open>The loop that splits a text ends, and nothing falls between two segments. Every segment is a
  non-empty range of the text of at most 2048 units; every passage of at most 255 units lies inside
  one segment, so a short phrase is always found whole; and no segment cuts a surrogate pair of a
  well-formed text.\<close>

theorem split_content_covers:
  "list_all (\<lambda>sg. sgText sg = js_slice t (sgStart sg) (sgEnd sg) \<and> sgStart sg < sgEnd sg \<and> sgEnd sg \<le> length t
      \<and> sgEnd sg \<le> sgStart sg + 2048) (splitContent t)
   \<and> (a < b \<and> b \<le> length t \<and> b \<le> a + 255 \<longrightarrow> (\<exists>sg\<in>set (splitContent t). sgStart sg \<le> a \<and> b \<le> sgEnd sg))
   \<and> (well_formed t \<longrightarrow> list_all (\<lambda>sg. \<not> low_at t (sgStart sg) \<and> \<not> low_at t (sgEnd sg)) (splitContent t))"
proof (intro conjI impI)
  show "list_all (\<lambda>sg. sgText sg = js_slice t (sgStart sg) (sgEnd sg) \<and> sgStart sg < sgEnd sg \<and> sgEnd sg \<le> length t
      \<and> sgEnd sg \<le> sgStart sg + 2048) (splitContent t)"
    using split_loop_ok [of t 0] by (simp add: splitContent_def segment_ok_def [abs_def])
  show "\<exists>sg\<in>set (splitContent t). sgStart sg \<le> a \<and> b \<le> sgEnd sg" if "a < b \<and> b \<le> length t \<and> b \<le> a + 255"
    using split_loop_window [of 0 a b t] that by (simp add: splitContent_def)
  assume wf: "well_formed t"
  then have "\<not> low_at t 0" using well_formed_low [of t 0] by (auto simp: low_at_def)
  from split_loop_aligned [OF wf this] show "list_all (\<lambda>sg. \<not> low_at t (sgStart sg) \<and> \<not> low_at t (sgEnd sg)) (splitContent t)"
    by (simp add: splitContent_def)
qed

theorem split_content_covers_witness:
  "\<exists>sg\<in>set (splitContent (replicate 3000 97)). sgStart sg \<le> 2000 \<and> 2200 \<le> sgEnd sg"
  using split_content_covers [of "replicate 3000 97" 2000 2200, THEN conjunct2, THEN conjunct1, THEN mp]
  by (simp only: length_replicate) simp

text \<open>No query text reaches the match syntax. The expression is a sequence of quoted phrases of ASCII word
  characters, CJK characters and spaces, and reading it back yields exactly the phrases meant; a query
  without any phrase has no expression.\<close>

theorem match_query_safe:
  "case buildMatchQuery query of
     None \<Rightarrow> query_phrases query = []
   | Some e \<Rightarrow> e = join_with [32] (map quoted (query_phrases query)) \<and> query_phrases query \<noteq> []
       \<and> quoted_terms e = query_phrases query
       \<and> list_all (\<lambda>p. p \<noteq> [] \<and> list_all (\<lambda>c. word_unit c \<or> cjk_unit c \<or> c = 32) p) (query_phrases query)"
  using query_phrases_ok [of query] quoted_terms_join [of "query_phrases query"]
  by (auto simp: buildMatchQuery_def Let_def phrase_ok_def [abs_def])

text \<open>The spaces inserted for the index are invisible. Removing them again returns every text that has
  no single space between two CJK characters of its own.\<close>

theorem segment_round_trip:
  assumes "gap_free t"
  shows "desegment (segmentForIndex t) = t"
  using assms by (simp add: desegment_unspace unspace_segment)

theorem segment_round_trip_witness: "desegment (segmentForIndex [0x5386, 0x53F2, 32, 97, 0x538B, 0x7F29]) = [0x5386, 0x53F2, 32, 97, 0x538B, 0x7F29]"
  by (rule segment_round_trip) (simp add: cjk_unit_def)

end
