(* ===== verification/Archive.thy ===== *)
theory Archive
  imports Headroom_Plan Objects Fts
begin

text \<open>
  The archive of headroomd: attribution tables, archived plans and the derived index
  (\<open>packages/headroomd/src/store/db.ts\<close>, \<open>store/manifests.ts\<close>), with the writing and reading parts of
  \<open>packages/headroomd/src/engine.ts\<close>. Tables of SQLite are lists of rows or maps from primary keys; a
  transaction is one state change. \<open>now\<close> is the clock. The model is that of an engine without a
  security policy, whose assertions only add failures.
\<close>

section \<open>The attribution ledger\<close>

record metaRow =
  mrHash :: jstring
  mrProject :: jstring
  mrSession :: jstring
  mrRole :: role
  mrTurn :: nat
  mrSeq :: nat
  mrHistory :: jstring
  mrCreated :: nat

type_synonym nspace = "jstring \<times> jstring"

record metaDb =
  casMeta :: "metaRow list"
  archiveRefs :: "metaRow list"
  manifests :: "(nspace \<times> jstring, headroomResult \<times> jstring list) jmap"
  activeViews :: "(nspace, jstring \<times> headroomResult) jmap"

definition empty_meta :: metaDb where
  "empty_meta = \<lparr>casMeta = [], archiveRefs = [], manifests = [], activeViews = []\<rparr>"

definition row_space :: "metaRow \<Rightarrow> nspace" where
  "row_space r = (mrProject r, mrSession r)"

text \<open>The primary key of \<open>archive_refs\<close>, and the key that counts repeated content once.\<close>

definition row_key :: "metaRow \<Rightarrow> nspace \<times> jstring \<times> nat" where
  "row_key r = (row_space r, mrHistory r, mrSeq r)"

definition content_key :: "metaRow \<Rightarrow> jstring \<times> jstring \<times> jstring \<times> jstring" where
  "content_key r = (mrProject r, mrSession r, mrHistory r, mrHash r)"

definition insert_or_ignore :: "('a \<Rightarrow> 'k) \<Rightarrow> 'a \<Rightarrow> 'a list \<Rightarrow> 'a list" where
  "insert_or_ignore key row rows = (if key row \<in> key ` set rows then rows else rows @ [row])"

definition insertCasMeta :: "metaRow \<Rightarrow> metaDb \<Rightarrow> metaDb" where
  "insertCasMeta row db =
     db\<lparr>casMeta := insert_or_ignore mrHash row (casMeta db), archiveRefs := insert_or_ignore row_key row (archiveRefs db)\<rparr>"

definition countCasMeta :: "metaDb \<Rightarrow> nat" where
  "countCasMeta db = length (casMeta db)"

definition countSessions :: "metaDb \<Rightarrow> nat" where
  "countSessions db = length (remdups (map row_space (archiveRefs db)))"

definition countArchiveRefs :: "metaDb \<Rightarrow> nat" where
  "countArchiveRefs db = length (remdups (map content_key (archiveRefs db)))"

definition ownsCasMeta :: "metaDb \<Rightarrow> nspace \<Rightarrow> jstring \<Rightarrow> bool" where
  "ownsCasMeta db ns h \<longleftrightarrow> list_ex (\<lambda>r. row_space r = ns \<and> mrHash r = h) (archiveRefs db)"

definition history_rows :: "metaDb \<Rightarrow> nspace \<Rightarrow> jstring \<Rightarrow> metaRow list" where
  "history_rows db ns h = sort_key mrSeq (filter (\<lambda>r. row_space r = ns \<and> mrHistory r = h) (archiveRefs db))"

definition hasHistoryMeta :: "metaDb \<Rightarrow> nspace \<Rightarrow> jstring \<Rightarrow> bool" where
  "hasHistoryMeta db ns h \<longleftrightarrow> list_ex (\<lambda>r. row_space r = ns \<and> mrHistory r = h) (archiveRefs db)"

definition listHistoryMeta :: "metaDb \<Rightarrow> nspace \<Rightarrow> jstring \<Rightarrow> nat \<Rightarrow> nat \<Rightarrow> metaRow list" where
  "listHistoryMeta db ns h offset limit = take limit (drop offset (history_rows db ns h))"

definition nextHistoryMeta :: "metaDb \<Rightarrow> nspace \<Rightarrow> jstring \<Rightarrow> nat \<Rightarrow> metaRow option" where
  "nextHistoryMeta db ns h nextSequence = find (\<lambda>r. nextSequence \<le> mrSeq r) (history_rows db ns h)"

definition linkHistoryMeta :: "nspace \<Rightarrow> jstring \<Rightarrow> jstring \<Rightarrow> metaDb \<Rightarrow> metaDb option" where
  "linkHistoryMeta ns source target db =
     (if \<not> hasHistoryMeta db ns source then None
      else Some (db\<lparr>archiveRefs := fold (\<lambda>r. insert_or_ignore row_key (r\<lparr>mrHistory := target\<rparr>))
             (filter (\<lambda>r. row_space r = ns \<and> mrHistory r = source) (archiveRefs db)) (archiveRefs db)\<rparr>))"

section \<open>Archived plans and active views\<close>

datatype archiveError = ObjectError objectError | CapacityExceeded | IncompletePlan | InvalidPlan | ViewMismatch | PageError pageError

definition saveManifest :: "nspace \<Rightarrow> headroomResult \<Rightarrow> jstring list \<Rightarrow> metaDb \<Rightarrow> (archiveError, metaDb) result" where
  "saveManifest ns plan children db =
     (case (hrHistoryHash plan, hrDigests plan) of
        (Some h, Some ds) \<Rightarrow>
          if \<not> hrCompacted plan \<or> h = [] then Inl IncompletePlan
          else if \<not> headroomCompressResult_valid plan then Inl InvalidPlan
          else Inr (db\<lparr>manifests := jmap_set (ns, h) (plan, remdups children) (manifests db)\<rparr>)
      | _ \<Rightarrow> Inl IncompletePlan)"

definition getManifest :: "metaDb \<Rightarrow> nspace \<Rightarrow> jstring \<Rightarrow> (archiveError, headroomResult option) result" where
  "getManifest db ns h =
     (case jmap_get (manifests db) (ns, h) of
        None \<Rightarrow> Inr None
      | Some (plan, children) \<Rightarrow> if headroomCompressResult_valid plan then Inr (Some plan) else Inl InvalidPlan)"

definition getView :: "metaDb \<Rightarrow> nspace \<Rightarrow> (archiveError, headroomResult option) result" where
  "getView db ns =
     (case jmap_get (activeViews db) ns of
        None \<Rightarrow> Inr None
      | Some (h, plan) \<Rightarrow> if headroomCompressResult_valid plan then Inr (Some plan) else Inl InvalidPlan)"

text \<open>A view must be the confirmed plan. The code compares canonical JSON without the telemetry fields,
  which are not part of the model of a result.\<close>

definition setView :: "nspace \<Rightarrow> headroomResult \<Rightarrow> metaDb \<Rightarrow> (archiveError, metaDb) result" where
  "setView ns plan db =
     (case hrHistoryHash plan of
        None \<Rightarrow> Inl ViewMismatch
      | Some h \<Rightarrow>
          if h = [] then Inl ViewMismatch
          else case getManifest db ns h of
            Inl e \<Rightarrow> Inl e
          | Inr None \<Rightarrow> Inl ViewMismatch
          | Inr (Some stored) \<Rightarrow>
              if \<not> headroomCompressResult_valid plan then Inl InvalidPlan
              else if stored \<noteq> plan then Inl ViewMismatch
              else Inr (db\<lparr>activeViews := jmap_set ns (h, plan) (activeViews db)\<rparr>))"

definition clearView :: "nspace \<Rightarrow> metaDb \<Rightarrow> metaDb" where
  "clearView ns db = db\<lparr>activeViews := jmap_delete ns (activeViews db)\<rparr>"

section \<open>The derived index\<close>

record historyRow =
  hyHash :: jstring
  hyProject :: jstring
  hySession :: jstring
  hySummary :: jstring
  hyRaw :: int
  hySummaryTokens :: nat
  hyCreated :: nat

record derivedDb =
  dIndex :: indexDb
  dHistories :: "historyRow list"
  dRebuild :: "(nat \<times> nat) option"

definition upsertHistory :: "historyRow \<Rightarrow> derivedDb \<Rightarrow> derivedDb" where
  "upsertHistory row db = db\<lparr>dHistories := insert_or_ignore hyHash row (dHistories db)\<rparr>"

definition getHistory :: "derivedDb \<Rightarrow> jstring \<Rightarrow> historyRow option" where
  "getHistory db h = find (\<lambda>r. hyHash r = h) (dHistories db)"

definition countChunks :: "derivedDb \<Rightarrow> nat" where
  "countChunks db = length (chunks (dIndex db))"

definition countChunkRefs :: "derivedDb \<Rightarrow> nat" where
  "countChunkRefs db = length (chunkRefs (dIndex db))"

definition indexLooksLost :: "derivedDb \<Rightarrow> metaDb \<Rightarrow> bool" where
  "indexLooksLost index meta =
     (case dRebuild index of
        None \<Rightarrow> 0 < countCasMeta meta \<and> countChunks index < countCasMeta meta \<or> countChunkRefs index < countArchiveRefs meta
      | Some (expectedChunks, skipped) \<Rightarrow>
          countChunks index < expectedChunks \<or> countChunkRefs index + skipped < countArchiveRefs meta)"

definition message_chunk :: "jstring \<Rightarrow> nspace \<Rightarrow> jstring \<Rightarrow> nat \<Rightarrow> jstring \<Rightarrow> chatMessage \<Rightarrow> chunkInput" where
  "message_chunk h ns rl turn history m =
     (let summaryText = messageSummary m; rawExcerpt = messageExcerpt m
      in \<lparr>ckFullText = Some (renderProjection m), ckHash = h, ckProject = fst ns, ckSession = snd ns, ckRole = rl, ckTurn = turn,
          ckHistory = history, ckSummary = summaryText, ckExcerpt = rawExcerpt,
          ckKeywords = keyword_terms (summaryText @ js '' '' @ rawExcerpt) 8\<rparr>)"

definition chunkInputs :: "archivePlan \<Rightarrow> nspace \<Rightarrow> chunkInput list" where
  "chunkInputs facts ns =
     map (\<lambda>(i, m). message_chunk (apHashes facts ! i) ns (role_string (mrole m)) (turnIndexOf (apTurns facts) i) (apHistoryHash facts) m)
       (zip [0 ..< length (apMessages facts)] (apMessages facts))"

section \<open>Writing an archive\<close>

record headroomStore =
  hsFiles :: fs
  hsMeta :: metaDb
  hsIndex :: derivedDb

definition meta_rows :: "archivePlan \<Rightarrow> nspace \<Rightarrow> nat \<Rightarrow> metaRow list" where
  "meta_rows facts ns now =
     (let seqBase = (case apTurns facts of [] \<Rightarrow> 0 | t # ts \<Rightarrow> tstart t)
      in map (\<lambda>(i, m). \<lparr>mrHash = apHashes facts ! i, mrProject = fst ns, mrSession = snd ns, mrRole = mrole m,
                         mrTurn = turnIndexOf (apTurns facts) i, mrSeq = seqBase + i, mrHistory = apHistoryHash facts, mrCreated = now\<rparr>)
           (zip [0 ..< length (apMessages facts)] (apMessages facts)))"

definition insertCasMetaRows :: "archivePlan \<Rightarrow> nspace \<Rightarrow> nat \<Rightarrow> headroomStore \<Rightarrow> headroomStore" where
  "insertCasMetaRows facts ns now st = st\<lparr>hsMeta := fold insertCasMeta (meta_rows facts ns now) (hsMeta st)\<rparr>"

definition writeDerivedRows :: "archivePlan \<Rightarrow> nspace \<Rightarrow> headroomStore \<Rightarrow> headroomStore" where
  "writeDerivedRows facts ns st =
     st\<lparr>hsIndex := (hsIndex st)\<lparr>dIndex := fold insertChunk (chunkInputs facts ns) (dIndex (hsIndex st))\<rparr>\<rparr>"

definition history_row :: "archivePlan \<Rightarrow> nspace \<Rightarrow> int \<Rightarrow> nat \<Rightarrow> historyRow" where
  "history_row plan ns rawTokens now =
     \<lparr>hyHash = apHistoryHash plan, hyProject = fst ns, hySession = snd ns, hySummary = apSummary plan, hyRaw = rawTokens,
      hySummaryTokens = apSummaryTokens plan, hyCreated = now\<rparr>"

text \<open>What happens around the write of one object: a fault, the name of the temporary file.\<close>

type_synonym writeEnv = "nat \<Rightarrow> ioFault option \<times> jstring"

fun write_objects :: "(byte list \<Rightarrow> byte list) \<Rightarrow> (byte list \<Rightarrow> byte list) \<Rightarrow> writeEnv \<Rightarrow> jstring \<Rightarrow> nat \<Rightarrow> (chatMessage \<times> jstring) list
    \<Rightarrow> fs \<Rightarrow> objectError option \<times> fs" where
  "write_objects digest gzip wenv dataDir i [] f = (None, f)"
| "write_objects digest gzip wenv dataDir i ((m, h) # rest) f =
     (case writeMessageObject digest gzip (\<lambda>f. f) (fst (wenv i)) (snd (wenv i)) dataDir m h f of
        (Inl e, f') \<Rightarrow> (Some e, f')
      | (Inr r, f') \<Rightarrow> write_objects digest gzip wenv dataDir (i + 1) rest f')"

text \<open>The repair of a history that is already known: every object is written again, then its rows.\<close>

definition backfill :: "(byte list \<Rightarrow> byte list) \<Rightarrow> (byte list \<Rightarrow> byte list) \<Rightarrow> writeEnv \<Rightarrow> jstring \<Rightarrow> nspace \<Rightarrow> archivePlan \<Rightarrow> nat
    \<Rightarrow> headroomStore \<Rightarrow> (archiveError, unit) result \<times> headroomStore" where
  "backfill digest gzip wenv dataDir ns facts now st =
     (case write_objects digest gzip wenv dataDir 0 (zip (apMessages facts) (apHashes facts)) (hsFiles st) of
        (Some e, f) \<Rightarrow> (Inl (ObjectError e), st\<lparr>hsFiles := f\<rparr>)
      | (None, f) \<Rightarrow> (Inr (), writeDerivedRows facts ns (insertCasMetaRows facts ns now (st\<lparr>hsFiles := f\<rparr>))))"

text \<open>Objects, then attribution, then the index.\<close>

definition persistArchive :: "(byte list \<Rightarrow> byte list) \<Rightarrow> (byte list \<Rightarrow> byte list) \<Rightarrow> writeEnv \<Rightarrow> jstring \<Rightarrow> nspace \<Rightarrow> archivePlan \<Rightarrow> int \<Rightarrow> nat
    \<Rightarrow> headroomStore \<Rightarrow> (archiveError, unit) result \<times> headroomStore" where
  "persistArchive digest gzip wenv dataDir ns plan rawTokens now st =
     (case getHistory (hsIndex st) (apHistoryHash plan) of
        Some existing \<Rightarrow>
          (case backfill digest gzip wenv dataDir ns plan now st of
             (Inl e, st') \<Rightarrow> (Inl e, st')
           | (Inr u, st') \<Rightarrow> (Inr (), st'\<lparr>hsIndex := upsertHistory (history_row plan ns rawTokens now) (hsIndex st')\<rparr>))
      | None \<Rightarrow>
          (case write_objects digest gzip wenv dataDir 0 (zip (apMessages plan) (apHashes plan)) (hsFiles st) of
             (Some e, f) \<Rightarrow> (Inl (ObjectError e), st\<lparr>hsFiles := f\<rparr>)
           | (None, f) \<Rightarrow>
               (let st1 = insertCasMetaRows plan ns now (st\<lparr>hsFiles := f\<rparr>);
                    st2 = writeDerivedRows plan ns st1
                in (Inr (), st2\<lparr>hsIndex := upsertHistory (history_row plan ns rawTokens now) (hsIndex st2)\<rparr>))))"

definition reserve_bytes :: "chatMessage list \<Rightarrow> nat" where
  "reserve_bytes ms = byteLength (json_stringify (JArr (map message_json ms))) * 16 + 256 * 1024"

text \<open>\<open>compress\<close> of the legacy strategy; \<open>used\<close> is the size of the data directory.\<close>

definition engine_archive :: "(byte list \<Rightarrow> byte list) \<Rightarrow> (byte list \<Rightarrow> byte list) \<Rightarrow> writeEnv \<Rightarrow> jstring \<Rightarrow> nat \<Rightarrow> nat \<Rightarrow> nat \<Rightarrow> nspace \<Rightarrow> planParams
    \<Rightarrow> headroomStore \<Rightarrow> (archiveError, headroomResult) result \<times> headroomStore" where
  "engine_archive digest gzip wenv dataDir used maxStorage now ns params st =
     (case compress_plan digest params of
        (None, r) \<Rightarrow> (Inr r, st)
      | (Some plan, r) \<Rightarrow>
          if \<not> hasHistoryMeta (hsMeta st) ns (apHistoryHash plan) \<and> maxStorage < used + reserve_bytes (apMessages plan)
          then (Inl CapacityExceeded, st)
          else case persistArchive digest gzip wenv dataDir ns plan (hrRaw r) now st of
            (Inl e, st') \<Rightarrow> (Inl e, st')
          | (Inr u, st') \<Rightarrow>
              (case saveManifest ns r (List.map_filter (\<lambda>m. map_option ahistoryHash (marchive m)) (apMessages plan)) (hsMeta st') of
                 Inl e \<Rightarrow> (Inl e, st')
               | Inr meta \<Rightarrow> (Inr r, st'\<lparr>hsMeta := meta\<rparr>)))"

section \<open>Reading\<close>

datatype hashResult = HashMissing | HashPage textPage

definition hash_ref_json :: "nspace \<Rightarrow> jstring \<Rightarrow> jstring" where
  "hash_ref_json ns h = json_stringify (JArr [JObj [(js ''projectId'', JStr (fst ns)), (js ''sessionId'', JStr (snd ns))], JStr h])"

text \<open>Retrieval by hash: budgets and cursor are checked first, then ownership.\<close>

definition retrieveByHash :: "(byte list \<Rightarrow> byte list) \<Rightarrow> (byte list \<Rightarrow> byte list option) \<Rightarrow> (fs \<Rightarrow> fs) \<Rightarrow> jstring \<Rightarrow> nspace \<Rightarrow> jstring
    \<Rightarrow> jstring option \<Rightarrow> rat option \<Rightarrow> rat option \<Rightarrow> headroomStore \<Rightarrow> (archiveError, hashResult) result" where
  "retrieveByHash digest gunzip env dataDir ns h cursor maxBytes maxTokens st =
     (let ref = hash_ref_json ns h
      in case paginateText [] \<lparr>pref = js ''budget-validation'', pcursor = None, pmaxBytes = maxBytes, pmaxTokens = maxTokens\<rparr> of
           Inl e \<Rightarrow> Inl (PageError e)
         | Inr p0 \<Rightarrow>
             (case decodeCursor cursor ref of
                Inl e \<Rightarrow> Inl (PageError e)
              | Inr k \<Rightarrow>
                  if \<not> ownsCasMeta (hsMeta st) ns h then Inr HashMissing
                  else case readMessageObject digest gunzip env dataDir h (hsFiles st) of
                    Inl e \<Rightarrow> Inl (ObjectError e)
                  | Inr None \<Rightarrow> Inr HashMissing
                  | Inr (Some m) \<Rightarrow>
                      (case paginateText (renderProjection m) \<lparr>pref = ref, pcursor = cursor, pmaxBytes = maxBytes, pmaxTokens = maxTokens\<rparr> of
                         Inl e \<Rightarrow> Inl (PageError e)
                       | Inr page \<Rightarrow> Inr (HashPage page))))"

section \<open>Rebuilding the index\<close>

definition ordered_refs :: "metaDb \<Rightarrow> metaRow list" where
  "ordered_refs db =
     sort_key (\<lambda>r. utf8_encode (mrProject r)) (sort_key (\<lambda>r. utf8_encode (mrSession r))
       (sort_key (\<lambda>r. utf8_encode (mrHistory r)) (sort_key mrSeq (archiveRefs db))))"

definition read_ok :: "(objectError, chatMessage option) result \<Rightarrow> chatMessage option" where
  "read_ok res = (case res of Inr (Some m) \<Rightarrow> Some m | _ \<Rightarrow> None)"

record historyGroup =
  hgProject :: jstring
  hgSession :: jstring
  hgHistory :: jstring
  hgMessages :: "chatMessage list"
  hgCreated :: nat

definition group_row :: "metaRow \<times> chatMessage \<Rightarrow> (jstring, historyGroup) jmap \<Rightarrow> (jstring, historyGroup) jmap" where
  "group_row rm groups =
     (case rm of (r, m) \<Rightarrow>
        let key = mrProject r @ js '' '' @ mrSession r @ js '' '' @ mrHistory r;
            g = get_or groups key \<lparr>hgProject = mrProject r, hgSession = mrSession r, hgHistory = mrHistory r, hgMessages = [], hgCreated = mrCreated r\<rparr>
        in jmap_set key (g\<lparr>hgMessages := hgMessages g @ [m]\<rparr>) groups)"

definition group_history :: "metaDb \<Rightarrow> historyGroup \<Rightarrow> (archiveError, historyRow) result" where
  "group_history meta g =
     (case getManifest meta (hgProject g, hgSession g) (hgHistory g) of
        Inl e \<Rightarrow> Inl e
      | Inr saved \<Rightarrow>
          (let summary = (case Option.bind saved hrSummary of Some s \<Rightarrow> s | None \<Rightarrow> historySummary (splitTurns (hgMessages g)))
           in Inr \<lparr>hyHash = hgHistory g, hyProject = hgProject g, hySession = hgSession g, hySummary = summary,
                   hyRaw = tokens_of (hgMessages g), hySummaryTokens = estimateTokens summary, hyCreated = hgCreated g\<rparr>))"

fun all_right :: "('e, 'a) result list \<Rightarrow> ('e, 'a list) result" where
  "all_right [] = Inr []"
| "all_right (Inl e # rs) = Inl e"
| "all_right (Inr x # rs) = (case all_right rs of Inl e \<Rightarrow> Inl e | Inr xs \<Rightarrow> Inr (x # xs))"

definition rebuildFromObjects :: "(byte list \<Rightarrow> byte list) \<Rightarrow> (byte list \<Rightarrow> byte list option) \<Rightarrow> jstring \<Rightarrow> headroomStore \<Rightarrow> (archiveError, derivedDb) result" where
  "rebuildFromObjects digest gunzip dataDir st =
     (let metas = ordered_refs (hsMeta st);
          outcome = (\<lambda>r. read_ok (readMessageObject digest gunzip (\<lambda>f. f) dataDir (mrHash r) (hsFiles st)));
          resolved = List.map_filter (\<lambda>r. map_option (\<lambda>m. (r, m)) (outcome r)) metas;
          skipped = length (remdups (map content_key (filter (\<lambda>r. outcome r = None) metas)));
          chunkWrites = map (\<lambda>(r, m). message_chunk (mrHash r) (row_space r) (role_string (mrRole r)) (mrTurn r) (mrHistory r) m) resolved
      in case all_right (map (\<lambda>(k, g). group_history (hsMeta st) g) (fold group_row resolved [])) of
           Inl e \<Rightarrow> Inl e
         | Inr historyWrites \<Rightarrow>
             (let expectedChunks = length (remdups (map ckHash chunkWrites))
              in Inr (fold upsertHistory historyWrites
                   \<lparr>dIndex = fold insertChunk chunkWrites empty_index, dHistories = [], dRebuild = Some (expectedChunks, skipped)\<rparr>)))"

section \<open>A rebuilt index is complete\<close>

definition chunk_key :: "chunkInput \<Rightarrow> jstring \<times> jstring \<times> jstring \<times> jstring" where
  "chunk_key c = (ckProject c, ckSession c, ckHistory c, ckHash c)"

lemma insertChunk_chunks:
  "map ckHash (chunks (insertChunk c db)) = filter (\<lambda>h. h \<noteq> ckHash c) (map ckHash (chunks db)) @ [ckHash c]"
  by (simp add: insertChunk_def Let_def filter_map comp_def)

lemma insertChunk_refs:
  "map ref_key (chunkRefs (insertChunk c db))
   = (if chunk_key c \<in> set (map ref_key (chunkRefs db)) then map ref_key (chunkRefs db) else map ref_key (chunkRefs db) @ [chunk_key c])"
  by (simp add: insertChunk_def Let_def ref_key_def chunk_key_def)

lemma fold_insertChunk:
  "distinct (map ckHash (chunks (fold insertChunk cs empty_index))) \<and> set (map ckHash (chunks (fold insertChunk cs empty_index))) = ckHash ` set cs
   \<and> distinct (map ref_key (chunkRefs (fold insertChunk cs empty_index)))
   \<and> set (map ref_key (chunkRefs (fold insertChunk cs empty_index))) = chunk_key ` set cs"
proof (induction cs rule: rev_induct)
  case Nil
  then show ?case by (simp add: empty_index_def)
next
  case (snoc c cs)
  let ?db = "fold insertChunk cs empty_index"
  have "fold insertChunk (cs @ [c]) empty_index = insertChunk c ?db" by simp
  moreover have "distinct (map ckHash (chunks (insertChunk c ?db)))" "set (map ckHash (chunks (insertChunk c ?db))) = ckHash ` set (cs @ [c])"
    unfolding insertChunk_chunks using snoc by auto
  moreover have "distinct (map ref_key (chunkRefs (insertChunk c ?db)))" "set (map ref_key (chunkRefs (insertChunk c ?db))) = chunk_key ` set (cs @ [c])"
    unfolding insertChunk_refs using snoc by auto
  ultimately show ?case by simp
qed

lemma upsert_keeps [simp]:
  "dIndex (fold upsertHistory rows db) = dIndex db" "dRebuild (fold upsertHistory rows db) = dRebuild db"
  by (induction rows arbitrary: db) (simp_all add: upsertHistory_def)

lemma set_ordered_refs [simp]: "set (ordered_refs db) = set (archiveRefs db)"
  by (simp add: ordered_refs_def)

lemma chunk_key_message [simp]: "chunk_key (message_chunk h ns rl turn history m) = (fst ns, snd ns, history, h)"
  "ckHash (message_chunk h ns rl turn history m) = h"
  by (simp_all add: chunk_key_def message_chunk_def Let_def)

section \<open>Every archived row has its object\<close>

definition row_backed :: "(byte list \<Rightarrow> byte list) \<Rightarrow> (byte list \<Rightarrow> byte list) \<Rightarrow> jstring \<Rightarrow> fs \<Rightarrow> jstring \<Rightarrow> bool" where
  "row_backed digest gzip d f h \<longleftrightarrow> (\<exists>m. storable m \<and> contentDigest digest m = h \<and> lookup_at d h f = Some (object_bytes gzip m))"

definition store_inv :: "(byte list \<Rightarrow> byte list) \<Rightarrow> (byte list \<Rightarrow> byte list) \<Rightarrow> jstring \<Rightarrow> headroomStore \<Rightarrow> bool" where
  "store_inv digest gzip d st \<longleftrightarrow>
     (\<forall>r\<in>set (archiveRefs (hsMeta st)). row_backed digest gzip d (hsFiles st) (mrHash r))
     \<and> (\<forall>c\<in>set (chunkRefs (dIndex (hsIndex st))). \<exists>r\<in>set (archiveRefs (hsMeta st)). content_key r = ref_key c)"

text \<open>The steps of the writer, each durable on its own, so that a crash leaves the state between two of
  them.\<close>

inductive archive_step :: "(byte list \<Rightarrow> byte list) \<Rightarrow> (byte list \<Rightarrow> byte list) \<Rightarrow> jstring \<Rightarrow> headroomStore \<Rightarrow> headroomStore \<Rightarrow> bool"
  for digest gzip d where
  object: "storable m \<Longrightarrow> writeMessageObject digest gzip (\<lambda>f. f) fault uuid d m h (hsFiles st) = (res, f)
     \<Longrightarrow> archive_step digest gzip d st (st\<lparr>hsFiles := f\<rparr>)"
| attribution: "apHashes plan = map (contentDigest digest) (apMessages plan) \<Longrightarrow> list_all storable (apMessages plan)
     \<Longrightarrow> list_all (\<lambda>m. lookup_at d (contentDigest digest m) (hsFiles st) = Some (object_bytes gzip m)) (apMessages plan)
     \<Longrightarrow> archive_step digest gzip d st (insertCasMetaRows plan ns now st)"
| index: "\<forall>c\<in>set (chunkInputs plan ns). \<exists>r\<in>set (archiveRefs (hsMeta st)). content_key r = chunk_key c
     \<Longrightarrow> archive_step digest gzip d st (writeDerivedRows plan ns st)"
| history: "archive_step digest gzip d st (st\<lparr>hsIndex := upsertHistory row (hsIndex st)\<rparr>)"
| manifest: "saveManifest ns r children (hsMeta st) = Inr meta \<Longrightarrow> archive_step digest gzip d st (st\<lparr>hsMeta := meta\<rparr>)"
| rebuild: "rebuildFromObjects digest gunzip d st = Inr index \<Longrightarrow> archive_step digest gzip d st (st\<lparr>hsIndex := index\<rparr>)"

abbreviation archive_run :: "(byte list \<Rightarrow> byte list) \<Rightarrow> (byte list \<Rightarrow> byte list) \<Rightarrow> jstring \<Rightarrow> headroomStore \<Rightarrow> headroomStore \<Rightarrow> bool" where
  "archive_run digest gzip d \<equiv> (archive_step digest gzip d)\<^sup>*\<^sup>*"

definition empty_store :: headroomStore where
  "empty_store = \<lparr>hsFiles = (\<lambda>_. None), hsMeta = empty_meta, hsIndex = \<lparr>dIndex = empty_index, dHistories = [], dRebuild = None\<rparr>\<rparr>"

lemma write_object_keeps:
  assumes "writeMessageObject digest gzip (\<lambda>f. f) fault uuid d m h f = (res, f')" and "lookup_at d k f = Some v"
  shows "lookup_at d k f' = Some v"
proof (cases "chatMessage_valid m \<and> contentDigest digest m = h")
  case True
  then obtain res' where "write_at False (\<lambda>f. f) fault uuid d h (object_bytes gzip m) f = (res', f')"
    using assms(1) by (auto simp: writeMessageObject_def writeObjectAs_def object_bytes_def split: prod.splits sum.splits)
  from write_at_keeps [OF _ this assms(2)] show ?thesis by simp
qed (use assms in \<open>auto simp: writeMessageObject_def split: if_splits\<close>)

lemma insert_or_ignore_set: "x \<in> set (insert_or_ignore key row rows) \<Longrightarrow> x = row \<or> x \<in> set rows"
  by (auto simp: insert_or_ignore_def split: if_splits)

lemma insert_or_ignore_keeps: "x \<in> set rows \<Longrightarrow> x \<in> set (insert_or_ignore key row rows)"
  by (simp add: insert_or_ignore_def)

lemma archiveRefs_fold: "archiveRefs (fold insertCasMeta rows db) = fold (insert_or_ignore row_key) rows (archiveRefs db)"
  by (induction rows arbitrary: db) (simp_all add: insertCasMeta_def)

lemma fold_ignore_set: "x \<in> set (fold (insert_or_ignore key) rows acc) \<Longrightarrow> x \<in> set rows \<or> x \<in> set acc"
  by (induction rows arbitrary: acc) (auto dest: insert_or_ignore_set)

lemma fold_ignore_keeps: "x \<in> set acc \<Longrightarrow> x \<in> set (fold (insert_or_ignore key) rows acc)"
  by (induction rows arbitrary: acc) (auto intro: insert_or_ignore_keeps)

lemma meta_rows_hash:
  assumes "r \<in> set (meta_rows plan ns now)" and "apHashes plan = map f (apMessages plan)"
  shows "\<exists>m\<in>set (apMessages plan). mrHash r = f m"
  using assms by (auto simp: meta_rows_def Let_def set_zip split: list.splits)

lemma refs_of_insert: "c \<in> set (chunkRefs (insertChunk i db)) \<Longrightarrow> c \<in> set (chunkRefs db) \<or> ref_key c = chunk_key i"
  by (auto simp: insertChunk_def Let_def ref_key_def chunk_key_def split: if_splits)

lemma refs_of_fold: "c \<in> set (chunkRefs (fold insertChunk is db)) \<Longrightarrow> c \<in> set (chunkRefs db) \<or> (\<exists>i\<in>set is. ref_key c = chunk_key i)"
  by (induction "is" arbitrary: db) (auto dest: refs_of_insert)

lemma rebuild_refs:
  assumes "rebuildFromObjects digest gunzip d st = Inr index" and "c \<in> set (chunkRefs (dIndex index))"
  shows "\<exists>r\<in>set (archiveRefs (hsMeta st)). content_key r = ref_key c"
proof -
  obtain i where "i \<in> set (map (\<lambda>(r, m). message_chunk (mrHash r) (row_space r) (role_string (mrRole r)) (mrTurn r) (mrHistory r) m)
      (List.map_filter (\<lambda>r. map_option (\<lambda>m. (r, m)) (read_ok (readMessageObject digest gunzip (\<lambda>f. f) d (mrHash r) (hsFiles st)))) (ordered_refs (hsMeta st))))"
    "ref_key c = chunk_key i"
    using assms by (auto simp: rebuildFromObjects_def Let_def empty_index_def split: sum.splits dest!: refs_of_fold)
  then show ?thesis by (auto simp: List.map_filter_def content_key_def row_space_def)
qed

lemma archive_step_inv: "archive_step digest gzip d st st' \<Longrightarrow> store_inv digest gzip d st \<Longrightarrow> store_inv digest gzip d st'"
proof (induction rule: archive_step.induct)
  case (object m fault uuid h st res f)
  then show ?case using write_object_keeps [OF object(2)] by (auto simp: store_inv_def row_backed_def) (metis)
next
  case (attribution plan st ns now)
  have "row_backed digest gzip d (hsFiles st) (mrHash r)" if "r \<in> set (meta_rows plan ns now)" for r
    using meta_rows_hash [OF that attribution(1)] attribution(2,3) by (auto simp: row_backed_def list_all_iff)
  with attribution(4) show ?case
    by (auto simp: store_inv_def insertCasMetaRows_def archiveRefs_fold dest!: fold_ignore_set intro: fold_ignore_keeps) (metis fold_ignore_keeps)
next
  case (index plan ns st)
  then show ?case by (auto simp: store_inv_def writeDerivedRows_def dest!: refs_of_fold)
next
  case (history st row)
  then show ?case by (simp add: store_inv_def upsertHistory_def)
next
  case (manifest ns r children st meta)
  then have "archiveRefs meta = archiveRefs (hsMeta st)" by (auto simp: saveManifest_def split: option.splits if_splits)
  with manifest(2) show ?case by (simp add: store_inv_def)
next
  case (rebuild gunzip st index)
  then show ?case using rebuild_refs [OF rebuild(1)] by (simp add: store_inv_def)
qed

lemma archive_run_inv: "archive_run digest gzip d empty_store st \<Longrightarrow> store_inv digest gzip d st"
proof (induction rule: rtranclp_induct)
  case base
  then show ?case by (simp add: store_inv_def empty_store_def empty_meta_def empty_index_def)
next
  case (step y z)
  then show ?case by (blast intro: archive_step_inv)
qed

section \<open>The engine as a sequence of steps\<close>

text \<open>Repairing a known history and archiving a new one write the same rows.\<close>

lemma persist_rows:
  "persistArchive digest gzip wenv d ns plan raw now st =
     (case write_objects digest gzip wenv d 0 (zip (apMessages plan) (apHashes plan)) (hsFiles st) of
        (Some e, f) \<Rightarrow> (Inl (ObjectError e), st\<lparr>hsFiles := f\<rparr>)
      | (None, f) \<Rightarrow>
          (let st2 = writeDerivedRows plan ns (insertCasMetaRows plan ns now (st\<lparr>hsFiles := f\<rparr>))
           in (Inr (), st2\<lparr>hsIndex := upsertHistory (history_row plan ns raw now) (hsIndex st2)\<rparr>)))"
  by (auto simp: persistArchive_def backfill_def Let_def split: option.splits prod.splits)

lemma write_objects_run:
  assumes "write_objects digest gzip wenv d i ps (hsFiles st) = (res, f)" and "list_all (\<lambda>(m, h). storable m) ps"
  shows "archive_run digest gzip d st (st\<lparr>hsFiles := f\<rparr>)"
  using assms
proof (induction ps arbitrary: i st)
  case (Cons p rest)
  obtain m h where p: "p = (m, h)" by (cases p)
  obtain r f1 where w: "writeMessageObject digest gzip (\<lambda>f. f) (fst (wenv i)) (snd (wenv i)) d m h (hsFiles st) = (r, f1)"
    by (metis surj_pair)
  have step: "archive_step digest gzip d st (st\<lparr>hsFiles := f1\<rparr>)"
    using archive_step.object [OF _ w] Cons(3) by (simp add: p)
  show ?case
  proof (cases r)
    case (Inl e)
    with Cons(2) w step show ?thesis by (auto simp: p)
  next
    case (Inr x)
    with Cons(2) w have "write_objects digest gzip wenv d (i + 1) rest (hsFiles (st\<lparr>hsFiles := f1\<rparr>)) = (res, f)" by (simp add: p)
    with Cons(1) [of "i + 1" "st\<lparr>hsFiles := f1\<rparr>"] Cons(3)
    have "archive_run digest gzip d (st\<lparr>hsFiles := f1\<rparr>) (st\<lparr>hsFiles := f\<rparr>)" by simp
    with step show ?thesis by (rule converse_rtranclp_into_rtranclp)
  qed
qed auto

lemma write_objects_stored:
  assumes "write_objects digest gzip wenv d i ps f = (None, f')"
  shows "(\<forall>(m, h)\<in>set ps. h = contentDigest digest m \<and> chatMessage_valid m \<and> lookup_at d h f' = Some (object_bytes gzip m))
    \<and> (\<forall>k v. lookup_at d k f = Some v \<longrightarrow> lookup_at d k f' = Some v)"
  using assms
proof (induction digest gzip wenv d i ps f rule: write_objects.induct)
  case (2 digest gzip wenv d i m h rest f)
  obtain r f1 where w: "writeMessageObject digest gzip (\<lambda>f. f) (fst (wenv i)) (snd (wenv i)) d m h f = (Inr r, f1)"
      "write_objects digest gzip wenv d (i + 1) rest f1 = (None, f')"
    using 2(2) by (auto split: prod.splits sum.splits)
  from 2(1) [OF w(1) [symmetric] refl w(2)] write_stored [OF w(1)] write_object_keeps [OF w(1)] show ?case by auto
qed simp

lemma zip_digests: "hs = map g ms \<Longrightarrow> (m, h) \<in> set (zip ms hs) \<longleftrightarrow> m \<in> set ms \<and> h = g m"
  by (auto simp: zip_map2 in_set_zip set_zip image_iff in_set_conv_nth)

text \<open>Rows of the same history that are already there agree with the plan.\<close>

definition rows_agree :: "archivePlan \<Rightarrow> nspace \<Rightarrow> metaDb \<Rightarrow> bool" where
  "rows_agree plan ns db \<longleftrightarrow> (\<forall>r\<in>set (archiveRefs db). row_space r = ns \<and> mrHistory r = apHistoryHash plan \<longrightarrow>
     mrSeq r < length (apHashes plan) \<and> mrHash r = apHashes plan ! mrSeq r)"

definition plan_ok :: "(byte list \<Rightarrow> byte list) \<Rightarrow> archivePlan \<Rightarrow> bool" where
  "plan_ok digest plan \<longleftrightarrow> apHashes plan = map (contentDigest digest) (apMessages plan) \<and> list_all storable (apMessages plan)
     \<and> (case apTurns plan of [] \<Rightarrow> True | t # ts \<Rightarrow> tstart t = 0)"

lemma meta_rows_nth:
  assumes "plan_ok digest plan"
  shows "length (meta_rows plan ns now) = length (apHashes plan)"
    and "i < length (apHashes plan) \<Longrightarrow> row_space (meta_rows plan ns now ! i) = ns \<and> mrHistory (meta_rows plan ns now ! i) = apHistoryHash plan
      \<and> mrSeq (meta_rows plan ns now ! i) = i \<and> mrHash (meta_rows plan ns now ! i) = apHashes plan ! i"
  using assms by (auto simp: meta_rows_def plan_ok_def row_space_def Let_def split: list.splits)

lemma fold_ignore_key: "k \<in> key ` set rows \<Longrightarrow> k \<in> key ` set (fold (insert_or_ignore key) rows acc)"
proof (induction rows arbitrary: acc)
  case (Cons r rows)
  show ?case
  proof (cases "k = key r")
    case True
    obtain x where "x \<in> set (insert_or_ignore key r acc)" "key x = k"
    proof (cases "key r \<in> key ` set acc")
      assume "key r \<in> key ` set acc"
      then obtain x where "x \<in> set acc" "key x = key r" by auto
      then show thesis using True by (intro that [of x]) (auto simp: insert_or_ignore_def)
    next
      assume "key r \<notin> key ` set acc"
      then show thesis using True by (intro that [of r]) (auto simp: insert_or_ignore_def)
    qed
    then show ?thesis using fold_ignore_keeps [of x "insert_or_ignore key r acc" key rows] by auto
  next
    case False
    with Cons show ?thesis by auto
  qed
qed simp

lemma chunk_inputs_key:
  assumes "c \<in> set (chunkInputs plan ns)"
  shows "\<exists>i<length (apMessages plan). chunk_key c = (fst ns, snd ns, apHistoryHash plan, apHashes plan ! i)"
  using assms by (auto simp: chunkInputs_def set_zip)

lemma rows_of_plan:
  assumes "plan_ok digest plan" and "rows_agree plan ns (hsMeta st)" and "c \<in> set (chunkInputs plan ns)"
  shows "\<exists>r\<in>set (archiveRefs (hsMeta (insertCasMetaRows plan ns now st))). content_key r = chunk_key c"
proof -
  obtain i where i: "i < length (apMessages plan)" "chunk_key c = (fst ns, snd ns, apHistoryHash plan, apHashes plan ! i)"
    using chunk_inputs_key [OF assms(3)] by blast
  have len: "i < length (apHashes plan)" using i(1) assms(1) by (simp add: plan_ok_def)
  let ?rows = "meta_rows plan ns now" and ?refs = "archiveRefs (hsMeta (insertCasMetaRows plan ns now st))"
  note nth = meta_rows_nth(2) [OF assms(1) len, of ns now]
  have "?rows ! i \<in> set ?rows" using meta_rows_nth(1) [OF assms(1), of ns now] len by simp
  then have "row_key (?rows ! i) \<in> row_key ` set ?rows" by simp
  from fold_ignore_key [OF this, of "archiveRefs (hsMeta st)"] have "(ns, apHistoryHash plan, i) \<in> row_key ` set ?refs"
    using nth by (simp add: insertCasMetaRows_def archiveRefs_fold row_key_def [of "_ ! _"])
  then obtain r where r: "r \<in> set ?refs" "row_key r = (ns, apHistoryHash plan, i)" by force
  have "mrHash r = apHashes plan ! i"
  proof (cases "r \<in> set (archiveRefs (hsMeta st))")
    case True
    with assms(2) r(2) show ?thesis by (auto simp: rows_agree_def row_key_def)
  next
    case False
    with r(1) have "r \<in> set ?rows" by (auto simp: insertCasMetaRows_def archiveRefs_fold dest: fold_ignore_set)
    then obtain j where "j < length (apHashes plan)" "r = ?rows ! j"
      using meta_rows_nth(1) [OF assms(1), of ns now] by (auto simp: in_set_conv_nth)
    with meta_rows_nth(2) [OF assms(1), of j ns now] r(2) show ?thesis by (simp add: row_key_def)
  qed
  with r i(2) show ?thesis by (intro bexI [of _ r]) (auto simp: content_key_def row_key_def row_space_def)
qed

lemma persist_run:
  assumes "plan_ok digest plan" and "rows_agree plan ns (hsMeta st)"
  shows "archive_run digest gzip d st (snd (persistArchive digest gzip wenv d ns plan raw now st))"
proof -
  let ?ps = "zip (apMessages plan) (apHashes plan)"
  have hs: "apHashes plan = map (contentDigest digest) (apMessages plan)" and st': "list_all storable (apMessages plan)"
    using assms(1) by (simp_all add: plan_ok_def)
  obtain res f where w: "write_objects digest gzip wenv d 0 ?ps (hsFiles st) = (res, f)" by (metis surj_pair)
  have "list_all (\<lambda>(m, h). storable m) ?ps" using st' by (auto simp: list_all_iff dest: set_zip_leftD)
  from write_objects_run [OF w this] have r1: "archive_run digest gzip d st (st\<lparr>hsFiles := f\<rparr>)" .
  show ?thesis
  proof (cases res)
    case (Some e)
    with r1 w show ?thesis by (simp add: persist_rows)
  next
    case None
    let ?st1 = "insertCasMetaRows plan ns now (st\<lparr>hsFiles := f\<rparr>)"
    let ?st2 = "writeDerivedRows plan ns ?st1"
    have "list_all (\<lambda>m. lookup_at d (contentDigest digest m) f = Some (object_bytes gzip m)) (apMessages plan)"
      using write_objects_stored [OF w [unfolded None]] zip_digests [OF hs] by (fastforce simp: list_all_iff)
    then have "archive_step digest gzip d (st\<lparr>hsFiles := f\<rparr>) ?st1"
      by (intro archive_step.attribution hs st') simp
    moreover have "archive_step digest gzip d ?st1 ?st2"
      by (intro archive_step.index ballI rows_of_plan [OF assms(1)]) (simp add: assms(2))
    moreover have "archive_step digest gzip d ?st2 (?st2\<lparr>hsIndex := upsertHistory (history_row plan ns raw now) (hsIndex ?st2)\<rparr>)"
      by (rule archive_step.history)
    ultimately show ?thesis
      using r1 w None by (simp add: persist_rows Let_def)
  qed
qed

lemma chosen_plan_ok:
  assumes "compress_plan digest params = (Some plan, r)" and "list_all storable (ppMessages params)"
  shows "plan_ok digest plan"
proof -
  have p: "old_turns params \<noteq> []" "plan = chosen_plan digest params"
    using assms(1) by (auto simp: compress_plan_def Let_def split: if_splits)
  obtain run rest where run: "ppMessages params = run @ rest" "apMessages plan = run" "apHashes plan = map (contentDigest digest) run"
    by (rule chosen_run [OF p(1), of digest, folded p(2)]) blast
  obtain j where j: "plan = planArchive digest (take j (old_turns params))" using chosen_prefix [OF p(1)] p(2) by metis
  obtain n where n: "old_turns params = take n (splitTurns (ppMessages params))" using old_turns_prefix by blast
  have "starts_at 0 (splitTurns (ppMessages params))" using split_ok by (simp add: turns_ok_def)
  moreover have "apTurns plan = take (min j n) (splitTurns (ppMessages params))" by (simp add: j n planArchive_def Let_def)
  ultimately have "case apTurns plan of [] \<Rightarrow> True | t # ts \<Rightarrow> tstart t = 0"
    by (cases "splitTurns (ppMessages params)"; cases "min j n") auto
  with run assms(2) show ?thesis by (simp add: plan_ok_def)
qed

section \<open>Reading a new history\<close>

lemma fold_ignore_new:
  assumes "distinct (map key rows)" and "key ` set rows \<inter> key ` set acc = {}"
  shows "fold (insert_or_ignore key) rows acc = acc @ rows"
  using assms
proof (induction rows arbitrary: acc)
  case (Cons r rows)
  then have "key r \<notin> key ` set acc" by auto
  then have step: "insert_or_ignore key r acc = acc @ [r]" by (simp add: insert_or_ignore_def)
  have "key ` set rows \<inter> key ` set (acc @ [r]) = {}" using Cons(2,3) by auto
  with Cons(1) [of "acc @ [r]"] Cons(2) step show ?case by simp
qed simp

lemma new_history_rows:
  assumes "plan_ok digest plan" and "\<not> hasHistoryMeta db ns (apHistoryHash plan)"
  shows "map mrHash (history_rows (fold insertCasMeta (meta_rows plan ns now) db) ns (apHistoryHash plan)) = apHashes plan"
proof -
  let ?rows = "meta_rows plan ns now"
  note nth = meta_rows_nth [OF assms(1)]
  have keys: "map row_key ?rows = map (\<lambda>i. (ns, apHistoryHash plan, i)) [0 ..< length (apHashes plan)]"
    using nth(1) [of ns now] nth(2) [of _ ns now] by (intro nth_equalityI) (auto simp: row_key_def)
  have "distinct (map row_key ?rows)" unfolding keys by (simp add: distinct_map inj_on_def)
  moreover have "row_key ` set ?rows \<inter> row_key ` set (archiveRefs db) = {}"
  proof -
    have "row_space r \<noteq> ns \<or> mrHistory r \<noteq> apHistoryHash plan" if "r \<in> set (archiveRefs db)" for r
      using assms(2) that by (auto simp: hasHistoryMeta_def list_ex_iff)
    moreover have "row_space r = ns \<and> mrHistory r = apHistoryHash plan" if "r \<in> set ?rows" for r
      using that nth(1) [of ns now] nth(2) [of _ ns now] by (metis in_set_conv_nth)
    ultimately show ?thesis by (auto simp: row_key_def) blast
  qed
  ultimately have refs: "archiveRefs (fold insertCasMeta ?rows db) = archiveRefs db @ ?rows"
    by (simp add: archiveRefs_fold fold_ignore_new)
  have mine: "filter (\<lambda>r. row_space r = ns \<and> mrHistory r = apHistoryHash plan) ?rows = ?rows"
    using nth(1) [of ns now] nth(2) [of _ ns now] by (auto simp: filter_id_conv in_set_conv_nth)
  have none: "filter (\<lambda>r. row_space r = ns \<and> mrHistory r = apHistoryHash plan) (archiveRefs db) = []"
    using assms(2) by (auto simp: hasHistoryMeta_def list_ex_iff filter_empty_conv)
  have "map mrSeq ?rows = [0 ..< length (apHashes plan)]" using nth by (intro nth_equalityI) auto
  then have "sort_key mrSeq ?rows = ?rows" by (intro sort_key_id_if_sorted) (simp add: sorted_upt)
  then have "history_rows (fold insertCasMeta ?rows db) ns (apHistoryHash plan) = ?rows"
    by (simp add: history_rows_def refs mine none)
  moreover have "map mrHash ?rows = apHashes plan"
    using nth(1) [of ns now] nth(2) [of _ ns now] by (intro nth_equalityI) simp_all
  ultimately show ?thesis by simp
qed

lemma retrieve_owned:
  assumes "ownsCasMeta (hsMeta st) ns h" and "readMessageObject digest gunzip env d h (hsFiles st) = Inr (Some m)"
  shows "retrieveByHash digest gunzip env d ns h cursor maxBytes maxTokens st
    = (case paginateText (renderProjection m) \<lparr>pref = hash_ref_json ns h, pcursor = cursor, pmaxBytes = maxBytes, pmaxTokens = maxTokens\<rparr> of
         Inl e \<Rightarrow> Inl (PageError e) | Inr page \<Rightarrow> Inr (HashPage page))"
  using assms by (auto simp: retrieveByHash_def paginateText_def decodeCursor_def [of None] off_boundary_def Let_def split: sum.splits)

lemma engine_archive_cases:
  assumes "engine_archive digest gzip wenv d used maxStorage now ns params st = (Inr r, st')" and "hrCompacted r"
  obtains plan st1 where "compress_plan digest params = (Some plan, r)"
    "persistArchive digest gzip wenv d ns plan (hrRaw r) now st = (Inr (), st1)" "hsFiles st' = hsFiles st1" "archiveRefs (hsMeta st') = archiveRefs (hsMeta st1)"
proof -
  have "snd (compress_plan digest params) = r \<and> fst (compress_plan digest params) \<noteq> None \<or> \<not> hrCompacted (snd (compress_plan digest params)) \<and> fst (compress_plan digest params) = None"
    using assms by (auto simp: compress_plan_def engine_archive_def inert_result_def Let_def split: if_splits prod.splits sum.splits)
  then obtain plan where p: "compress_plan digest params = (Some plan, r)"
    using assms by (cases "compress_plan digest params") (auto simp: engine_archive_def split: option.splits)
  obtain res st1 where per: "persistArchive digest gzip wenv d ns plan (hrRaw r) now st = (res, st1)" by (metis surj_pair)
  have "res = Inr () \<and> hsFiles st' = hsFiles st1 \<and> archiveRefs (hsMeta st') = archiveRefs (hsMeta st1)"
    using assms(1) p per by (auto simp: engine_archive_def saveManifest_def split: if_splits sum.splits option.splits)
  with p per show ?thesis by (intro that [of plan st1]) auto
qed

text \<open>What a successful call that archives a new history leaves behind.\<close>

lemma archived_run:
  assumes "gzip_ok gzip gunzip" and "only_adds env" and "list_all storable (ppMessages params)"
    and "engine_archive digest gzip wenv dataDir used maxStorage now ns params st = (Inr r, st')" and "hrCompacted r"
    and "hrHistoryHash r = Some h" and "\<not> hasHistoryMeta (hsMeta st) ns h"
  obtains run rest where "ppMessages params = run @ rest" "run \<noteq> []" "map mrHash (history_rows (hsMeta st') ns h) = map (contentDigest digest) run"
    "\<forall>m\<in>set run. readMessageObject digest gunzip env dataDir (contentDigest digest m) (hsFiles st') = Inr (Some m)"
    "\<forall>m\<in>set run. ownsCasMeta (hsMeta st') ns (contentDigest digest m)"
proof -
  obtain plan st1 where p: "compress_plan digest params = (Some plan, r)"
      "persistArchive digest gzip wenv dataDir ns plan (hrRaw r) now st = (Inr (), st1)"
      "hsFiles st' = hsFiles st1" "archiveRefs (hsMeta st') = archiveRefs (hsMeta st1)"
    using engine_archive_cases [OF assms(4,5)] by blast
  note ok = chosen_plan_ok [OF p(1) assms(3)]
  have old: "old_turns params \<noteq> []" "plan = chosen_plan digest params" "r = plan_result params plan"
    using p(1) by (auto simp: compress_plan_def Let_def split: if_splits)
  obtain run rest where run: "ppMessages params = run @ rest" "run \<noteq> []" "apMessages plan = run" "apHashes plan = map (contentDigest digest) run"
    by (rule chosen_run [OF old(1), of digest, folded old(2)]) blast
  have h: "h = apHistoryHash plan" using assms(6) by (simp add: old(3))
  obtain f where w: "write_objects digest gzip wenv dataDir 0 (zip run (apHashes plan)) (hsFiles st) = (None, f)"
    and st1: "hsFiles st1 = f" "archiveRefs (hsMeta st1) = archiveRefs (fold insertCasMeta (meta_rows plan ns now) (hsMeta st))"
    using p(2) run(3)
    by (auto simp: persist_rows Let_def insertCasMetaRows_def writeDerivedRows_def split: prod.splits option.splits)
  have rows: "map mrHash (history_rows (hsMeta st') ns h) = map (contentDigest digest) run"
    using new_history_rows [OF ok assms(7) [unfolded h], of now] run(4) by (simp add: history_rows_def p(4) st1(2) h)
  have read: "readMessageObject digest gunzip env dataDir (contentDigest digest m) (hsFiles st') = Inr (Some m)" if "m \<in> set run" for m
    using write_objects_stored [OF w] zip_digests [OF run(4), of m "contentDigest digest m"] that ok run(3)
    by (intro read_stored [OF assms(1) _ assms(2)]) (auto simp: p(3) st1(1) plan_ok_def list_all_iff)
  have owns: "ownsCasMeta (hsMeta st') ns (contentDigest digest m)" if "m \<in> set run" for m
  proof -
    have "contentDigest digest m \<in> set (map mrHash (history_rows (hsMeta st') ns h))" unfolding rows using that by simp
    then show ?thesis by (auto simp: ownsCasMeta_def list_ex_iff history_rows_def)
  qed
  show ?thesis using run(1,2) rows read owns by (intro that) auto
qed

lemma engine_run:
  assumes "list_all storable (ppMessages params)"
    and "\<forall>plan r. compress_plan digest params = (Some plan, r) \<longrightarrow> rows_agree plan ns (hsMeta st)"
  shows "archive_run digest gzip dataDir st (snd (engine_archive digest gzip wenv dataDir used maxStorage now ns params st))"
proof (cases "compress_plan digest params")
  case (Pair plan r)
  show ?thesis
  proof (cases plan)
    case None
    with Pair show ?thesis by (simp add: engine_archive_def)
  next
    case (Some p)
    have agree: "rows_agree p ns (hsMeta st)" using assms(2) Pair Some by blast
    obtain res st1 where per: "persistArchive digest gzip wenv dataDir ns p (hrRaw r) now st = (res, st1)" by (metis surj_pair)
    have run: "archive_run digest gzip dataDir st st1"
      using persist_run [OF chosen_plan_ok [OF Pair [unfolded Some] assms(1)] agree, where gzip = gzip and d = dataDir and wenv = wenv and raw = "hrRaw r" and now = now] per by simp
    have "archive_run digest gzip dataDir st (st1\<lparr>hsMeta := meta\<rparr>)" if "saveManifest ns r children (hsMeta st1) = Inr meta" for meta children
      using rtranclp.rtrancl_into_rtrancl [OF run archive_step.manifest [OF that]] .
    with run per Pair Some show ?thesis by (auto simp: engine_archive_def split: sum.splits)
  qed
qed

section \<open>A sample archive\<close>

definition demo_run :: "(archiveError, headroomResult) result \<times> headroomStore" where
  "demo_run = engine_archive (\<lambda>_. replicate 32 0) (\<lambda>bs. bs) (\<lambda>_. (None, js ''u'')) (js ''/d'') 0 1000000 0 (js ''p'', js ''s'') demo_talk empty_store"

abbreviation demo_old :: chatMessage where
  "demo_old \<equiv> hd (ppMessages demo_talk)"

lemma demo_storable: "list_all storable (ppMessages demo_talk)"
  by code_simp

lemma demo_hash: "hashText (\<lambda>_. replicate 32 0) t = replicate 64 48" "validHash (replicate 64 48)"
proof -
  have "concat (map hex_byte (replicate 32 0)) = replicate 64 48" by code_simp
  then show "hashText (\<lambda>_. replicate 32 0) t = replicate 64 48" by (simp only: hashText_def sha256Hex_def)
  show "validHash (replicate 64 48)" by code_simp
qed

lemma demo_plan:
  obtains plan where "compress_plan (\<lambda>_. replicate 32 0) demo_talk = (Some plan, plan_result demo_talk plan)" "apMessages plan = [demo_old]"
    "apHashes plan = [replicate 64 48]" "apHistoryHash plan = replicate 64 48" "headroomCompressResult_valid (plan_result demo_talk plan)"
proof -
  let ?d = "\<lambda>_. replicate 32 0"
  let ?plan = "chosen_plan ?d demo_talk"
  have p: "old_turns demo_talk \<noteq> []" "compress_plan ?d demo_talk = (Some ?plan, plan_result demo_talk ?plan)" "0 < hrFreed (plan_result demo_talk ?plan)"
    using demo_frees by (auto simp: compress_plan_def inert_result_def Let_def split: if_splits)
  have keep: "ppRetain demo_talk + 1 = 1" by (simp add: demo_talk_def)
  obtain run rest kept where run: "ppMessages demo_talk = run @ rest" "run \<noteq> []" "apMessages ?plan = run" "apHashes ?plan = map (contentDigest ?d) run"
      "rest = kept @ concat (map tmessages (drop (length (splitTurns (ppMessages demo_talk)) - 1) (splitTurns (ppMessages demo_talk))))"
    by (rule chosen_run [OF p(1), of ?d, unfolded keep]) blast
  have two: "length (ppMessages demo_talk) = 2" by (simp add: demo_talk_def)
  have "concat (map tmessages (drop (length (splitTurns (ppMessages demo_talk)) - 1) (splitTurns (ppMessages demo_talk)))) \<noteq> []" by code_simp
  then have "0 < length rest" unfolding run(5) by simp
  moreover have "length run + length rest = 2" using two unfolding run(1) by simp
  moreover have "0 < length run" using run(2) by simp
  ultimately have "length run = 1" by linarith
  then obtain x where x: "run = [x]" by (auto simp: length_Suc_conv)
  then have one: "run = [demo_old]" unfolding run(1) by simp
  have hist: "apHistoryHash ?plan = replicate 64 48"
    using chosen_prefix [OF p(1), of ?d] by (auto simp: planArchive_def Let_def historyHash_def demo_hash)
  have dig: "contentDigest ?d m = replicate 64 48" for m by (simp add: contentDigest_def demo_hash)
  have "headroomCompressResult_valid (plan_result demo_talk ?plan)"
    by (rule plan_result_valid [OF run(3,1,2) _ run(4)]) (use p(3) in \<open>simp_all add: one hist dig demo_hash\<close>)
  with p(2) run(3,4) hist show ?thesis by (intro that [of ?plan]) (simp_all add: one dig)
qed

lemma demo_archives: "case demo_run of (Inr r, st) \<Rightarrow> hrCompacted r \<and> hrHistoryHash r = Some (replicate 64 48) | _ \<Rightarrow> False"
proof -
  obtain plan where plan: "compress_plan (\<lambda>_. replicate 32 0) demo_talk = (Some plan, plan_result demo_talk plan)" "apMessages plan = [demo_old]"
    "apHashes plan = [replicate 64 48]" "apHistoryHash plan = replicate 64 48" "headroomCompressResult_valid (plan_result demo_talk plan)"
    by (rule demo_plan)
  have "isl (fst (writeMessageObject (\<lambda>_. replicate 32 0) (\<lambda>bs. bs) (\<lambda>f. f) None (js ''u'') (js ''/d'') demo_old (replicate 64 48) (\<lambda>_. None))) = False"
    by code_simp
  then obtain r f where "writeMessageObject (\<lambda>_. replicate 32 0) (\<lambda>bs. bs) (\<lambda>f. f) None (js ''u'') (js ''/d'') demo_old (replicate 64 48) (\<lambda>_. None) = (Inr r, f)"
    by (metis isl_def obj_sumE prod.collapse)
  moreover have "reserve_bytes [demo_old] \<le> 1000000" by code_simp
  moreover have "replicate 64 (48 :: nat) \<noteq> []" by simp
  ultimately show ?thesis using plan(5)
    by (simp add: demo_run_def engine_archive_def plan persist_rows saveManifest_def empty_store_def Let_def)
qed

section \<open>Properties\<close>

text \<open>C9: The archive is consistent after a crash at any point. Whatever steps the writer has completed, every
  attribution row names a message that can be read back and has that content digest, and every entry
  of the index belongs to an attribution row.\<close>

theorem archive_crash_consistent:
  assumes "gzip_ok gzip gunzip" and "only_adds env" and "archive_run digest gzip dataDir empty_store st"
  shows "(\<forall>r\<in>set (archiveRefs (hsMeta st)). \<exists>m. readMessageObject digest gunzip env dataDir (mrHash r) (hsFiles st) = Inr (Some m)
            \<and> contentDigest digest m = mrHash r)
    \<and> (\<forall>c\<in>set (chunkRefs (dIndex (hsIndex st))). \<exists>r\<in>set (archiveRefs (hsMeta st)). content_key r = ref_key c)"
  using archive_run_inv [OF assms(3)] read_stored [OF assms(1) _ assms(2)]
  by (auto simp: store_inv_def row_backed_def) metis

theorem archive_crash_consistent_witness:
  "let st = empty_store\<lparr>hsFiles := snd (writeMessageObject (\<lambda>_. replicate 32 0) (\<lambda>bs. bs) (\<lambda>f. f) None (js ''u'') (js ''/d'') demo_message (replicate 64 48) (\<lambda>_. None))\<rparr>;
       plan = \<lparr>apTurns = [], apMessages = [demo_message], apHashes = [replicate 64 48], apHistoryHash = replicate 64 49, apSummary = [], apSummaryTokens = 0\<rparr>;
       st' = insertCasMetaRows plan (js ''p'', js ''s'') 0 st
   in archiveRefs (hsMeta st') \<noteq> [] \<and> (\<forall>r\<in>set (archiveRefs (hsMeta st')).
        \<exists>m. readMessageObject (\<lambda>_. replicate 32 0) Some (\<lambda>f. f) (js ''/d'') (mrHash r) (hsFiles st') = Inr (Some m))"
proof -
  let ?d = "\<lambda>_. replicate 32 0" and ?h = "replicate 64 48" and ?dir = "js ''/d''"
  let ?w = "writeMessageObject ?d (\<lambda>bs. bs) (\<lambda>f. f) None (js ''u'') ?dir demo_message ?h (\<lambda>_. None)"
  let ?st = "empty_store\<lparr>hsFiles := snd ?w\<rparr>"
  let ?plan = "\<lparr>apTurns = [], apMessages = [demo_message], apHashes = [?h], apHistoryHash = replicate 64 49, apSummary = [], apSummaryTokens = 0\<rparr>"
  let ?st' = "insertCasMetaRows ?plan (js ''p'', js ''s'') 0 ?st"
  have "isl (fst ?w) = False" by code_simp
  then obtain r f' where w: "?w = (Inr r, f')" by (metis isl_def obj_sumE prod.collapse)
  have ok: "storable demo_message" by code_simp
  have dig: "contentDigest ?d demo_message = ?h" using write_stored [OF w] by simp
  have "archive_step ?d (\<lambda>bs. bs) ?dir empty_store ?st"
    using archive_step.object [OF ok, of ?d "\<lambda>bs. bs" None "js ''u''" ?dir ?h empty_store "Inr r" f'] w by (simp add: empty_store_def)
  moreover have "archive_step ?d (\<lambda>bs. bs) ?dir ?st ?st'"
    using write_stored [OF w] ok w dig by (intro archive_step.attribution) simp_all
  ultimately have "archive_run ?d (\<lambda>bs. bs) ?dir empty_store ?st'"
    by (intro converse_rtranclp_into_rtranclp [OF _ r_into_rtranclp])
  moreover have "archiveRefs (hsMeta ?st') \<noteq> []"
    by (simp add: insertCasMetaRows_def insertCasMeta_def meta_rows_def insert_or_ignore_def empty_store_def empty_meta_def Let_def)
  ultimately show ?thesis
    using archive_crash_consistent [of "\<lambda>bs. bs" Some "\<lambda>f. f" ?d ?dir ?st'] by (auto simp: gzip_ok_def only_adds_def Let_def)
qed

text \<open>C24: The engine writes in the crash-safe order. A legacy compress call, whether it succeeds, fails or is
  refused, is a sequence of the writer's steps: objects before attribution, attribution before index
  rows, the manifest last. Rows of the same history that exist already must agree with it.\<close>

theorem engine_archive_steps:
  assumes "list_all storable (ppMessages params)"
    and "\<forall>plan r. compress_plan digest params = (Some plan, r) \<longrightarrow> rows_agree plan ns (hsMeta st)"
  shows "archive_run digest gzip dataDir st (snd (engine_archive digest gzip wenv dataDir used maxStorage now ns params st))"
  using engine_run [OF assms] .

theorem engine_archive_steps_witness:
  "archive_run (\<lambda>_. replicate 32 0) (\<lambda>bs. bs) (js ''/d'') empty_store (snd demo_run) \<and> (case demo_run of (Inr r, st) \<Rightarrow> hrCompacted r | _ \<Rightarrow> False)"
  using engine_archive_steps [OF demo_storable, of "\<lambda>_. replicate 32 0" "(js ''p'', js ''s'')" empty_store] demo_archives
  by (auto simp: demo_run_def rows_agree_def empty_store_def empty_meta_def split: sum.splits prod.splits)

text \<open>C3: What a compaction archives can be read back. After a successful compress call that archives a new
  history, the rows of that history list the digests of the archived messages in order, every one of
  these messages can be read, and retrieving it by hash in the same namespace answers with the pages
  of its text.\<close>

theorem archived_history_complete:
  assumes "gzip_ok gzip gunzip" and "only_adds env" and "list_all storable (ppMessages params)"
    and "engine_archive digest gzip wenv dataDir used maxStorage now ns params st = (Inr r, st')" and "hrCompacted r"
    and "hrHistoryHash r = Some h" and "\<not> hasHistoryMeta (hsMeta st) ns h"
  shows "\<exists>run rest. ppMessages params = run @ rest \<and> run \<noteq> []
    \<and> map mrHash (history_rows (hsMeta st') ns h) = map (contentDigest digest) run
    \<and> (\<forall>m\<in>set run. readMessageObject digest gunzip env dataDir (contentDigest digest m) (hsFiles st') = Inr (Some m)
        \<and> retrieveByHash digest gunzip env dataDir ns (contentDigest digest m) cursor maxBytes maxTokens st'
          = (case paginateText (renderProjection m) \<lparr>pref = hash_ref_json ns (contentDigest digest m), pcursor = cursor,
                  pmaxBytes = maxBytes, pmaxTokens = maxTokens\<rparr> of
               Inl e \<Rightarrow> Inl (PageError e) | Inr page \<Rightarrow> Inr (HashPage page)))"
proof -
  obtain run rest where run: "ppMessages params = run @ rest" "run \<noteq> []" "map mrHash (history_rows (hsMeta st') ns h) = map (contentDigest digest) run"
      "\<forall>m\<in>set run. readMessageObject digest gunzip env dataDir (contentDigest digest m) (hsFiles st') = Inr (Some m)"
      "\<forall>m\<in>set run. ownsCasMeta (hsMeta st') ns (contentDigest digest m)"
    by (rule archived_run [OF assms])
  then show ?thesis using retrieve_owned [OF bspec [OF run(5)] bspec [OF run(4)]] by blast
qed

theorem archived_history_complete_witness:
  "\<exists>run. run \<noteq> [] \<and> map mrHash (history_rows (hsMeta (snd demo_run)) (js ''p'', js ''s'') (replicate 64 48)) = map (contentDigest (\<lambda>_. replicate 32 0)) run
     \<and> (\<forall>m\<in>set run. readMessageObject (\<lambda>_. replicate 32 0) Some (\<lambda>f. f) (js ''/d'') (contentDigest (\<lambda>_. replicate 32 0) m) (hsFiles (snd demo_run)) = Inr (Some m))"
proof -
  obtain r st' where run: "demo_run = (Inr r, st')" "hrCompacted r" "hrHistoryHash r = Some (replicate 64 48)"
    using demo_archives by (auto split: prod.splits sum.splits)
  have "\<not> hasHistoryMeta (hsMeta empty_store) (js ''p'', js ''s'') (replicate 64 48)"
    by (simp add: hasHistoryMeta_def empty_store_def empty_meta_def)
  from archived_history_complete [OF _ _ demo_storable run(1) [unfolded demo_run_def] run(2,3) this, of Some "\<lambda>f. f" None None None]
  show ?thesis by (simp add: gzip_ok_def only_adds_def run(1)) blast
qed

text \<open>C35: Healing converges. Whatever objects are missing or damaged, an index that was rebuilt from the
  attribution rows is never taken for a lost one by the startup probe, so the rebuild does not repeat
  on every start.\<close>

theorem rebuild_converges:
  "case rebuildFromObjects digest gunzip dataDir st of Inr index \<Rightarrow> \<not> indexLooksLost index (hsMeta st) | Inl e \<Rightarrow> True"
proof (cases "rebuildFromObjects digest gunzip dataDir st")
  case (Inr index)
  define outcome where "outcome r = read_ok (readMessageObject digest gunzip (\<lambda>f. f) dataDir (mrHash r) (hsFiles st))" for r :: metaRow
  define metas where "metas = ordered_refs (hsMeta st)"
  define resolved where "resolved = List.map_filter (\<lambda>r. map_option (\<lambda>m. (r, m)) (outcome r)) metas"
  define writes where "writes = map (\<lambda>(r, m). message_chunk (mrHash r) (row_space r) (role_string (mrRole r)) (mrTurn r) (mrHistory r) m) resolved"
  define skipped where "skipped = map content_key (filter (\<lambda>r. outcome r = None) metas)"
  have index: "dIndex index = fold insertChunk writes empty_index" "dRebuild index = Some (length (remdups (map ckHash writes)), length (remdups skipped))"
    using Inr by (auto simp: rebuildFromObjects_def outcome_def metas_def resolved_def writes_def skipped_def Let_def split: sum.splits)
  have keys: "chunk_key ` set writes = content_key ` {r \<in> set metas. outcome r \<noteq> None}"
    by (force simp: writes_def resolved_def List.map_filter_def content_key_def row_space_def)
  have "length (chunks (dIndex index)) = card (ckHash ` set writes)"
    using fold_insertChunk [of writes] unfolding index(1) by (metis distinct_card length_map)
  moreover have "length (remdups (map ckHash writes)) = card (ckHash ` set writes)" by (simp add: length_remdups_card_conv)
  moreover have "length (chunkRefs (dIndex index)) = card (chunk_key ` set writes)"
    using fold_insertChunk [of writes] unfolding index(1) by (metis distinct_card length_map)
  moreover have "length (remdups skipped) = card (content_key ` {r \<in> set metas. outcome r = None})"
    by (simp add: length_remdups_card_conv skipped_def)
  moreover have "countArchiveRefs (hsMeta st) = card (content_key ` set metas)"
    by (simp add: countArchiveRefs_def length_remdups_card_conv metas_def)
  moreover have "content_key ` set metas = chunk_key ` set writes \<union> content_key ` {r \<in> set metas. outcome r = None}"
    unfolding keys by blast
  then have "card (content_key ` set metas) \<le> card (chunk_key ` set writes) + card (content_key ` {r \<in> set metas. outcome r = None})"
    by (simp add: card_Un_le)
  ultimately show ?thesis using Inr index(2) by (simp add: indexLooksLost_def countChunks_def countChunkRefs_def)
qed simp

end
