(* ===== verification/History.thy ===== *)
theory History
  imports Archive
begin

text \<open>
  Reading an archived history page by page: the traversal with a persisted frontier
  (\<open>packages/headroomd/src/history-reader.ts\<close>), the table of cursors (\<open>store/history-cursors.ts\<close>) and the history
  branch of \<open>retrieve\<close> in \<open>engine.ts\<close> with its older cursors, which count leaves. A message that stands for an
  archived history is read as that history. The frontier column of the table holds JSON of strings and
  natural numbers and is modelled as the frontier itself; \<open>randomUUID\<close> is the argument \<open>uuid\<close>.
\<close>

section \<open>The reader interface\<close>

record readerRow =
  wHash :: jstring
  wRole :: role
  wTurn :: nat
  wNext :: "nat option"

datatype readerContent = LeafText jstring | ChildHistory jstring

datatype historyError = InvalidLineage | HistPage pageError | CursorExpired | CursorTaken | CursorOutside | InvalidHistoryCursor

record historyReader =
  rRow :: "jstring \<Rightarrow> nat \<Rightarrow> (historyError, readerRow option) result"
  rContent :: "readerRow \<Rightarrow> readerContent option"

record frame =
  fHash :: jstring
  fOffset :: nat

record frontier =
  fStack :: "frame list"
  fOrdinal :: nat
  fIntra :: nat

record historyItem =
  iHash :: jstring
  iRole :: role
  iTurn :: nat
  iContent :: jstring

section \<open>One page\<close>

record pageRun = frontier +
  rItems :: "historyItem list"
  rMissing :: "jstring list"
  rRemaining :: int
  rCount :: nat

definition next_offset :: "readerRow \<Rightarrow> nat \<Rightarrow> nat" where
  "next_offset row offset = (case wNext row of Some n \<Rightarrow> n | None \<Rightarrow> offset + 1)"

definition page_request :: "jstring \<Rightarrow> nat \<Rightarrow> int \<Rightarrow> pageOptions" where
  "page_request h intra budget =
     \<lparr>pref = h, pcursor = Some (encodeCursor h intra), pmaxBytes = Some (of_int budget), pmaxTokens = Some (of_int budget)\<rparr>"

datatype iteration = Go pageRun | Halt pageRun | Fail historyError

text \<open>A leaf is done: the frame moves on, the count and the ordinal grow.\<close>

definition leaf_done :: "frame list \<Rightarrow> pageRun \<Rightarrow> pageRun" where
  "leaf_done forward st = st\<lparr>fStack := forward, fOrdinal := fOrdinal st + 1, fIntra := 0\<rparr>"

definition push_item :: "readerRow \<Rightarrow> textPage \<Rightarrow> pageRun \<Rightarrow> pageRun" where
  "push_item row page st =
     st\<lparr>rItems := rItems st @ [\<lparr>iHash = wHash row, iRole = wRole row, iTurn = wTurn row, iContent = pcontent page\<rparr>],
        rRemaining := rRemaining st - int (pbytes page), rCount := rCount st + 1\<rparr>"

definition read_leaf :: "readerRow \<Rightarrow> frame list \<Rightarrow> jstring option \<Rightarrow> pageRun \<Rightarrow> iteration" where
  "read_leaf row forward value st =
     (case value of
        None \<Rightarrow> Go (leaf_done forward (st\<lparr>rMissing := rMissing st @ [wHash row], rCount := rCount st + 1\<rparr>))
      | Some content \<Rightarrow>
          (case paginateText content (page_request (wHash row) (fIntra st) (rRemaining st)) of
             Inl e \<Rightarrow> if rItems st \<noteq> [] then Halt st else Fail (HistPage e)
           | Inr page \<Rightarrow>
               (case nextCursor page of
                  None \<Rightarrow> Go (leaf_done forward (push_item row page st))
                | Some cursor \<Rightarrow>
                    (case decodeCursor (Some cursor) (wHash row) of
                       Inl e \<Rightarrow> Fail (HistPage e)
                     | Inr intra \<Rightarrow> Halt ((push_item row page st)\<lparr>fIntra := intra\<rparr>)))))"

definition history_iter :: "historyReader \<Rightarrow> nat \<Rightarrow> pageRun \<Rightarrow> iteration" where
  "history_iter reader limit st =
     (let frame = last (fStack st)
      in case rRow reader (fHash frame) (fOffset frame) of
           Inl e \<Rightarrow> Fail e
         | Inr None \<Rightarrow> Go (st\<lparr>fStack := butlast (fStack st)\<rparr>)
         | Inr (Some row) \<Rightarrow>
             (let forward = butlast (fStack st) @ [frame\<lparr>fOffset := next_offset row (fOffset frame)\<rparr>];
                  leaf = (\<lambda>value. if rRemaining st \<le> 0 \<or> limit \<le> rCount st then Halt st else read_leaf row forward value st)
              in case rContent reader row of
                   Some (ChildHistory child) \<Rightarrow>
                     if 128 \<le> length (fStack st) \<or> list_ex (\<lambda>f. fHash f = child) (fStack st) then Fail InvalidLineage
                     else Go (st\<lparr>fStack := forward @ [\<lparr>fHash = child, fOffset = 0\<rparr>]\<rparr>)
                 | Some (LeafText content) \<Rightarrow> leaf (Some content)
                 | None \<Rightarrow> leaf None))"

partial_function (option) history_loop :: "historyReader \<Rightarrow> nat \<Rightarrow> pageRun \<Rightarrow> (historyError, pageRun) result option" where
  "history_loop reader limit st =
     (if fStack st = [] then Some (Inr st)
      else case history_iter reader limit st of
        Go st' \<Rightarrow> history_loop reader limit st'
      | Halt st' \<Rightarrow> Some (Inr st')
      | Fail e \<Rightarrow> Some (Inl e))"

record historyPage =
  hpItems :: "historyItem list"
  hpMissing :: "jstring list"
  hpMore :: bool
  hpState :: frontier

definition page_budget :: "nat option \<Rightarrow> nat option \<Rightarrow> int" where
  "page_budget maxBytes maxTokens =
     int (min (min (case maxBytes of Some n \<Rightarrow> n | None \<Rightarrow> 32768) 131072) (min (case maxTokens of Some n \<Rightarrow> n | None \<Rightarrow> 2048) 8192))"

definition page_count :: "nat option \<Rightarrow> nat" where
  "page_count limit = min (case limit of Some n \<Rightarrow> n | None \<Rightarrow> 10) 50"

definition run_start :: "frontier \<Rightarrow> int \<Rightarrow> pageRun" where
  "run_start f budget =
     \<lparr>fStack = fStack f, fOrdinal = fOrdinal f, fIntra = fIntra f, rItems = [], rMissing = [], rRemaining = budget, rCount = 0\<rparr>"

definition run_page :: "pageRun \<Rightarrow> historyPage" where
  "run_page st =
     \<lparr>hpItems = rItems st, hpMissing = rMissing st, hpMore = (fStack st \<noteq> []),
      hpState = \<lparr>fStack = fStack st, fOrdinal = fOrdinal st, fIntra = fIntra st\<rparr>\<rparr>"

definition readHistoryPage :: "historyReader \<Rightarrow> frontier \<Rightarrow> nat option \<Rightarrow> nat option \<Rightarrow> nat option \<Rightarrow> (historyError, historyPage) result option" where
  "readHistoryPage reader original maxBytes maxTokens limit =
     map_option (map_sum id run_page)
       (history_loop reader (page_count limit) (run_start original (page_budget maxBytes maxTokens)))"

section \<open>Stored cursors\<close>

definition CAP :: nat where "CAP = 4096"

record cursorRow =
  cuId :: jstring
  cuSpace :: nspace
  cuHistory :: jstring
  cuFrontier :: frontier
  cuCreated :: nat

text \<open>The table in the order of its row ids. The newest rows, by time and then by row id, stay.\<close>

definition newest_ids :: "cursorRow list \<Rightarrow> jstring list" where
  "newest_ids rows = take CAP (map cuId (rev (sort_key cuCreated rows)))"

definition saveHistoryCursor :: "jstring \<Rightarrow> nat \<Rightarrow> nspace \<Rightarrow> jstring \<Rightarrow> frontier \<Rightarrow> cursorRow list \<Rightarrow> (historyError, jstring \<times> cursorRow list) result" where
  "saveHistoryCursor uuid now ns h f rows =
     (let i = js ''h3-'' @ uuid;
          rows' = rows @ [\<lparr>cuId = i, cuSpace = ns, cuHistory = h, cuFrontier = f, cuCreated = now\<rparr>]
      in if i \<in> cuId ` set rows then Inl CursorTaken
         else Inr (i, filter (\<lambda>r. cuId r \<in> set (newest_ids rows')) rows'))"

definition loadHistoryCursor :: "cursorRow list \<Rightarrow> nspace \<Rightarrow> jstring \<Rightarrow> jstring \<Rightarrow> (historyError, frontier) result" where
  "loadHistoryCursor rows ns h i =
     (case find (\<lambda>r. cuId r = i \<and> cuSpace r = ns \<and> cuHistory r = h) rows of
        None \<Rightarrow> Inl CursorExpired
      | Some r \<Rightarrow> Inr (cuFrontier r))"

section \<open>The archive as a reader\<close>

definition readValidProjection :: "(byte list \<Rightarrow> byte list) \<Rightarrow> (byte list \<Rightarrow> byte list option) \<Rightarrow> (fs \<Rightarrow> fs) \<Rightarrow> jstring \<Rightarrow> fs \<Rightarrow> jstring \<Rightarrow> chatMessage option" where
  "readValidProjection digest gunzip env dataDir f h = read_ok (readMessageObject digest gunzip env dataDir h f)"

text \<open>The child history a message stands for, and what a message is read as.\<close>

definition child_history :: "metaDb \<Rightarrow> nspace \<Rightarrow> chatMessage \<Rightarrow> jstring option" where
  "child_history db ns m =
     (case marchive m of
        None \<Rightarrow> None
      | Some a \<Rightarrow>
          if ahistoryHash a \<noteq> [] \<and> mid m = compaction_id (ahistoryHash a) \<and> hasHistoryMeta db ns (ahistoryHash a) then Some (ahistoryHash a)
          else None)"

definition message_content :: "metaDb \<Rightarrow> nspace \<Rightarrow> chatMessage option \<Rightarrow> readerContent option" where
  "message_content db ns projection =
     (case projection of
        None \<Rightarrow> None
      | Some m \<Rightarrow> Some (case child_history db ns m of Some child \<Rightarrow> ChildHistory child | None \<Rightarrow> LeafText (renderProjection m)))"

definition reader_row :: "nat option \<Rightarrow> metaRow \<Rightarrow> readerRow" where
  "reader_row next r = \<lparr>wHash = mrHash r, wRole = mrRole r, wTurn = mrTurn r, wNext = next\<rparr>"

definition archive_reader :: "(byte list \<Rightarrow> byte list) \<Rightarrow> (byte list \<Rightarrow> byte list option) \<Rightarrow> (fs \<Rightarrow> fs) \<Rightarrow> jstring \<Rightarrow> nspace \<Rightarrow> headroomStore \<Rightarrow> historyReader" where
  "archive_reader digest gunzip env dataDir ns st =
     \<lparr>rRow = (\<lambda>h offset. Inr (map_option (\<lambda>r. reader_row (Some (mrSeq r + 1)) r) (nextHistoryMeta (hsMeta st) ns h offset))),
      rContent = (\<lambda>row. message_content (hsMeta st) ns (readValidProjection digest gunzip env dataDir (hsFiles st) (wHash row)))\<rparr>"

section \<open>The leaves of a history\<close>

text \<open>What the generator yields, in order; an error is the last thing a consumer can meet.\<close>

datatype leafItem = LeafRow readerRow "jstring option" | LeafError historyError

function historyLeaves :: "(metaRow \<Rightarrow> readerContent option) \<Rightarrow> metaDb \<Rightarrow> nspace \<Rightarrow> jstring list \<Rightarrow> metaRow list \<Rightarrow> leafItem list" where
  "historyLeaves content db ns lineage [] = []"
| "historyLeaves content db ns lineage (r # rows) =
     (case content r of
        Some (ChildHistory child) \<Rightarrow>
          if child \<in> set lineage \<or> 128 \<le> length lineage then [LeafError InvalidLineage]
          else historyLeaves content db ns (lineage @ [child]) (history_rows db ns child)
      | Some (LeafText text) \<Rightarrow> [LeafRow (reader_row (Some (mrSeq r + 1)) r) (Some text)]
      | None \<Rightarrow> [LeafRow (reader_row (Some (mrSeq r + 1)) r) None])
     @ historyLeaves content db ns lineage rows"
  by pat_completeness auto
termination
  by (relation "inv_image (less_than <*lex*> less_than) (\<lambda>(content, db, ns, lineage, rows). (128 - length lineage, length rows))") auto

definition leaves_of :: "(byte list \<Rightarrow> byte list) \<Rightarrow> (byte list \<Rightarrow> byte list option) \<Rightarrow> (fs \<Rightarrow> fs) \<Rightarrow> jstring \<Rightarrow> nspace \<Rightarrow> headroomStore \<Rightarrow> jstring \<Rightarrow> leafItem list" where
  "leaves_of digest gunzip env dataDir ns st h =
     historyLeaves (\<lambda>r. message_content (hsMeta st) ns (readValidProjection digest gunzip env dataDir (hsFiles st) (mrHash r)))
       (hsMeta st) ns [h] (history_rows (hsMeta st) ns h)"

section \<open>Pages by ordinal\<close>

text \<open>The older cursors count leaves. Skipping and reading take leaves from the generator; taking the error
  throws it.\<close>

fun skip_leaves :: "nat \<Rightarrow> leafItem list \<Rightarrow> (historyError, leafItem list) result" where
  "skip_leaves 0 leaves = Inr leaves"
| "skip_leaves (Suc n) [] = Inr []"
| "skip_leaves (Suc n) (LeafError e # leaves) = Inl e"
| "skip_leaves (Suc n) (LeafRow row v # leaves) = skip_leaves n leaves"

record ordinalRun =
  oItems :: "historyItem list"
  oMissing :: "jstring list"
  oBudget :: int
  oCount :: nat
  oOffset :: nat
  oIntra :: nat

definition ordinal_item :: "readerRow \<Rightarrow> textPage \<Rightarrow> ordinalRun \<Rightarrow> ordinalRun" where
  "ordinal_item row page st =
     st\<lparr>oItems := oItems st @ [\<lparr>iHash = wHash row, iRole = wRole row, iTurn = wTurn row, iContent = pcontent page\<rparr>],
        oBudget := oBudget st - int (pbytes page), oCount := oCount st + 1\<rparr>"

definition ordinal_next :: "ordinalRun \<Rightarrow> ordinalRun" where
  "ordinal_next st = st\<lparr>oOffset := oOffset st + 1, oIntra := 0\<rparr>"

fun ordinal_loop :: "nat \<Rightarrow> ordinalRun \<Rightarrow> leafItem list \<Rightarrow> (historyError, ordinalRun \<times> bool) result" where
  "ordinal_loop limit st [] =
     (if oCount st < limit \<and> 0 < oBudget st \<and> oIntra st \<noteq> 0 then Inl CursorOutside else Inr (st, False))"
| "ordinal_loop limit st (LeafError e # leaves) = Inl e"
| "ordinal_loop limit st (LeafRow row v # leaves) =
     (if \<not> (oCount st < limit \<and> 0 < oBudget st) then Inr (st, True)
      else case v of
        None \<Rightarrow> ordinal_loop limit (ordinal_next (st\<lparr>oMissing := oMissing st @ [wHash row], oCount := oCount st + 1\<rparr>)) leaves
      | Some content \<Rightarrow>
          (case paginateText content (page_request (wHash row) (oIntra st) (oBudget st)) of
             Inl e \<Rightarrow> if oItems st \<noteq> [] then Inr (st, True) else Inl (HistPage e)
           | Inr page \<Rightarrow>
               (case nextCursor page of
                  None \<Rightarrow> ordinal_loop limit (ordinal_next (ordinal_item row page st)) leaves
                | Some cursor \<Rightarrow>
                    (case decodeCursor (Some cursor) (wHash row) of
                       Inl e \<Rightarrow> Inl (HistPage e)
                     | Inr intra \<Rightarrow> Inr ((ordinal_item row page st)\<lparr>oIntra := intra\<rparr>, True)))))"

definition ordinal_start :: "nat \<Rightarrow> nat \<Rightarrow> int \<Rightarrow> ordinalRun" where
  "ordinal_start offset intra budget = \<lparr>oItems = [], oMissing = [], oBudget = budget, oCount = 0, oOffset = offset, oIntra = intra\<rparr>"

section \<open>Retrieval of a history\<close>

record historyParams =
  qHistory :: jstring
  qCursor :: "jstring option"
  qOffset :: nat
  qLimit :: "nat option"
  qMaxBytes :: "nat option"
  qMaxTokens :: "nat option"

record historyAnswer =
  aItems :: "historyItem list"
  aNextOffset :: "nat option"
  aNextCursor :: "jstring option"
  aTruncated :: bool
  aPartial :: bool
  aMissing :: "jstring list"

definition history_ref :: "nspace \<Rightarrow> jstring \<Rightarrow> jstring" where
  "history_ref ns h = json_stringify (JArr [JObj [(js ''projectId'', JStr (fst ns)), (js ''sessionId'', JStr (snd ns))], JStr h])"

definition intra_ref :: "jstring \<Rightarrow> nat \<Rightarrow> jstring" where
  "intra_ref ref offset = ref @ js '':'' @ dec offset"

definition ordinal_cursor :: "jstring \<Rightarrow> nat \<Rightarrow> nat \<Rightarrow> jstring" where
  "ordinal_cursor ref offset intra = encodeCursor ref offset @ js ''.'' @ encodeCursor (intra_ref ref offset) intra"

definition parse_ordinal_cursor :: "jstring \<Rightarrow> jstring \<Rightarrow> (historyError, nat \<times> nat) result" where
  "parse_ordinal_cursor ref cursor =
     (case split_on 46 cursor of
        [a, b] \<Rightarrow>
          (case decodeCursor (Some a) ref of
             Inl e \<Rightarrow> Inl (HistPage e)
           | Inr offset \<Rightarrow>
               (case decodeCursor (Some b) (intra_ref ref offset) of
                  Inl e \<Rightarrow> Inl (HistPage e)
                | Inr intra \<Rightarrow> Inr (offset, intra)))
      | _ \<Rightarrow> Inl InvalidHistoryCursor)"

definition start_frontier :: "jstring \<Rightarrow> frontier" where
  "start_frontier h = \<lparr>fStack = [\<lparr>fHash = h, fOffset = 0\<rparr>], fOrdinal = 0, fIntra = 0\<rparr>"

definition given :: "jstring option \<Rightarrow> jstring option" where
  "given cursor = (case cursor of Some [] \<Rightarrow> None | c \<Rightarrow> c)"

definition retrieve_frontier :: "historyReader \<Rightarrow> jstring \<Rightarrow> nat \<Rightarrow> nspace \<Rightarrow> historyParams \<Rightarrow> cursorRow list
    \<Rightarrow> (historyError, historyAnswer \<times> cursorRow list) result option" where
  "retrieve_frontier reader uuid now ns params rows =
     (case (case given (qCursor params) of
              Some c \<Rightarrow> loadHistoryCursor rows ns (qHistory params) c
            | None \<Rightarrow> Inr (start_frontier (qHistory params))) of
        Inl e \<Rightarrow> Some (Inl e)
      | Inr state \<Rightarrow>
          (case readHistoryPage reader state (qMaxBytes params) (qMaxTokens params) (qLimit params) of
             None \<Rightarrow> None
           | Some (Inl e) \<Rightarrow> Some (Inl e)
           | Some (Inr page) \<Rightarrow>
               (let answer = (\<lambda>cursor. \<lparr>aItems = hpItems page, aNextOffset = (if hpMore page then Some (fOrdinal (hpState page)) else None),
                      aNextCursor = cursor, aTruncated = hpMore page, aPartial = (hpMissing page \<noteq> []), aMissing = hpMissing page\<rparr>)
                in Some (if hpMore page
                     then (case saveHistoryCursor uuid now ns (qHistory params) (hpState page) rows of
                             Inl e \<Rightarrow> Inl e
                           | Inr (c, rows') \<Rightarrow> Inr (answer (Some c), rows'))
                     else Inr (answer None, rows)))))"

definition retrieve_ordinal :: "leafItem list \<Rightarrow> nspace \<Rightarrow> historyParams \<Rightarrow> (historyError, historyAnswer) result" where
  "retrieve_ordinal leaves ns params =
     (let ref = history_ref ns (qHistory params)
      in case (case given (qCursor params) of Some c \<Rightarrow> parse_ordinal_cursor ref c | None \<Rightarrow> Inr (qOffset params, 0)) of
           Inl e \<Rightarrow> Inl e
         | Inr (offset, intra) \<Rightarrow>
             (case skip_leaves offset leaves of
                Inl e \<Rightarrow> Inl e
              | Inr rest \<Rightarrow>
                  (case ordinal_loop (page_count (qLimit params))
                          (ordinal_start offset intra (page_budget (qMaxBytes params) (qMaxTokens params))) rest of
                     Inl e \<Rightarrow> Inl e
                   | Inr (st, again) \<Rightarrow>
                       Inr \<lparr>aItems = oItems st, aNextOffset = (if again then Some (oOffset st) else None),
                            aNextCursor = (if again then Some (ordinal_cursor ref (oOffset st) (oIntra st)) else None),
                            aTruncated = again, aPartial = (oMissing st \<noteq> []), aMissing = oMissing st\<rparr>)))"

text \<open>The whole branch; the answer \<open>None\<close> inside is \<open>found: false\<close>.\<close>

definition retrieveHistory :: "(byte list \<Rightarrow> byte list) \<Rightarrow> (byte list \<Rightarrow> byte list option) \<Rightarrow> (fs \<Rightarrow> fs) \<Rightarrow> jstring \<Rightarrow> jstring \<Rightarrow> nat \<Rightarrow> nspace \<Rightarrow> historyParams
    \<Rightarrow> headroomStore \<Rightarrow> cursorRow list \<Rightarrow> (historyError, historyAnswer option \<times> cursorRow list) result option" where
  "retrieveHistory digest gunzip env dataDir uuid now ns params st rows =
     (case paginateText [] \<lparr>pref = js ''budget-validation'', pcursor = None, pmaxBytes = map_option of_nat (qMaxBytes params), pmaxTokens = map_option of_nat (qMaxTokens params)\<rparr> of
        Inl e \<Rightarrow> Some (Inl (HistPage e))
      | Inr p \<Rightarrow>
          if \<not> hasHistoryMeta (hsMeta st) ns (qHistory params) then Some (Inr (None, rows))
          else if given (qCursor params) = None \<and> qOffset params = 0
                  \<or> (case qCursor params of Some c \<Rightarrow> starts_with c (js ''h3-'') | None \<Rightarrow> False)
          then map_option (map_sum id (apfst Some)) (retrieve_frontier (archive_reader digest gunzip env dataDir ns st) uuid now ns params rows)
          else Some (map_sum id (\<lambda>a. (Some a, rows)) (retrieve_ordinal (leaves_of digest gunzip env dataDir ns st (qHistory params)) ns params)))"

section \<open>Following the pages\<close>

text \<open>A client asks for pages until there is no more; the first argument bounds the number of requests.\<close>

fun frontier_walk :: "nat \<Rightarrow> historyReader \<Rightarrow> nat option \<Rightarrow> nat option \<Rightarrow> nat option \<Rightarrow> frontier \<Rightarrow> (historyError, historyPage list) result option" where
  "frontier_walk 0 reader maxBytes maxTokens limit f = None"
| "frontier_walk (Suc k) reader maxBytes maxTokens limit f =
     (case readHistoryPage reader f maxBytes maxTokens limit of
        Some (Inr page) \<Rightarrow>
          if hpMore page then map_option (map_sum id (\<lambda>pages. page # pages)) (frontier_walk k reader maxBytes maxTokens limit (hpState page))
          else Some (Inr [page])
      | Some (Inl e) \<Rightarrow> Some (Inl e)
      | None \<Rightarrow> None)"

fun ordinal_walk :: "nat \<Rightarrow> leafItem list \<Rightarrow> nat option \<Rightarrow> nat option \<Rightarrow> nat option \<Rightarrow> nat \<Rightarrow> nat \<Rightarrow> (historyError, ordinalRun list) result option" where
  "ordinal_walk 0 leaves maxBytes maxTokens limit offset intra = None"
| "ordinal_walk (Suc k) leaves maxBytes maxTokens limit offset intra =
     (case skip_leaves offset leaves of
        Inl e \<Rightarrow> Some (Inl e)
      | Inr rest \<Rightarrow>
          (case ordinal_loop (page_count limit) (ordinal_start offset intra (page_budget maxBytes maxTokens)) rest of
             Inl e \<Rightarrow> Some (Inl e)
           | Inr (st, again) \<Rightarrow>
               if again then map_option (map_sum id (\<lambda>sts. st # sts)) (ordinal_walk k leaves maxBytes maxTokens limit (oOffset st) (oIntra st))
               else Some (Inr [st])))"

lemma content_cases:
  obtains child where "c = Some (ChildHistory child)" | v where "c = map_option LeafText v"
proof (cases c)
  case (Some x)
  then show thesis by (cases x) (use that(1) that(2) [of "Some _"] in auto)
qed (use that(2) [of None] in simp)

lemma walk_Cons:
  assumes "map_option (map_sum id (map f)) x = map_option (map_sum id (map g)) y" and "f a = g b"
  shows "map_option (map_sum id (map f)) (map_option (map_sum id ((#) a)) x) = map_option (map_sum id (map g)) (map_option (map_sum id ((#) b)) y)"
proof (cases x; cases y)
  fix p q
  assume "x = Some p" "y = Some q"
  with assms show ?thesis by (cases p; cases q) auto
qed (use assms in auto)

lemma skip_plus: "skip_leaves m leaves = Inr rest \<Longrightarrow> skip_leaves (m + n) leaves = skip_leaves n rest"
proof (induction m leaves arbitrary: rest rule: skip_leaves.induct)
  case (2 k)
  then show ?case by (cases n) auto
qed auto

lemma skip_row:
  assumes "m < n"
  shows "skip_leaves (n - m) (LeafRow row v # leaves) = skip_leaves (n - Suc m) leaves" "drop (n - m) (x # xs) = drop (n - Suc m) xs"
proof -
  have "n - m = Suc (n - Suc m)" using assms by simp
  then show "skip_leaves (n - m) (LeafRow row v # leaves) = skip_leaves (n - Suc m) leaves" "drop (n - m) (x # xs) = drop (n - Suc m) xs"
    by simp_all
qed

lemma ordinal_loop_skips:
  "ordinal_loop limit st leaves = Inr (st', again) \<Longrightarrow>
   oOffset st \<le> oOffset st' \<and> skip_leaves (oOffset st' - oOffset st) leaves = Inr (drop (oOffset st' - oOffset st) leaves)"
proof (induction leaves arbitrary: st)
  case (Cons leaf leaves)
  have step: "oOffset st \<le> oOffset st' \<and> skip_leaves (oOffset st' - oOffset st) (LeafRow row v # leaves) = Inr (drop (oOffset st' - oOffset st) (LeafRow row v # leaves))"
    if "ordinal_loop limit st2 leaves = Inr (st', again)" "oOffset st2 = Suc (oOffset st)" for st2 row v
    using Cons(1) [OF that(1)] that(2) by (simp add: skip_row)
  show ?case
  proof (cases leaf)
    case (LeafRow row v)
    with Cons(2) show ?thesis
      by (auto simp: ordinal_next_def ordinal_item_def split: if_splits option.splits sum.splits dest!: step [of _ row v])
  qed (use Cons(2) in simp)
qed (auto split: if_splits)

section \<open>The frontier visits the leaves in order\<close>

text \<open>A source whose rows move the offset on, up to a bound of the history. Its leaves are the recursive
  expansion; the stack of a frontier stands for the leaves that are still to come.\<close>

locale history_source =
  fixes reader :: historyReader and bound :: "jstring \<Rightarrow> nat"
  assumes advances: "rRow reader h offset = Inr (Some row) \<Longrightarrow> offset < next_offset row offset \<and> offset < bound h"
begin

function expand :: "jstring list \<Rightarrow> jstring \<Rightarrow> nat \<Rightarrow> leafItem list" where
  "expand lineage h offset =
     (case rRow reader h offset of
        Inl e \<Rightarrow> [LeafError e]
      | Inr None \<Rightarrow> []
      | Inr (Some row) \<Rightarrow>
          (case rContent reader row of
             Some (ChildHistory child) \<Rightarrow>
               if child \<in> set lineage \<or> 128 \<le> length lineage then [LeafError InvalidLineage] else expand (lineage @ [child]) child 0
           | Some (LeafText content) \<Rightarrow> [LeafRow row (Some content)]
           | None \<Rightarrow> [LeafRow row None])
          @ expand lineage h (next_offset row offset))"
  by pat_completeness auto
termination
  by (relation "inv_image (less_than <*lex*> less_than) (\<lambda>(lineage, h, offset). (128 - length lineage, bound h - offset))")
    (auto dest!: advances)

declare expand.simps [simp del]

text \<open>The number of rows a traversal still meets.\<close>

function work :: "jstring list \<Rightarrow> jstring \<Rightarrow> nat \<Rightarrow> nat" where
  "work lineage h offset =
     (case rRow reader h offset of
        Inr (Some row) \<Rightarrow>
          (case rContent reader row of
             Some (ChildHistory child) \<Rightarrow> if child \<in> set lineage \<or> 128 \<le> length lineage then 0 else 1 + work (lineage @ [child]) child 0
           | _ \<Rightarrow> 0)
          + work lineage h (next_offset row offset) + 1
      | _ \<Rightarrow> 0)"
  by pat_completeness auto
termination
  by (relation "inv_image (less_than <*lex*> less_than) (\<lambda>(lineage, h, offset). (128 - length lineage, bound h - offset))")
    (auto dest!: advances)

declare work.simps [simp del]

fun pending_rev :: "frame list \<Rightarrow> leafItem list" where
  "pending_rev [] = []"
| "pending_rev (f # fs) = expand (rev (map fHash (f # fs))) (fHash f) (fOffset f) @ pending_rev fs"

fun work_rev :: "frame list \<Rightarrow> nat" where
  "work_rev [] = 0"
| "work_rev (f # fs) = 1 + work (rev (map fHash (f # fs))) (fHash f) (fOffset f) + work_rev fs"

definition pending :: "frame list \<Rightarrow> leafItem list" where
  "pending stack = pending_rev (rev stack)"

lemma pending_simps [simp]:
  "pending [] = []"
  "pending (fs @ [f]) = expand (map fHash fs @ [fHash f]) (fHash f) (fOffset f) @ pending fs"
  "pending (fs @ [f, g]) = expand (map fHash fs @ [fHash f, fHash g]) (fHash g) (fOffset g) @ pending (fs @ [f])"
  by (simp_all add: pending_def rev_map [symmetric])

definition work_of :: "frame list \<Rightarrow> nat" where
  "work_of stack = work_rev (rev stack)"

lemma work_of_simps [simp]:
  "work_of (fs @ [f]) = 1 + work (map fHash fs @ [fHash f]) (fHash f) (fOffset f) + work_of fs"
  "work_of (fs @ [f, g]) = 1 + work (map fHash fs @ [fHash f, fHash g]) (fHash g) (fOffset g) + work_of (fs @ [f])"
  by (simp_all add: work_of_def rev_map [symmetric])

definition ordinal_of :: "pageRun \<Rightarrow> ordinalRun" where
  "ordinal_of st = \<lparr>oItems = rItems st, oMissing = rMissing st, oBudget = rRemaining st, oCount = rCount st, oOffset = fOrdinal st, oIntra = fIntra st\<rparr>"

lemma ordinal_of_update [simp]:
  "ordinal_of (leaf_done forward st) = ordinal_next (ordinal_of st)"
  "ordinal_of (push_item row page st) = ordinal_item row page (ordinal_of st)"
  "ordinal_of (st\<lparr>fStack := stack\<rparr>) = ordinal_of st"
  "ordinal_of (st\<lparr>fIntra := k\<rparr>) = (ordinal_of st)\<lparr>oIntra := k\<rparr>"
  "ordinal_of (st\<lparr>rMissing := ms, rCount := c\<rparr>) = (ordinal_of st)\<lparr>oMissing := ms, oCount := c\<rparr>"
  "oItems (ordinal_of st) = rItems st" "oMissing (ordinal_of st) = rMissing st" "oBudget (ordinal_of st) = rRemaining st"
  "oCount (ordinal_of st) = rCount st" "oOffset (ordinal_of st) = fOrdinal st" "oIntra (ordinal_of st) = fIntra st"
  by (simp_all add: ordinal_of_def leaf_done_def ordinal_next_def push_item_def ordinal_item_def)

text \<open>A frontier in the middle of a leaf has that leaf before it.\<close>

definition on_leaf :: "pageRun \<Rightarrow> bool" where
  "on_leaf st \<longleftrightarrow> fIntra st = 0 \<or> pending (fStack st) \<noteq> []"

definition simulates :: "nat \<Rightarrow> pageRun \<Rightarrow> (historyError, pageRun) result \<Rightarrow> bool" where
  "simulates limit st res \<longleftrightarrow>
     (case res of
        Inl e \<Rightarrow> ordinal_loop limit (ordinal_of st) (pending (fStack st)) = Inl e
      | Inr st' \<Rightarrow>
          ordinal_loop limit (ordinal_of st) (pending (fStack st)) = Inr (ordinal_of st', fStack st' \<noteq> [])
          \<and> fOrdinal st \<le> fOrdinal st' \<and> pending (fStack st') = drop (fOrdinal st' - fOrdinal st) (pending (fStack st))
          \<and> (fStack st' \<noteq> [] \<longrightarrow> pending (fStack st') \<noteq> []) \<and> on_leaf st')"

lemma simulates_go:
  assumes "ordinal_of st' = ordinal_of st" and "pending (fStack st') = pending (fStack st)" and "simulates limit st' res"
  shows "simulates limit st res"
proof -
  have o: "fOrdinal st' = fOrdinal st" using assms(1) by (simp add: ordinal_of_def)
  show ?thesis using assms(3) unfolding simulates_def assms(1,2) o .
qed

lemma simulates_leaf:
  assumes "pending (fStack st) = LeafRow row v # pending (fStack st')" and "fOrdinal st' = fOrdinal st + 1"
    and "ordinal_loop limit (ordinal_of st) (pending (fStack st)) = ordinal_loop limit (ordinal_of st') (pending (fStack st'))"
    and "simulates limit st' res"
  shows "simulates limit st res"
proof -
  have "drop (n - fOrdinal st) (pending (fStack st)) = drop (n - fOrdinal st') (pending (fStack st'))" if "fOrdinal st' \<le> n" for n
  proof -
    have "n - fOrdinal st = Suc (n - fOrdinal st')" using that assms(2) by simp
    then show ?thesis by (simp add: assms(1))
  qed
  with assms(2-4) show ?thesis by (auto simp: simulates_def split: sum.splits)
qed

lemma read_leaf_cases:
  assumes "pending (fStack st) = LeafRow row v # pending forward" and "fStack st \<noteq> []" and "0 < rRemaining st" and "rCount st < limit"
  shows "case read_leaf row forward v st of
      Go st' \<Rightarrow> fStack st' = forward \<and> fIntra st' = 0 \<and> fOrdinal st' = fOrdinal st + 1
        \<and> ordinal_loop limit (ordinal_of st) (pending (fStack st)) = ordinal_loop limit (ordinal_of st') (pending forward)
    | Halt st' \<Rightarrow> simulates limit st (Inr st')
    | Fail e \<Rightarrow> simulates limit st (Inl e)"
proof (cases v)
  case None
  then show ?thesis unfolding read_leaf_def assms(1)
    using assms(3,4) by (simp add: ordinal_of_def leaf_done_def ordinal_next_def)
next
  case (Some content)
  show ?thesis
  proof (cases "paginateText content (page_request (wHash row) (fIntra st) (rRemaining st))")
    case (Inl e)
    with assms Some show ?thesis by (auto simp: read_leaf_def simulates_def on_leaf_def)
  next
    case (Inr page)
    with assms Some show ?thesis
      by (auto simp: read_leaf_def simulates_def on_leaf_def leaf_done_def push_item_def ordinal_of_def ordinal_next_def ordinal_item_def
          split: option.splits sum.splits)
  qed
qed

text \<open>One iteration: it ends as the ordinal loop does, or leaves less work for a state that simulates.\<close>

definition good_iteration :: "nat \<Rightarrow> pageRun \<Rightarrow> iteration \<Rightarrow> bool" where
  "good_iteration limit st it \<longleftrightarrow>
     (case it of
        Go st' \<Rightarrow> work_of (fStack st') < work_of (fStack st) \<and> on_leaf st' \<and> (\<forall>res. simulates limit st' res \<longrightarrow> simulates limit st res)
      | Halt st' \<Rightarrow> simulates limit st (Inr st')
      | Fail e \<Rightarrow> simulates limit st (Inl e))"

lemma iteration_no_row:
  assumes "on_leaf st" and "fStack st = fs @ [f]" and "rRow reader (fHash f) (fOffset f) \<in> {Inr None, Inl e}"
  shows "good_iteration limit st (history_iter reader limit st)"
proof (cases "rRow reader (fHash f) (fOffset f)")
  case (Inl e')
  then have "simulates limit st (Inl e')" by (simp add: simulates_def assms(2) expand.simps [of "map fHash fs @ [fHash f]"])
  with Inl show ?thesis by (simp add: good_iteration_def history_iter_def assms(2) Let_def)
next
  case (Inr found)
  let ?st' = "st\<lparr>fStack := fs\<rparr>"
  have row: "rRow reader (fHash f) (fOffset f) = Inr None" using assms(3) Inr by auto
  then have p: "pending (fStack ?st') = pending (fStack st)" by (simp add: assms(2) expand.simps [of "map fHash fs @ [fHash f]"])
  moreover have "on_leaf ?st'" using assms(1) p by (simp add: on_leaf_def)
  ultimately show ?thesis
    using simulates_go [of ?st' st limit] row by (auto simp: good_iteration_def history_iter_def assms(2) Let_def)
qed

lemma iteration_child:
  assumes "on_leaf st" and "fStack st = fs @ [f]" and row: "rRow reader (fHash f) (fOffset f) = Inr (Some row)"
    and child: "rContent reader row = Some (ChildHistory child)"
  shows "good_iteration limit st (history_iter reader limit st)"
proof -
  let ?lin = "map fHash fs @ [fHash f]" and ?f' = "f\<lparr>fOffset := next_offset row (fOffset f)\<rparr>"
  let ?st' = "st\<lparr>fStack := fs @ [?f', \<lparr>fHash = child, fOffset = 0\<rparr>]\<rparr>"
  have iter: "history_iter reader limit st = (if child \<in> set ?lin \<or> 128 \<le> length ?lin then Fail InvalidLineage else Go ?st')"
    by (auto simp: history_iter_def assms Let_def list_ex_iff)
  show ?thesis
  proof (cases "child \<in> set ?lin \<or> 128 \<le> length ?lin")
    case True
    then have "simulates limit st (Inl InvalidLineage)"
      by (simp add: simulates_def assms(2) expand.simps [of ?lin] row child)
    with True iter show ?thesis by (simp add: good_iteration_def)
  next
    case False
    then have p: "pending (fStack ?st') = pending (fStack st)"
      by (simp add: assms(2) expand.simps [of ?lin "fHash f" "fOffset f"] row child)
    moreover have "on_leaf ?st'" using assms(1) p by (simp add: on_leaf_def)
    moreover have "work_of (fStack ?st') < work_of (fStack st)"
      using False by (simp add: assms(2) work.simps [of ?lin "fHash f" "fOffset f"] row child)
    ultimately show ?thesis using simulates_go [of ?st' st limit] False iter by (simp add: good_iteration_def)
  qed
qed

lemma iteration_leaf:
  assumes "fStack st = fs @ [f]" and row: "rRow reader (fHash f) (fOffset f) = Inr (Some row)"
    and v: "rContent reader row = map_option LeafText v"
  shows "good_iteration limit st (history_iter reader limit st)"
proof -
  let ?lin = "map fHash fs @ [fHash f]" and ?forward = "fs @ [f\<lparr>fOffset := next_offset row (fOffset f)\<rparr>]"
  have p: "pending (fStack st) = LeafRow row v # pending ?forward"
    by (cases v) (simp_all add: assms(1) expand.simps [of ?lin "fHash f" "fOffset f"] row v)
  have w: "work_of ?forward < work_of (fStack st)"
    by (cases v) (simp_all add: assms(1) work.simps [of ?lin "fHash f" "fOffset f"] row v)
  have iter: "history_iter reader limit st
      = (if rRemaining st \<le> 0 \<or> limit \<le> rCount st then Halt st else read_leaf row ?forward v st)"
    by (cases v) (simp_all add: history_iter_def assms(1) row v Let_def)
  show ?thesis
  proof (cases "rRemaining st \<le> 0 \<or> limit \<le> rCount st")
    case True
    then have "simulates limit st (Inr st)" using p by (auto simp: simulates_def assms(1) on_leaf_def)
    with True iter show ?thesis by (simp add: good_iteration_def)
  next
    case False
    then have leaf: "case read_leaf row ?forward v st of
        Go st' \<Rightarrow> fStack st' = ?forward \<and> fIntra st' = 0 \<and> fOrdinal st' = fOrdinal st + 1
          \<and> ordinal_loop limit (ordinal_of st) (pending (fStack st)) = ordinal_loop limit (ordinal_of st') (pending ?forward)
      | Halt st' \<Rightarrow> simulates limit st (Inr st') | Fail e \<Rightarrow> simulates limit st (Inl e)"
      using read_leaf_cases [OF p, of limit] by (simp add: assms(1))
    show ?thesis
    proof (cases "read_leaf row ?forward v st")
      case (Go st')
      with leaf have st': "fStack st' = ?forward" "fIntra st' = 0" "fOrdinal st' = fOrdinal st + 1"
          "ordinal_loop limit (ordinal_of st) (pending (fStack st)) = ordinal_loop limit (ordinal_of st') (pending (fStack st'))"
        by auto
      show ?thesis
        using simulates_leaf [OF p [folded st'(1)] st'(3,4)] False Go iter w st'(1,2) by (auto simp: good_iteration_def on_leaf_def)
    qed (use leaf False iter in \<open>auto simp: good_iteration_def\<close>)
  qed
qed

lemma iteration_good: "on_leaf st \<Longrightarrow> fStack st \<noteq> [] \<Longrightarrow> good_iteration limit st (history_iter reader limit st)"
proof -
  assume st: "on_leaf st" "fStack st \<noteq> []"
  then obtain fs f where s: "fStack st = fs @ [f]" by (metis rev_exhaust)
  show ?thesis
  proof (cases "rRow reader (fHash f) (fOffset f)")
    case (Inl e)
    then show ?thesis using iteration_no_row [OF st(1) s] by blast
  next
    case (Inr found)
    show ?thesis
    proof (cases found)
      case None
      then show ?thesis using iteration_no_row [OF st(1) s] Inr by blast
    next
      case (Some row)
      with Inr show ?thesis
        using iteration_child [OF st(1) s] iteration_leaf [OF s] by (cases rule: content_cases [of "rContent reader row"]) blast+
    qed
  qed
qed

lemma loop_visits_leaves: "on_leaf st \<Longrightarrow> \<exists>res. history_loop reader limit st = Some res \<and> simulates limit st res"
proof (induction "work_of (fStack st)" arbitrary: st rule: less_induct)
  case less
  show ?case
  proof (cases "fStack st = []")
    case True
    with less.prems show ?thesis by (subst history_loop.simps) (auto simp: simulates_def on_leaf_def)
  next
    case False
    with iteration_good [OF less.prems False, of limit] less.hyps show ?thesis
      by (subst history_loop.simps) (fastforce simp: good_iteration_def split: iteration.splits)
  qed
qed

lemma page_ordinal:
  assumes "fIntra f = 0 \<or> pending (fStack f) \<noteq> []"
  shows "case readHistoryPage reader f maxBytes maxTokens limit of
      None \<Rightarrow> False
    | Some (Inl e) \<Rightarrow> ordinal_loop (page_count limit) (ordinal_start (fOrdinal f) (fIntra f) (page_budget maxBytes maxTokens)) (pending (fStack f)) = Inl e
    | Some (Inr page) \<Rightarrow> \<exists>st. ordinal_loop (page_count limit) (ordinal_start (fOrdinal f) (fIntra f) (page_budget maxBytes maxTokens)) (pending (fStack f))
            = Inr (st, hpMore page)
          \<and> oItems st = hpItems page \<and> oMissing st = hpMissing page \<and> oOffset st = fOrdinal (hpState page) \<and> oIntra st = fIntra (hpState page)
          \<and> pending (fStack (hpState page)) = drop (oOffset st - fOrdinal f) (pending (fStack f))
          \<and> (fIntra (hpState page) = 0 \<or> pending (fStack (hpState page)) \<noteq> [])"
proof -
  let ?st = "run_start f (page_budget maxBytes maxTokens)"
  have "ordinal_of ?st = ordinal_start (fOrdinal f) (fIntra f) (page_budget maxBytes maxTokens)"
    by (simp add: ordinal_of_def run_start_def ordinal_start_def)
  moreover have "on_leaf ?st" using assms by (simp add: on_leaf_def run_start_def)
  then obtain res where "history_loop reader (page_count limit) ?st = Some res" "simulates (page_count limit) ?st res"
    using loop_visits_leaves by blast
  ultimately show ?thesis
    by (cases res) (auto simp: readHistoryPage_def simulates_def run_page_def on_leaf_def run_start_def ordinal_of_def)
qed

lemma walk_ordinal:
  assumes "fIntra f = 0 \<or> pending (fStack f) \<noteq> []" and "skip_leaves (fOrdinal f) leaves = Inr (pending (fStack f))"
  shows "map_option (map_sum id (map (\<lambda>p. (hpItems p, hpMissing p)))) (frontier_walk k reader maxBytes maxTokens limit f)
    = map_option (map_sum id (map (\<lambda>st. (oItems st, oMissing st)))) (ordinal_walk k leaves maxBytes maxTokens limit (fOrdinal f) (fIntra f))"
  using assms
proof (induction k arbitrary: f)
  case (Suc k)
  note page = page_ordinal [OF Suc(2), where maxBytes = maxBytes and maxTokens = maxTokens and limit = limit]
  show ?case
  proof (cases "readHistoryPage reader f maxBytes maxTokens limit")
    case None
    with page show ?thesis by simp
  next
    case (Some res)
    show ?thesis
    proof (cases res)
      case (Inl e)
      with page Some Suc(3) show ?thesis by simp
    next
      case (Inr pg)
      obtain st where st: "ordinal_loop (page_count limit) (ordinal_start (fOrdinal f) (fIntra f) (page_budget maxBytes maxTokens)) (pending (fStack f)) = Inr (st, hpMore pg)"
          "oItems st = hpItems pg" "oMissing st = hpMissing pg" "oOffset st = fOrdinal (hpState pg)" "oIntra st = fIntra (hpState pg)"
          "pending (fStack (hpState pg)) = drop (oOffset st - fOrdinal f) (pending (fStack f))"
          "fIntra (hpState pg) = 0 \<or> pending (fStack (hpState pg)) \<noteq> []"
        using page Some Inr by auto
      have skip: "fOrdinal f \<le> oOffset st" "skip_leaves (oOffset st - fOrdinal f) (pending (fStack f)) = Inr (pending (fStack (hpState pg)))"
        using ordinal_loop_skips [OF st(1)] by (simp_all add: ordinal_start_def st(6))
      then have "skip_leaves (fOrdinal (hpState pg)) leaves = Inr (pending (fStack (hpState pg)))"
        using skip_plus [OF Suc(3), of "oOffset st - fOrdinal f"] st(4) by simp
      from walk_Cons [OF Suc(1) [OF st(7) this], of pg st] show ?thesis
        using Some Inr Suc(3) st(1-5) by (auto simp: id_def)
    qed
  qed
qed simp

end

section \<open>The archive as a source\<close>

lemma find_filter: "find P xs = (case filter P xs of [] \<Rightarrow> None | x # _ \<Rightarrow> Some x)"
  by (induction xs) auto

lemma next_history_row: "nextHistoryMeta db ns h offset = Some r \<Longrightarrow> r \<in> set (history_rows db ns h) \<and> offset \<le> mrSeq r"
  by (auto simp: nextHistoryMeta_def find_Some_iff)

interpretation archive: history_source "archive_reader digest gunzip env dataDir ns st" "\<lambda>h. Suc (sum_list (map mrSeq (history_rows (hsMeta st) ns h)))"
  for digest gunzip env dataDir ns st
  by unfold_locales
    (auto simp: archive_reader_def reader_row_def next_offset_def less_Suc_eq_le dest!: next_history_row intro: order_trans [OF _ member_le_sum_list])

text \<open>The primary key of the attribution rows holds along every run of the writer.\<close>

definition refs_keyed :: "metaDb \<Rightarrow> bool" where
  "refs_keyed db \<longleftrightarrow> distinct (map row_key (archiveRefs db))"

lemma fold_ignore_distinct: "distinct (map key acc) \<Longrightarrow> distinct (map key (fold (insert_or_ignore key) rows acc))"
proof (induction rows arbitrary: acc)
  case (Cons r rows)
  then have "distinct (map key (insert_or_ignore key r acc))" by (auto simp: insert_or_ignore_def)
  with Cons(1) show ?case by simp
qed simp

lemma step_keyed: "archive_step digest gzip d st st' \<Longrightarrow> refs_keyed (hsMeta st) \<Longrightarrow> refs_keyed (hsMeta st')"
proof (induction rule: archive_step.induct)
  case (attribution plan st ns now)
  then show ?case by (simp add: refs_keyed_def insertCasMetaRows_def archiveRefs_fold fold_ignore_distinct)
next
  case (manifest ns r children st meta)
  then show ?case by (auto simp: refs_keyed_def saveManifest_def split: option.splits if_splits)
qed (simp_all add: writeDerivedRows_def)

lemma run_keyed: "archive_run digest gzip d empty_store st \<Longrightarrow> refs_keyed (hsMeta st)"
proof (induction rule: rtranclp_induct)
  case base
  then show ?case by (simp add: refs_keyed_def empty_store_def empty_meta_def)
qed (blast intro: step_keyed)

lemma history_rows_strict:
  assumes "refs_keyed db"
  shows "sorted_wrt (<) (map mrSeq (history_rows db ns h))"
proof -
  have "distinct (map mrSeq (filter (\<lambda>r. row_space r = ns \<and> mrHistory r = h) (archiveRefs db)))"
    using assms by (auto simp: refs_keyed_def distinct_map inj_on_def row_key_def)
  then have "distinct (map mrSeq (history_rows db ns h))"
    by (simp add: history_rows_def distinct_map)
  then show ?thesis by (simp add: strict_sorted_iff history_rows_def)
qed

lemma filter_next:
  assumes "sorted_wrt (<) (map f xs)" and "filter (\<lambda>x. n \<le> f x) xs = r # rs"
  shows "filter (\<lambda>x. Suc (f r) \<le> f x) xs = rs"
  using assms
proof (induction xs)
  case (Cons x xs)
  show ?case
  proof (cases "n \<le> f x")
    case True
    with Cons(2,3) have r: "r = x" "rs = filter (\<lambda>y. n \<le> f y) xs" by auto
    have "\<forall>y\<in>set xs. f x < f y" using Cons(2) by auto
    with True r show ?thesis by (auto intro!: filter_cong)
  next
    case False
    with Cons have "filter (\<lambda>y. Suc (f r) \<le> f y) xs = rs" by simp
    moreover have "n \<le> f r" using Cons(3) False by (metis Cons_eq_filterD filter.simps(2))
    ultimately show ?thesis using False by simp
  qed
qed simp

lemma expand_leaves:
  assumes "refs_keyed (hsMeta st)"
  shows "archive.expand digest gunzip env dataDir ns st lineage h offset
    = historyLeaves (\<lambda>r. message_content (hsMeta st) ns (readValidProjection digest gunzip env dataDir (hsFiles st) (mrHash r)))
        (hsMeta st) ns lineage (filter (\<lambda>r. offset \<le> mrSeq r) (history_rows (hsMeta st) ns h))"
proof (induction lineage h offset rule: archive.expand.induct [of digest gunzip env dataDir ns st])
  case (1 lineage h offset)
  note IH = 1
  let ?rows = "history_rows (hsMeta st) ns h"
  show ?case
  proof (cases "filter (\<lambda>r. offset \<le> mrSeq r) ?rows")
    case Nil
    then show ?thesis by (subst archive.expand.simps) (simp add: archive_reader_def nextHistoryMeta_def find_filter)
  next
    case (Cons r rs)
    let ?row = "reader_row (Some (Suc (mrSeq r))) r"
    have row: "rRow (archive_reader digest gunzip env dataDir ns st) h offset = Inr (Some ?row)"
      using Cons by (simp add: archive_reader_def nextHistoryMeta_def find_filter)
    have next_rows: "filter (\<lambda>r. next_offset ?row offset \<le> mrSeq r) ?rows = rs"
      using filter_next [OF history_rows_strict [OF assms] Cons] by (simp add: next_offset_def reader_row_def)
    let ?content = "\<lambda>r. message_content (hsMeta st) ns (readValidProjection digest gunzip env dataDir (hsFiles st) (mrHash r))"
    have content: "rContent (archive_reader digest gunzip env dataDir ns st) ?row = ?content r"
      by (simp add: archive_reader_def reader_row_def)
    have all_rows: "filter (\<lambda>r. 0 \<le> mrSeq r) rows = rows" for rows by simp
    show ?thesis
    proof (cases rule: content_cases [of "?content r"])
      case (1 child)
      note child = content [unfolded 1]
      from IH(1) [OF row refl child refl] IH(2) [OF row refl] show ?thesis
        by (subst archive.expand.simps) (simp add: row child Cons next_rows all_rows 1)
    next
      case (2 v)
      from IH(2) [OF row refl] show ?thesis
        by (subst archive.expand.simps) (cases v; simp add: row content Cons next_rows 2)
    qed
  qed
qed

section \<open>Walking by ordinal reads every leaf\<close>

fun leaf_body :: "leafItem \<Rightarrow> jstring" where
  "leaf_body (LeafRow row (Some content)) = content"
| "leaf_body leaf = []"

fun leaf_missing :: "leafItem \<Rightarrow> jstring list" where
  "leaf_missing (LeafRow row None) = [wHash row]"
| "leaf_missing leaf = []"

fun body_from :: "nat \<Rightarrow> leafItem list \<Rightarrow> jstring" where
  "body_from intra [] = []"
| "body_from intra (leaf # leaves) = drop intra (leaf_body leaf) @ concat (map leaf_body leaves)"

text \<open>Texts without lone surrogates under hashes short enough for a cursor.\<close>

fun leaf_ok :: "leafItem \<Rightarrow> bool" where
  "leaf_ok (LeafRow row v) \<longleftrightarrow> list_all (\<lambda>c. c < 65536) (wHash row) \<and> length (wHash row) \<le> 500
     \<and> (case v of None \<Rightarrow> True | Some content \<Rightarrow> well_formed content \<and> length content < 2 ^ 53)"
| "leaf_ok (LeafError e) \<longleftrightarrow> False"

fun intra_ok :: "nat \<Rightarrow> leafItem list \<Rightarrow> bool" where
  "intra_ok intra [] \<longleftrightarrow> intra = 0"
| "intra_ok intra (leaf # leaves) \<longleftrightarrow> intra \<le> length (leaf_body leaf) \<and> well_formed (drop intra (leaf_body leaf))"

lemma body_from_0 [simp]: "body_from 0 leaves = concat (map leaf_body leaves)"
  by (cases leaves) auto

lemma leaf_body_wf: "leaf_ok leaf \<Longrightarrow> well_formed (leaf_body leaf)"
  by (cases leaf rule: leaf_body.cases) auto

lemma intra_ok_0: "list_all leaf_ok leaves \<Longrightarrow> intra_ok 0 leaves"
  by (cases leaves) (auto simp: leaf_body_wf)

lemma request_room: "0 < budget \<Longrightarrow> budget \<le> 8192 \<Longrightarrow> page_room (page_request h intra budget) = Some (nat budget)"
proof -
  assume b: "0 < budget" "budget \<le> 8192"
  then have "of_int budget = (of_nat (nat budget) :: rat)" by (metis of_int_of_nat_eq order_less_imp_le nat_0_le)
  moreover have "is_safe_integer (of_nat (nat budget))" using b by (intro safe_nat) simp
  ultimately show ?thesis
    using b by (auto simp: page_room_def page_request_def page_limit_def MAX_PAGE_BYTES_def MAX_PAGE_TOKENS_def)
qed

lemma request_start:
  assumes "list_all (\<lambda>c. c < 65536) h" and "length h \<le> 500" and "intra < 2 ^ 53"
  shows "decodeCursor (Some (encodeCursor h intra)) h = Inr intra"
  using assms decode_encode_cursor length_encodeCursor by blast

lemma paginate_result:
  assumes "page_room options = Some room" and "decodeCursor (pcursor options) (pref options) = Inr start"
    and "start \<le> length raw" and "well_formed (drop start raw)" and "paginateText raw options = Inr page"
  obtains w where "pcontent page = take w (drop start raw)" "pbytes page = byteLength (pcontent page)" "pbytes page \<le> room"
    "well_formed (drop (start + w) raw)" "start + w \<le> length raw" "start < length raw \<longrightarrow> 0 < w"
    "nextCursor page = (if start + w < length raw then Some (encodeCursor (pref options) (start + w)) else None)"
proof -
  obtain mb mt where lim: "page_limit (pmaxBytes options) DEFAULT_PAGE_BYTES MAX_PAGE_BYTES = Inr mb"
    "page_limit (pmaxTokens options) DEFAULT_PAGE_TOKENS MAX_PAGE_TOKENS = Inr mt" "room = min mb mt"
    using assms(1) by (rule page_room_cases)
  obtain w where w: "page_loop room start 0 (drop start raw) = (start + w, byteLength (take w (drop start raw)))"
      "w \<le> length (drop start raw)" "well_formed (drop w (drop start raw))" "byteLength (take w (drop start raw)) \<le> room"
    using page_loop_spec [OF assms(4), of room start 0] by (auto simp: page_step_def)
  have page: "pcontent page = take w (drop start raw)" "pbytes page = byteLength (pcontent page)" "start < length raw \<longrightarrow> 0 < w"
    "nextCursor page = (if start + w < length raw then Some (encodeCursor (pref options) (start + w)) else None)"
    using assms(2,3,5) boundary_ok [OF assms(4)] w(1) lim by (auto simp: paginateText_def js_slice_def Let_def split: if_splits)
  moreover have "well_formed (drop (start + w) raw)" using w(3) by (simp add: add.commute)
  ultimately show ?thesis using w(2,4) assms(3) by (intro that [of w]) auto
qed

text \<open>A page reads the next part of the leaves: items and missing hashes continue where the page began.\<close>

definition reads_on :: "nat \<Rightarrow> ordinalRun \<Rightarrow> leafItem list \<Rightarrow> bool" where
  "reads_on limit st rest \<longleftrightarrow>
     (\<exists>st' n items miss. ordinal_loop limit st rest = Inr (st', n < length rest) \<and> n \<le> length rest \<and> oOffset st' = oOffset st + n
        \<and> oItems st' = oItems st @ items \<and> oMissing st' = oMissing st @ miss
        \<and> concat (map iContent items) @ body_from (oIntra st') (drop n rest) = body_from (oIntra st) rest
        \<and> miss @ concat (map leaf_missing (drop n rest)) = concat (map leaf_missing rest)
        \<and> intra_ok (oIntra st') (drop n rest)
        \<and> (rest \<noteq> [] \<and> oCount st < limit \<and> 4 \<le> oBudget st \<longrightarrow> 0 < n \<or> oIntra st < oIntra st'))"

lemma reads_stop:
  assumes "ordinal_loop limit st rest = Inr (st, rest \<noteq> [])" and "intra_ok (oIntra st) rest"
    and "rest \<noteq> [] \<Longrightarrow> \<not> (oCount st < limit \<and> 4 \<le> oBudget st)"
  shows "reads_on limit st rest"
  unfolding reads_on_def by (rule exI [of _ st], rule exI [of _ 0]) (use assms in auto)

lemma reads_part:
  assumes "ordinal_loop limit st (leaf # leaves) = Inr (st', True)" and "oOffset st' = oOffset st" and "oMissing st' = oMissing st"
    and "oItems st' = oItems st @ [item]" and "iContent item @ drop (oIntra st') (leaf_body leaf) = drop (oIntra st) (leaf_body leaf)"
    and "intra_ok (oIntra st') (leaf # leaves)" and "oIntra st < oIntra st'"
  shows "reads_on limit st (leaf # leaves)"
  unfolding reads_on_def by (rule exI [of _ st'], rule exI [of _ 0], rule exI [of _ "[item]"]) (use assms in auto)

lemma reads_next:
  assumes "ordinal_loop limit st (leaf # leaves) = ordinal_loop limit st2 leaves" and "reads_on limit st2 leaves"
    and "oOffset st2 = oOffset st + 1" and "oIntra st2 = 0" and "oItems st2 = oItems st @ items" and "oMissing st2 = oMissing st @ leaf_missing leaf"
    and "concat (map iContent items) = drop (oIntra st) (leaf_body leaf)"
  shows "reads_on limit st (leaf # leaves)"
proof -
  obtain st' n items' miss where r: "ordinal_loop limit st2 leaves = Inr (st', n < length leaves)" "n \<le> length leaves" "oOffset st' = oOffset st2 + n"
      "oItems st' = oItems st2 @ items'" "oMissing st' = oMissing st2 @ miss"
      "concat (map iContent items') @ body_from (oIntra st') (drop n leaves) = body_from (oIntra st2) leaves"
      "miss @ concat (map leaf_missing (drop n leaves)) = concat (map leaf_missing leaves)" "intra_ok (oIntra st') (drop n leaves)"
    using assms(2) unfolding reads_on_def by blast
  show ?thesis unfolding reads_on_def
    by (rule exI [of _ st'], rule exI [of _ "Suc n"], rule exI [of _ "items @ items'"], rule exI [of _ "leaf_missing leaf @ miss"])
      (use r assms in auto)
qed

text \<open>The state a page may start or continue in.\<close>

definition page_state :: "ordinalRun \<Rightarrow> leafItem list \<Rightarrow> bool" where
  "page_state st rest \<longleftrightarrow> list_all leaf_ok rest \<and> (oItems st = [] \<longrightarrow> 4 \<le> oBudget st) \<and> 0 \<le> oBudget st \<and> oBudget st \<le> 8192
     \<and> intra_ok (oIntra st) rest"

lemma reads_page:
  assumes "page_state st (LeafRow row (Some content) # leaves)" and room: "oCount st < limit" "0 < oBudget st"
    and page: "paginateText content (page_request (wHash row) (oIntra st) (oBudget st)) = Inr page"
    and rest: "\<And>st2. page_state st2 leaves \<Longrightarrow> reads_on limit st2 leaves"
  shows "reads_on limit st (LeafRow row (Some content) # leaves)"
proof -
  let ?req = "page_request (wHash row) (oIntra st) (oBudget st)"
  have ok: "list_all (\<lambda>c. c < 65536) (wHash row)" "length (wHash row) \<le> 500" "length content < 2 ^ 53"
    "oIntra st \<le> length content" "well_formed (drop (oIntra st) content)"
    using assms(1) by (auto simp: page_state_def)
  have req: "page_room ?req = Some (nat (oBudget st))" "decodeCursor (pcursor ?req) (pref ?req) = Inr (oIntra st)"
    using request_room [of "oBudget st"] request_start [OF ok(1,2), of "oIntra st"] assms(1) room(2) ok(3,4)
    by (simp_all add: page_request_def page_state_def)
  have ref: "pref ?req = wHash row" by (simp add: page_request_def)
  obtain w where w: "pcontent page = take w (drop (oIntra st) content)"
      "pbytes page \<le> nat (oBudget st)" "well_formed (drop (oIntra st + w) content)"
      "oIntra st + w \<le> length content" "oIntra st < length content \<longrightarrow> 0 < w"
      "nextCursor page = (if oIntra st + w < length content then Some (encodeCursor (wHash row) (oIntra st + w)) else None)"
    by (rule paginate_result [OF req ok(4,5) page, unfolded ref]) blast
  show ?thesis
  proof (cases "oIntra st + w < length content")
    case True
    have dec: "decodeCursor (Some (encodeCursor (wHash row) (oIntra st + w))) (wHash row) = Inr (oIntra st + w)"
      using request_start [OF ok(1,2)] True ok(3) by simp
    have cut: "take w (drop (oIntra st) content) @ drop (oIntra st + w) content = drop (oIntra st) content"
      by (metis add.commute append_take_drop_id drop_drop)
    let ?st' = "(ordinal_item row page st)\<lparr>oIntra := oIntra st + w\<rparr>"
    have "ordinal_loop limit st (LeafRow row (Some content) # leaves) = Inr (?st', True)"
      using room page w(6) True dec by simp
    then show ?thesis
    proof (rule reads_part)
      show "oItems ?st' = oItems st @ [\<lparr>iHash = wHash row, iRole = wRole row, iTurn = wTurn row, iContent = pcontent page\<rparr>]"
        by (simp add: ordinal_item_def)
    qed (use w(1,3,4,5) True cut in \<open>auto simp: ordinal_item_def\<close>)
  next
    case False
    then have full: "pcontent page = drop (oIntra st) content" using w(1,4) by simp
    have "page_state (ordinal_next (ordinal_item row page st)) leaves"
      using assms(1) w(2) room(2) by (auto simp: page_state_def ordinal_next_def ordinal_item_def intro: intra_ok_0)
    from rest [OF this] show ?thesis
      by (rule reads_next [where items = "[\<lparr>iHash = wHash row, iRole = wRole row, iTurn = wTurn row, iContent = pcontent page\<rparr>]", rotated])
        (use room page w False full in \<open>simp_all add: ordinal_next_def ordinal_item_def\<close>)
  qed
qed

lemma page_error:
  assumes "page_state st (LeafRow row (Some content) # leaves)" and "0 < oBudget st"
    and "paginateText content (page_request (wHash row) (oIntra st) (oBudget st)) = Inl e"
  shows "\<not> 4 \<le> oBudget st \<and> oItems st \<noteq> []"
proof -
  let ?req = "page_request (wHash row) (oIntra st) (oBudget st)"
  have ok: "list_all (\<lambda>c. c < 65536) (wHash row)" "length (wHash row) \<le> 500" "length content < 2 ^ 53"
    "oIntra st \<le> length content" "well_formed (drop (oIntra st) content)"
    using assms(1) by (auto simp: page_state_def)
  have req: "page_room ?req = Some (nat (oBudget st))" "decodeCursor (pcursor ?req) (pref ?req) = Inr (oIntra st)"
    using request_room [of "oBudget st"] request_start [OF ok(1,2), of "oIntra st"] assms(1,2) ok(3,4)
    by (simp_all add: page_request_def page_state_def)
  have "\<not> 4 \<le> nat (oBudget st)" using paginate_from [OF req(1) _ req(2) ok(4,5)] assms(3) by fastforce
  then show ?thesis using assms(1) by (auto simp: page_state_def)
qed

lemma ordinal_loop_reads: "page_state st rest \<Longrightarrow> reads_on limit st rest"
proof (induction rest arbitrary: st)
  case Nil
  then show ?case by (intro reads_stop) (auto simp: page_state_def)
next
  case (Cons leaf leaves)
  obtain row v where leaf: "leaf = LeafRow row v" using Cons(2) by (cases leaf) (auto simp: page_state_def)
  have intra: "intra_ok (oIntra st) (leaf # leaves)" using Cons(2) by (simp add: page_state_def)
  show ?case
  proof (cases "oCount st < limit \<and> 0 < oBudget st")
    case False
    then show ?thesis using intra by (intro reads_stop) (auto simp: leaf)
  next
    case room: True
    show ?thesis
    proof (cases v)
      case None
      let ?st2 = "ordinal_next (st\<lparr>oMissing := oMissing st @ [wHash row], oCount := oCount st + 1\<rparr>)"
      have "reads_on limit ?st2 leaves"
        using Cons(2) by (intro Cons(1)) (auto simp: page_state_def ordinal_next_def intro: intra_ok_0)
      then show ?thesis
        by (rule reads_next [where items = "[]", rotated]) (use room in \<open>simp_all add: leaf None ordinal_next_def\<close>)
    next
      case (Some content)
      note text_leaf = Cons(2) [unfolded leaf Some]
      show ?thesis
      proof (cases "paginateText content (page_request (wHash row) (oIntra st) (oBudget st))")
        case (Inl e)
        with page_error [OF text_leaf _ Inl] room intra show ?thesis by (intro reads_stop) (auto simp: leaf Some)
      next
        case (Inr page)
        from reads_page [OF text_leaf _ _ Inr Cons(1)] room show ?thesis by (simp add: leaf Some)
      qed
    qed
  qed
qed

lemma skip_all: "list_all leaf_ok leaves \<Longrightarrow> skip_leaves n leaves = Inr (drop n leaves)"
  by (induction n leaves rule: skip_leaves.induct) auto

lemma page_budget_le: "page_budget maxBytes maxTokens \<le> 8192"
  by (simp add: page_budget_def)

definition items_text :: "historyItem list \<Rightarrow> jstring" where
  "items_text items = concat (map iContent items)"

lemma body_shorter: "intra_ok intra' rest \<Longrightarrow> intra < intra' \<Longrightarrow> length (body_from intra' rest) < length (body_from intra rest)"
  by (cases rest) auto

lemma ordinal_walk_reads:
  assumes "list_all leaf_ok leaves" and "4 \<le> page_budget maxBytes maxTokens" and "0 < page_count limit"
    and "intra_ok intra (drop offset leaves)" and "length (drop offset leaves) + length (body_from intra (drop offset leaves)) < k"
  shows "\<exists>sts. ordinal_walk k leaves maxBytes maxTokens limit offset intra = Some (Inr sts)
    \<and> concat (map (\<lambda>st. items_text (oItems st)) sts) = body_from intra (drop offset leaves)
    \<and> concat (map oMissing sts) = concat (map leaf_missing (drop offset leaves))"
  using assms
proof (induction k arbitrary: offset intra)
  case (Suc k)
  let ?rest = "drop offset leaves" and ?st = "ordinal_start offset intra (page_budget maxBytes maxTokens)"
  have "page_state ?st ?rest"
    using Suc(2,3,5) page_budget_le [of maxBytes maxTokens] by (auto simp: page_state_def ordinal_start_def list_all_iff dest: in_set_dropD)
  from ordinal_loop_reads [OF this, of "page_count limit"] obtain st' n items miss where
    r: "ordinal_loop (page_count limit) ?st ?rest = Inr (st', n < length ?rest)" "n \<le> length ?rest" "oOffset st' = offset + n"
      "oItems st' = items" "oMissing st' = miss" "items_text items @ body_from (oIntra st') (drop n ?rest) = body_from intra ?rest"
      "miss @ concat (map leaf_missing (drop n ?rest)) = concat (map leaf_missing ?rest)" "intra_ok (oIntra st') (drop n ?rest)"
      "?rest \<noteq> [] \<longrightarrow> 0 < n \<or> intra < oIntra st'"
    using Suc(3,4) unfolding reads_on_def items_text_def by (auto simp: ordinal_start_def)
  show ?case
  proof (cases "n < length ?rest")
    case False
    then have "drop n ?rest = []" by simp
    with r False show ?thesis by (simp add: skip_all [OF Suc(2)])
  next
    case True
    have "length (drop n ?rest) + length (body_from (oIntra st') (drop n ?rest)) < length ?rest + length (body_from intra ?rest)"
    proof (cases "0 < n")
      case True
      then show ?thesis using \<open>n < length ?rest\<close> arg_cong [OF r(6), of length] by simp
    next
      case False
      with r(8,9) \<open>n < length ?rest\<close> body_shorter [of "oIntra st'" ?rest intra] show ?thesis by auto
    qed
    then obtain sts where sts: "ordinal_walk k leaves maxBytes maxTokens limit (oOffset st') (oIntra st') = Some (Inr sts)"
        "concat (map (\<lambda>st. items_text (oItems st)) sts) = body_from (oIntra st') (drop (oOffset st') leaves)"
        "concat (map oMissing sts) = concat (map leaf_missing (drop (oOffset st') leaves))"
      using Suc(1) [OF Suc(2-4), of "oIntra st'" "oOffset st'"] r(3,8) Suc(6) by (auto simp: add.commute)
    have eq: "drop (oOffset st') leaves = drop n ?rest" by (simp add: r(3) add.commute)
    have "items_text items @ concat (map (\<lambda>st. items_text (oItems st)) sts) = body_from intra ?rest"
      "miss @ concat (map oMissing sts) = concat (map leaf_missing ?rest)"
      unfolding sts(2,3) eq by (rule r(6), rule r(7))
    with True r(1,4,5) sts(1) show ?thesis by (simp add: skip_all [OF Suc(2)])
  qed
qed simp

lemma walk_pages_related:
  assumes "map_option (map_sum id (map (\<lambda>p. (hpItems p, hpMissing p)))) x = map_option (map_sum id (map (\<lambda>st. (oItems st, oMissing st)))) (Some (Inr sts))"
  shows "\<exists>pages. x = Some (Inr pages) \<and> map hpItems pages = map oItems sts \<and> map hpMissing pages = map oMissing sts"
proof -
  obtain pages where x: "x = Some (Inr pages)" "map (\<lambda>p. (hpItems p, hpMissing p)) pages = map (\<lambda>st. (oItems st, oMissing st)) sts"
    using assms by (cases x; cases "the x") auto
  then have "map fst (map (\<lambda>p. (hpItems p, hpMissing p)) pages) = map fst (map (\<lambda>st. (oItems st, oMissing st)) sts)"
    "map snd (map (\<lambda>p. (hpItems p, hpMissing p)) pages) = map snd (map (\<lambda>st. (oItems st, oMissing st)) sts)" by simp_all
  with x(1) show ?thesis by (simp add: comp_def)
qed

lemma archive_walk:
  assumes "refs_keyed (hsMeta st)"
  shows "map_option (map_sum id (map (\<lambda>p. (hpItems p, hpMissing p)))) (frontier_walk k (archive_reader digest gunzip env dataDir ns st) maxBytes maxTokens limit (start_frontier h))
    = map_option (map_sum id (map (\<lambda>st. (oItems st, oMissing st)))) (ordinal_walk k (leaves_of digest gunzip env dataDir ns st h) maxBytes maxTokens limit 0 0)"
proof -
  have "archive.pending digest gunzip env dataDir ns st (fStack (start_frontier h)) = leaves_of digest gunzip env dataDir ns st h"
    using archive.pending_simps(2) [of digest gunzip env dataDir ns st "[]" "\<lparr>fHash = h, fOffset = 0\<rparr>"]
    by (simp add: start_frontier_def leaves_of_def expand_leaves [OF assms])
  from archive.walk_ordinal [of "start_frontier h" digest gunzip env dataDir ns st "leaves_of digest gunzip env dataDir ns st h" k maxBytes maxTokens limit, unfolded this]
  show ?thesis by (simp add: start_frontier_def)
qed

lemma archive_walk_reads:
  assumes "refs_keyed (hsMeta st)" and "list_all leaf_ok (leaves_of digest gunzip env dataDir ns st h)"
    and "4 \<le> page_budget maxBytes maxTokens" and "0 < page_count limit"
  shows "\<exists>k pages. frontier_walk k (archive_reader digest gunzip env dataDir ns st) maxBytes maxTokens limit (start_frontier h) = Some (Inr pages)
    \<and> concat (map (\<lambda>p. items_text (hpItems p)) pages) = concat (map leaf_body (leaves_of digest gunzip env dataDir ns st h))
    \<and> concat (map hpMissing pages) = concat (map leaf_missing (leaves_of digest gunzip env dataDir ns st h))"
proof -
  let ?leaves = "leaves_of digest gunzip env dataDir ns st h"
  obtain k where "length ?leaves + length (body_from 0 ?leaves) < k" by blast
  then obtain sts where sts: "ordinal_walk k ?leaves maxBytes maxTokens limit 0 0 = Some (Inr sts)"
      "concat (map (\<lambda>st. items_text (oItems st)) sts) = body_from 0 ?leaves" "concat (map oMissing sts) = concat (map leaf_missing ?leaves)"
    using ordinal_walk_reads [OF assms(2-4), of 0 0 k] intra_ok_0 [OF assms(2)] by auto
  obtain pages where pages: "frontier_walk k (archive_reader digest gunzip env dataDir ns st) maxBytes maxTokens limit (start_frontier h) = Some (Inr pages)"
      "map hpItems pages = map oItems sts" "map hpMissing pages = map oMissing sts"
    using walk_pages_related [OF archive_walk [OF assms(1), of k digest gunzip env dataDir ns maxBytes maxTokens limit h, unfolded sts(1)]] by blast
  have "map (\<lambda>p. items_text (hpItems p)) pages = map (\<lambda>st. items_text (oItems st)) sts"
    using arg_cong [OF pages(2), of "map items_text"] by (simp add: comp_def)
  with sts(2,3) pages(3) have "concat (map (\<lambda>p. items_text (hpItems p)) pages) = concat (map leaf_body ?leaves)"
    "concat (map hpMissing pages) = concat (map leaf_missing ?leaves)" by simp_all
  with pages(1) show ?thesis by blast
qed

section \<open>Histories of plain messages\<close>

lemma leaves_plain:
  assumes "\<And>r. r \<in> set rows \<Longrightarrow> content r = Some (LeafText (f r))"
  shows "historyLeaves content db ns lineage rows = map (\<lambda>r. LeafRow (reader_row (Some (mrSeq r + 1)) r) (Some (f r))) rows"
  using assms by (induction rows) auto

lemma engine_keyed:
  assumes "engine_archive digest gzip wenv d used maxStorage now ns params st = (Inr r, st')" and "hrCompacted r" and "refs_keyed (hsMeta st)"
  shows "refs_keyed (hsMeta st')"
proof -
  obtain plan st1 where "persistArchive digest gzip wenv d ns plan (hrRaw r) now st = (Inr (), st1)" "archiveRefs (hsMeta st') = archiveRefs (hsMeta st1)"
    using engine_archive_cases [OF assms(1,2)] by blast
  then show ?thesis using assms(3)
    by (auto simp: refs_keyed_def persist_rows Let_def insertCasMetaRows_def writeDerivedRows_def archiveRefs_fold fold_ignore_distinct
        split: prod.splits option.splits)
qed

lemma leaves_of_run:
  assumes "map mrHash (history_rows (hsMeta st) ns h) = map (contentDigest digest) run"
    and "\<forall>m\<in>set run. readMessageObject digest gunzip env d (contentDigest digest m) (hsFiles st) = Inr (Some m)"
    and "\<forall>m\<in>set run. marchive m = None"
  shows "map leaf_body (leaves_of digest gunzip env d ns st h) = map renderProjection run"
    and "concat (map leaf_missing (leaves_of digest gunzip env d ns st h)) = []"
    and "\<And>leaf. leaf \<in> set (leaves_of digest gunzip env d ns st h) \<Longrightarrow>
      \<exists>m\<in>set run. \<exists>row. leaf = LeafRow row (Some (renderProjection m)) \<and> wHash row = contentDigest digest m"
proof -
  let ?rows = "history_rows (hsMeta st) ns h"
  let ?msg = "\<lambda>r. the (readValidProjection digest gunzip env d (hsFiles st) (mrHash r))"
  have len: "length ?rows = length run" using arg_cong [OF assms(1), of length] by simp
  have nth: "mrHash (?rows ! i) = contentDigest digest (run ! i)" "?msg (?rows ! i) = run ! i"
      "readValidProjection digest gunzip env d (hsFiles st) (mrHash (?rows ! i)) = Some (run ! i)" if "i < length run" for i
    using that len bspec [OF assms(2), of "run ! i"] arg_cong [OF assms(1), of "\<lambda>xs. xs ! i"] by (simp_all add: readValidProjection_def read_ok_def)
  have plain: "child_history (hsMeta st) ns m = None" if "m \<in> set run" for m
    using assms(3) that by (simp add: child_history_def)
  have leaves: "leaves_of digest gunzip env d ns st h = map (\<lambda>r. LeafRow (reader_row (Some (mrSeq r + 1)) r) (Some (renderProjection (?msg r)))) ?rows"
    unfolding leaves_of_def
  proof (rule leaves_plain)
    fix r
    assume "r \<in> set ?rows"
    then obtain i where "i < length run" "r = ?rows ! i" by (metis in_set_conv_nth len)
    then show "message_content (hsMeta st) ns (readValidProjection digest gunzip env d (hsFiles st) (mrHash r)) = Some (LeafText (renderProjection (?msg r)))"
      using nth [of i] plain [of "run ! i"] by (simp add: message_content_def)
  qed
  show "map leaf_body (leaves_of digest gunzip env d ns st h) = map renderProjection run"
    unfolding leaves map_map comp_def leaf_body.simps using nth(2) by (intro map_equality_iff [THEN iffD2]) (simp add: len)
  show "concat (map leaf_missing (leaves_of digest gunzip env d ns st h)) = []" unfolding leaves by simp
  fix leaf
  assume "leaf \<in> set (leaves_of digest gunzip env d ns st h)"
  then obtain i where "i < length run" "leaf = LeafRow (reader_row (Some (mrSeq (?rows ! i) + 1)) (?rows ! i)) (Some (renderProjection (?msg (?rows ! i))))"
    unfolding leaves by (auto simp: in_set_conv_nth len)
  then show "\<exists>m\<in>set run. \<exists>row. leaf = LeafRow row (Some (renderProjection m)) \<and> wHash row = contentDigest digest m"
    using nth [of i] by (auto simp: reader_row_def)
qed

section \<open>The table of cursors\<close>

fun save_all :: "(jstring \<times> nat \<times> nspace \<times> jstring \<times> frontier) list \<Rightarrow> cursorRow list \<Rightarrow> (historyError, cursorRow list) result" where
  "save_all [] rows = Inr rows"
| "save_all ((uuid, now, ns, h, f) # saves) rows =
     (case saveHistoryCursor uuid now ns h f rows of Inl e \<Rightarrow> Inl e | Inr (c, rows') \<Rightarrow> save_all saves rows')"

text \<open>Unique ids, and a clock that has not gone back.\<close>

definition cursors_ok :: "nat \<Rightarrow> cursorRow list \<Rightarrow> bool" where
  "cursors_ok now rows \<longleftrightarrow> distinct (map cuId rows) \<and> sorted (map cuCreated rows) \<and> (\<forall>r\<in>set rows. cuCreated r \<le> now)"

lemma filter_last:
  assumes "distinct (map key xs)"
  shows "filter (\<lambda>x. key x \<in> set (take n (rev (map key xs)))) xs = drop (length xs - n) xs"
proof -
  let ?k = "length xs - n"
  have keep: "set (take n (rev (map key xs))) = key ` set (drop ?k xs)" by (simp add: take_rev drop_map)
  have xs: "take ?k xs @ drop ?k xs = xs" by simp
  have "distinct (map key (take ?k xs @ drop ?k xs))" using assms by (simp only: xs)
  then have "key ` set (take ?k xs) \<inter> key ` set (drop ?k xs) = {}" by (simp only: map_append distinct_append set_map)
  then have "filter (\<lambda>x. key x \<in> key ` set (drop ?k xs)) (take ?k xs @ drop ?k xs) = drop ?k xs"
    by (simp only: filter_append) (auto simp: filter_empty_conv)
  then show ?thesis by (simp only: keep xs)
qed

lemma save_keeps_newest:
  assumes "cursors_ok now rows" and "saveHistoryCursor uuid now ns h f rows = Inr (c, rows')"
  defines "row \<equiv> \<lparr>cuId = c, cuSpace = ns, cuHistory = h, cuFrontier = f, cuCreated = now\<rparr>"
  shows "rows' = drop (length rows + 1 - CAP) (rows @ [row])" and "distinct (map cuId (rows @ [row]))" and "cursors_ok now rows'"
proof -
  have c: "c = js ''h3-'' @ uuid" "c \<notin> cuId ` set rows" using assms(2) by (auto simp: saveHistoryCursor_def Let_def split: if_splits)
  have sorted: "sorted (map cuCreated (rows @ [row]))" using assms(1) by (auto simp: cursors_ok_def row_def sorted_append)
  show dist: "distinct (map cuId (rows @ [row]))" using assms(1) c(2) by (auto simp: cursors_ok_def row_def)
  have "newest_ids (rows @ [row]) = take CAP (rev (map cuId (rows @ [row])))"
    using sorted by (simp add: newest_ids_def sort_key_id_if_sorted rev_map)
  then show eq: "rows' = drop (length rows + 1 - CAP) (rows @ [row])"
    using assms(2) c filter_last [OF dist, of CAP] by (simp add: saveHistoryCursor_def row_def Let_def)
  have "sorted (map cuCreated rows')" unfolding eq drop_map [symmetric] using sorted by (rule sorted_wrt_drop)
  moreover have "distinct (map cuId rows')" unfolding eq drop_map [symmetric] using dist by (rule distinct_drop)
  moreover have "\<forall>r\<in>set rows'. cuCreated r \<le> now"
    using assms(1) unfolding eq cursors_ok_def row_def by (auto dest!: in_set_dropD)
  ultimately show "cursors_ok now rows'" by (simp add: cursors_ok_def)
qed

lemma save_all_keeps:
  assumes "save_all saves rows = Inr rows'" and "cursors_ok now rows" and "sorted (now # map (\<lambda>(u, t, r). t) saves)"
    and "rows = pre @ row # post" and "length post + length saves < CAP"
  shows "\<exists>t pre' post'. cursors_ok t rows' \<and> rows' = pre' @ row # post'"
  using assms
proof (induction saves arbitrary: rows now pre post)
  case (Cons s saves)
  obtain uuid t ns h f where s: "s = (uuid, t, ns, h, f)" by (cases s)
  obtain c rows1 where save: "saveHistoryCursor uuid t ns h f rows = Inr (c, rows1)" "save_all saves rows1 = Inr rows'"
    using Cons(2) by (auto simp: s split: sum.splits)
  have ok: "cursors_ok t rows" using Cons(3,4) by (force simp: cursors_ok_def s)
  note kept = save_keeps_newest [OF ok save(1)]
  let ?row = "\<lparr>cuId = c, cuSpace = ns, cuHistory = h, cuFrontier = f, cuCreated = t\<rparr>"
  have "length rows + 1 - CAP \<le> length pre" using Cons(5,6) by simp
  then have "rows1 = drop (length rows + 1 - CAP) pre @ row # (post @ [?row])"
    by (simp only: kept(1)) (simp add: Cons(5))
  from Cons(1) [OF save(2) kept(3) _ this] Cons(4,6) show ?case by (auto simp: s)
qed auto

section \<open>Properties\<close>

text \<open>C15: The persisted frontier and the older ordinal cursors read the same pages. For every history of a store the
  writer can reach, following the frontier from the start yields page by page the same items, the same
  missing hashes and the same error as counting leaves of the recursive expansion; the traversal of a
  page always ends.\<close>

theorem history_frontier_equals_ordinal:
  assumes "archive_run digest gzip dataDir empty_store st"
  shows "map_option (map_sum id (map (\<lambda>p. (hpItems p, hpMissing p))))
      (frontier_walk k (archive_reader digest gunzip env dataDir ns st) maxBytes maxTokens limit (start_frontier h))
    = map_option (map_sum id (map (\<lambda>run. (oItems run, oMissing run))))
      (ordinal_walk k (leaves_of digest gunzip env dataDir ns st h) maxBytes maxTokens limit 0 0)"
  using archive_walk [OF run_keyed [OF assms]] .

theorem history_frontier_equals_ordinal_witness:
  "map_option (map_sum id (map (\<lambda>p. (hpItems p, hpMissing p))))
      (frontier_walk 9 (archive_reader (\<lambda>_. replicate 32 0) Some (\<lambda>f. f) (js ''/d'') (js ''p'', js ''s'') (snd demo_run)) (Some 100) None None (start_frontier (replicate 64 48)))
    = map_option (map_sum id (map (\<lambda>run. (oItems run, oMissing run))))
      (ordinal_walk 9 (leaves_of (\<lambda>_. replicate 32 0) Some (\<lambda>f. f) (js ''/d'') (js ''p'', js ''s'') (snd demo_run) (replicate 64 48)) (Some 100) None None 0 0)"
  by (rule history_frontier_equals_ordinal [of _ "\<lambda>bs. bs"], unfold demo_run_def, rule engine_run [OF demo_storable])
    (simp add: rows_agree_def empty_store_def empty_meta_def)



text \<open>C29: A stored cursor stays valid. A saved frontier is returned unchanged for its own namespace and history,
  and for no other, until 4096 newer cursors have been saved, as long as the clock does not go back.\<close>

theorem history_cursor_survives:
  assumes "cursors_ok now rows" and "saveHistoryCursor uuid now ns h f rows = Inr (c, rows1)"
    and "save_all later rows1 = Inr rows2" and "length later < CAP" and "sorted (now # map (\<lambda>(u, t, r). t) later)"
  shows "loadHistoryCursor rows2 ns h c = Inr f \<and> (\<forall>ns' h'. (ns', h') \<noteq> (ns, h) \<longrightarrow> loadHistoryCursor rows2 ns' h' c = Inl CursorExpired)"
proof -
  let ?row = "\<lparr>cuId = c, cuSpace = ns, cuHistory = h, cuFrontier = f, cuCreated = now\<rparr>"
  note kept = save_keeps_newest [OF assms(1,2)]
  have "length rows + 1 - CAP \<le> length rows" by (simp add: CAP_def)
  then have "rows1 = drop (length rows + 1 - CAP) rows @ ?row # []" by (simp only: kept(1)) simp
  from save_all_keeps [OF assms(3) kept(3) assms(5) this] assms(4) obtain t pre post where rows2: "cursors_ok t rows2" "rows2 = pre @ ?row # post"
    by auto
  then have other: "\<forall>r\<in>set pre \<union> set post. cuId r \<noteq> c" by (force simp: cursors_ok_def)
  have "filter (\<lambda>r. cuId r = c \<and> P r) pre = []" "filter (\<lambda>r. cuId r = c \<and> P r) post = []" for P
    using other by (auto simp: filter_empty_conv)
  then have "find (\<lambda>r. cuId r = c \<and> cuSpace r = ns' \<and> cuHistory r = h') rows2 = (if ns' = ns \<and> h' = h then Some ?row else None)" for ns' h'
    by (simp add: rows2(2) find_filter)
  then show ?thesis by (auto simp: loadHistoryCursor_def)
qed

theorem history_cursor_survives_witness:
  "case saveHistoryCursor (js ''a'') 5 (js ''p'', js ''s'') (js ''h'') (start_frontier (js ''h'')) [] of
     Inr (c, rows1) \<Rightarrow> (case save_all [(js ''b'', 6, (js ''p'', js ''s''), js ''h'', start_frontier (js ''h''))] rows1 of
       Inr rows2 \<Rightarrow> loadHistoryCursor rows2 (js ''p'', js ''s'') (js ''h'') c = Inr (start_frontier (js ''h'')) | _ \<Rightarrow> False)
   | _ \<Rightarrow> False"
proof -
  let ?save = "saveHistoryCursor (js ''a'') 5 (js ''p'', js ''s'') (js ''h'') (start_frontier (js ''h'')) []"
  have "\<not> isl ?save" by (simp add: saveHistoryCursor_def Let_def)
  then obtain c rows1 where save: "?save = Inr (c, rows1)" by (cases ?save) auto
  let ?later = "[(js ''b'', 6, (js ''p'', js ''s''), js ''h'', start_frontier (js ''h''))]"
  have "\<not> isl (save_all ?later rows1)"
    using save by (auto simp: saveHistoryCursor_def Let_def newest_ids_def CAP_def js_def split: if_splits)
  then obtain rows2 where "save_all ?later rows1 = Inr rows2" by (cases "save_all ?later rows1") auto
  from history_cursor_survives [OF _ save this] this save show ?thesis by (simp add: cursors_ok_def CAP_def)
qed

end
