(* ===== verification/Nodes.thy ===== *)
theory Nodes
  imports History
begin

text \<open>
  Evidence nodes of the layered planner: \<open>layeredNodeSchema\<close> of \<open>packages/contracts/src/headroom.ts\<close> and the
  tables of \<open>packages/headroomd/src/store/nodes.ts\<close>. A node is stored as the JSON of a value the schema
  accepts and is modelled as that value; it is checked again on every read. Node ids are lower-case hex,
  for which \<open>localeCompare\<close> is the order of code units.
\<close>

section \<open>Nodes\<close>

record sourceRef =
  srMessage :: jstring
  srHash :: jstring
  srPart :: "nat option"
  srStart :: "nat option"
  srEnd :: "nat option"
  srHistory :: "jstring option"
  srNode :: "jstring option"

record stateEvent = memoryEntry +
  evId :: jstring
  evDigests :: "jstring list"
  evOrder :: nat
  evTool :: "jstring option"
  evInput :: "jstring option"
  evOutput :: "jstring option"
  evStatus :: "jstring option"

record layeredNode =
  nId :: jstring
  nSpace :: nspace
  nLevel :: nat
  nChildren :: "jstring list"
  nRefs :: "sourceRef list"
  nEvents :: "stateEvent list option"
  nPolicy :: jstring
  nText :: jstring
  nTokens :: nat
  nSourceTokens :: nat

definition num_json :: "nat \<Rightarrow> json" where
  "num_json n = JNum (of_nat n)"

definition ref_json :: "sourceRef \<Rightarrow> json" where
  "ref_json r = JObj ([(js ''messageId'', JStr (srMessage r)), (js ''contentHash'', JStr (srHash r))]
     @ opt_field ''partIndex'' num_json (srPart r) @ opt_field ''start'' num_json (srStart r) @ opt_field ''end'' num_json (srEnd r)
     @ opt_field ''historyHash'' JStr (srHistory r) @ opt_field ''nodeId'' JStr (srNode r))"

definition event_json :: "stateEvent \<Rightarrow> json" where
  "event_json e = JObj ([(js ''kind'', JStr (kind_string (mkind e))), (js ''text'', JStr (mtext e)),
       (js ''sourceIds'', JArr (map JStr (msourceIds e))), (js ''eventId'', JStr (evId e)),
       (js ''sourceDigests'', JArr (map JStr (evDigests e))), (js ''order'', num_json (evOrder e))]
     @ opt_field ''tool'' JStr (evTool e) @ opt_field ''inputDigest'' JStr (evInput e) @ opt_field ''outputDigest'' JStr (evOutput e)
     @ opt_field ''status'' JStr (evStatus e))"

definition space_json :: "nspace \<Rightarrow> json" where
  "space_json ns = JObj [(js ''projectId'', JStr (fst ns)), (js ''sessionId'', JStr (snd ns))]"

text \<open>The content of a node: every field but its id.\<close>

definition node_content_json :: "layeredNode \<Rightarrow> json" where
  "node_content_json n = JObj ([(js ''namespace'', space_json (nSpace n)), (js ''level'', num_json (nLevel n)),
       (js ''children'', JArr (map JStr (nChildren n))), (js ''sourceRefs'', JArr (map ref_json (nRefs n)))]
     @ opt_field ''stateEvents'' (\<lambda>es. JArr (map event_json es)) (nEvents n)
     @ [(js ''policyVersion'', JStr (nPolicy n)), (js ''text'', JStr (nText n)), (js ''tokens'', num_json (nTokens n)),
        (js ''sourceTokens'', num_json (nSourceTokens n))])"

definition nodeContentHash :: "(byte list \<Rightarrow> byte list) \<Rightarrow> layeredNode \<Rightarrow> jstring" where
  "nodeContentHash digest n = textDigest digest (canonicalJSON (node_content_json n))"

definition makeNode :: "(byte list \<Rightarrow> byte list) \<Rightarrow> layeredNode \<Rightarrow> layeredNode" where
  "makeNode digest n = n\<lparr>nId := nodeContentHash digest n\<rparr>"

definition ref_valid :: "sourceRef \<Rightarrow> bool" where
  "ref_valid r \<longleftrightarrow> validHash (srHash r) \<and> pred_option validHash (srHistory r) \<and> pred_option validHash (srNode r)"

definition event_valid :: "stateEvent \<Rightarrow> bool" where
  "event_valid e \<longleftrightarrow> validHash (evId e) \<and> list_all validHash (evDigests e) \<and> pred_option validHash (evInput e) \<and> pred_option validHash (evOutput e)"

text \<open>A \<open>Map\<close> built from pairs keeps the last value of a key.\<close>

definition last_of :: "('a \<times> 'b) list \<Rightarrow> 'a \<Rightarrow> 'b option" where
  "last_of kvs k = map_of (rev kvs) k"

definition event_bound :: "sourceRef list \<Rightarrow> stateEvent \<Rightarrow> bool" where
  "event_bound refs e \<longleftrightarrow> msourceIds e \<noteq> [] \<and> length (msourceIds e) = length (evDigests e)
     \<and> list_all (\<lambda>(i, d). last_of (map (\<lambda>r. (srMessage r, srHash r)) refs) i = Some d) (zip (msourceIds e) (evDigests e))"

definition layeredNode_valid :: "layeredNode \<Rightarrow> bool" where
  "layeredNode_valid n \<longleftrightarrow> validHash (nId n) \<and> list_all validHash (nChildren n) \<and> list_all ref_valid (nRefs n)
     \<and> (case nEvents n of
          None \<Rightarrow> True
        | Some es \<Rightarrow> length es \<le> 64 \<and> list_all event_valid es \<and> nLevel n = 0 \<and> nChildren n = [] \<and> distinct (map evId es)
            \<and> list_all (event_bound (nRefs n)) es)"

section \<open>The node tables\<close>

datatype nodeError = NodeSchema | IdentityMismatch | NodeNamespace | EvidenceMissing | InvalidChild | NodeCollision | GraphCapacity

record nodeDb =
  ndNodes :: "(nspace \<times> jstring, layeredNode) jmap"
  ndSources :: "(nspace \<times> jstring \<times> jstring) list"

definition empty_nodes :: nodeDb where
  "empty_nodes = \<lparr>ndNodes = [], ndSources = []\<rparr>"

definition validateIdentity :: "(byte list \<Rightarrow> byte list) \<Rightarrow> layeredNode \<Rightarrow> bool" where
  "validateIdentity digest n \<longleftrightarrow> nodeContentHash digest n = nId n"

definition readNode :: "(byte list \<Rightarrow> byte list) \<Rightarrow> nodeDb \<Rightarrow> nspace \<Rightarrow> jstring \<Rightarrow> (nodeError, layeredNode option) result" where
  "readNode digest db ns i =
     (case jmap_get (ndNodes db) (ns, i) of
        None \<Rightarrow> Inr None
      | Some n \<Rightarrow>
          if \<not> layeredNode_valid n then Inl NodeSchema
          else if \<not> validateIdentity digest n then Inl IdentityMismatch
          else if nSpace n \<noteq> ns \<or> nId n \<noteq> i then Inl NodeNamespace
          else Inr (Some n))"

fun check_children :: "(byte list \<Rightarrow> byte list) \<Rightarrow> nodeDb \<Rightarrow> nspace \<Rightarrow> nat \<Rightarrow> jstring list \<Rightarrow> (nodeError, unit) result" where
  "check_children digest db ns level [] = Inr ()"
| "check_children digest db ns level (c # cs) =
     (case readNode digest db ns c of
        Inl e \<Rightarrow> Inl e
      | Inr None \<Rightarrow> Inl InvalidChild
      | Inr (Some child) \<Rightarrow> if level \<le> nLevel child then Inl InvalidChild else check_children digest db ns level cs)"

definition add_source :: "nspace \<Rightarrow> jstring \<Rightarrow> sourceRef \<Rightarrow> (nspace \<times> jstring \<times> jstring) list \<Rightarrow> (nspace \<times> jstring \<times> jstring) list" where
  "add_source ns i r rows = insert_or_ignore id (ns, i, srHash r) rows"

definition saveNode :: "(byte list \<Rightarrow> byte list) \<Rightarrow> metaDb \<Rightarrow> nspace \<Rightarrow> layeredNode \<Rightarrow> nodeDb \<Rightarrow> (nodeError, nodeDb) result" where
  "saveNode digest meta ns n db =
     (if \<not> layeredNode_valid n then Inl NodeSchema
      else if \<not> validateIdentity digest n then Inl IdentityMismatch
      else if nSpace n \<noteq> ns then Inl NodeNamespace
      else if \<not> list_all (\<lambda>r. ownsCasMeta meta ns (srHash r)) (nRefs n) then Inl EvidenceMissing
      else case check_children digest db ns (nLevel n) (nChildren n) of
        Inl e \<Rightarrow> Inl e
      | Inr u \<Rightarrow>
          (case readNode digest db ns (nId n) of
             Inl e \<Rightarrow> Inl e
           | Inr existing \<Rightarrow>
               if existing \<noteq> None \<and> existing \<noteq> Some n then Inl NodeCollision
               else Inr (db\<lparr>ndNodes := (if jmap_get (ndNodes db) (ns, nId n) = None then jmap_set (ns, nId n) n (ndNodes db) else ndNodes db),
                            ndSources := fold (add_source ns (nId n)) (nRefs n) (ndSources db)\<rparr>)))"

fun save_each :: "(byte list \<Rightarrow> byte list) \<Rightarrow> metaDb \<Rightarrow> nspace \<Rightarrow> layeredNode list \<Rightarrow> nodeDb \<Rightarrow> (nodeError, nodeDb) result" where
  "save_each digest meta ns [] db = Inr db"
| "save_each digest meta ns (n # nodes) db =
     (case saveNode digest meta ns n db of Inl e \<Rightarrow> Inl e | Inr db' \<Rightarrow> save_each digest meta ns nodes db')"

text \<open>One transaction: an error leaves the tables as they were.\<close>

definition saveNodes :: "(byte list \<Rightarrow> byte list) \<Rightarrow> metaDb \<Rightarrow> nspace \<Rightarrow> layeredNode list \<Rightarrow> nodeDb \<Rightarrow> (nodeError, unit) result \<times> nodeDb" where
  "saveNodes digest meta ns nodes db =
     (case save_each digest meta ns (sort_key nLevel (sort_key nId nodes)) db of
        Inl e \<Rightarrow> (Inl e, db)
      | Inr db' \<Rightarrow> (Inr (), db'))"

definition nodesForSource :: "nodeDb \<Rightarrow> nspace \<Rightarrow> jstring \<Rightarrow> jstring list" where
  "nodesForSource db ns h = take 3 (sort_key utf8_encode (map (\<lambda>(s, i, g). i) (filter (\<lambda>(s, i, g). s = ns \<and> g = h) (ndSources db))))"

text \<open>The queue from the current index on; \<open>visited\<close> and the result in order.\<close>

function view_loop :: "(byte list \<Rightarrow> byte list) \<Rightarrow> nodeDb \<Rightarrow> nspace \<Rightarrow> jstring list \<Rightarrow> layeredNode list \<Rightarrow> jstring list \<Rightarrow> (nodeError, layeredNode list) result" where
  "view_loop digest db ns visited found [] = Inr found"
| "view_loop digest db ns visited found (i # queue) =
     (if i \<in> set visited then view_loop digest db ns visited found queue
      else if 16384 \<le> length visited then Inl GraphCapacity
      else case readNode digest db ns i of
        Inl e \<Rightarrow> Inl e
      | Inr None \<Rightarrow> view_loop digest db ns (visited @ [i]) found queue
      | Inr (Some n) \<Rightarrow> view_loop digest db ns (visited @ [i]) (found @ [n]) (queue @ nChildren n))"
  by pat_completeness auto
termination
  by (relation "inv_image (less_than <*lex*> less_than) (\<lambda>(digest, db, ns, visited, found, queue). (16384 - length visited, length queue))") auto

definition nodesForView :: "(byte list \<Rightarrow> byte list) \<Rightarrow> nodeDb \<Rightarrow> nspace \<Rightarrow> jstring list \<Rightarrow> (nodeError, layeredNode list) result" where
  "nodesForView digest db ns ids = view_loop digest db ns [] [] (rev (remdups (rev ids)))"

section \<open>What the tables hold\<close>

text \<open>Every stored node is what the schema allows, is named by its content, lies in its namespace, has its
  evidence archived and indexed there and its children stored on lower levels.\<close>

definition lower_children :: "nodeDb \<Rightarrow> nspace \<Rightarrow> nat \<Rightarrow> jstring list \<Rightarrow> bool" where
  "lower_children db ns level cs \<longleftrightarrow>
     list_all (\<lambda>c. case jmap_get (ndNodes db) (ns, c) of None \<Rightarrow> False | Some m \<Rightarrow> nLevel m < level) cs"

definition node_ok :: "(byte list \<Rightarrow> byte list) \<Rightarrow> metaDb \<Rightarrow> nodeDb \<Rightarrow> nspace \<Rightarrow> jstring \<Rightarrow> layeredNode \<Rightarrow> bool" where
  "node_ok digest meta db ns i n \<longleftrightarrow> layeredNode_valid n \<and> validateIdentity digest n \<and> nSpace n = ns \<and> nId n = i
     \<and> list_all (\<lambda>r. ownsCasMeta meta ns (srHash r) \<and> (ns, i, srHash r) \<in> set (ndSources db)) (nRefs n)
     \<and> lower_children db ns (nLevel n) (nChildren n)"

definition nodes_sound :: "(byte list \<Rightarrow> byte list) \<Rightarrow> metaDb \<Rightarrow> nodeDb \<Rightarrow> bool" where
  "nodes_sound digest meta db \<longleftrightarrow>
     list_all (\<lambda>((ns, i), n). node_ok digest meta db ns i n) (ndNodes db) \<and> distinct (jmap_keys (ndNodes db)) \<and> distinct (ndSources db)
     \<and> list_all (\<lambda>(ns, i, h). case jmap_get (ndNodes db) (ns, i) of None \<Rightarrow> False | Some n \<Rightarrow> h \<in> srHash ` set (nRefs n)) (ndSources db)"

lemma empty_nodes_sound: "nodes_sound digest meta empty_nodes"
  by (simp add: nodes_sound_def empty_nodes_def)

lemma sound_get: "nodes_sound digest meta db \<Longrightarrow> jmap_get (ndNodes db) (ns, i) = Some n \<Longrightarrow> node_ok digest meta db ns i n"
  by (auto simp: nodes_sound_def list_all_iff dest!: map_of_SomeD)

lemma sound_read: "nodes_sound digest meta db \<Longrightarrow> readNode digest db ns i = Inr (jmap_get (ndNodes db) (ns, i))"
  by (auto simp: readNode_def node_ok_def split: option.splits dest: sound_get)

lemma children_checked:
  assumes "nodes_sound digest meta db" and "check_children digest db ns level cs = Inr u"
  shows "lower_children db ns level cs"
  using assms(2) by (induction cs) (auto simp: lower_children_def sound_read [OF assms(1)] split: option.splits if_splits)

text \<open>The sources of one node after its rows are added.\<close>

lemma add_sources_set: "set (fold (add_source ns i) refs rows) = set rows \<union> (\<lambda>r. (ns, i, srHash r)) ` set refs"
  by (induction refs arbitrary: rows) (auto simp: add_source_def insert_or_ignore_def)

lemma add_sources_distinct: "distinct rows \<Longrightarrow> distinct (fold (add_source ns i) refs rows)"
  by (induction refs arbitrary: rows) (auto simp: add_source_def insert_or_ignore_def)

lemma saveNode_effect:
  assumes "nodes_sound digest meta db" and "saveNode digest meta ns n db = Inr db'"
  shows "layeredNode_valid n" "validateIdentity digest n" "nSpace n = ns"
    "list_all (\<lambda>r. ownsCasMeta meta ns (srHash r)) (nRefs n)"
    "lower_children db ns (nLevel n) (nChildren n)"
    "jmap_get (ndNodes db) (ns, nId n) = None \<or> jmap_get (ndNodes db) (ns, nId n) = Some n"
    "jmap_get (ndNodes db') = (jmap_get (ndNodes db))((ns, nId n) \<mapsto> n)"
    "ndNodes db' = (if jmap_get (ndNodes db) (ns, nId n) = None then jmap_set (ns, nId n) n (ndNodes db) else ndNodes db)"
    "ndSources db' = fold (add_source ns (nId n)) (nRefs n) (ndSources db)"
  using assms(2) children_checked [OF assms(1)]
  by (auto simp: saveNode_def sound_read [OF assms(1)] map_of_jmap_set fun_eq_iff split: if_splits sum.splits)

lemma saveNode_sound:
  assumes sound: "nodes_sound digest meta db" and save: "saveNode digest meta ns n db = Inr db'"
  shows "nodes_sound digest meta db'"
proof -
  note eff = saveNode_effect [OF sound save]
  have get: "jmap_get (ndNodes db') k = (if k = (ns, nId n) then Some n else jmap_get (ndNodes db) k)" for k
    by (simp add: eff(7))
  have keep: "jmap_get (ndNodes db) k = Some m \<Longrightarrow> jmap_get (ndNodes db') k = Some m" for k m
    using eff(6) by (auto simp: get)
  have kids: "lower_children db s k cs \<Longrightarrow> lower_children db' s k cs" for s k cs
    unfolding lower_children_def by (erule list.pred_mono_strong) (auto split: option.splits dest: keep)
  have dist: "distinct (jmap_keys (ndNodes db'))"
    using sound by (simp add: eff(8) nodes_sound_def distinct_jmap_set)
  have "node_ok digest meta db' s i m" if "((s, i), m) \<in> set (ndNodes db')" for s i m
  proof -
    have m: "jmap_get (ndNodes db') (s, i) = Some m" using that dist by (simp add: map_of_is_SomeI)
    show ?thesis
    proof (cases "(s, i) = (ns, nId n)")
      case True
      with m get have "m = n" by simp
      with True eff(1-4) kids [OF eff(5)] show ?thesis
        by (simp add: node_ok_def eff(9) add_sources_set list_all_iff)
    next
      case False
      with m have "jmap_get (ndNodes db) (s, i) = Some m" by (simp only: get if_False)
      from sound_get [OF sound this] kids show ?thesis
        by (auto simp: node_ok_def eff(9) add_sources_set list_all_iff)
    qed
  qed
  moreover have "case jmap_get (ndNodes db') (s, i) of None \<Rightarrow> False | Some m \<Rightarrow> h \<in> srHash ` set (nRefs m)"
    if "(s, i, h) \<in> set (ndSources db')" for s i h
  proof (cases "(s, i, h) \<in> set (ndSources db)")
    case True
    with sound have "case jmap_get (ndNodes db) (s, i) of None \<Rightarrow> False | Some m \<Rightarrow> h \<in> srHash ` set (nRefs m)"
      by (auto simp: nodes_sound_def list_all_iff)
    then show ?thesis by (auto split: option.splits dest: keep)
  next
    case False
    with that show ?thesis by (auto simp: eff(9) add_sources_set get)
  qed
  ultimately show ?thesis
    using sound dist by (auto simp: nodes_sound_def list_all_iff eff(9) add_sources_distinct)
qed

lemma saveNode_keeps:
  assumes "nodes_sound digest meta db" and "saveNode digest meta ns n db = Inr db'"
  shows "jmap_get (ndNodes db) k = Some m \<Longrightarrow> jmap_get (ndNodes db') k = Some m" "jmap_get (ndNodes db') (ns, nId n) = Some n"
  using saveNode_effect(6,7) [OF assms] by auto

lemma map_le_get: "map_le f g \<Longrightarrow> f k = Some v \<Longrightarrow> g k = Some v"
  by (force simp: map_le_def)

lemma save_each_sound:
  assumes "nodes_sound digest meta db" and "save_each digest meta ns nodes db = Inr db'"
  shows "nodes_sound digest meta db' \<and> map_le (jmap_get (ndNodes db)) (jmap_get (ndNodes db'))
    \<and> list_all (\<lambda>n. jmap_get (ndNodes db') (ns, nId n) = Some n) nodes"
  using assms
proof (induction nodes arbitrary: db)
  case (Cons n nodes)
  from Cons.prems obtain d where d: "saveNode digest meta ns n db = Inr d" and rest: "save_each digest meta ns nodes d = Inr db'"
    by (auto split: sum.splits)
  note kept = saveNode_keeps [OF Cons.prems(1) d]
  from Cons.IH [OF saveNode_sound [OF Cons.prems(1) d] rest]
  have later: "nodes_sound digest meta db'" "map_le (jmap_get (ndNodes d)) (jmap_get (ndNodes db'))"
    "list_all (\<lambda>n. jmap_get (ndNodes db') (ns, nId n) = Some n) nodes" by auto
  moreover have "map_le (jmap_get (ndNodes db)) (jmap_get (ndNodes d))"
    using kept(1) by (force simp: map_le_def)
  ultimately show ?case using map_le_get [OF later(2) kept(2)] by (auto dest: map_le_trans)
qed simp

section \<open>Properties\<close>

text \<open>
  C1: The node tables stay sound under every save: stored nodes satisfy the schema, are named by the hash of
  their content, have their evidence archived in the namespace and their children on lower levels. A save
  that succeeds stores every node given; one that fails changes nothing; a stored node never changes.
\<close>

theorem node_store_sound:
  assumes "nodes_sound digest meta db" and "saveNodes digest meta ns nodes db = (r, db')"
  shows "nodes_sound digest meta db' \<and> map_le (jmap_get (ndNodes db)) (jmap_get (ndNodes db'))
    \<and> (case r of Inl e \<Rightarrow> db' = db | Inr u \<Rightarrow> list_all (\<lambda>n. jmap_get (ndNodes db') (ns, nId n) = Some n) nodes)"
proof (cases "save_each digest meta ns (sort_key nLevel (sort_key nId nodes)) db")
  case (Inl e)
  with assms show ?thesis by (auto simp: saveNodes_def)
next
  case (Inr d)
  with assms(2) have "r = Inr ()" "d = db'" by (auto simp: saveNodes_def)
  with save_each_sound [OF assms(1) Inr] show ?thesis by (simp add: list_all_iff)
qed

text \<open>A leaf over one archived message and a parent over the leaf, under a digest that tells them apart.\<close>

definition demo_digest :: "byte list \<Rightarrow> byte list" where
  "demo_digest bs = (length bs mod 256) # replicate 31 0"

definition demo_meta :: metaDb where
  "demo_meta = empty_meta\<lparr>archiveRefs := [\<lparr>mrHash = replicate 64 48, mrProject = js ''p'', mrSession = js ''s'', mrRole = User,
     mrTurn = 0, mrSeq = 0, mrHistory = js ''h'', mrCreated = 0\<rparr>]\<rparr>"

definition demo_leaf :: layeredNode where
  "demo_leaf = makeNode demo_digest \<lparr>nId = [], nSpace = (js ''p'', js ''s''), nLevel = 0, nChildren = [],
     nRefs = [\<lparr>srMessage = js ''m'', srHash = replicate 64 48, srPart = Some 0, srStart = None, srEnd = None, srHistory = None, srNode = None\<rparr>],
     nEvents = None, nPolicy = js ''v'', nText = js ''t'', nTokens = 1, nSourceTokens = 9\<rparr>"

definition demo_parent :: layeredNode where
  "demo_parent = makeNode demo_digest \<lparr>nId = [], nSpace = (js ''p'', js ''s''), nLevel = 1, nChildren = [nId demo_leaf], nRefs = [],
     nEvents = None, nPolicy = js ''v'', nText = js ''t'', nTokens = 1, nSourceTokens = 9\<rparr>"

lemma demo_save: "fst (saveNodes demo_digest demo_meta (js ''p'', js ''s'') [demo_parent, demo_leaf] empty_nodes) = Inr ()"
  by code_simp

theorem node_store_sound_witness:
  "nodes_sound demo_digest demo_meta (snd (saveNodes demo_digest demo_meta (js ''p'', js ''s'') [demo_parent, demo_leaf] empty_nodes))
    \<and> jmap_get (ndNodes (snd (saveNodes demo_digest demo_meta (js ''p'', js ''s'') [demo_parent, demo_leaf] empty_nodes)))
        ((js ''p'', js ''s''), nId demo_leaf) = Some demo_leaf"
  using node_store_sound [OF empty_nodes_sound surjective_pairing, of demo_digest demo_meta "(js ''p'', js ''s'')" "[demo_parent, demo_leaf]"]
  by (simp add: demo_save)

text \<open>The ids a view reaches: those it names and the children of stored nodes it reaches.\<close>

inductive view_reaches :: "nodeDb \<Rightarrow> nspace \<Rightarrow> jstring list \<Rightarrow> jstring \<Rightarrow> bool" for db ns ids where
  named: "i \<in> set ids \<Longrightarrow> view_reaches db ns ids i"
| child: "view_reaches db ns ids i \<Longrightarrow> jmap_get (ndNodes db) (ns, i) = Some n \<Longrightarrow> c \<in> set (nChildren n) \<Longrightarrow> view_reaches db ns ids c"

lemma view_reaches_finite: "finite {i. view_reaches db ns ids i}"
proof (rule finite_subset)
  show "{i. view_reaches db ns ids i} \<subseteq> set ids \<union> (\<Union>(k, n)\<in>set (ndNodes db). set (nChildren n))"
  proof clarify
    fix i
    assume "view_reaches db ns ids i" "i \<notin> (\<Union>(k, n)\<in>set (ndNodes db). set (nChildren n))"
    then show "i \<in> set ids" by (cases rule: view_reaches.cases) (auto dest: map_of_SomeD)
  qed
qed auto

text \<open>What holds before every iteration: ids seen or waiting are reached, and the ids seen are settled.\<close>

definition view_inv :: "nodeDb \<Rightarrow> nspace \<Rightarrow> jstring list \<Rightarrow> jstring list \<Rightarrow> layeredNode list \<Rightarrow> jstring list \<Rightarrow> bool" where
  "view_inv db ns ids visited found queue \<longleftrightarrow>
     distinct visited \<and> (\<forall>i\<in>set visited \<union> set queue. view_reaches db ns ids i) \<and> set ids \<subseteq> set visited \<union> set queue
     \<and> (\<forall>i\<in>set visited. \<forall>n. jmap_get (ndNodes db) (ns, i) = Some n \<longrightarrow> (\<forall>c\<in>set (nChildren n). c \<in> set visited \<union> set queue))
     \<and> map Some found = filter (\<lambda>x. x \<noteq> None) (map (\<lambda>i. jmap_get (ndNodes db) (ns, i)) visited)"

lemma view_inv_seen: "view_inv db ns ids visited found (i # queue) \<Longrightarrow> i \<in> set visited \<Longrightarrow> view_inv db ns ids visited found queue"
  by (auto simp: view_inv_def insert_absorb)

lemma view_inv_absent:
  "view_inv db ns ids visited found (i # queue) \<Longrightarrow> i \<notin> set visited \<Longrightarrow> jmap_get (ndNodes db) (ns, i) = None
     \<Longrightarrow> view_inv db ns ids (visited @ [i]) found queue"
  unfolding view_inv_def by auto

lemma view_inv_found:
  assumes "view_inv db ns ids visited found (i # queue)" and "i \<notin> set visited" and n: "jmap_get (ndNodes db) (ns, i) = Some n"
  shows "view_inv db ns ids (visited @ [i]) (found @ [n]) (queue @ nChildren n)"
proof -
  have "\<forall>c\<in>set (nChildren n). view_reaches db ns ids c"
    using assms(1) by (auto simp: view_inv_def intro: view_reaches.child [OF _ n])
  with assms show ?thesis unfolding view_inv_def by auto blast
qed

lemma view_closed:
  assumes "view_inv db ns ids visited found []"
  shows "view_reaches db ns ids i \<longleftrightarrow> i \<in> set visited"
proof
  show "view_reaches db ns ids i \<Longrightarrow> i \<in> set visited"
    by (induction rule: view_reaches.induct) (use assms in \<open>auto simp: view_inv_def subset_iff\<close>)
qed (use assms in \<open>auto simp: view_inv_def\<close>)

lemma found_ids:
  assumes "nodes_sound digest meta db" and "map Some found = filter (\<lambda>x. x \<noteq> None) (map (\<lambda>i. jmap_get (ndNodes db) (ns, i)) visited)"
  shows "map nId found = filter (\<lambda>i. jmap_get (ndNodes db) (ns, i) \<noteq> None) visited"
  using assms(2)
proof (induction visited arbitrary: found)
  case (Cons i visited)
  show ?case
  proof (cases "jmap_get (ndNodes db) (ns, i)")
    case (Some n)
    with Cons.prems obtain rest where "found = n # rest" "map Some rest = filter (\<lambda>x. x \<noteq> None) (map (\<lambda>i. jmap_get (ndNodes db) (ns, i)) visited)"
      by (cases found) auto
    with Cons.IH [of rest] Some sound_get [OF assms(1) Some] show ?thesis by (simp add: node_ok_def)
  qed (use Cons in simp)
qed simp

lemma found_set:
  assumes "map Some found = filter (\<lambda>x. x \<noteq> None) (map get visited)"
  shows "set found = {n. \<exists>i\<in>set visited. get i = Some n}"
proof -
  have "Some ` set found = set (filter (\<lambda>x. x \<noteq> None) (map get visited))"
    using arg_cong [OF assms, of set] by simp
  then have "n \<in> set found \<longleftrightarrow> Some n \<in> get ` set visited" for n by (auto simp: set_eq_iff image_iff)
  then show ?thesis by (auto simp: image_iff) metis+
qed

text \<open>
  C2: Reading a view over sound tables returns the stored nodes that can be reached from the ids it names,
  each once and all of them; the only error is a graph of more than 16384 ids.
\<close>

theorem nodes_for_view_exact:
  assumes "nodes_sound digest meta db"
  shows "case nodesForView digest db ns ids of
      Inr found \<Rightarrow> distinct (map nId found) \<and> set found = {n. \<exists>i. view_reaches db ns ids i \<and> jmap_get (ndNodes db) (ns, i) = Some n}
    | Inl e \<Rightarrow> e = GraphCapacity \<and> 16384 < card {i. view_reaches db ns ids i}"
proof -
  let ?R = "{i. view_reaches db ns ids i}"
  have loop: "case view_loop digest db ns visited found queue of
      Inr found \<Rightarrow> distinct (map nId found) \<and> set found = {n. \<exists>i. view_reaches db ns ids i \<and> jmap_get (ndNodes db) (ns, i) = Some n}
    | Inl e \<Rightarrow> e = GraphCapacity \<and> 16384 < card ?R"
    if "view_inv db ns ids visited found queue" for visited found queue
    using that assms
  proof (induction digest db ns visited found queue rule: view_loop.induct)
    case (1 digest db ns visited found)
    then have "distinct (map nId found)" using found_ids by (simp add: view_inv_def)
    moreover have "set found = {n. \<exists>i\<in>set visited. jmap_get (ndNodes db) (ns, i) = Some n}"
      using 1 by (intro found_set) (simp add: view_inv_def)
    ultimately show ?case using view_closed [OF 1(1)] by auto
  next
    case (2 digest db ns visited found i queue)
    note read = sound_read [OF 2(5)]
    consider "i \<in> set visited" | "i \<notin> set visited" "16384 \<le> length visited"
      | "i \<notin> set visited" "length visited < 16384" by linarith
    then show ?case
    proof cases
      case 2
      have "card (set (i # visited)) \<le> card {i. view_reaches db ns ids i}"
        by (rule card_mono [OF view_reaches_finite]) (use "2.prems" in \<open>auto simp: view_inv_def\<close>)
      moreover have "card (set visited) = length visited" using "2.prems" by (simp add: view_inv_def distinct_card)
      ultimately show ?thesis using 2 by simp
    next
      case 3
      then show ?thesis
        using "2.IH"(2,3) [OF _ _ read] "2.prems" view_inv_absent [OF "2.prems"(1)] view_inv_found [OF "2.prems"(1)]
        by (cases "jmap_get (ndNodes db) (ns, i)") (simp_all add: read)
    qed (use "2.IH"(1) "2.prems" view_inv_seen in simp)
  qed
  show ?thesis unfolding nodesForView_def by (rule loop) (simp add: view_inv_def view_reaches.named)
qed

definition demo_tables :: nodeDb where
  "demo_tables = snd (saveNodes demo_digest demo_meta (js ''p'', js ''s'') [demo_parent, demo_leaf] empty_nodes)"

lemma demo_tables_sound: "nodes_sound demo_digest demo_meta demo_tables"
proof (cases "save_each demo_digest demo_meta (js ''p'', js ''s'') (sort_key nLevel (sort_key nId [demo_parent, demo_leaf])) empty_nodes")
  case (Inr db)
  from save_each_sound [OF empty_nodes_sound Inr] Inr show ?thesis by (simp only: demo_tables_def saveNodes_def sum.case snd_conv)
qed (simp only: demo_tables_def saveNodes_def sum.case snd_conv empty_nodes_sound)

lemma demo_view: "nodesForView demo_digest demo_tables (js ''p'', js ''s'') [nId demo_parent] = Inr [demo_parent, demo_leaf]"
  by code_simp

theorem nodes_for_view_exact_witness:
  "nId demo_parent \<noteq> nId demo_leaf
    \<and> {n. \<exists>i. view_reaches demo_tables (js ''p'', js ''s'') [nId demo_parent] i \<and> jmap_get (ndNodes demo_tables) ((js ''p'', js ''s''), i) = Some n}
      = {demo_parent, demo_leaf}"
  using nodes_for_view_exact [OF demo_tables_sound, of "(js ''p'', js ''s'')" "[nId demo_parent]"]
  by (simp add: demo_view)

end
