(* ===== verification/Layered_Analysis.thy ===== *)
theory Layered_Analysis
  imports Nodes
begin

text \<open>
  The first half of \<open>packages/headroomd/src/layered.ts\<close>: the bounded cache of analyses, clipping to a token
  budget, and the analysis of one message into replaceable observations, protected user text and task state.
  The token counter of the planner answers the same for the same text; it is the argument \<open>count\<close>.
\<close>

section \<open>Analyses\<close>

definition LAYERED_POLICY_VERSION :: jstring where "LAYERED_POLICY_VERSION = js ''layered-rules-v2''"
definition NODE_MARKER :: jstring where "NODE_MARKER = js ''[headroom node:''"
definition LEAF_SOURCE_TOKENS :: nat where "LEAF_SOURCE_TOKENS = 8192"
definition LEAF_SUMMARY_TOKENS :: nat where "LEAF_SUMMARY_TOKENS = 512"
definition PARENT_SUMMARY_TOKENS :: nat where "PARENT_SUMMARY_TOKENS = 1024"

datatype obKind = ObTool | ObRange nat nat

record observation =
  obPart :: nat
  obKind :: obKind
  obDigest :: jstring
  obTokens :: nat
  obText :: jstring
  obMemory :: memoryKind
  obKey :: jstring

text \<open>A state entry: an event without its id, sources and order. Tool entries carry the last four fields.\<close>

record stateEntry =
  sePart :: nat
  seKind :: memoryKind
  seText :: jstring
  seTool :: "jstring option"
  seInput :: "jstring option"
  seOutput :: "jstring option"
  seStatus :: "jstring option"

record analysis =
  anDigest :: jstring
  anTokens :: nat
  anObservations :: "observation list"
  anProtected :: "memoryEntry list"
  anEntries :: "stateEntry list"

section \<open>The cache\<close>

fun ob_kind_fields :: "obKind \<Rightarrow> (jstring \<times> json) list" where
  "ob_kind_fields ObTool = [(js ''kind'', JStr (js ''tool-output''))]"
| "ob_kind_fields (ObRange s e) = [(js ''kind'', JStr (js ''text-range'')), (js ''start'', num_json s), (js ''end'', num_json e)]"

definition observation_json :: "observation \<Rightarrow> json" where
  "observation_json ob = JObj ([(js ''partIndex'', num_json (obPart ob))] @ ob_kind_fields (obKind ob)
     @ [(js ''fieldDigest'', JStr (obDigest ob)), (js ''sourceTokens'', num_json (obTokens ob)), (js ''text'', JStr (obText ob)),
        (js ''memoryKind'', JStr (kind_string (obMemory ob))), (js ''key'', JStr (obKey ob))])"

definition entry_json :: "stateEntry \<Rightarrow> json" where
  "entry_json e = JObj ([(js ''partIndex'', num_json (sePart e)), (js ''kind'', JStr (kind_string (seKind e))), (js ''text'', JStr (seText e))]
     @ opt_field ''tool'' JStr (seTool e) @ opt_field ''inputDigest'' JStr (seInput e) @ opt_field ''outputDigest'' JStr (seOutput e)
     @ opt_field ''status'' JStr (seStatus e))"

definition analysis_json :: "analysis \<Rightarrow> json" where
  "analysis_json a = JObj [(js ''digest'', JStr (anDigest a)), (js ''tokens'', num_json (anTokens a)),
     (js ''observations'', JArr (map observation_json (anObservations a))), (js ''protectedMemory'', JArr (map memory_json (anProtected a))),
     (js ''stateEntries'', JArr (map entry_json (anEntries a)))]"

record layeredCache =
  lcEntries :: "(jstring, analysis \<times> nat) jmap"
  lcBytes :: int
  lcMaxEntries :: nat
  lcMaxBytes :: nat

datatype layeredError = CacheCapacity | InvalidWindow | InvalidBudget | InvalidRetained | InvalidRatio | SourceCharacter

definition createLayeredCache :: "rat option \<Rightarrow> rat option \<Rightarrow> (layeredError, layeredCache) result" where
  "createLayeredCache maxEntries maxBytes =
     (let n = (case maxEntries of Some n \<Rightarrow> n | None \<Rightarrow> 4096); b = (case maxBytes of Some b \<Rightarrow> b | None \<Rightarrow> 16 * 1024 * 1024)
      in if \<not> is_safe_integer n \<or> n < 1 \<or> \<not> is_safe_integer b \<or> b < 1 then Inl CacheCapacity
         else Inr \<lparr>lcEntries = [], lcBytes = 0, lcMaxEntries = nat (fst (quotient_of n)), lcMaxBytes = nat (fst (quotient_of b))\<rparr>)"

definition cache_get :: "jstring \<Rightarrow> layeredCache \<Rightarrow> analysis option \<times> layeredCache" where
  "cache_get key c =
     (case jmap_get (lcEntries c) key of
        None \<Rightarrow> (None, c)
      | Some hit \<Rightarrow> (Some (fst hit), c\<lparr>lcEntries := jmap_set key hit (jmap_delete key (lcEntries c))\<rparr>))"

definition analysis_size :: "analysis \<Rightarrow> nat" where
  "analysis_size a = length (json_stringify (analysis_json a)) * 2"

text \<open>The eviction loop takes the oldest entries; the one just set is the last and fits alone.\<close>

fun evict :: "nat \<Rightarrow> nat \<Rightarrow> (jstring, analysis \<times> nat) jmap \<Rightarrow> int \<Rightarrow> (jstring, analysis \<times> nat) jmap \<times> int" where
  "evict maxEntries maxBytes [] bytes = ([], bytes)"
| "evict maxEntries maxBytes (e # es) bytes =
     (if maxEntries < length (e # es) \<or> int maxBytes < bytes then evict maxEntries maxBytes es (bytes - int (snd (snd e)))
      else (e # es, bytes))"

definition cache_set :: "jstring \<Rightarrow> analysis \<Rightarrow> layeredCache \<Rightarrow> layeredCache" where
  "cache_set key value c =
     (let c1 = (case jmap_get (lcEntries c) key of
                  None \<Rightarrow> c
                | Some old \<Rightarrow> c\<lparr>lcBytes := lcBytes c - int (snd old), lcEntries := jmap_delete key (lcEntries c)\<rparr>);
          size = analysis_size value
      in if lcMaxBytes c < size then c1
         else case evict (lcMaxEntries c) (lcMaxBytes c) (jmap_set key (value, size) (lcEntries c1)) (lcBytes c1 + int size) of
           (entries, bytes) \<Rightarrow> c1\<lparr>lcEntries := entries, lcBytes := bytes\<rparr>)"

section \<open>Clipping\<close>

definition EXCERPT_MARKER :: jstring where
  "EXCERPT_MARKER = LF # js ''[excerpt; expand source for full evidence]''"

text \<open>The largest prefix the search accepts; \<open>ok\<close> is the test of the loop.\<close>

function prefix_search :: "(nat \<Rightarrow> bool) \<Rightarrow> nat \<Rightarrow> nat \<Rightarrow> nat" where
  "prefix_search ok low high =
     (if low < high then (let m = (low + high + 1) div 2 in if ok m then prefix_search ok m high else prefix_search ok low (m - 1))
      else low)"
  by pat_completeness auto
termination
  by (relation "measure (\<lambda>(ok, low, high). high - low)") auto

declare prefix_search.simps [simp del]

text \<open>A prefix that ends in a high surrogate gives up that code unit.\<close>

definition back_off :: "jstring \<Rightarrow> nat \<Rightarrow> nat \<Rightarrow> nat" where
  "back_off t from low = (if from < low \<and> low \<le> length t \<and> is_high (t ! (low - 1)) then low - 1 else low)"

definition clip :: "(jstring \<Rightarrow> nat) \<Rightarrow> jstring \<Rightarrow> nat \<Rightarrow> jstring" where
  "clip count t maxTokens =
     (if count t \<le> maxTokens then t
      else if maxTokens \<le> count EXCERPT_MARKER then []
      else take (back_off t 0 (prefix_search (\<lambda>m. count (take m t @ EXCERPT_MARKER) \<le> maxTokens) 0 (length t))) t @ EXCERPT_MARKER)"

definition layeredMessageTokens :: "(jstring \<Rightarrow> nat) \<Rightarrow> chatMessage \<Rightarrow> nat" where
  "layeredMessageTokens count m = count (messageExcerpt m)"

section \<open>Reference material in a text\<close>

primrec re_match_all_from :: "nat \<Rightarrow> re \<Rightarrow> jstring \<Rightarrow> nat \<Rightarrow> (nat \<times> rstate) list" where
  "re_match_all_from 0 r s i = []"
| "re_match_all_from (Suc k) r s i =
     (case re_exec_from r s i of
        None \<Rightarrow> []
      | Some (a, st) \<Rightarrow> (a, st) # re_match_all_from k r s (if fst st = a then Suc a else fst st))"

definition re_match_all :: "re \<Rightarrow> jstring \<Rightarrow> (nat \<times> rstate) list" where
  "re_match_all r s = re_match_all_from (Suc (length s)) r s 0"

definition FENCE_RE :: re where
  "FENCE_RE = rseq [rlit ''```'', rmany (RSet True [(10, 10)]), rchr LF, RStar False rany, rchr LF, rlit ''```'']"

definition INTENT_RE :: re where
  "INTENT_RE = word_re [''implement'', ''generate'', ''write'', ''create'', ''desired'', ''proposed'', ''template'']
     [[0x5B9E, 0x73B0], [0x7F16, 0x5199], [0x751F, 0x6210], [0x671F, 0x671B], [0x5F85, 0x5B9E, 0x73B0], [0x6A21, 0x677F]]"

definition MATERIAL_RE :: re where
  "MATERIAL_RE = rseq
     [ralt ([RSeq RWordB (ralt [RSeq (rlit_i ''observed log'') (ropt (rchr_i 115)), RSeq (rlit_i ''log'') (ropt (rchr_i 115)), rlit_i ''terminal output'',
               RSeq (rlit_i ''file content'') (ropt (rchr_i 115)), rlit_i ''source file'', rlit_i ''reference material''])]
        @ map rstr [[0x65E5, 0x5FD7], [0x7EC8, 0x7AEF, 0x8F93, 0x51FA], [0x6587, 0x4EF6, 0x5185, 0x5BB9], [0x53C2, 0x8003, 0x6750, 0x6599],
               [0x8FD0, 0x884C, 0x8F93, 0x51FA]]),
      rmany rspace, ropt (RSet False [(58, 58), (0xFF1A, 0xFF1A)]), rmany rspace, REol]"

definition materialRanges :: "jstring \<Rightarrow> (nat \<times> nat) list" where
  "materialRanges t =
     map (\<lambda>(a, st). (a, fst st))
       (filter (\<lambda>(a, st). let prefix = js_trim (js_slice t (a - 200) a) in \<not> re_test INTENT_RE prefix \<and> re_test MATERIAL_RE prefix)
         (re_match_all FENCE_RE t))"

section \<open>The skeleton of a tool call\<close>

definition any_re :: "string list \<Rightarrow> jstring list \<Rightarrow> re" where
  "any_re ws cjk = ralt (map rlit_i ws @ map rstr cjk)"

definition STATUS_FAIL_RE :: re where "STATUS_FAIL_RE = any_re [''error'', ''fail''] []"
definition OUTPUT_FAIL_RE :: re where
  "OUTPUT_FAIL_RE = word_re [''error'', ''failed'', ''exception'', ''panic'', ''traceback''] [[0x5931, 0x8D25], [0x9519, 0x8BEF]]"
definition TEST_TOOL_RE :: re where
  "TEST_TOOL_RE = any_re [''test'', ''pytest'', ''vitest'', ''jest'', ''typecheck'', ''check'', ''build''] []"
definition WRITE_TOOL_RE :: re where "WRITE_TOOL_RE = any_re [''write'', ''edit'', ''patch''] []"
definition SEARCH_TOOL_RE :: re where "SEARCH_TOOL_RE = any_re [''grep'', ''search'', ''glob''] []"
definition DIAGNOSTIC_RE :: re where
  "DIAGNOSTIC_RE = ralt
     [rseq [RWordB, ralt [rlit_i ''error'', RSeq (rlit_i ''fail'') (ropt (RAlt (rlit_i ''ed'') (rlit_i ''ure''))), rlit_i ''exception'', rlit_i ''panic'',
              rlit_i ''traceback'', rlit_i ''assert'', rlit_i ''expected'', rlit_i ''received''], RWordB],
      rstr [0x5931, 0x8D25], rstr [0x9519, 0x8BEF], RSeq RBol (rlit_i ''not ok'')]"
definition TEST_LINE_RE :: re where
  "TEST_LINE_RE = ralt [rlit_i ''pass'', rlit_i ''fail'', RSeq (rlit_i ''test'') (ropt (rchr_i 115)), RSeq (rlit_i ''suite'') (ropt (rchr_i 115)),
     rlit_i ''duration'', rlit_i ''exit'', rstr [0x901A, 0x8FC7], rstr [0x5931, 0x8D25]]"
definition WRITE_LINE_RE :: re where
  "WRITE_LINE_RE = RAlt (RSeq RBol (rset ''-+'')) (any_re [''changed'', ''updated'', ''written'', ''modified'', ''file''] [])"

text \<open>\<open>String(value)\<close> for a value of JSON; the elements \<open>null\<close> of an array are joined as empty strings.\<close>

fun js_string :: "json \<Rightarrow> jstring" where
  "js_string (JStr s) = s"
| "js_string (JArr vs) = join_with (js '','') (map (\<lambda>v. if v = JNull then [] else js_string v) vs)"
| "js_string (JObj kvs) = js ''[object Object]''"
| "js_string v = json_stringify v"

definition command_of :: "json option \<Rightarrow> jstring" where
  "command_of input =
     (case input of
        None \<Rightarrow> []
      | Some v \<Rightarrow> (case json_get v (js ''command'') of None \<Rightarrow> [] | Some JNull \<Rightarrow> [] | Some c \<Rightarrow> js_string c))"

definition take_last :: "nat \<Rightarrow> 'a list \<Rightarrow> 'a list" where
  "take_last n xs = drop (length xs - n) xs"

fun diag_loop :: "(jstring \<Rightarrow> nat) \<Rightarrow> jstring list \<Rightarrow> jstring list \<Rightarrow> jstring list" where
  "diag_loop count [] diagnostics = diagnostics"
| "diag_loop count (l # ls) diagnostics =
     (if re_test DIAGNOSTIC_RE l
      then let ds = diagnostics @ l # take 2 ls in if 320 < count (join_with [LF] ds) then ds else diag_loop count (drop 2 ls) ds
      else diag_loop count ls diagnostics)"

record skeletonResult =
  skText :: jstring
  skKind :: memoryKind
  skSafe :: bool

definition tool_failed :: "jstring \<Rightarrow> jstring \<Rightarrow> jstring \<Rightarrow> bool" where
  "tool_failed status output error \<longleftrightarrow> re_test STATUS_FAIL_RE status \<or> re_test OUTPUT_FAIL_RE (output @ error)"

definition diagnostics_of :: "(jstring \<Rightarrow> nat) \<Rightarrow> jstring \<Rightarrow> bool \<Rightarrow> bool \<Rightarrow> bool \<Rightarrow> jstring list \<Rightarrow> jstring list" where
  "diagnostics_of count tool failure test write ls =
     (let ds = (if failure then diag_loop count ls []
                else if test then take_last 8 (filter (re_test TEST_LINE_RE) ls)
                else if write then take 6 (filter (re_test WRITE_LINE_RE) ls)
                else if re_test SEARCH_TOOL_RE tool then take 5 (filter (\<lambda>l. js_trim l \<noteq> []) ls)
                else [])
      in if failure \<and> ds = [] then take 3 ls @ take_last 3 ls else ds)"

definition skeleton :: "(jstring \<Rightarrow> nat) \<Rightarrow> jstring \<Rightarrow> json option \<Rightarrow> jstring \<Rightarrow> jstring \<Rightarrow> jstring \<Rightarrow> skeletonResult" where
  "skeleton count tool input status output error =
     (let args = (case input of None \<Rightarrow> [] | Some v \<Rightarrow> canonicalJSON v);
          failure = tool_failed status output error;
          test = re_test TEST_TOOL_RE (tool @ js '' '' @ command_of input);
          write = re_test WRITE_TOOL_RE tool;
          kind = (if failure then Failures else if write then Changes else if test then Verification else Decisions);
          diagnosis = join_with [LF] (diagnostics_of count tool failure test write (split_on LF output));
          header = clip count (js ''tool '' @ tool @ js '' ('' @ status @ js '') input: '' @ clip count args 120) 128;
          body = join_with [LF] (filter (\<lambda>s. s \<noteq> []) [header, clip count diagnosis 320, clip count error 24])
      in \<lparr>skText = clip count body 480, skKind = kind, skSafe = (\<not> failure \<or> count diagnosis \<le> 320)\<rparr>)"

section \<open>The analysis of a message\<close>

definition STATE_RE :: re where
  "STATE_RE = word_re [''todo'', ''pending'', ''next'', ''unresolved'', ''decided'', ''decision'', ''changed'', ''updated'', ''verified'', ''passed'', ''failed'']
     [[0x5F85, 0x529E], [0x4E0B, 0x4E00, 0x6B65], [0x5C1A, 0x672A], [0x51B3, 0x5B9A], [0x4FEE, 0x6539], [0x9A8C, 0x8BC1], [0x5931, 0x8D25]]"
definition STATE_OPEN_RE :: re where
  "STATE_OPEN_RE = word_re [''todo'', ''pending'', ''next'', ''unresolved''] [[0x5F85, 0x529E], [0x4E0B, 0x4E00, 0x6B65], [0x5C1A, 0x672A]]"
definition STATE_FAIL_RE :: re where "STATE_FAIL_RE = any_re [''fail'', ''error''] [[0x5931, 0x8D25], [0x9519, 0x8BEF]]"
definition STATE_CHANGE_RE :: re where "STATE_CHANGE_RE = any_re [''changed'', ''updated''] [[0x4FEE, 0x6539]]"
definition STATE_VERIFY_RE :: re where "STATE_VERIFY_RE = any_re [''verified'', ''passed''] [[0x9A8C, 0x8BC1], [0x901A, 0x8FC7]]"

definition state_kind :: "jstring \<Rightarrow> memoryKind" where
  "state_kind t = (if re_test STATE_OPEN_RE t then Open else if re_test STATE_FAIL_RE t then Failures
     else if re_test STATE_CHANGE_RE t then Changes else if re_test STATE_VERIFY_RE t then Verification else Decisions)"

definition constraint_of :: "jstring \<Rightarrow> jstring \<Rightarrow> memoryEntry list" where
  "constraint_of i t = (if js_trim t \<noteq> [] then [\<lparr>mkind = Constraints, mtext = t, msourceIds = [i]\<rparr>] else [])"

text \<open>The text of a user outside the ranges, piece by piece.\<close>

fun protected_loop :: "jstring \<Rightarrow> jstring \<Rightarrow> nat \<Rightarrow> (nat \<times> nat) list \<Rightarrow> memoryEntry list" where
  "protected_loop i t offset [] = constraint_of i (drop offset t)"
| "protected_loop i t offset ((s, e) # ranges) = constraint_of i (js_slice t offset s) @ protected_loop i t e ranges"

definition MATERIAL_TEXT :: jstring where
  "MATERIAL_TEXT = js ''Explicit reference material; expand source for original content.''"

definition text_entries :: "(jstring \<Rightarrow> nat) \<Rightarrow> chatMessage \<Rightarrow> nat \<Rightarrow> jstring \<Rightarrow> stateEntry list" where
  "text_entries count m p t =
     (if mrole m = Assistant \<and> re_test STATE_RE t
      then [\<lparr>sePart = p, seKind = state_kind t, seText = clip count t 480, seTool = None, seInput = None, seOutput = None, seStatus = None\<rparr>]
      else [])"

definition range_observation :: "(byte list \<Rightarrow> byte list) \<Rightarrow> (jstring \<Rightarrow> nat) \<Rightarrow> jstring \<Rightarrow> nat \<Rightarrow> jstring \<Rightarrow> nat \<times> nat \<Rightarrow> observation" where
  "range_observation digest count nsKey p t r =
     (let material = js_slice t (fst r) (snd r)
      in \<lparr>obPart = p, obKind = ObRange (fst r) (snd r), obDigest = textDigest digest material, obTokens = count material,
          obText = MATERIAL_TEXT, obMemory = Decisions, obKey = textDigest digest (nsKey @ [0] @ js ''material'' @ [0] @ material)\<rparr>)"

text \<open>\<open>canonicalJSON\<close> writes \<open>undefined\<close> as the string of that name.\<close>

definition opt_json :: "('a \<Rightarrow> json) \<Rightarrow> 'a option \<Rightarrow> json" where
  "opt_json f x = (case x of None \<Rightarrow> JStr (js ''undefined'') | Some v \<Rightarrow> f v)"

definition observed_tool :: "toolPart \<Rightarrow> bool" where
  "observed_tool p \<longleftrightarrow> pstatus p \<in> set COMPLETED_TOOL_STATUSES \<and> or_empty (poutput p) \<noteq> []
     \<and> index_of (or_empty (poutput p)) NODE_MARKER 0 = None"

definition tool_skeleton :: "(jstring \<Rightarrow> nat) \<Rightarrow> toolPart \<Rightarrow> skeletonResult" where
  "tool_skeleton count p = skeleton count (ptool p) (pinput p) (pstatus p) (or_empty (poutput p)) (or_empty (perror p))"

definition tool_entry :: "(byte list \<Rightarrow> byte list) \<Rightarrow> (jstring \<Rightarrow> nat) \<Rightarrow> nat \<Rightarrow> toolPart \<Rightarrow> stateEntry" where
  "tool_entry digest count i p =
     \<lparr>sePart = i, seKind = skKind (tool_skeleton count p), seText = skText (tool_skeleton count p), seTool = Some (ptool p),
      seInput = Some (textDigest digest (canonicalJSON (opt_json id (pinput p)))), seOutput = Some (textDigest digest (or_empty (poutput p))),
      seStatus = Some (pstatus p)\<rparr>"

definition tool_observation :: "(byte list \<Rightarrow> byte list) \<Rightarrow> (jstring \<Rightarrow> nat) \<Rightarrow> jstring \<Rightarrow> nat \<Rightarrow> toolPart \<Rightarrow> observation" where
  "tool_observation digest count nsKey i p =
     (let fieldDigest = textDigest digest (or_empty (poutput p))
      in \<lparr>obPart = i, obKind = ObTool, obDigest = fieldDigest, obTokens = count (or_empty (poutput p)), obText = skText (tool_skeleton count p),
          obMemory = skKind (tool_skeleton count p),
          obKey = textDigest digest (canonicalJSON (JArr [JStr nsKey, JStr (ptool p), opt_json id (pinput p), JStr (pstatus p), JStr fieldDigest,
                    opt_json JStr (perror p)]))\<rparr>)"

fun part_observations :: "(byte list \<Rightarrow> byte list) \<Rightarrow> (jstring \<Rightarrow> nat) \<Rightarrow> jstring \<Rightarrow> nat \<times> part \<Rightarrow> observation list" where
  "part_observations digest count nsKey (i, TextPart t) = map (range_observation digest count nsKey i t) (materialRanges t)"
| "part_observations digest count nsKey (i, ToolPart p) =
     (if observed_tool p \<and> skSafe (tool_skeleton count p) then [tool_observation digest count nsKey i p] else [])"

fun part_protected :: "chatMessage \<Rightarrow> part \<Rightarrow> memoryEntry list" where
  "part_protected m (TextPart t) = (if mrole m = User then protected_loop (mid m) t 0 (materialRanges t) else [])"
| "part_protected m (ToolPart p) = []"

fun part_entries :: "(byte list \<Rightarrow> byte list) \<Rightarrow> (jstring \<Rightarrow> nat) \<Rightarrow> chatMessage \<Rightarrow> nat \<times> part \<Rightarrow> stateEntry list" where
  "part_entries digest count m (i, TextPart t) = text_entries count m i t"
| "part_entries digest count m (i, ToolPart p) = (if observed_tool p then [tool_entry digest count i p] else [])"

definition archive_protected :: "chatMessage \<Rightarrow> memoryEntry list" where
  "archive_protected m =
     (case marchive m of
        None \<Rightarrow> []
      | Some a \<Rightarrow> (case aprotectedMemory a of None \<Rightarrow> [] | Some es \<Rightarrow> es)
          @ (if mid m = compaction_id (ahistoryHash a) then filter (\<lambda>e. mkind e = Constraints) (amemory a) else []))"

definition analyze :: "(byte list \<Rightarrow> byte list) \<Rightarrow> (jstring \<Rightarrow> nat) \<Rightarrow> jstring \<Rightarrow> chatMessage \<Rightarrow> jstring \<Rightarrow> analysis" where
  "analyze digest count nsKey m d =
     (let parts = zip [0 ..< length (mparts m)] (mparts m)
      in \<lparr>anDigest = d, anTokens = layeredMessageTokens count m, anObservations = concat (map (part_observations digest count nsKey) parts),
          anProtected = concat (map (part_protected m) (mparts m)) @ archive_protected m,
          anEntries = concat (map (part_entries digest count m) parts)\<rparr>)"

section \<open>A cache may forget but never lie\<close>

text \<open>What the planner relies on: a lookup changes no answer, a stored value is found or forgotten, and storing
  one key gives no other key a new value.\<close>

locale lossy_cache =
  fixes invar :: "'c \<Rightarrow> bool" and lookup :: "'k \<Rightarrow> 'c \<Rightarrow> 'v option \<times> 'c" and store :: "'k \<Rightarrow> 'v \<Rightarrow> 'c \<Rightarrow> 'c"
  assumes lookup_invar: "invar c \<Longrightarrow> invar (snd (lookup k c))"
    and lookup_same: "invar c \<Longrightarrow> fst (lookup k' (snd (lookup k c))) = fst (lookup k' c)"
    and store_invar: "invar c \<Longrightarrow> invar (store k v c)"
    and store_this: "invar c \<Longrightarrow> fst (lookup k (store k v c)) \<in> {None, Some v}"
    and store_other: "invar c \<Longrightarrow> k' \<noteq> k \<Longrightarrow> fst (lookup k' (store k v c)) \<in> {None, fst (lookup k' c)}"
begin

lemma store_faithful:
  assumes "invar c" and "\<forall>m\<in>M. fst (lookup (key m) c) \<in> {None, Some (val m)}" and "\<forall>m\<in>M. key m = k \<longrightarrow> val m = v"
  shows "\<forall>m\<in>M. fst (lookup (key m) (store k v c)) \<in> {None, Some (val m)}"
proof
  fix m assume "m \<in> M"
  with assms store_this [OF assms(1), of k v] store_other [OF assms(1), of "key m" k v]
  show "fst (lookup (key m) (store k v c)) \<in> {None, Some (val m)}" by (cases "key m = k") auto
qed

lemma lookup_faithful:
  assumes "invar c" and "\<forall>m\<in>M. fst (lookup (key m) c) \<in> {None, Some (val m)}"
  shows "\<forall>m\<in>M. fst (lookup (key m) (snd (lookup k c))) \<in> {None, Some (val m)}"
  using assms by (simp add: lookup_same)

end

definition cache_sizes :: "(jstring, analysis \<times> nat) jmap \<Rightarrow> int" where
  "cache_sizes es = sum_list (map (\<lambda>e. int (snd (snd e))) es)"

text \<open>The bounds and the byte count of a cache.\<close>

definition layered_cache_ok :: "layeredCache \<Rightarrow> bool" where
  "layered_cache_ok c \<longleftrightarrow> distinct (jmap_keys (lcEntries c)) \<and> 1 \<le> lcMaxEntries c \<and> length (lcEntries c) \<le> lcMaxEntries c
     \<and> lcBytes c = cache_sizes (lcEntries c) \<and> lcBytes c \<le> int (lcMaxBytes c)
     \<and> list_all (\<lambda>(k, a, n). n = analysis_size a \<and> n \<le> lcMaxBytes c) (lcEntries c)"

lemma evict_drop:
  assumes "evict n b es bytes = (es', bytes')" and "bytes = cache_sizes es"
  shows "\<exists>k. es' = drop k es \<and> length es' \<le> n \<and> bytes' = cache_sizes es' \<and> bytes' \<le> int b"
  using assms
proof (induction n b es bytes rule: evict.induct)
  case (2 n b e es bytes)
  show ?case
  proof (cases "n < length (e # es) \<or> int b < bytes")
    case True
    with 2 obtain k where "es' = drop k es \<and> length es' \<le> n \<and> bytes' = cache_sizes es' \<and> bytes' \<le> int b"
      by (auto simp: cache_sizes_def)
    then show ?thesis by (intro exI [of _ "Suc k"]) auto
  next
    case False
    with 2 show ?thesis by (intro exI [of _ 0]) auto
  qed
qed (auto simp: cache_sizes_def)

lemma evict_keeps_last:
  assumes "1 \<le> n" and "snd (snd x) \<le> b" and "bytes = cache_sizes (es @ [x])"
  shows "\<exists>pre. fst (evict n b (es @ [x]) bytes) = pre @ [x]"
  using assms
proof (induction es arbitrary: bytes)
  case (Cons e es)
  then show ?case using Cons.IH [of "bytes - int (snd (snd e))"] by (auto simp: cache_sizes_def)
qed (auto simp: cache_sizes_def)

lemma sizes_delete:
  "distinct (jmap_keys es) \<Longrightarrow> jmap_get es k = Some x \<Longrightarrow> cache_sizes (jmap_delete k es) = cache_sizes es - int (snd x)"
proof (induction es)
  case (Cons e es)
  show ?case
  proof (cases "fst e = k")
    case True
    with Cons(2) have "filter (\<lambda>e. fst e \<noteq> k) es = es" by (auto simp: filter_id_conv image_iff)
    with True Cons(3) show ?thesis by (auto simp: jmap_delete_def cache_sizes_def)
  qed (use Cons in \<open>auto simp: jmap_delete_def cache_sizes_def\<close>)
qed simp

lemma jmap_set_fresh_key: "k \<notin> set (jmap_keys m) \<Longrightarrow> jmap_set k v m = m @ [(k, v)]"
  by (induction m) auto

lemma map_of_drop: "distinct (jmap_keys m) \<Longrightarrow> map_of (drop n m) k \<in> {None, map_of m k}"
proof (cases "map_of (drop n m) k")
  case (Some v)
  assume "distinct (jmap_keys m)"
  moreover have "(k, v) \<in> set m" using Some by (auto dest: map_of_SomeD in_set_dropD)
  ultimately show ?thesis using Some by (simp add: map_of_is_SomeI)
qed simp

lemma list_all_drop: "list_all P xs \<Longrightarrow> list_all P (drop n xs)"
  by (auto simp: list_all_iff dest: in_set_dropD)

lemma delete_fresh: "k \<notin> set (jmap_keys (jmap_delete k m))"
  by (auto simp: jmap_delete_def)

lemma cache_get_entries:
  assumes "layered_cache_ok c"
  shows "fst (cache_get k c) = map_option fst (jmap_get (lcEntries c) k)"
    "jmap_get (lcEntries (snd (cache_get k c))) = jmap_get (lcEntries c)"
  by (auto simp: cache_get_def map_of_jmap_set map_of_jmap_delete fun_eq_iff split: option.splits)

lemma cache_get_ok: "layered_cache_ok c \<Longrightarrow> layered_cache_ok (snd (cache_get k c))"
proof (cases "jmap_get (lcEntries c) k")
  case (Some hit)
  assume ok: "layered_cache_ok c"
  then have d: "distinct (jmap_keys (lcEntries c))" by (simp add: layered_cache_ok_def)
  have es: "lcEntries (snd (cache_get k c)) = jmap_delete k (lcEntries c) @ [(k, hit)]"
    using Some delete_fresh [of k "lcEntries c"] by (simp add: cache_get_def jmap_set_fresh_key)
  have rest: "lcMaxEntries (snd (cache_get k c)) = lcMaxEntries c" "lcMaxBytes (snd (cache_get k c)) = lcMaxBytes c" "lcBytes (snd (cache_get k c)) = lcBytes c"
    using Some by (simp_all add: cache_get_def)
  have "Suc (length (jmap_delete k (lcEntries c))) \<le> length (lcEntries c)"
    using Some length_filter_less [of "(k, hit)" "lcEntries c" "\<lambda>e. fst e \<noteq> k"] by (auto simp: jmap_delete_def dest: map_of_SomeD)
  moreover have "cache_sizes (lcEntries (snd (cache_get k c))) = lcBytes c"
    using ok sizes_delete [OF d Some] by (simp add: es layered_cache_ok_def) (simp add: cache_sizes_def)
  moreover have "set (lcEntries (snd (cache_get k c))) \<subseteq> set (lcEntries c)"
    using Some by (auto simp: es jmap_delete_def dest: map_of_SomeD)
  ultimately show ?thesis
    using ok distinct_jmap_delete [OF d, of k] delete_fresh [of k "lcEntries c"]
    by (simp add: layered_cache_ok_def rest es) (auto simp: list_all_iff)
qed (simp add: cache_get_def)

text \<open>Setting a key: the old entry goes, the new one is the last, and the oldest ones make room.\<close>

definition cache_drop :: "jstring \<Rightarrow> layeredCache \<Rightarrow> layeredCache" where
  "cache_drop key c = c\<lparr>lcEntries := jmap_delete key (lcEntries c), lcBytes := cache_sizes (jmap_delete key (lcEntries c))\<rparr>"

lemma cache_drop_ok: "layered_cache_ok c \<Longrightarrow> layered_cache_ok (cache_drop k c)"
proof -
  have "cache_sizes (jmap_delete k es) \<le> cache_sizes es" for es
    by (induction es) (auto simp: cache_sizes_def jmap_delete_def)
  then have "cache_sizes (jmap_delete k es) \<le> b" if "cache_sizes es \<le> b" for es b using that order_trans by blast
  moreover have "length (jmap_delete k es) \<le> n" if "length es \<le> n" for es :: "(jstring, analysis \<times> nat) jmap" and n
    using that le_trans [OF length_filter_le] by (auto simp: jmap_delete_def)
  ultimately show "layered_cache_ok c \<Longrightarrow> layered_cache_ok (cache_drop k c)"
    by (auto simp: layered_cache_ok_def cache_drop_def distinct_jmap_delete) (auto simp: jmap_delete_def list_all_iff)
qed

lemma cache_set_cases:
  assumes ok: "layered_cache_ok c"
  obtains "lcMaxBytes c < analysis_size v" "cache_set k v c = cache_drop k c"
  | n where "analysis_size v \<le> lcMaxBytes c" "n \<le> length (jmap_delete k (lcEntries c))"
      "lcEntries (cache_set k v c) = drop n (jmap_delete k (lcEntries c)) @ [(k, v, analysis_size v)]"
      "layered_cache_ok (cache_set k v c)"
proof -
  let ?d = "jmap_delete k (lcEntries c)" and ?e = "(k, v, analysis_size v)"
  have dist: "distinct (jmap_keys (lcEntries c))" using ok by (simp add: layered_cache_ok_def)
  have c1: "(case jmap_get (lcEntries c) k of None \<Rightarrow> c
      | Some old \<Rightarrow> c\<lparr>lcBytes := lcBytes c - int (snd old), lcEntries := jmap_delete k (lcEntries c)\<rparr>) = cache_drop k c"
  proof (cases "jmap_get (lcEntries c) k")
    case None
    then have "?d = lcEntries c" by (auto simp: jmap_delete_def filter_id_conv map_of_eq_None_iff)
    with None ok show ?thesis by (simp add: cache_drop_def layered_cache_ok_def)
  qed (use ok sizes_delete [OF dist] in \<open>simp add: cache_drop_def layered_cache_ok_def\<close>)
  show thesis
  proof (cases "lcMaxBytes c < analysis_size v")
    case True
    then show thesis by (intro that(1)) (auto simp only: cache_set_def c1 Let_def if_True)
  next
    case False
    obtain es bytes where ev: "evict (lcMaxEntries c) (lcMaxBytes c) (?d @ [?e]) (cache_sizes (?d @ [?e])) = (es, bytes)" by fastforce
    have max: "1 \<le> lcMaxEntries c" using ok by (simp add: layered_cache_ok_def)
    have set: "cache_set k v c = c\<lparr>lcEntries := es, lcBytes := bytes\<rparr>"
      using False ev delete_fresh [of k "lcEntries c"] by (simp add: cache_set_def c1 Let_def cache_drop_def jmap_set_fresh_key) (simp add: cache_sizes_def)
    from evict_drop [OF ev refl] obtain n where n: "es = drop n (?d @ [?e])" "length es \<le> lcMaxEntries c" "bytes = cache_sizes es" "bytes \<le> int (lcMaxBytes c)"
      by blast
    from evict_keeps_last [OF max, of ?e "lcMaxBytes c" "cache_sizes (?d @ [?e])" ?d] False ev obtain pre where "es = pre @ [?e]" by auto
    with n(1) have le: "n \<le> length ?d" by (cases "n \<le> length ?d") auto
    have all: "list_all (\<lambda>(k, a, n). n = analysis_size a \<and> n \<le> lcMaxBytes c) (?d @ [?e])" "distinct (jmap_keys (?d @ [?e]))"
      using ok False dist distinct_jmap_delete [OF dist, of k] delete_fresh [of k "lcEntries c"]
      by (auto simp: layered_cache_ok_def jmap_delete_def list_all_iff)
    have "list_all (\<lambda>(k, a, n). n = analysis_size a \<and> n \<le> lcMaxBytes c) es"
      unfolding n(1) by (rule list_all_drop [OF all(1)])
    moreover have "distinct (jmap_keys es)" using distinct_drop [OF all(2), of n] by (simp only: n(1) drop_map)
    ultimately have "layered_cache_ok (cache_set k v c)" using n(2-4) max by (simp add: set layered_cache_ok_def)
    with False le n(1) show thesis by (intro that(2) [of n]) (auto simp: set)
  qed
qed

lemma cache_set_ok: "layered_cache_ok c \<Longrightarrow> layered_cache_ok (cache_set k v c)"
  by (rule cache_set_cases [of c v k]) (auto intro: cache_drop_ok)

lemma cache_set_get:
  assumes "layered_cache_ok c"
  shows "fst (cache_get k (cache_set k v c)) = (if analysis_size v \<le> lcMaxBytes c then Some v else None)"
proof (rule cache_set_cases [OF assms, of v k])
  fix n assume "lcEntries (cache_set k v c) = drop n (jmap_delete k (lcEntries c)) @ [(k, v, analysis_size v)]" "analysis_size v \<le> lcMaxBytes c"
  moreover have "k \<notin> set (jmap_keys (drop n (jmap_delete k (lcEntries c))))"
    using delete_fresh [of k "lcEntries c"] by (auto dest: in_set_dropD)
  ultimately show ?thesis
    by (simp add: cache_get_entries(1) [OF cache_set_ok [OF assms]] map_add_def map_of_eq_None_iff [THEN iffD2] split: option.splits)
qed (simp add: cache_get_def cache_drop_def map_of_jmap_delete)

lemma cache_set_other:
  assumes ok: "layered_cache_ok c" and "k' \<noteq> k"
  shows "fst (cache_get k' (cache_set k v c)) \<in> {None, fst (cache_get k' c)}"
proof (rule cache_set_cases [OF ok, of v k])
  fix n assume es: "lcEntries (cache_set k v c) = drop n (jmap_delete k (lcEntries c)) @ [(k, v, analysis_size v)]"
  have "distinct (jmap_keys (jmap_delete k (lcEntries c)))" using ok by (simp add: layered_cache_ok_def distinct_jmap_delete)
  from map_of_drop [OF this, of n k'] have "jmap_get (drop n (jmap_delete k (lcEntries c))) k' \<in> {None, jmap_get (lcEntries c) k'}"
    using assms(2) by (simp add: map_of_jmap_delete)
  then show ?thesis
    using assms(2) by (auto simp: cache_get_entries(1) [OF cache_set_ok [OF ok]] cache_get_entries(1) [OF ok] es map_add_def split: option.splits)
qed (use assms(2) in \<open>simp add: cache_get_entries(1) [OF ok] cache_get_entries(1) [OF cache_drop_ok [OF ok]]\<close>,
     simp add: cache_drop_def map_of_jmap_delete)

interpretation layered_cache: lossy_cache layered_cache_ok cache_get cache_set
proof unfold_locales
  fix c k k' v
  assume ok: "layered_cache_ok c"
  show "layered_cache_ok (snd (cache_get k c))" "layered_cache_ok (cache_set k v c)" using ok by (rule cache_get_ok cache_set_ok)+
  show "fst (cache_get k' (snd (cache_get k c))) = fst (cache_get k' c)"
    by (simp add: cache_get_entries [OF ok] cache_get_entries(1) [OF cache_get_ok [OF ok]])
  show "fst (cache_get k (cache_set k v c)) \<in> {None, Some v}" by (simp add: cache_set_get [OF ok])
  show "k' \<noteq> k \<Longrightarrow> fst (cache_get k' (cache_set k v c)) \<in> {None, fst (cache_get k' c)}" by (rule cache_set_other [OF ok])
qed

section \<open>Searching for a prefix\<close>

lemma prefix_search_spec:
  assumes "low \<le> high"
  shows "low \<le> prefix_search ok low high \<and> prefix_search ok low high \<le> high
    \<and> (prefix_search ok low high = low \<or> ok (prefix_search ok low high))
    \<and> (prefix_search ok low high = high \<or> \<not> ok (Suc (prefix_search ok low high)))"
  using assms
proof (induction ok low high rule: prefix_search.induct)
  case (1 ok low high)
  let ?m = "(low + high + 1) div 2"
  show ?case
  proof (cases "low < high")
    case True
    then have m: "low < ?m" "?m \<le> high" by simp_all
    show ?thesis
    proof (cases "ok ?m")
      case fit: True
      with True have "prefix_search ok low high = prefix_search ok ?m high" by (simp add: prefix_search.simps [of ok low high] Let_def)
      with 1(1) [OF True refl fit] m fit show ?thesis by auto
    next
      case False
      with True have eq: "prefix_search ok low high = prefix_search ok low (?m - 1)"
        by (simp add: prefix_search.simps [of ok low high] Let_def)
      have "low \<le> ?m - 1" using m by simp
      note ih = 1(2) [OF True refl False this]
      then have "prefix_search ok low (?m - 1) \<le> high" using m by linarith
      with ih False m show ?thesis unfolding eq by (cases "prefix_search ok low (?m - 1) = ?m - 1") auto
    qed
  qed (use 1(3) in \<open>simp add: prefix_search.simps [of ok high high]\<close>)
qed

lemma well_formed_cut:
  "well_formed s \<Longrightarrow> i \<le> length s \<Longrightarrow> i = 0 \<or> \<not> is_high (s ! (i - 1)) \<Longrightarrow> well_formed (take i s) \<and> well_formed (drop i s)"
proof (induction s arbitrary: i rule: well_formed.induct)
  case (2 c)
  then show ?case by (cases i) auto
next
  case (3 c d s)
  show ?case
  proof (cases "is_high c \<and> is_low d")
    case True
    consider "i = 0" | "i = 1" | j where "i = Suc (Suc j)" by (metis One_nat_def not0_implies_Suc)
    then show ?thesis
    proof cases
      case (3 j)
      then show ?thesis using "3.IH"(1) [OF True, of j] "3.prems" True by (cases j) auto
    qed (use "3.prems" True in auto)
  next
    case False
    then have wf: "well_formed (d # s)" "\<not> is_surrogate c" "c < 65536" using "3.prems"(1) by (auto split: if_splits)
    show ?thesis
    proof (cases i)
      case (Suc j)
      have ih: "well_formed (take j (d # s)) \<and> well_formed (drop j (d # s))"
        using "3.IH"(2) [OF False wf(1), of j] "3.prems"(2,3) Suc by (cases j) auto
      have "well_formed (c # take j (d # s))" using ih wf False by (cases j) auto
      with Suc ih show ?thesis by simp
    qed (use "3.prems" in simp)
  qed
qed simp

lemma back_off_bounds: "from \<le> low \<Longrightarrow> from \<le> back_off t from low \<and> back_off t from low \<le> low \<and> low - 1 \<le> back_off t from low"
  by (auto simp: back_off_def)

lemma high_pair: "well_formed s \<Longrightarrow> i < length s \<Longrightarrow> is_high (s ! i) \<Longrightarrow> Suc i < length s \<and> is_low (s ! Suc i)"
proof (induction s arbitrary: i rule: well_formed.induct)
  case (2 c)
  then show ?case by (auto simp: is_surrogate_def)
next
  case (3 c d s)
  then show ?case by (cases i; cases "i - 1") (auto simp: is_surrogate_def is_high_def is_low_def split: if_splits)
qed simp

text \<open>Backing off never leaves a high surrogate at the end of a prefix of well-formed text.\<close>

lemma back_off_boundary:
  assumes "well_formed t" and "low \<le> length t" and "from < back_off t from low"
  shows "\<not> is_high (t ! (back_off t from low - 1))"
proof (cases "from < low \<and> is_high (t ! (low - 1))")
  case True
  then have "back_off t from low = low - 1" using assms(2) by (simp add: back_off_def)
  moreover have "\<not> is_high (t ! (low - 1 - 1))"
  proof
    assume h: "is_high (t ! (low - 1 - 1))"
    have "from < low - 1" using assms(3) True assms(2) by (simp add: back_off_def)
    then have "Suc (low - 1 - 1) = low - 1" "low - 1 - 1 < length t" using assms(2) by auto
    with high_pair [OF assms(1) _ h] True show False by (auto simp: is_high_def is_low_def)
  qed
  ultimately show ?thesis by simp
next
  case False
  then show ?thesis using assms by (auto simp: back_off_def)
qed

section \<open>Ranges of a text\<close>

fun ranges_within :: "nat \<Rightarrow> nat \<Rightarrow> (nat \<times> nat) list \<Rightarrow> bool" where
  "ranges_within c n [] \<longleftrightarrow> c \<le> n"
| "ranges_within c n ((s, e) # rs) \<longleftrightarrow> c \<le> s \<and> s \<le> e \<and> ranges_within e n rs"

lemma ranges_within_mono: "ranges_within c n rs \<Longrightarrow> c' \<le> c \<Longrightarrow> ranges_within c' n rs"
  by (cases rs) (auto intro: le_trans)

lemma ranges_within_le: "ranges_within c n rs \<Longrightarrow> c \<le> n"
  by (induction c n rs rule: ranges_within.induct) auto

lemma match_all_within: "c \<le> length s \<Longrightarrow> i \<le> length s \<Longrightarrow> c \<le> i \<Longrightarrow> ranges_within c (length s) (map (\<lambda>(a, st). (a, fst st)) (re_match_all_from k r s i))"
proof (induction k arbitrary: c i)
  case (Suc k)
  show ?case
  proof (cases "re_exec_from r s i")
    case (Some m)
    obtain a st where m: "m = (a, st)" by (cases m)
    with Some re_exec_from_bounds [of r s i a st] have b: "i \<le> a" "a \<le> fst st" "fst st \<le> length s" by simp_all
    show ?thesis
    proof (cases "fst st = a \<and> a = length s")
      case True
      then have "re_match_all_from k r s (Suc a) = []" by (cases k) (simp_all add: re_exec_from_def)
      with True Some m b Suc.prems show ?thesis by simp
    next
      case False
      with b have "ranges_within (fst st) (length s) (map (\<lambda>(a, st). (a, fst st)) (re_match_all_from k r s (if fst st = a then Suc a else fst st)))"
        by (intro Suc.IH) auto
      with Some m b Suc.prems show ?thesis by simp
    qed
  qed (use Suc.prems in simp)
qed simp

lemma ranges_within_filter: "ranges_within c n (map f xs) \<Longrightarrow> ranges_within c n (map f (filter P xs))"
proof (induction xs arbitrary: c)
  case (Cons x xs)
  then show ?case by (cases "f x") (auto intro: ranges_within_mono)
qed simp

lemma materialRanges_within: "ranges_within 0 (length t) (materialRanges t)"
  unfolding materialRanges_def re_match_all_def by (rule ranges_within_filter, rule match_all_within) auto

text \<open>Pieces outside ranges and the ranges between them make up the text.\<close>

fun weave :: "'a list list \<Rightarrow> 'a list list \<Rightarrow> 'a list" where
  "weave (a # as) (b # bs) = a @ b @ weave as bs"
| "weave as [] = concat as"
| "weave [] bs = concat bs"

fun outside :: "jstring \<Rightarrow> nat \<Rightarrow> (nat \<times> nat) list \<Rightarrow> jstring list" where
  "outside t offset [] = [drop offset t]"
| "outside t offset ((s, e) # rs) = js_slice t offset s # outside t e rs"

lemma weave_outside:
  "ranges_within c (length t) rs \<Longrightarrow> weave (outside t c rs) (map (\<lambda>(s, e). js_slice t s e) rs) = drop c t"
proof (induction c "length t" rs rule: ranges_within.induct)
  case (2 c s e rs)
  then show ?case by (simp add: js_slice_drop)
qed simp

lemma protected_outside: "protected_loop i t offset rs = concat (map (constraint_of i) (outside t offset rs))"
  by (induction i t offset rs rule: protected_loop.induct) auto

section \<open>Properties\<close>

text \<open>C32: The analysis cache stays within both of its bounds. Every lookup and every update keeps the number of
  entries and the total of the serialized sizes below the limits, with the byte counter equal to that
  total; a value that fits is found right after it is set, one that does not fit is not kept, and no
  other key changes its value.\<close>

theorem analysis_cache_bounded:
  assumes "layered_cache_ok c"
  shows "layered_cache_ok (snd (cache_get k c)) \<and> layered_cache_ok (cache_set k v c)
    \<and> fst (cache_get k (cache_set k v c)) = (if analysis_size v \<le> lcMaxBytes c then Some v else None)
    \<and> (k' \<noteq> k \<longrightarrow> fst (cache_get k' (cache_set k v c)) \<in> {None, fst (cache_get k' c)})"
  using cache_get_ok [OF assms] cache_set_ok [OF assms] cache_set_get [OF assms] cache_set_other [OF assms] by blast

definition demo_analysis :: analysis where
  "demo_analysis = \<lparr>anDigest = [], anTokens = 1, anObservations = [], anProtected = [], anEntries = []\<rparr>"

definition demo_cache :: layeredCache where
  "demo_cache = \<lparr>lcEntries = [(js ''a'', demo_analysis, analysis_size demo_analysis)], lcBytes = int (analysis_size demo_analysis),
     lcMaxEntries = 1, lcMaxBytes = analysis_size demo_analysis\<rparr>"

theorem analysis_cache_bounded_witness:
  "fst (cache_get (js ''b'') (cache_set (js ''b'') demo_analysis demo_cache)) = Some demo_analysis
    \<and> length (lcEntries (cache_set (js ''b'') demo_analysis demo_cache)) \<le> 1"
proof -
  have "layered_cache_ok demo_cache" by (simp add: layered_cache_ok_def demo_cache_def cache_sizes_def)
  from analysis_cache_bounded [OF this, where k = "js ''b''" and v = demo_analysis and k' = "js ''a''"]
  have "layered_cache_ok (cache_set (js ''b'') demo_analysis demo_cache)"
    "fst (cache_get (js ''b'') (cache_set (js ''b'') demo_analysis demo_cache)) = (if analysis_size demo_analysis \<le> lcMaxBytes demo_cache then Some demo_analysis else None)"
    by simp_all
  moreover have "lcMaxEntries (cache_set (js ''b'') demo_analysis demo_cache) = 1"
    by (simp add: cache_set_def Let_def demo_cache_def split: prod.split)
  ultimately show ?thesis by (simp add: layered_cache_ok_def demo_cache_def)
qed

text \<open>Clipping keeps to its budget. For a counter that never counts more for a shorter prefix, the result is
  the text itself when it fits, empty when not even the marker fits, and otherwise a prefix followed by
  the marker that fits and is at most one code unit shorter than the longest one that does; a prefix of
  well-formed text is well formed.\<close>

theorem clip_within_budget:
  assumes "\<forall>i j. i \<le> j \<longrightarrow> count (take i t @ EXCERPT_MARKER) \<le> count (take j t @ EXCERPT_MARKER)"
  shows "clip count t n = t \<and> count t \<le> n \<or> clip count t n = [] \<and> n \<le> count EXCERPT_MARKER
    \<or> (\<exists>k \<le> length t. clip count t n = take k t @ EXCERPT_MARKER \<and> count (take k t @ EXCERPT_MARKER) \<le> n
         \<and> (\<forall>j \<le> length t. Suc k < j \<longrightarrow> n < count (take j t @ EXCERPT_MARKER)) \<and> (well_formed t \<longrightarrow> well_formed (take k t)))"
proof (cases "count t \<le> n \<or> n \<le> count EXCERPT_MARKER")
  case False
  let ?ok = "\<lambda>m. count (take m t @ EXCERPT_MARKER) \<le> n"
  let ?r = "prefix_search ?ok 0 (length t)"
  let ?k = "back_off t 0 ?r"
  from prefix_search_spec [of 0 "length t" ?ok] have r: "?r \<le> length t" "?r = 0 \<or> ?ok ?r" "?r = length t \<or> \<not> ?ok (Suc ?r)" by simp_all
  have k: "?k \<le> ?r" "?r \<le> Suc ?k" using back_off_bounds [of 0 ?r t] by auto
  have "?ok ?r" using r(2) False by (cases "?r = 0") simp_all
  then have fit: "?ok ?k" using assms k(1) le_trans by blast
  have "n < count (take j t @ EXCERPT_MARKER)" if "j \<le> length t" "Suc ?k < j" for j
  proof -
    have "Suc ?r \<le> j" "?r \<noteq> length t" using that k by auto
    then show ?thesis using r(3) assms by (meson le_trans not_le)
  qed
  moreover have "well_formed (take ?k t)" if "well_formed t"
    using back_off_boundary [OF that r(1), of 0] well_formed_cut [OF that, of ?k] k(1) r(1) by (cases "?k = 0") auto
  ultimately show ?thesis using False fit k(1) r(1) by (intro disjI2 exI [of _ ?k]) (auto simp: clip_def)
qed (auto simp: clip_def)

theorem clip_within_budget_witness:
  "estimateTokens (clip estimateTokens (replicate 200 97) 20) \<le> 20 \<and> clip estimateTokens (replicate 200 97) 20 \<noteq> []"
proof -
  have mono: "\<forall>i j. i \<le> j \<longrightarrow> estimateTokens (take i t @ EXCERPT_MARKER) \<le> estimateTokens (take j t @ EXCERPT_MARKER)" for t
    by (auto simp: estimateTokens_def intro!: ceil_div4_mono)
  have "estimateTokens (replicate 200 97) = 50" "estimateTokens EXCERPT_MARKER = 11" "EXCERPT_MARKER \<noteq> []"
    by (simp_all add: estimateTokens_def ceil_div4_def EXCERPT_MARKER_def js_def)
  with clip_within_budget [OF mono, of "replicate 200 97" 20] show ?thesis by auto
qed

text \<open>C31: What a user wrote is never summarized. The text of a user splits into the material ranges and the
  pieces between them; every piece with visible text is protected memory under the id of the message, and
  every observation of that text replaces exactly one of the ranges.\<close>

theorem user_text_protected:
  assumes "mrole m = User" and "p < length (mparts m)" and "mparts m ! p = TextPart t"
  shows "\<exists>pieces. t = weave pieces (map (\<lambda>(s, e). js_slice t s e) (materialRanges t)) \<and> length pieces = Suc (length (materialRanges t))
      \<and> (\<forall>x\<in>set pieces. js_trim x \<noteq> [] \<longrightarrow> \<lparr>mkind = Constraints, mtext = x, msourceIds = [mid m]\<rparr> \<in> set (anProtected (analyze digest count nsKey m d)))
      \<and> (\<forall>ob\<in>set (anObservations (analyze digest count nsKey m d)). obPart ob = p
           \<longrightarrow> (\<exists>(s, e)\<in>set (materialRanges t). obKind ob = ObRange s e \<and> obDigest ob = textDigest digest (js_slice t s e)))"
proof (intro exI conjI ballI impI)
  let ?pieces = "outside t 0 (materialRanges t)"
  show "t = weave ?pieces (map (\<lambda>(s, e). js_slice t s e) (materialRanges t))"
    using weave_outside [OF materialRanges_within] by simp
  have "length (outside t c rs) = Suc (length rs)" for c rs by (induction t c rs rule: outside.induct) auto
  then show "length ?pieces = Suc (length (materialRanges t))" .
next
  fix x assume "x \<in> set (outside t 0 (materialRanges t))" "js_trim x \<noteq> []"
  then have "\<lparr>mkind = Constraints, mtext = x, msourceIds = [mid m]\<rparr> \<in> set (part_protected m (TextPart t))"
    using assms(1) by (auto simp: protected_outside constraint_of_def intro!: bexI [of _ x])
  moreover have "TextPart t \<in> set (mparts m)" using assms(2,3) nth_mem by metis
  ultimately show "\<lparr>mkind = Constraints, mtext = x, msourceIds = [mid m]\<rparr> \<in> set (anProtected (analyze digest count nsKey m d))"
    unfolding analyze_def Let_def by (simp del: part_protected.simps) blast
next
  fix ob assume "ob \<in> set (anObservations (analyze digest count nsKey m d))" "obPart ob = p"
  then obtain i where i: "i < length (mparts m)" "ob \<in> set (part_observations digest count nsKey (i, mparts m ! i))"
    by (auto simp: analyze_def Let_def set_zip)
  then have "obPart ob = i" by (cases "mparts m ! i") (auto simp: range_observation_def tool_observation_def Let_def split: if_splits)
  with i assms(3) \<open>obPart ob = p\<close> obtain r where "r \<in> set (materialRanges t)" "ob = range_observation digest count nsKey p t r" by auto
  then show "\<exists>(s, e)\<in>set (materialRanges t). obKind ob = ObRange s e \<and> obDigest ob = textDigest digest (js_slice t s e)"
    by (intro bexI [of _ r]) (auto simp: range_observation_def Let_def)
qed

theorem user_text_protected_witness:
  "\<lparr>mkind = Constraints, mtext = js ''fix it'', msourceIds = [js ''m'']\<rparr>
     \<in> set (anProtected (analyze (\<lambda>_. replicate 32 0) estimateTokens [] \<lparr>mid = js ''m'', mrole = User, mparts = [TextPart (js ''fix it'')],
           mprotected = None, marchive = None\<rparr> []))"
proof -
  have r: "materialRanges (js ''fix it'') = []" by code_simp
  have t: "js_trim (js ''fix it'') \<noteq> []" by code_simp
  have w: "weave pieces [] = js ''fix it'' \<Longrightarrow> length pieces = Suc 0 \<Longrightarrow> js ''fix it'' \<in> set pieces" for pieces
    by (cases pieces) auto
  show ?thesis
    using user_text_protected [of "\<lparr>mid = js ''m'', mrole = User, mparts = [TextPart (js ''fix it'')], mprotected = None, marchive = None\<rparr>" 0
        "js ''fix it''" "\<lambda>_. replicate 32 0" estimateTokens "[]" "[]"] t w by (auto simp: r)
qed

end
