(* ===== verification/Layered.thy ===== *)
theory Layered
  imports Layered_Analysis
begin

text \<open>
  The planner of \<open>packages/headroomd/src/layered.ts\<close>, \<open>buildLayeredPlan\<close>: scanning the messages, choosing
  candidates, restoring task state from stored nodes, grouping evidence into leaves, building the hierarchy,
  selecting memory under the budget, and the result. Candidates are objects with identity in the source;
  here maps keyed by a candidate are keyed by its position in the list of candidates. \<open>count\<close> is the token
  counter, \<open>cid\<close> its name, \<open>lower\<close> is \<open>toLowerCase\<close> and \<open>term_char\<close> the character class of search terms (letters and
  numbers of Unicode and a few marks). Option values are rationals, so the tests for non-finite numbers have
  no counterpart.
\<close>

section \<open>Options\<close>

record layeredOptions =
  loSpace :: nspace
  loWindow :: rat
  loTarget :: "rat option"
  loRetain :: "rat option"
  loMemoryMax :: "rat option"
  loMemoryRatio :: "rat option"
  loProtectedIds :: "jstring list option"
  loEpoch :: "jstring option"
  loNodes :: "layeredNode list option"

definition validateOptions :: "layeredOptions \<Rightarrow> (layeredError, unit) result" where
  "validateOptions opts =
     (if loWindow opts \<le> 0 then Inl InvalidWindow
      else if \<not> list_all (pred_option (\<lambda>v. 0 \<le> v)) [loTarget opts, loMemoryMax opts] then Inl InvalidBudget
      else if \<not> pred_option (\<lambda>n. is_safe_integer n \<and> 0 \<le> n) (loRetain opts) then Inl InvalidRetained
      else if \<not> pred_option (\<lambda>r. 0 \<le> r \<and> r \<le> 1) (loMemoryRatio opts) then Inl InvalidRatio
      else Inr ())"

definition plan_target :: "layeredOptions \<Rightarrow> int" where
  "plan_target opts = \<lfloor>case loTarget opts of Some t \<Rightarrow> t | None \<Rightarrow> fmul (loWindow opts) (rd (55 / 100))\<rfloor>"

definition namespace_key :: "layeredOptions \<Rightarrow> jstring" where
  "namespace_key opts = canonicalJSON (space_json (loSpace opts))"

section \<open>Scanning the messages\<close>

record scan =
  scAnalyses :: "analysis list"
  scStarts :: "nat list"
  scTurns :: "nat list"
  scProtected :: "memoryEntry list"
  scKeys :: "jstring list"
  scEvents :: "stateEvent list"
  scMessageEvents :: "stateEvent list list"
  scRaw :: nat
  scCache :: "layeredCache option"
  scHits :: nat
  scAnalyzed :: nat

definition entry_event :: "(byte list \<Rightarrow> byte list) \<Rightarrow> jstring \<Rightarrow> jstring \<Rightarrow> jstring \<Rightarrow> nat \<Rightarrow> stateEntry \<Rightarrow> stateEvent" where
  "entry_event digest nsKey i d order e =
     \<lparr>mkind = seKind e, mtext = seText e, msourceIds = [i],
      evId = textDigest digest (canonicalJSON (JArr [JStr nsKey, JStr d, num_json (sePart e), JStr (kind_string (seKind e))])),
      evDigests = [d], evOrder = order, evTool = seTool e, evInput = seInput e, evOutput = seOutput e, evStatus = seStatus e\<rparr>"

definition protect :: "memoryEntry \<Rightarrow> memoryEntry list \<times> jstring list \<Rightarrow> memoryEntry list \<times> jstring list" where
  "protect e st =
     (let key = canonicalJSON (JArr [JStr (mtext e), JArr (map JStr (msourceIds e))])
      in if key \<in> set (snd st) then st else (fst st @ [e], snd st @ [key]))"

definition cache_key :: "jstring \<Rightarrow> jstring \<Rightarrow> jstring \<Rightarrow> jstring" where
  "cache_key nsKey cid d = nsKey @ [0] @ LAYERED_POLICY_VERSION @ [0] @ cid @ [0] @ d"

text \<open>The analysis of a message, from the cache when it is there.\<close>

definition cached_analysis :: "(byte list \<Rightarrow> byte list) \<Rightarrow> (jstring \<Rightarrow> nat) \<Rightarrow> jstring \<Rightarrow> jstring \<Rightarrow> chatMessage \<Rightarrow> jstring \<Rightarrow> layeredCache option
    \<Rightarrow> analysis \<times> bool \<times> layeredCache option" where
  "cached_analysis digest count cid nsKey m d cache =
     (let key = cache_key nsKey cid d; fresh = analyze digest count nsKey m d
      in case cache of
           None \<Rightarrow> (fresh, False, None)
         | Some c \<Rightarrow>
             (case cache_get key c of
                (Some a, c') \<Rightarrow> (a, True, Some c')
              | (None, c') \<Rightarrow> (fresh, False, Some (cache_set key fresh c'))))"

definition scan_message :: "(byte list \<Rightarrow> byte list) \<Rightarrow> (jstring \<Rightarrow> nat) \<Rightarrow> jstring \<Rightarrow> jstring \<Rightarrow> nat \<times> chatMessage \<Rightarrow> scan \<Rightarrow> scan" where
  "scan_message digest count cid nsKey im st =
     (let i = fst im; m = snd im; d = contentDigest digest m;
          starts = (if i = 0 \<or> mrole m = User then scStarts st @ [i] else scStarts st)
      in case cached_analysis digest count cid nsKey m d (scCache st) of
           (a, hit, cache) \<Rightarrow>
             (let events = map (entry_event digest nsKey (mid m) d i) (anEntries a);
                  prot = fold protect (anProtected a) (scProtected st, scKeys st)
              in \<lparr>scAnalyses = scAnalyses st @ [a], scStarts = starts, scTurns = scTurns st @ [length starts - 1],
                  scProtected = fst prot, scKeys = snd prot, scEvents = scEvents st @ events, scMessageEvents = scMessageEvents st @ [events],
                  scRaw = scRaw st + anTokens a, scCache = cache, scHits = scHits st + of_bool hit, scAnalyzed = scAnalyzed st + of_bool (\<not> hit)\<rparr>))"

definition scan_start :: "layeredCache option \<Rightarrow> scan" where
  "scan_start cache = \<lparr>scAnalyses = [], scStarts = [], scTurns = [], scProtected = [], scKeys = [], scEvents = [], scMessageEvents = [],
     scRaw = 0, scCache = cache, scHits = 0, scAnalyzed = 0\<rparr>"

definition scan_messages :: "(byte list \<Rightarrow> byte list) \<Rightarrow> (jstring \<Rightarrow> nat) \<Rightarrow> jstring \<Rightarrow> jstring \<Rightarrow> chatMessage list \<Rightarrow> layeredCache option \<Rightarrow> scan" where
  "scan_messages digest count cid nsKey messages cache =
     fold (scan_message digest count cid nsKey) (zip [0 ..< length messages] messages) (scan_start cache)"

definition keep_turns :: "layeredOptions \<Rightarrow> nat" where
  "keep_turns opts = (case loRetain opts of Some n \<Rightarrow> nat \<lfloor>n\<rfloor> | None \<Rightarrow> DEFAULT_RETAIN_RECENT_TURNS planStrategy.Layered) + 1"

definition recent_start :: "layeredOptions \<Rightarrow> nat list \<Rightarrow> nat" where
  "recent_start opts starts = (let k = length starts - keep_turns opts in if k < length starts then starts ! k else 0)"

section \<open>Candidates\<close>

record candidate =
  cdOb :: observation
  cdMessage :: chatMessage
  cdIndex :: nat
  cdDigest :: jstring

definition minimum_replacement :: "observation \<Rightarrow> jstring" where
  "minimum_replacement ob = NODE_MARKER @ replicate 64 48 @ js '']'' @ (if obMemory ob = Failures then LF # obText ob else [])"

definition message_candidates :: "(jstring \<Rightarrow> nat) \<Rightarrow> jstring list \<Rightarrow> nat \<times> chatMessage \<times> analysis \<times> stateEvent list \<Rightarrow> candidate list" where
  "message_candidates count protectedIds row =
     (case row of (i, m, a, events) \<Rightarrow>
        if is_protected m \<or> mid m \<in> set protectedIds \<or> 64 < length events then []
        else map (\<lambda>ob. \<lparr>cdOb = ob, cdMessage = m, cdIndex = i, cdDigest = anDigest a\<rparr>)
               (filter (\<lambda>ob. count (minimum_replacement ob) < obTokens ob) (anObservations a)))"

definition plan_candidates :: "(jstring \<Rightarrow> nat) \<Rightarrow> layeredOptions \<Rightarrow> chatMessage list \<Rightarrow> scan \<Rightarrow> candidate list" where
  "plan_candidates count opts messages sc =
     concat (map (message_candidates count (case loProtectedIds opts of None \<Rightarrow> [] | Some ids \<Rightarrow> ids))
       (take (recent_start opts (scStarts sc)) (zip [0 ..< length messages] (zip messages (zip (scAnalyses sc) (scMessageEvents sc))))))"

text \<open>Candidates by the key of their observation, and the number of repeated ones.\<close>

definition key_step :: "nat \<times> candidate \<Rightarrow> (jstring, nat list) jmap \<times> nat \<Rightarrow> (jstring, nat list) jmap \<times> nat" where
  "key_step ic st =
     (let duplicates = get_or (fst st) (obKey (cdOb (snd ic))) []
      in (jmap_set (obKey (cdOb (snd ic))) (duplicates @ [fst ic]) (fst st), if duplicates \<noteq> [] then snd st + 1 else snd st))"

definition candidates_by_key :: "candidate list \<Rightarrow> (jstring, nat list) jmap \<times> nat" where
  "candidates_by_key cands = fold key_step (zip [0 ..< length cands] cands) ([], 0)"

section \<open>Stored nodes\<close>

definition available_nodes :: "(byte list \<Rightarrow> byte list) \<Rightarrow> layeredOptions \<Rightarrow> (jstring, layeredNode) jmap" where
  "available_nodes digest opts =
     fold (\<lambda>n. jmap_set (nId n) n)
       (filter (\<lambda>n. canonicalJSON (space_json (nSpace n)) = namespace_key opts \<and> validateIdentity digest n)
         (case loNodes opts of None \<Rightarrow> [] | Some ns \<Rightarrow> ns)) []"

record restore =
  rsSeen :: "jstring list"
  rsEvents :: "stateEvent list"
  rsIds :: "jstring list"

definition restore_event :: "stateEvent \<Rightarrow> restore \<Rightarrow> restore" where
  "restore_event e st = (if evId e \<in> set (rsIds st) then st else st\<lparr>rsEvents := rsEvents st @ [e], rsIds := rsIds st @ [evId e]\<rparr>)"

definition restore_events :: "layeredNode \<Rightarrow> restore \<Rightarrow> restore" where
  "restore_events n st =
     (if nLevel n = 0 \<and> nChildren n = []
      then fold restore_event (filter (event_bound (nRefs n)) (case nEvents n of None \<Rightarrow> [] | Some es \<Rightarrow> es)) st
      else st)"

text \<open>The recursion visits children before the ids that follow, so the calls that are left form a list.\<close>

lemma unseen_less:
  assumes "i \<notin> set seen" and "jmap_get available i = Some n"
  shows "card (dom (jmap_get available) - set (seen @ [i])) < card (dom (jmap_get available) - set seen)"
proof (rule psubset_card_mono)
  show "finite (dom (jmap_get available) - set seen)" by (simp add: finite_dom_map_of)
  show "dom (jmap_get available) - set (seen @ [i]) \<subset> dom (jmap_get available) - set seen" using assms by (auto simp: dom_def)
qed

lemma rsSeen_events [simp]: "rsSeen (restore_events n st) = rsSeen st"
proof -
  have "rsSeen (fold restore_event es st) = rsSeen st" for es
    by (induction es arbitrary: st) (auto simp: restore_event_def)
  then show ?thesis by (simp add: restore_events_def)
qed

function restore_state :: "(jstring, layeredNode) jmap \<Rightarrow> jstring list \<Rightarrow> restore \<Rightarrow> restore" where
  "restore_state available [] st = st"
| "restore_state available (i # ids) st =
     (if i \<in> set (rsSeen st) then restore_state available ids st
      else let st1 = st\<lparr>rsSeen := rsSeen st @ [i]\<rparr>
           in case jmap_get available i of
                None \<Rightarrow> restore_state available ids st1
              | Some n \<Rightarrow>
                  restore_state available
                    (filter (\<lambda>c. case jmap_get available c of None \<Rightarrow> False | Some child \<Rightarrow> nLevel child < nLevel n) (nChildren n) @ ids)
                    (restore_events n st1))"
  by pat_completeness auto
termination
proof (relation "inv_image (less_than <*lex*> less_than)
    (\<lambda>(available, ids, st). (card (dom (jmap_get available) - set (rsSeen st)), length ids))", goal_cases)
  case (3 available i ids st st1)
  then have "dom (jmap_get available) - set (rsSeen st1) = dom (jmap_get available) - set (rsSeen st)" by (auto simp: dom_def)
  then show ?case by simp
next
  case (4 available i ids st st1 n)
  then show ?case using unseen_less [of i "rsSeen st" available n] by simp
qed auto

record existing =
  exRestore :: restore
  exUsed :: "jstring list"
  exRoots :: "layeredNode list"

definition addExisting :: "(jstring, layeredNode) jmap \<Rightarrow> bool \<Rightarrow> jstring \<Rightarrow> existing \<Rightarrow> existing" where
  "addExisting available merge i st =
     (let st1 = st\<lparr>exRestore := restore_state available [i] (exRestore st)\<rparr>
      in if \<not> merge \<or> i \<in> set (exUsed st1) then st1
         else st1\<lparr>exUsed := exUsed st1 @ [i],
                  exRoots := exRoots st1 @ (case jmap_get available i of None \<Rightarrow> [] | Some n \<Rightarrow> [n])\<rparr>)"

definition NODE_RE :: re where
  "NODE_RE = rseq [rlit ''[headroom node:'', RGroup 1 (rtimes 64 (RSet False [(48, 57), (97, 102)])), rchr 93]"

fun part_view_text :: "part \<Rightarrow> jstring" where
  "part_view_text (TextPart t) = t"
| "part_view_text (ToolPart p) = or_empty (poutput p)"

definition node_refs :: "jstring \<Rightarrow> jstring list" where
  "node_refs t = map (\<lambda>(a, st). or_empty (group t st 1)) (re_match_all NODE_RE t)"

definition visible_nodes :: "chatMessage \<Rightarrow> jstring list" where
  "visible_nodes m = (case marchive m of None \<Rightarrow> [] | Some a \<Rightarrow> (case anodeIds a of None \<Rightarrow> [] | Some ids \<Rightarrow> ids))
     @ concat (map (\<lambda>p. node_refs (part_view_text p)) (mparts m))"

definition restore_view :: "(jstring, layeredNode) jmap \<Rightarrow> nat \<Rightarrow> chatMessage list \<Rightarrow> stateEvent list \<Rightarrow> existing" where
  "restore_view available recentStart messages events =
     fold (\<lambda>(index, m) st. fold (addExisting available (index < recentStart)) (visible_nodes m) st) (zip [0 ..< length messages] messages)
       \<lparr>exRestore = \<lparr>rsSeen = [], rsEvents = events, rsIds = map evId events\<rparr>, exUsed = [], exRoots = []\<rparr>"

definition sort_events :: "stateEvent list \<Rightarrow> stateEvent list" where
  "sort_events es = sort_key (\<lambda>e. (evOrder e, evId e)) es"

section \<open>Leaves\<close>

record piece =
  pcCand :: nat
  pcSpan :: "(nat \<times> nat) option"
  pcTokens :: nat

record leafState =
  lsGroup :: "piece list"
  lsTokens :: nat
  lsEvents :: "(jstring, stateEvent) jmap"
  lsNodes :: "layeredNode list"
  lsIds :: "(nat, jstring list) jmap"

definition piece_span :: "candidate list \<Rightarrow> piece \<Rightarrow> (nat \<times> nat) option" where
  "piece_span cands p =
     (case pcSpan p of
        Some sp \<Rightarrow> Some sp
      | None \<Rightarrow> (case obKind (cdOb (cands ! pcCand p)) of ObRange s e \<Rightarrow> Some (s, e) | ObTool \<Rightarrow> None))"

definition piece_ref :: "candidate list \<Rightarrow> piece \<Rightarrow> sourceRef" where
  "piece_ref cands p =
     (let c = cands ! pcCand p
      in \<lparr>srMessage = mid (cdMessage c), srHash = cdDigest c, srPart = Some (obPart (cdOb c)), srStart = map_option fst (piece_span cands p),
          srEnd = map_option snd (piece_span cands p), srHistory = map_option ahistoryHash (marchive (cdMessage c)), srNode = None\<rparr>)"

definition leaf_text :: "(jstring \<Rightarrow> nat) \<Rightarrow> candidate list \<Rightarrow> piece list \<Rightarrow> jstring" where
  "leaf_text count cands ps =
     clip count (join_with [LF] (set_union [] (map (\<lambda>p. obText (cdOb (cands ! pcCand p))) ps))) LEAF_SUMMARY_TOKENS"

definition leaf_node :: "(byte list \<Rightarrow> byte list) \<Rightarrow> (jstring \<Rightarrow> nat) \<Rightarrow> nspace \<Rightarrow> candidate list \<Rightarrow> leafState \<Rightarrow> layeredNode" where
  "leaf_node digest count ns cands st =
     (let t = leaf_text count cands (lsGroup st)
      in makeNode digest \<lparr>nId = [], nSpace = ns, nLevel = 0, nChildren = [], nRefs = map (piece_ref cands) (lsGroup st),
           nEvents = Some (map snd (lsEvents st)), nPolicy = LAYERED_POLICY_VERSION, nText = t, nTokens = count t, nSourceTokens = lsTokens st\<rparr>)"

definition note_leaf :: "jstring \<Rightarrow> piece \<Rightarrow> (nat, jstring list) jmap \<Rightarrow> (nat, jstring list) jmap" where
  "note_leaf i p ids =
     (let known = get_or ids (pcCand p) []
      in jmap_set (pcCand p) (if known \<noteq> [] \<and> last known = i then known else known @ [i]) ids)"

definition flush :: "(byte list \<Rightarrow> byte list) \<Rightarrow> (jstring \<Rightarrow> nat) \<Rightarrow> nspace \<Rightarrow> candidate list \<Rightarrow> leafState \<Rightarrow> leafState" where
  "flush digest count ns cands st =
     (if lsGroup st = [] then st
      else let n = leaf_node digest count ns cands st
           in \<lparr>lsGroup = [], lsTokens = 0, lsEvents = [], lsNodes = lsNodes st @ [n], lsIds = fold (note_leaf (nId n)) (lsGroup st) (lsIds st)\<rparr>)"

definition add_events :: "stateEvent list \<Rightarrow> (jstring, stateEvent) jmap \<Rightarrow> (jstring, stateEvent) jmap" where
  "add_events es m = fold (\<lambda>e. jmap_set (evId e) e) es m"

definition push_piece :: "stateEvent list \<Rightarrow> piece \<Rightarrow> leafState \<Rightarrow> leafState" where
  "push_piece es p st = st\<lparr>lsEvents := add_events es (lsEvents st), lsGroup := lsGroup st @ [p], lsTokens := lsTokens st + pcTokens p\<rparr>"

definition addPiece :: "(byte list \<Rightarrow> byte list) \<Rightarrow> (jstring \<Rightarrow> nat) \<Rightarrow> nspace \<Rightarrow> candidate list \<Rightarrow> stateEvent list list \<Rightarrow> piece \<Rightarrow> leafState \<Rightarrow> leafState" where
  "addPiece digest count ns cands messageEvents p st =
     (let es = messageEvents ! cdIndex (cands ! pcCand p);
          extra = filter (\<lambda>e. evId e \<notin> set (jmap_keys (lsEvents st))) es;
          st1 = (if lsGroup st \<noteq> [] \<and> (LEAF_SOURCE_TOKENS < lsTokens st + pcTokens p \<or> 64 < length (lsEvents st) + length extra)
                 then flush digest count ns cands st else st);
          st2 = push_piece es p st1
      in if LEAF_SOURCE_TOKENS \<le> lsTokens st2 then flush digest count ns cands st2 else st2)"

text \<open>The end of the piece of a source that starts at \<open>offset\<close>.\<close>

definition piece_end :: "(jstring \<Rightarrow> nat) \<Rightarrow> jstring \<Rightarrow> nat \<Rightarrow> nat" where
  "piece_end count source offset =
     (let stop = min (length source) (offset + LEAF_SOURCE_TOKENS * 4)
      in back_off source offset
           (if LEAF_SOURCE_TOKENS < count (js_slice source offset stop)
            then prefix_search (\<lambda>m. count (js_slice source offset m) \<le> LEAF_SOURCE_TOKENS) offset stop else stop))"

function split_source :: "(jstring \<Rightarrow> nat) \<Rightarrow> jstring \<Rightarrow> nat \<Rightarrow> (layeredError, (nat \<times> nat) list) result" where
  "split_source count source offset =
     (if offset < length source
      then let stop = piece_end count source offset
           in if stop \<le> offset then Inl SourceCharacter
              else map_sum id (\<lambda>spans. (offset, stop) # spans) (split_source count source stop)
      else Inr [])"
  by pat_completeness auto
termination
  by (relation "measure (\<lambda>(count, source, offset). length source - offset)") auto

declare split_source.simps [simp del]

definition candidate_source :: "candidate \<Rightarrow> jstring" where
  "candidate_source c =
     (case mparts (cdMessage c) ! obPart (cdOb c) of
        ToolPart p \<Rightarrow> or_empty (poutput p)
      | TextPart t \<Rightarrow> (case obKind (cdOb c) of ObRange s e \<Rightarrow> js_slice t s e | ObTool \<Rightarrow> t))"

definition base_offset :: "candidate \<Rightarrow> nat" where
  "base_offset c = (case obKind (cdOb c) of ObRange s e \<Rightarrow> s | ObTool \<Rightarrow> 0)"

definition candidate_pieces :: "(jstring \<Rightarrow> nat) \<Rightarrow> nat \<times> candidate \<Rightarrow> (layeredError, piece list) result" where
  "candidate_pieces count ic =
     (let i = fst ic; c = snd ic; source = candidate_source c
      in if obTokens (cdOb c) \<le> LEAF_SOURCE_TOKENS then Inr [\<lparr>pcCand = i, pcSpan = None, pcTokens = obTokens (cdOb c)\<rparr>]
         else map_sum id (map (\<lambda>(s, e). \<lparr>pcCand = i, pcSpan = Some (base_offset c + s, base_offset c + e), pcTokens = count (js_slice source s e)\<rparr>))
                (split_source count source 0))"

fun all_pieces :: "(jstring \<Rightarrow> nat) \<Rightarrow> (nat \<times> candidate) list \<Rightarrow> (layeredError, piece list) result" where
  "all_pieces count [] = Inr []"
| "all_pieces count (ic # ics) =
     (case candidate_pieces count ic of
        Inl e \<Rightarrow> Inl e
      | Inr ps \<Rightarrow> map_sum id (\<lambda>qs. ps @ qs) (all_pieces count ics))"

definition leaf_start :: leafState where
  "leaf_start = \<lparr>lsGroup = [], lsTokens = 0, lsEvents = [], lsNodes = [], lsIds = []\<rparr>"

definition build_leaves :: "(byte list \<Rightarrow> byte list) \<Rightarrow> (jstring \<Rightarrow> nat) \<Rightarrow> nspace \<Rightarrow> candidate list \<Rightarrow> stateEvent list list \<Rightarrow> (layeredError, leafState) result" where
  "build_leaves digest count ns cands messageEvents =
     map_sum id (\<lambda>ps. flush digest count ns cands (fold (addPiece digest count ns cands messageEvents) ps leaf_start))
       (all_pieces count (zip [0 ..< length cands] cands))"

definition candidate_replacement :: "candidate \<Rightarrow> jstring list \<Rightarrow> jstring" where
  "candidate_replacement c ids =
     join_with [LF] (map (\<lambda>i. NODE_MARKER @ i @ js '']'') ids) @ (if obMemory (cdOb c) = Failures then LF # obText (cdOb c) else [])"

section \<open>The hierarchy\<close>

record mergeState =
  mgNext :: "layeredNode list"
  mgNodes :: "layeredNode list"
  mgParents :: nat
  mgMerged :: bool

definition parent_node :: "(byte list \<Rightarrow> byte list) \<Rightarrow> (jstring \<Rightarrow> nat) \<Rightarrow> nspace \<Rightarrow> layeredNode list \<Rightarrow> layeredNode" where
  "parent_node digest count ns ns4 =
     (let t = clip count (join_with [LF] (map nText ns4)) PARENT_SUMMARY_TOKENS
      in makeNode digest \<lparr>nId = [], nSpace = ns, nLevel = nLevel (hd ns4) + 1, nChildren = map nId ns4, nRefs = [], nEvents = None,
           nPolicy = LAYERED_POLICY_VERSION, nText = t, nTokens = count t, nSourceTokens = sum_list (map nSourceTokens ns4)\<rparr>)"

definition mergeable :: "layeredNode list \<Rightarrow> bool" where
  "mergeable ns4 \<longleftrightarrow> length ns4 = 4 \<and> list_all (\<lambda>n. nLevel n = nLevel (hd ns4)) ns4"

definition add_parent :: "(jstring, layeredNode) jmap \<Rightarrow> layeredNode \<Rightarrow> mergeState \<Rightarrow> mergeState" where
  "add_parent available parent st =
     (let st1 = st\<lparr>mgNext := mgNext st @ [parent], mgMerged := True\<rparr>
      in if jmap_get available (nId parent) = None then st1\<lparr>mgNodes := mgNodes st @ [parent], mgParents := mgParents st + 1\<rparr> else st1)"

function merge_pass :: "(byte list \<Rightarrow> byte list) \<Rightarrow> (jstring \<Rightarrow> nat) \<Rightarrow> nspace \<Rightarrow> (jstring, layeredNode) jmap \<Rightarrow> layeredNode list \<Rightarrow> mergeState \<Rightarrow> mergeState" where
  "merge_pass digest count ns available [] st = st"
| "merge_pass digest count ns available (n # ns') st =
     (if mergeable (take 4 (n # ns'))
      then merge_pass digest count ns available (drop 4 (n # ns')) (add_parent available (parent_node digest count ns (take 4 (n # ns'))) st)
      else merge_pass digest count ns available ns' (st\<lparr>mgNext := mgNext st @ [n]\<rparr>))"
  by pat_completeness auto
termination
  by (relation "measure (\<lambda>(digest, count, ns, available, frontier, st). length frontier)") auto

lemma merge_pass_length:
  "length (mgNext (merge_pass digest count ns available frontier st)) \<le> length (mgNext st) + length frontier
    \<and> (mgMerged (merge_pass digest count ns available frontier st) \<longrightarrow> mgMerged st
         \<or> length (mgNext (merge_pass digest count ns available frontier st)) < length (mgNext st) + length frontier)"
proof (induction digest count ns available frontier st rule: merge_pass.induct)
  case (2 digest count ns available n ns' st)
  show ?case
  proof (cases "mergeable (take 4 (n # ns'))")
    case True
    then have "4 \<le> length (n # ns')" by (auto simp: mergeable_def)
    with 2(1) [OF True] True show ?thesis by (auto simp: add_parent_def Let_def)
  qed (use 2(2) in auto)
qed simp

function hierarchy :: "(byte list \<Rightarrow> byte list) \<Rightarrow> (jstring \<Rightarrow> nat) \<Rightarrow> nspace \<Rightarrow> (jstring, layeredNode) jmap \<Rightarrow> layeredNode list \<Rightarrow> layeredNode list \<Rightarrow> nat
    \<Rightarrow> layeredNode list \<times> nat" where
  "hierarchy digest count ns available frontier nodes parents =
     (if length frontier < 4 then (nodes, parents)
      else let st = merge_pass digest count ns available frontier \<lparr>mgNext = [], mgNodes = nodes, mgParents = parents, mgMerged = False\<rparr>
           in if \<not> mgMerged st then (mgNodes st, mgParents st)
              else hierarchy digest count ns available (mgNext st) (mgNodes st) (mgParents st))"
  by pat_completeness auto
termination
proof (relation "measure (\<lambda>(digest, count, ns, available, frontier, nodes, parents). length frontier)", goal_cases)
  case (2 digest count ns available frontier nodes parents st)
  then show ?case using merge_pass_length [of digest count ns available frontier
    "\<lparr>mgNext = [], mgNodes = nodes, mgParents = parents, mgMerged = False\<rparr>"] by simp
qed simp

declare hierarchy.simps [simp del]

section \<open>Operations of the plan\<close>

definition ob_span_json :: "obKind \<Rightarrow> json list" where
  "ob_span_json k = (case k of ObRange s e \<Rightarrow> [num_json s, num_json e] | ObTool \<Rightarrow> [JStr (js ''undefined''), JStr (js ''undefined'')])"

definition ob_kind_string :: "obKind \<Rightarrow> jstring" where
  "ob_kind_string k = (case k of ObRange s e \<Rightarrow> js ''text-range'' | ObTool \<Rightarrow> js ''tool-output'')"

definition operation_id :: "(byte list \<Rightarrow> byte list) \<Rightarrow> candidate \<Rightarrow> jstring \<Rightarrow> jstring" where
  "operation_id digest c node =
     textDigest digest (canonicalJSON (JArr ([JStr LAYERED_POLICY_VERSION, JStr (mid (cdMessage c)), JStr (cdDigest c),
       JStr (ob_kind_string (obKind (cdOb c))), num_json (obPart (cdOb c))] @ ob_span_json (obKind (cdOb c)) @ [JStr node])))"

text \<open>A candidate, the id of its first leaf, and the text that takes its place.\<close>

definition operation :: "(byte list \<Rightarrow> byte list) \<Rightarrow> candidate \<Rightarrow> jstring \<Rightarrow> jstring \<Rightarrow> viewOperation" where
  "operation digest c node replacement =
     (let i = operation_id digest c node; ob = cdOb c
      in case obKind ob of
           ObTool \<Rightarrow> ToolOutputOp i 1 node (mid (cdMessage c)) (cdDigest c) (int (obPart ob)) (obDigest ob) replacement
         | ObRange s e \<Rightarrow> TextRangeOp i 1 node (mid (cdMessage c)) (cdDigest c) (int (obPart ob)) (int s) (int e) (obDigest ob) replacement)"

definition plan_operations :: "(byte list \<Rightarrow> byte list) \<Rightarrow> candidate list \<Rightarrow> (nat, jstring list) jmap \<Rightarrow> (nat, jstring) jmap \<Rightarrow> viewOperation list" where
  "plan_operations digest cands ids tails =
     map (\<lambda>(i, c). operation digest c (hd (get_or ids i [])) (candidate_replacement c (get_or ids i []) @ get_or tails i []))
       (zip [0 ..< length cands] cands)"

definition source_end :: "chatMessage list \<Rightarrow> nat" where
  "source_end messages =
     (case filter (\<lambda>i. mrole (messages ! i) = User) [0 ..< length messages] of [] \<Rightarrow> length messages | is \<Rightarrow> last is + 1)"

definition plan_snapshot :: "chatMessage list \<Rightarrow> analysis list \<Rightarrow> sourceSnapshot" where
  "plan_snapshot messages analyses =
     \<lparr>snapIds = map mid (take (source_end messages) messages), snapDigests = map anDigest (take (source_end messages) analyses)\<rparr>"

definition view_tokens :: "(jstring \<Rightarrow> nat) \<Rightarrow> chatMessage list \<Rightarrow> nat" where
  "view_tokens count ms = sum_list (map (layeredMessageTokens count) ms)"

definition materialize_plan :: "(byte list \<Rightarrow> byte list) \<Rightarrow> chatMessage list \<Rightarrow> viewOperation list \<Rightarrow> sourceSnapshot \<Rightarrow> materialized" where
  "materialize_plan digest messages ops snap =
     (if ops \<noteq> [] then materializeOperations digest messages ops (Some snap) else (Applied, messages))"

section \<open>The budget and the memory\<close>

record layeredBudget =
  bdAvailable :: rat
  bdTarget :: int
  bdProtected :: nat
  bdRecent :: nat
  bdWrapper :: nat
  bdHistory :: rat
  bdMemory :: nat
  bdReasons :: "jstring list"

definition history_budget :: "layeredOptions \<Rightarrow> nat \<Rightarrow> nat \<Rightarrow> nat \<Rightarrow> rat" where
  "history_budget opts protectedTokens recentTokens wrapperTokens =
     max 0 (min 4096 (min (case loMemoryMax opts of Some n \<Rightarrow> n | None \<Rightarrow> 4096)
       (min (of_int \<lfloor>fmul (loWindow opts) (case loMemoryRatio opts of Some r \<Rightarrow> r | None \<Rightarrow> rd (15 / 100))\<rfloor>)
          (of_int (min (plan_target opts) \<lfloor>fmul (loWindow opts) (rd (55 / 100))\<rfloor> - int protectedTokens - int recentTokens - int wrapperTokens)))))"

definition latest_request :: "chatMessage list \<Rightarrow> jstring" where
  "latest_request messages =
     (case filter (\<lambda>m. mrole m = User) messages of
        [] \<Rightarrow> []
      | users \<Rightarrow> join_with (js '' '') (List.map_filter text_of (mparts (last users))))"

text \<open>Maximal runs of term characters, by code point.\<close>

fun term_runs :: "(jstring \<Rightarrow> bool) \<Rightarrow> jstring list \<Rightarrow> jstring list \<Rightarrow> jstring list list" where
  "term_runs P acc [] = (if acc = [] then [] else [acc])"
| "term_runs P acc (c # cs) = (if P c then term_runs P (acc @ [c]) cs else (if acc = [] then [] else [acc]) @ term_runs P [] cs)"

definition request_terms :: "(jstring \<Rightarrow> jstring) \<Rightarrow> (jstring \<Rightarrow> bool) \<Rightarrow> chatMessage list \<Rightarrow> jstring list" where
  "request_terms lower term_char messages =
     set_union [] (take 128 (map concat (filter (\<lambda>r. 3 \<le> length r) (term_runs term_char [] (code_points (lower (latest_request messages)))))))"

record uniqueEntry =
  uqFirst :: nat
  uqValues :: "nat list"
  uqRelevance :: nat

definition unique_entries :: "(jstring \<Rightarrow> jstring) \<Rightarrow> jstring list \<Rightarrow> candidate list \<Rightarrow> (jstring, nat list) jmap \<Rightarrow> uniqueEntry list" where
  "unique_entries lower terms cands byKey =
     map (\<lambda>(k, values). \<lparr>uqFirst = hd values, uqValues = values,
        uqRelevance = length (filter (\<lambda>t. index_of (lower (obText (cdOb (cands ! hd values)))) t 0 \<noteq> None) terms)\<rparr>) byKey"

definition priority :: "candidate list \<Rightarrow> uniqueEntry \<Rightarrow> nat" where
  "priority cands u =
     (let kind = obMemory (cdOb (cands ! uqFirst u))
      in if kind = Failures \<or> kind = Open then 0 else if kind = Changes then 1 else if 0 < uqRelevance u then 2 else 3)"

definition sort_unique :: "candidate list \<Rightarrow> uniqueEntry list \<Rightarrow> uniqueEntry list" where
  "sort_unique cands us =
     sort_key (\<lambda>u. (priority cands u, - int (uqRelevance u), - int (cdIndex (cands ! last (uqValues u))), obKey (cdOb (cands ! uqFirst u)))) us"

record memoryState =
  msMemory :: "memoryEntry list"
  msSuffixes :: "(nat, jstring) jmap"
  msTokens :: nat

definition memory_suffix :: "candidate \<Rightarrow> jstring" where
  "memory_suffix c = (if obMemory (cdOb c) = Failures then [] else LF # obText (cdOb c))"

definition select_entry :: "(jstring \<Rightarrow> nat) \<Rightarrow> candidate list \<Rightarrow> (nat, jstring list) jmap \<Rightarrow> rat \<Rightarrow> uniqueEntry \<Rightarrow> memoryState \<Rightarrow> memoryState" where
  "select_entry count cands ids budget u st =
     (let c = cands ! uqFirst u; tail_text = memory_suffix c; cost = count tail_text
      in if budget < of_nat (msTokens st + cost) \<or> obTokens (cdOb c) \<le> count (candidate_replacement c (get_or ids (uqFirst u) []) @ tail_text) then st
         else \<lparr>msMemory = msMemory st @ [\<lparr>mkind = obMemory (cdOb c), mtext = obText (cdOb c),
                 msourceIds = set_union [] (map (\<lambda>v. mid (cdMessage (cands ! v))) (uqValues u))\<rparr>],
               msSuffixes = jmap_set (uqFirst u) tail_text (msSuffixes st), msTokens = msTokens st + cost\<rparr>)"

definition select_memory :: "(jstring \<Rightarrow> nat) \<Rightarrow> candidate list \<Rightarrow> (nat, jstring list) jmap \<Rightarrow> rat \<Rightarrow> uniqueEntry list \<Rightarrow> memoryState" where
  "select_memory count cands ids budget us = fold (select_entry count cands ids budget) us \<lparr>msMemory = [], msSuffixes = [], msTokens = 0\<rparr>"

section \<open>The plan\<close>

record layeredMetrics =
  meScanned :: nat
  meAnalyzed :: nat
  meHits :: nat
  meCandidates :: nat
  meSelected :: nat
  meDeduplicated :: nat
  meOperations :: nat
  meLeaves :: nat
  meParents :: nat
  meCounter :: jstring

record layeredPlan = headroomResult +
  lpNodes :: "layeredNode list"
  lpProtected :: "memoryEntry list"
  lpBudget :: layeredBudget
  lpMetrics :: layeredMetrics
  lpEvents :: "stateEvent list"
  lpRequestIds :: "jstring list"

text \<open>What the first phases compute: the scan, the start of the retained turns, the candidates, the restored
  view, the leaves and the nodes of the hierarchy.\<close>

record planParts =
  ppScan :: scan
  ppRecent :: nat
  ppCands :: "candidate list"
  ppByKey :: "(jstring, nat list) jmap"
  ppRepeated :: nat
  ppExisting :: existing
  ppLeaves :: leafState
  ppNodes :: "layeredNode list"
  ppParents :: nat

definition plan_parts :: "(byte list \<Rightarrow> byte list) \<Rightarrow> (jstring \<Rightarrow> nat) \<Rightarrow> jstring \<Rightarrow> chatMessage list \<Rightarrow> layeredOptions \<Rightarrow> layeredCache option
    \<Rightarrow> (layeredError, planParts) result" where
  "plan_parts digest count cid messages opts cache =
     (let sc = scan_messages digest count cid (namespace_key opts) messages cache;
          recent = recent_start opts (scStarts sc);
          cands = plan_candidates count opts messages sc;
          keyed = candidates_by_key cands;
          available = available_nodes digest opts;
          ex = restore_view available recent messages (scEvents sc)
      in case build_leaves digest count (loSpace opts) cands (scMessageEvents sc) of
           Inl e \<Rightarrow> Inl e
         | Inr leaves \<Rightarrow>
             (case (if plan_target opts < int (scRaw sc)
                    then hierarchy digest count (loSpace opts) available (exRoots ex @ lsNodes leaves) (lsNodes leaves) 0 else (lsNodes leaves, 0)) of
                (nodes, parents) \<Rightarrow>
                  Inr \<lparr>ppScan = sc, ppRecent = recent, ppCands = cands, ppByKey = fst keyed, ppRepeated = snd keyed, ppExisting = ex,
                       ppLeaves = leaves, ppNodes = nodes, ppParents = parents\<rparr>))"

definition snapshot_json :: "sourceSnapshot \<Rightarrow> json" where
  "snapshot_json s = JObj [(js ''messageIds'', JArr (map JStr (snapIds s))), (js ''sourceDigests'', JArr (map JStr (snapDigests s)))]"

fun operation_json :: "viewOperation \<Rightarrow> json" where
  "operation_json (RangeOp i v n ids ds r) =
     JObj [(js ''operationId'', JStr i), (js ''sourceVersion'', JNum (of_int v)), (js ''nodeId'', JStr n), (js ''kind'', JStr (js ''range'')),
           (js ''messageIds'', JArr (map JStr ids)), (js ''sourceDigests'', JArr (map JStr ds)), (js ''replacement'', message_json r)]"
| "operation_json (ToolOutputOp i v n m d p od r) =
     JObj [(js ''operationId'', JStr i), (js ''sourceVersion'', JNum (of_int v)), (js ''nodeId'', JStr n), (js ''messageId'', JStr m),
           (js ''sourceDigest'', JStr d), (js ''partIndex'', JNum (of_int p)), (js ''replacement'', JStr r), (js ''kind'', JStr (js ''tool-output'')),
           (js ''outputDigest'', JStr od)]"
| "operation_json (TextRangeOp i v n m d p s e td r) =
     JObj [(js ''operationId'', JStr i), (js ''sourceVersion'', JNum (of_int v)), (js ''nodeId'', JStr n), (js ''messageId'', JStr m),
           (js ''sourceDigest'', JStr d), (js ''partIndex'', JNum (of_int p)), (js ''replacement'', JStr r), (js ''kind'', JStr (js ''text-range'')),
           (js ''start'', JNum (of_int s)), (js ''end'', JNum (of_int e)), (js ''textDigest'', JStr td)]"

definition plan_hash :: "(byte list \<Rightarrow> byte list) \<Rightarrow> nspace \<Rightarrow> sourceSnapshot \<Rightarrow> viewOperation list \<Rightarrow> jstring" where
  "plan_hash digest ns snap ops =
     textDigest digest (canonicalJSON (JArr [JStr LAYERED_POLICY_VERSION, space_json ns, snapshot_json snap, JArr (map operation_json ops)]))"

definition plan_budget :: "(byte list \<Rightarrow> byte list) \<Rightarrow> (jstring \<Rightarrow> nat) \<Rightarrow> chatMessage list \<Rightarrow> layeredOptions \<Rightarrow> planParts \<Rightarrow> layeredBudget" where
  "plan_budget digest count messages opts pp =
     (let cands = ppCands pp; ids = lsIds (ppLeaves pp); target = plan_target opts;
          recentTokens = sum_list (map anTokens (drop (ppRecent pp) (scAnalyses (ppScan pp))));
          baseline = snd (materialize_plan digest messages (plan_operations digest cands ids []) (plan_snapshot messages (scAnalyses (ppScan pp))));
          wrapperTokens = sum_list (map (\<lambda>(i, c). count (candidate_replacement c (get_or ids i []))) (zip [0 ..< length cands] cands));
          protectedTokens = view_tokens count baseline - recentTokens - wrapperTokens
      in \<lparr>bdAvailable = loWindow opts, bdTarget = target, bdProtected = protectedTokens, bdRecent = recentTokens, bdWrapper = wrapperTokens,
          bdHistory = history_budget opts protectedTokens recentTokens wrapperTokens, bdMemory = 0,
          bdReasons = (if target < int protectedTokens then [js ''protected-content-exceeds-target''] else [])
            @ (if target < int (protectedTokens + recentTokens) then [js ''protected-and-recent-content-exceeds-target''] else [])\<rparr>)"

definition plan_memory :: "(jstring \<Rightarrow> nat) \<Rightarrow> (jstring \<Rightarrow> jstring) \<Rightarrow> (jstring \<Rightarrow> bool) \<Rightarrow> chatMessage list \<Rightarrow> layeredBudget \<Rightarrow> planParts \<Rightarrow> memoryState" where
  "plan_memory count lower term_char messages budget pp =
     select_memory count (ppCands pp) (lsIds (ppLeaves pp)) (bdHistory budget)
       (sort_unique (ppCands pp) (unique_entries lower (request_terms lower term_char messages) (ppCands pp) (ppByKey pp)))"

definition affected_rows :: "planParts \<Rightarrow> chatMessage list \<Rightarrow> (nat \<times> chatMessage \<times> analysis) list" where
  "affected_rows pp messages =
     filter (\<lambda>(i, m, a). i \<in> cdIndex ` set (ppCands pp)) (zip [0 ..< length messages] (zip messages (scAnalyses (ppScan pp))))"

definition plan_reasons :: "bool \<Rightarrow> bool \<Rightarrow> int \<Rightarrow> int \<Rightarrow> jstring list" where
  "plan_reasons compacted someCandidate final target =
     (if compacted then [] else [if someCandidate then js ''nonpositive-gain-or-invalid-snapshot'' else js ''no-safe-positive-gain-candidates''])
     @ (if target < final then [js ''target-not-reached''] else [])"

definition plan_outcome :: "(byte list \<Rightarrow> byte list) \<Rightarrow> (jstring \<Rightarrow> nat) \<Rightarrow> (jstring \<Rightarrow> jstring) \<Rightarrow> (jstring \<Rightarrow> bool) \<Rightarrow> jstring \<Rightarrow> chatMessage list \<Rightarrow> layeredOptions
    \<Rightarrow> planParts \<Rightarrow> layeredPlan" where
  "plan_outcome digest count lower term_char cid messages opts pp =
     (let sc = ppScan pp; cands = ppCands pp; raw = int (scRaw sc); target = plan_target opts;
          snap = plan_snapshot messages (scAnalyses sc);
          budget = plan_budget digest count messages opts pp;
          chosen = plan_memory count lower term_char messages budget pp;
          ops = plan_operations digest cands (lsIds (ppLeaves pp)) (msSuffixes chosen);
          applied = materialize_plan digest messages ops snap;
          final = int (view_tokens count (snd applied));
          compacted = (fst applied = Applied \<and> ops \<noteq> [] \<and> final < raw);
          memory = (if compacted then msMemory chosen else []);
          rows = affected_rows pp messages;
          evicted = int (sum_list (map (\<lambda>(i, m, a). anTokens a) rows));
          refs = map (\<lambda>(i, m, a). \<lparr>refHash = anDigest a, refRole = mrole m, refTurn = scTurns sc ! i\<rparr>) rows;
          summary = join_with [LF] (map mtext memory)
      in \<lparr>hrCompacted = compacted, hrBudgetExceeded = Some (target < (if compacted then final else raw)),
          hrHistoryHash = (if compacted then Some (plan_hash digest (loSpace opts) snap ops) else None),
          hrSummary = (if compacted then Some summary else None), hrRefs = (if compacted then refs else []),
          hrReplacedIds = (if compacted then map (\<lambda>(i, m, a). mid m) rows else []),
          hrDigests = Some (if compacted then map refHash refs else []), hrMemory = Some memory, hrEpoch = loEpoch opts,
          hrOperations = Some (if compacted then ops else []), hrSnapshot = Some snap, hrRaw = raw,
          hrSummaryTokens = (if compacted then int (count summary) else 0), hrSource = raw, hrEvicted = (if compacted then evicted else 0),
          hrRetained = (if compacted then raw - evicted else raw), hrReplacement = (if compacted then final - (raw - evicted) else 0),
          hrFinal = (if compacted then final else raw), hrFreed = (if compacted then raw - final else 0),
          lpNodes = (if compacted then ppNodes pp else []), lpProtected = scProtected sc,
          lpBudget = budget\<lparr>bdMemory := (if compacted then msTokens chosen else 0),
            bdReasons := bdReasons budget @ plan_reasons compacted (cands \<noteq> []) final target\<rparr>,
          lpMetrics = \<lparr>meScanned = length messages, meAnalyzed = scAnalyzed sc, meHits = scHits sc, meCandidates = length cands,
            meSelected = length memory, meDeduplicated = ppRepeated pp, meOperations = (if compacted then length ops else 0),
            meLeaves = length (lsNodes (ppLeaves pp)), meParents = ppParents pp, meCounter = cid\<rparr>,
          lpEvents = sort_events (rsEvents (exRestore (ppExisting pp))),
          lpRequestIds = take_last 1 (map mid (filter (\<lambda>m. mrole m = User) (drop (ppRecent pp) messages)))\<rparr>)"

definition buildLayeredPlan :: "(byte list \<Rightarrow> byte list) \<Rightarrow> (jstring \<Rightarrow> nat) \<Rightarrow> (jstring \<Rightarrow> jstring) \<Rightarrow> (jstring \<Rightarrow> bool) \<Rightarrow> jstring \<Rightarrow> chatMessage list \<Rightarrow> layeredOptions
    \<Rightarrow> layeredCache option \<Rightarrow> (layeredError, layeredPlan \<times> layeredCache option) result" where
  "buildLayeredPlan digest count lower term_char cid messages opts cache =
     (case validateOptions opts of
        Inl e \<Rightarrow> Inl e
      | Inr u \<Rightarrow>
          (case plan_parts digest count cid messages opts cache of
             Inl e \<Rightarrow> Inl e
           | Inr pp \<Rightarrow> Inr (plan_outcome digest count lower term_char cid messages opts pp, scCache (ppScan pp))))"

end
