(* ===== verification/Layered_Plan.thy ===== *)
theory Layered_Plan
  imports Layered
begin

text \<open>
  What the layered planner guarantees: its plan can be applied whatever happened behind the snapshot, frees
  what it promises, leaves retained and protected messages alone, meets the contract of a result, and
  produces nodes the node tables accept.
\<close>

section \<open>Edits of parts do not depend on what follows the snapshot\<close>

lemma by_id_append: "by_id pre i = Some k \<Longrightarrow> by_id (pre @ t) i = Some k"
proof -
  have "zip (map mid (pre @ t)) [0 ..< length (pre @ t)] = zip (map mid pre) [0 ..< length pre] @ zip (map mid t) [length pre ..< length (pre @ t)]"
    by (simp add: upt_add_eq_append [of 0] zip_append)
  then show "by_id pre i = Some k \<Longrightarrow> by_id (pre @ t) i = Some k" by (simp add: by_id_def map_add_def split: option.splits)
qed

lemma by_id_prefix:
  assumes "by_id (pre @ t) i = Some k" and "k < length pre"
  shows "by_id pre i = Some k"
proof (cases "by_id pre i")
  case None
  have "mid (pre ! k) = i" using by_id_Some [OF assms(1)] assms(2) by (simp add: nth_append)
  then have "i \<in> mid ` set pre" using assms(2) nth_mem by blast
  with None show ?thesis by (simp add: by_id_def)
next
  case (Some j)
  with by_id_append [OF Some, of t] assms(1) show ?thesis by simp
qed

lemma op_step_tail:
  assumes "\<not> is_range op" and "length (snapIds snap) \<le> length pre" and "op_step digest (pre @ t) snap op st = Inr st'"
  shows "op_step digest (pre @ u) snap op st = Inr st'"
proof -
  from assms(1,3) obtain k where k: "by_id (pre @ t) (opMessageId op) = Some k" "digest_matches digest (pre @ t) snap k (opSourceDigest op)"
    by (auto simp: op_step_def Let_def is_range_def split: if_splits viewOperation.splits option.splits)
  then have lt: "k < length pre" using assms(2) by (simp add: digest_matches_def)
  from by_id_append [OF by_id_prefix [OF k(1) lt], of u] have u: "by_id (pre @ u) (opMessageId op) = Some k" .
  have m: "(pre @ u) ! k = (pre @ t) ! k" using lt by (simp add: nth_append)
  then have "digest_matches digest (pre @ u) snap k = digest_matches digest (pre @ t) snap k" by (simp add: digest_matches_def fun_eq_iff)
  with assms(1,3) k(1) u m show ?thesis by (cases op) (auto simp: op_step_def Let_def is_range_def split: if_splits)
qed

lemma op_loop_tail:
  assumes "list_all (\<lambda>op. \<not> is_range op) ops" and "length (snapIds snap) \<le> length pre" and "op_loop digest (pre @ t) snap ops st = Inr st'"
  shows "op_loop digest (pre @ u) snap ops st = Inr st'"
  using assms
proof (induction ops arbitrary: st)
  case (Cons op ops)
  from Cons.prems(3) obtain st1 where "op_step digest (pre @ t) snap op st = Inr st1" "op_loop digest (pre @ t) snap ops st1 = Inr st'"
    by (auto split: sum.splits)
  with Cons.IH [of st1] Cons.prems op_step_tail [of op snap pre digest t st st1 u] show ?case by simp
qed simp

lemma edit_messages_tail:
  assumes "\<forall>k\<in>set (jmap_keys parts). k < length pre" and "length x = length pre"
  shows "edit_messages (pre @ t) parts (x @ t) = map_option (\<lambda>n. n @ t) (edit_messages pre parts x)"
  using assms
proof (induction pre parts x rule: edit_messages.induct)
  case (2 pre k mp rest x)
  then show ?case by (cases "edit_parts (mparts (pre ! k)) mp (mparts (pre ! k))") (simp_all add: nth_append list_update_append)
qed simp

lemma edit_messages_length: "edit_messages orig parts x = Some y \<Longrightarrow> length y = length x"
  by (induction orig parts x rule: edit_messages.induct) (auto split: option.splits)

lemma mid_spliced [simp]: "mid (spliced_message ops m) = mid m"
  by (simp add: spliced_message_def)

lemma snapshot_tail:
  assumes "length (snapIds snap) \<le> length pre"
  shows "snapshot_matches digest (pre @ t) snap = snapshot_matches digest (pre @ u) snap"
proof -
  have "(\<lambda>(i, h, k). k < length (pre @ t) \<and> mid ((pre @ t) ! k) = i \<and> contentDigest digest ((pre @ t) ! k) = h) x
      = (\<lambda>(i, h, k). k < length (pre @ u) \<and> mid ((pre @ u) ! k) = i \<and> contentDigest digest ((pre @ u) ! k) = h) x"
    if "x \<in> set (zip (snapIds snap) (zip (snapDigests snap) [0 ..< length (snapIds snap)]))" for x
    using that assms by (auto simp: nth_append dest!: set_zip_rightD)
  then show ?thesis by (auto simp: snapshot_matches_def list_all_iff)
qed

text \<open>An applied list of part edits, on any conversation that continues the snapshot.\<close>

lemma materialize_tail:
  assumes part: "list_all (\<lambda>op. \<not> is_range op) ops" and len: "length (snapIds snap) \<le> length pre"
    and run: "materializeOperations digest (pre @ t) ops (Some snap) = (Applied, output)" and ids: "distinct (map mid (pre @ u))"
  shows "output = map (spliced_message ops) pre @ t"
    and "materializeOperations digest (pre @ u) ops (Some snap) = (Applied, map (spliced_message ops) pre @ u)"
proof -
  obtain st "next" where st: "op_loop digest (pre @ t) snap ops op_start = Inr st" "snapshot_matches digest (pre @ t) snap" "ops \<noteq> []"
      "list_all (\<lambda>(k, mp). list_all (\<lambda>(p, es). edits_disjoint es) mp) (sorted_parts st)"
      "edit_messages (pre @ t) (sorted_parts st) (pre @ t) = Some next" "output = emit_ranges next 0 (sort_key rstart (oranges st))"
    using run by (auto simp: materializeOperations_def sorted_parts_def Let_def split: if_splits sum.splits option.splits dest!: op_loop_status)
  have dist: "distinct (map mid (pre @ t))" using run by (auto simp: materializeOperations_def split: if_splits)
  from op_loop_inv [OF st(1) op_inv_start dist] have inv: "op_inv digest (pre @ t) snap ops st" by simp
  have ranges: "oranges st = []" using op_invD(2) [OF inv] part by (simp add: list_all_iff filter_empty_conv)
  have keys: "\<forall>k\<in>set (jmap_keys (sorted_parts st)). k < length pre"
  proof
    fix k assume "k \<in> set (jmap_keys (sorted_parts st))"
    then have "k \<in> set (jmap_keys (oparts st))" by (force simp: sorted_parts_def)
    with op_invD(5) [OF inv, of k] len show "k < length pre" by (auto simp: target_ok_def)
  qed
  obtain n where n: "edit_messages pre (sorted_parts st) pre = Some n" "next = n @ t"
    using st(5) edit_messages_tail [OF keys refl, of t] by (auto split: option.splits)
  have "next = map (spliced_message ops) (pre @ t)" by (rule edited_messages [OF inv st(4,5)])
  with n(2) edit_messages_length [OF n(1)] have n_eq: "n = map (spliced_message ops) pre" by (simp add: append_eq_append_conv)
  show "output = map (spliced_message ops) pre @ t" using st(6) ranges n(2) n_eq by simp
  have "edit_messages (pre @ u) (sorted_parts st) (pre @ u) = Some (n @ u)" using edit_messages_tail [OF keys refl, of u] n(1) by simp
  moreover have "distinct (map mid (n @ u))" using ids by (simp add: n_eq comp_def)
  ultimately show "materializeOperations digest (pre @ u) ops (Some snap) = (Applied, map (spliced_message ops) pre @ u)"
    using st(2-4) ids op_loop_tail [OF part len st(1)] snapshot_tail [OF len, of digest t u] ranges n_eq
    by (simp add: materializeOperations_def sorted_parts_def [symmetric] Let_def)
qed

lemma operations_spliced:
  assumes "materializeOperations digest ms ops (Some snap) = (Applied, out)"
  shows "out = spliced ms ops"
proof (cases rule: materialize_cases [of digest ms ops "Some snap"])
  case (applied snap' st "next")
  note len = snapshot_prefix(1) [OF applied(3)]
  have n: "length next = length ms" by (simp add: edited_messages [OF applied(4-6)])
  show ?thesis
    using assms applied(7) emit_splice [OF cuts_ok_mono [OF applied_cuts(2) [OF applied(4) len n]], of "next"] len n
      applied_cuts(1) [OF applied(4) len n] by (simp add: edited_messages [OF applied(4-6)] spliced_def)
qed (use assms in auto)

section \<open>The scan\<close>

definition fresh_analysis :: "(byte list \<Rightarrow> byte list) \<Rightarrow> (jstring \<Rightarrow> nat) \<Rightarrow> jstring \<Rightarrow> chatMessage \<Rightarrow> analysis" where
  "fresh_analysis digest count nsKey m = analyze digest count nsKey m (contentDigest digest m)"

text \<open>A cache is faithful for some messages when it holds no other analysis under their keys and SHA-256 tells
  the messages apart. Without a cache nothing is asked.\<close>

definition cache_faithful :: "(byte list \<Rightarrow> byte list) \<Rightarrow> (jstring \<Rightarrow> nat) \<Rightarrow> jstring \<Rightarrow> jstring \<Rightarrow> chatMessage set \<Rightarrow> layeredCache option \<Rightarrow> bool" where
  "cache_faithful digest count cid nsKey M cache =
     (case cache of
        None \<Rightarrow> True
      | Some c \<Rightarrow> layered_cache_ok c \<and> inj_on (contentDigest digest) M
          \<and> (\<forall>m\<in>M. fst (cache_get (cache_key nsKey cid (contentDigest digest m)) c) \<in> {None, Some (fresh_analysis digest count nsKey m)}))"

lemma cached_analysis_fresh:
  assumes "cache_faithful digest count cid nsKey M cache" and "m \<in> M"
    and "cached_analysis digest count cid nsKey m (contentDigest digest m) cache = (a, hit, cache')"
  shows "a = fresh_analysis digest count nsKey m \<and> cache_faithful digest count cid nsKey M cache'"
proof (cases cache)
  case None
  with assms(3) show ?thesis by (auto simp: cached_analysis_def cache_faithful_def fresh_analysis_def Let_def)
next
  case (Some c)
  let ?key = "\<lambda>m. cache_key nsKey cid (contentDigest digest m)" and ?val = "fresh_analysis digest count nsKey"
  have ok: "layered_cache_ok c" and inj: "inj_on (contentDigest digest) M" and all: "\<forall>m\<in>M. fst (cache_get (?key m) c) \<in> {None, Some (?val m)}"
    using assms(1) Some by (auto simp: cache_faithful_def)
  obtain found c' where get: "cache_get (?key m) c = (found, c')" by (cases "cache_get (?key m) c")
  have ok': "layered_cache_ok c'" using layered_cache.lookup_invar [OF ok, of "?key m"] get by simp
  have all': "\<forall>m\<in>M. fst (cache_get (?key m) c') \<in> {None, Some (?val m)}"
    using layered_cache.lookup_faithful [OF ok all, of "?key m"] get by simp
  have same: "\<forall>m'\<in>M. ?key m' = ?key m \<longrightarrow> ?val m' = ?val m"
    using assms(2) inj by (auto simp: cache_key_def dest: inj_onD)
  show ?thesis
  proof (cases found)
    case None
    with assms(3) Some get have "a = ?val m" "cache' = Some (cache_set (?key m) (?val m) c')"
      by (auto simp: cached_analysis_def fresh_analysis_def Let_def)
    with layered_cache.store_faithful [OF ok' all' same] layered_cache.store_invar [OF ok'] inj show ?thesis by (simp add: cache_faithful_def)
  next
    case hit: (Some b)
    with assms(3) Some get have "a = b" "cache' = Some c'" by (auto simp: cached_analysis_def Let_def)
    with all assms(2) get hit ok' all' inj show ?thesis by (auto simp: cache_faithful_def)
  qed
qed

lemma scan_snoc: "scan_messages digest count cid nsKey (ms @ [m]) cache
    = scan_message digest count cid nsKey (length ms, m) (scan_messages digest count cid nsKey ms cache)"
  by (simp add: scan_messages_def)

definition message_events :: "(byte list \<Rightarrow> byte list) \<Rightarrow> (jstring \<Rightarrow> nat) \<Rightarrow> jstring \<Rightarrow> nat \<times> chatMessage \<Rightarrow> stateEvent list" where
  "message_events digest count nsKey im =
     map (entry_event digest nsKey (mid (snd im)) (contentDigest digest (snd im)) (fst im)) (anEntries (fresh_analysis digest count nsKey (snd im)))"

lemma splitTurns_snoc:
  "map tstart (splitTurns (ms @ [m])) = (if ms = [] \<or> mrole m = User then map tstart (splitTurns ms) @ [length ms] else map tstart (splitTurns ms))"
proof -
  let ?f = "fold turn_step ms ([], 0)"
  have f: "?f = (splitTurns ms, length ms)" using split_fold [of ms] by (cases ?f) (simp add: splitTurns_def)
  have nil: "splitTurns ms = [] \<longleftrightarrow> ms = []"
    using split_fold [of ms] by (cases "splitTurns ms") (auto simp: splitTurns_def turns_ok_def turn_ok_def)
  have "splitTurns (ms @ [m]) = fst (turn_step m (splitTurns ms, length ms))" by (simp add: splitTurns_def [of "ms @ [m]"] f)
  moreover have "map tstart (butlast ts @ [last ts\<lparr>tmessageIds := a, tmessages := b\<rparr>]) = map tstart ts" if "ts \<noteq> []" for ts a b
    using that append_butlast_last_id [of "map tstart ts"] by (simp add: map_butlast last_map)
  ultimately show ?thesis using nil by (auto simp: turn_step_def Let_def)
qed

lemma scan_facts:
  assumes "cache_faithful digest count cid nsKey M cache" and "set ms \<subseteq> M"
  defines "sc \<equiv> scan_messages digest count cid nsKey ms cache"
  shows "scAnalyses sc = map (fresh_analysis digest count nsKey) ms \<and> scStarts sc = map tstart (splitTurns ms)
    \<and> scMessageEvents sc = map (message_events digest count nsKey) (zip [0 ..< length ms] ms)
    \<and> scRaw sc = view_tokens count ms \<and> length (scTurns sc) = length ms \<and> cache_faithful digest count cid nsKey M (scCache sc)"
  using assms(2) unfolding sc_def
proof (induction ms rule: rev_induct)
  case Nil
  then show ?case using assms(1) by (simp add: scan_messages_def scan_start_def view_tokens_def splitTurns_def)
next
  case (snoc m ms)
  let ?sc = "scan_messages digest count cid nsKey ms cache"
  from snoc have ih: "scAnalyses ?sc = map (fresh_analysis digest count nsKey) ms" "scStarts ?sc = map tstart (splitTurns ms)"
    "scMessageEvents ?sc = map (message_events digest count nsKey) (zip [0 ..< length ms] ms)" "scRaw ?sc = view_tokens count ms"
    "length (scTurns ?sc) = length ms" "cache_faithful digest count cid nsKey M (scCache ?sc)" by auto
  obtain a hit c where cached: "cached_analysis digest count cid nsKey m (contentDigest digest m) (scCache ?sc) = (a, hit, c)"
    by (cases "cached_analysis digest count cid nsKey m (contentDigest digest m) (scCache ?sc)")
  from cached_analysis_fresh [OF ih(6) _ cached] snoc.prems
  have a: "a = fresh_analysis digest count nsKey m" "cache_faithful digest count cid nsKey M c" by auto
  have "anTokens a = layeredMessageTokens count m" by (simp add: a(1) fresh_analysis_def analyze_def Let_def)
  with ih a cached splitTurns_snoc [of ms m] show ?case
    by (simp add: scan_snoc scan_message_def Let_def message_events_def view_tokens_def)
qed

section \<open>Candidates and operations\<close>

definition protected_ids :: "layeredOptions \<Rightarrow> jstring list" where
  "protected_ids opts = (case loProtectedIds opts of None \<Rightarrow> [] | Some ids \<Rightarrow> ids)"

definition candidate_ok :: "(byte list \<Rightarrow> byte list) \<Rightarrow> (jstring \<Rightarrow> nat) \<Rightarrow> layeredOptions \<Rightarrow> chatMessage list \<Rightarrow> nat \<Rightarrow> candidate \<Rightarrow> bool" where
  "candidate_ok digest count opts ms recent c \<longleftrightarrow>
     cdIndex c < length ms \<and> cdIndex c < recent \<and> cdMessage c = ms ! cdIndex c \<and> cdDigest c = contentDigest digest (cdMessage c)
     \<and> cdOb c \<in> set (anObservations (fresh_analysis digest count (namespace_key opts) (cdMessage c)))
     \<and> \<not> is_protected (cdMessage c) \<and> mid (cdMessage c) \<notin> set (protected_ids opts)
     \<and> length (message_events digest count (namespace_key opts) (cdIndex c, cdMessage c)) \<le> 64"

lemma plan_candidates_ok:
  assumes "scAnalyses sc = map (fresh_analysis digest count (namespace_key opts)) ms"
    and "scMessageEvents sc = map (message_events digest count (namespace_key opts)) (zip [0 ..< length ms] ms)"
    and "c \<in> set (plan_candidates count opts ms sc)"
  shows "candidate_ok digest count opts ms (recent_start opts (scStarts sc)) c"
proof -
  let ?rows = "zip [0 ..< length ms] (zip ms (zip (scAnalyses sc) (scMessageEvents sc)))"
  obtain row where row: "row \<in> set (take (recent_start opts (scStarts sc)) ?rows)" "c \<in> set (message_candidates count (protected_ids opts) row)"
    using assms(3) by (auto simp: plan_candidates_def protected_ids_def)
  then obtain i where i: "i < recent_start opts (scStarts sc)" "i < length ms" "row = ?rows ! i"
    using assms(1,2) by (auto simp: in_set_conv_nth)
  then have "row = (i, ms ! i, fresh_analysis digest count (namespace_key opts) (ms ! i), message_events digest count (namespace_key opts) (i, ms ! i))"
    using assms(1,2) by simp
  with row(2) have "c \<in> set (message_candidates count (protected_ids opts)
      (i, ms ! i, fresh_analysis digest count (namespace_key opts) (ms ! i), message_events digest count (namespace_key opts) (i, ms ! i)))" by simp
  with i(1,2) show ?thesis
    by (auto simp: message_candidates_def candidate_ok_def fresh_analysis_def analyze_def Let_def split: if_splits)
qed

lemma operation_facts:
  "\<not> is_range (operation digest c node t)" "opMessageId (operation digest c node t) = mid (cdMessage c)"
  "op_targets (operation digest c node t) = [mid (cdMessage c)]" "opPartIndex (operation digest c node t) = int (obPart (cdOb c))"
  "opText (operation digest c node t) = t" "opSourceDigest (operation digest c node t) = cdDigest c"
  by (simp_all add: operation_def Let_def is_range_def op_targets_def split: obKind.splits)

lemma plan_operations_set:
  assumes "op \<in> set (plan_operations digest cands ids tails)"
  obtains c node t where "c \<in> set cands" "op = operation digest c node t"
  using assms by (auto simp: plan_operations_def dest!: set_zip_rightD)

lemma plan_operations_part: "list_all (\<lambda>op. \<not> is_range op) (plan_operations digest cands ids tails)"
  unfolding list_all_iff by (auto elim!: plan_operations_set simp: operation_facts)

lemma plan_operations_other:
  assumes "\<forall>c\<in>set cands. mid (cdMessage c) \<noteq> mid m"
  shows "spliced_message (plan_operations digest cands ids tails) m = m"
proof (rule spliced_message_id)
  show "part_ops (plan_operations digest cands ids tails) m p = []" for p
    using assms by (force simp: part_ops_def filter_empty_conv operation_facts elim!: plan_operations_set)
qed

section \<open>A compacted plan\<close>

lemma plan_compacted:
  assumes "buildLayeredPlan digest count lower term_char cid ms opts cache = Inr (p, cache')" and "hrCompacted p"
  obtains pp tails out where "plan_parts digest count cid ms opts cache = Inr pp" "p = plan_outcome digest count lower term_char cid ms opts pp"
    "cache' = scCache (ppScan pp)" "hrOperations p = Some (plan_operations digest (ppCands pp) (lsIds (ppLeaves pp)) tails)"
    "hrSnapshot p = Some (plan_snapshot ms (scAnalyses (ppScan pp)))"
    "materializeOperations digest ms (plan_operations digest (ppCands pp) (lsIds (ppLeaves pp)) tails)
       (Some (plan_snapshot ms (scAnalyses (ppScan pp)))) = (Applied, out)"
    "hrFinal p = int (view_tokens count out)" "hrFinal p < hrRaw p" "hrRaw p = int (scRaw (ppScan pp))" "lpNodes p = ppNodes pp" "ppCands pp \<noteq> []"
proof -
  from assms(1) obtain pp where pp: "plan_parts digest count cid ms opts cache = Inr pp" "p = plan_outcome digest count lower term_char cid ms opts pp"
      "cache' = scCache (ppScan pp)"
    by (auto simp: buildLayeredPlan_def split: sum.splits)
  let ?tails = "msSuffixes (plan_memory count lower term_char ms (plan_budget digest count ms opts pp) pp)"
  let ?ops = "plan_operations digest (ppCands pp) (lsIds (ppLeaves pp)) ?tails" and ?snap = "plan_snapshot ms (scAnalyses (ppScan pp))"
  have c: "fst (materialize_plan digest ms ?ops ?snap) = Applied" "?ops \<noteq> []" "int (view_tokens count (snd (materialize_plan digest ms ?ops ?snap))) < int (scRaw (ppScan pp))"
    using assms(2) by (simp_all add: pp(2) plan_outcome_def Let_def)
  have "ppCands pp \<noteq> []" using c(2) by (auto simp: plan_operations_def)
  moreover have "materializeOperations digest ms ?ops (Some ?snap) = (Applied, snd (materialize_plan digest ms ?ops ?snap))"
    using c(1,2) by (cases "materializeOperations digest ms ?ops (Some ?snap)") (simp add: materialize_plan_def)
  ultimately show thesis
    using c by (intro that [OF pp, of ?tails "snd (materialize_plan digest ms ?ops ?snap)"]) (simp_all add: pp(2) plan_outcome_def Let_def)
qed

lemma plan_parts_facts:
  assumes "plan_parts digest count cid ms opts cache = Inr pp"
  shows "ppScan pp = scan_messages digest count cid (namespace_key opts) ms cache" "ppRecent pp = recent_start opts (scStarts (ppScan pp))"
    "ppCands pp = plan_candidates count opts ms (ppScan pp)"
    "build_leaves digest count (loSpace opts) (ppCands pp) (scMessageEvents (ppScan pp)) = Inr (ppLeaves pp)"
    "ppExisting pp = restore_view (available_nodes digest opts) (ppRecent pp) ms (scEvents (ppScan pp))"
    "ppNodes pp = lsNodes (ppLeaves pp)
      \<or> ppNodes pp = fst (hierarchy digest count (loSpace opts) (available_nodes digest opts) (exRoots (ppExisting pp) @ lsNodes (ppLeaves pp)) (lsNodes (ppLeaves pp)) 0)"
  using assms by (auto simp: plan_parts_def Let_def split: sum.splits prod.splits if_splits)

text \<open>The retained turns start at the boundary the planner uses.\<close>

lemma retained_messages:
  assumes "t \<in> set (drop (length (splitTurns ms) - keep_turns opts) (splitTurns ms))" and "m \<in> set (tmessages t)"
  shows "m \<in> set (drop (recent_start opts (map tstart (splitTurns ms))) ms)"
proof -
  let ?ts = "splitTurns ms" and ?k = "length (splitTurns ms) - keep_turns opts"
  have ok: "concat (map tmessages ?ts) = ms" "starts_at 0 ?ts" using split_fold [of ms] by (simp_all add: turns_ok_def splitTurns_def)
  have k: "?k < length ?ts" using assms(1) by (cases "?k < length ?ts") auto
  then obtain t0 rest where d: "drop ?k ?ts = t0 # rest" "t0 = ?ts ! ?k" by (metis Cons_nth_drop_Suc)
  have "starts_at 0 (take ?k ?ts @ drop ?k ?ts)" using ok(2) by simp
  then have "tstart t0 = length (concat (map tmessages (take ?k ?ts)))" unfolding starts_at_append d(1) by simp
  moreover have "recent_start opts (map tstart ?ts) = tstart t0" using k d(2) by (simp add: recent_start_def Let_def)
  moreover have "ms = concat (map tmessages (take ?k ?ts)) @ concat (map tmessages (drop ?k ?ts))"
    using ok(1) by (metis append_take_drop_id concat_append map_append)
  ultimately have "drop (recent_start opts (map tstart ?ts)) ms = concat (map tmessages (drop ?k ?ts))" by (metis append_eq_conv_conj)
  with assms show ?thesis by auto
qed

lemma not_later: "distinct xs \<Longrightarrow> i < k \<Longrightarrow> i < length xs \<Longrightarrow> xs ! i \<notin> set (drop k xs)"
proof -
  assume a: "distinct xs" "i < k" "i < length xs"
  then have "xs ! i \<in> set (take k xs)" by (auto simp: in_set_conv_nth intro!: exI [of _ i])
  with a(1) show ?thesis using set_take_disj_set_drop_if_distinct [of xs k k] by auto
qed

section \<open>Pieces of a source\<close>

lemma piece_end_bounds:
  assumes "offset < length source"
  shows "offset \<le> piece_end count source offset \<and> piece_end count source offset \<le> length source"
proof -
  let ?stop = "min (length source) (offset + LEAF_SOURCE_TOKENS * 4)"
  define low where "low = (if LEAF_SOURCE_TOKENS < count (js_slice source offset ?stop)
      then prefix_search (\<lambda>m. count (js_slice source offset m) \<le> LEAF_SOURCE_TOKENS) offset ?stop else ?stop)"
  have "offset \<le> low" "low \<le> length source"
    using prefix_search_spec [of offset ?stop "\<lambda>m. count (js_slice source offset m) \<le> LEAF_SOURCE_TOKENS"] assms by (auto simp: low_def)
  moreover have "piece_end count source offset = back_off source offset low" by (simp add: piece_end_def low_def Let_def)
  ultimately show ?thesis using back_off_bounds [of offset low source] by simp
qed

text \<open>A piece that reaches the end does not end in a high surrogate.\<close>

lemma piece_end_last:
  assumes "offset < length source" and "piece_end count source offset = length source"
  shows "\<not> is_high (last source)"
proof -
  let ?stop = "min (length source) (offset + LEAF_SOURCE_TOKENS * 4)"
  define low where "low = (if LEAF_SOURCE_TOKENS < count (js_slice source offset ?stop)
      then prefix_search (\<lambda>m. count (js_slice source offset m) \<le> LEAF_SOURCE_TOKENS) offset ?stop else ?stop)"
  have "low \<le> length source"
    using prefix_search_spec [of offset ?stop "\<lambda>m. count (js_slice source offset m) \<le> LEAF_SOURCE_TOKENS"] assms(1) by (auto simp: low_def)
  moreover have "back_off source offset low = length source" using assms(2) by (simp add: piece_end_def Let_def low_def)
  ultimately have "low = length source" "\<not> (offset < low \<and> is_high (source ! (low - 1)))" by (auto simp: back_off_def split: if_splits)
  moreover have "source \<noteq> []" using assms(1) by auto
  ultimately show ?thesis using assms(1) by (auto simp: last_conv_nth)
qed

lemma split_source_cover:
  assumes "split_source count source offset = Inr spans" and "offset \<le> length source"
  shows "concat (map (\<lambda>(s, e). js_slice source s e) spans) = drop offset source \<and> list_all (\<lambda>(s, e). s < e \<and> e \<le> length source) spans"
  using assms
proof (induction count source offset arbitrary: spans rule: split_source.induct)
  case (1 count source offset)
  show ?case
  proof (cases "offset < length source")
    case True
    let ?stop = "piece_end count source offset"
    note b = piece_end_bounds [OF True, of count]
    from 1(2) True obtain rest where rest: "\<not> ?stop \<le> offset" "split_source count source ?stop = Inr rest" "spans = (offset, ?stop) # rest"
      by (cases "split_source count source ?stop") (auto simp: split_source.simps [of count source offset] Let_def split: if_splits)
    from 1(1) [OF True refl rest(1,2)] b rest js_slice_drop [of offset ?stop source] show ?thesis by auto
  qed (use 1(2,3) in \<open>auto simp: split_source.simps [of count source "length source"]\<close>)
qed

lemma split_source_error: "split_source count source offset = Inl e \<Longrightarrow> e = SourceCharacter"
proof (induction count source offset rule: split_source.induct)
  case (1 count source offset)
  then show ?case
    by (cases "split_source count source (piece_end count source offset)")
      (auto simp: split_source.simps [of count source offset] Let_def split: if_splits)
qed

lemma split_source_lone:
  assumes "is_high (last source)" and "offset < length source"
  shows "split_source count source offset = Inl SourceCharacter"
  using assms
proof (induction count source offset rule: split_source.induct)
  case (1 count source offset)
  let ?stop = "piece_end count source offset"
  have "?stop < length source" using piece_end_bounds [OF 1(3), of count] piece_end_last [OF 1(3), of count] 1(2) by fastforce
  with 1 show ?case by (cases "?stop \<le> offset") (simp_all add: split_source.simps [of count source offset] Let_def)
qed

text \<open>Every piece of well-formed text holds at least one character that fits a leaf, and its count is bounded.\<close>

lemma piece_end_progress:
  assumes wf: "well_formed (drop offset source)" and lt: "offset < length source"
    and small: "\<And>m. m \<le> offset + 2 \<Longrightarrow> count (js_slice source offset m) \<le> LEAF_SOURCE_TOKENS"
    and mono: "\<And>m m'. m \<le> m' \<Longrightarrow> count (js_slice source offset m) \<le> count (js_slice source offset m')"
  shows "offset < piece_end count source offset \<and> well_formed (drop (piece_end count source offset) source)
    \<and> count (js_slice source offset (piece_end count source offset)) \<le> LEAF_SOURCE_TOKENS"
proof -
  let ?stop = "min (length source) (offset + LEAF_SOURCE_TOKENS * 4)" and ?ok = "\<lambda>m. count (js_slice source offset m) \<le> LEAF_SOURCE_TOKENS"
  define low where "low = (if LEAF_SOURCE_TOKENS < count (js_slice source offset ?stop) then prefix_search ?ok offset ?stop else ?stop)"
  have stop: "offset < ?stop" "?stop = length source \<or> offset + 2 < ?stop" using lt by (auto simp: LEAF_SOURCE_TOKENS_def)
  note ps = prefix_search_spec [of offset ?stop ?ok, OF less_imp_le [OF stop(1)]]
  have low: "offset \<le> low" "low \<le> length source" "?ok low" "low = length source \<or> offset + 2 \<le> low"
  proof -
    show "offset \<le> low" "low \<le> length source" using ps stop(1) by (auto simp: low_def)
    show "?ok low" using ps small [of offset] by (auto simp: low_def)
    show "low = length source \<or> offset + 2 \<le> low"
    proof (cases "LEAF_SOURCE_TOKENS < count (js_slice source offset ?stop)")
      case True
      then have "low = ?stop \<or> \<not> ?ok (Suc low)" using ps by (simp add: low_def)
      then show ?thesis using small [of "Suc low"] stop(2) by (auto simp: not_le)
    qed (use stop(2) in \<open>auto simp: low_def\<close>)
  qed
  let ?t = "drop offset source" and ?e = "back_off source offset low"
  have e: "piece_end count source offset = ?e" by (simp add: piece_end_def low_def Let_def)
  have bnd: "offset \<le> ?e" "?e \<le> low" "low - 1 \<le> ?e" using back_off_bounds [OF low(1), of source] by auto
  have last: "\<not> is_high (last source)"
  proof
    assume h: "is_high (last source)"
    have "source \<noteq> []" using lt by auto
    then have "is_high (?t ! (length ?t - 1))" using lt h by (simp add: last_conv_nth)
    moreover have "length ?t - 1 < length ?t" "Suc (length ?t - 1) = length ?t" using lt by auto
    ultimately show False using high_pair [OF wf] by (metis less_irrefl)
  qed
  have "low = length source \<longrightarrow> ?e = length source"
  proof
    assume "low = length source"
    moreover have "source \<noteq> []" using lt by auto
    ultimately show "?e = length source" using last by (simp add: back_off_def last_conv_nth)
  qed
  then have adv: "offset < ?e" using low(4) bnd lt by auto
  have shift: "back_off ?t 0 (low - offset) = ?e - offset" using low(1,2) by (auto simp: back_off_def)
  have "\<not> is_high (?t ! (?e - offset - 1))"
    using back_off_boundary [OF wf, of "low - offset" 0] low(1,2) adv unfolding shift by simp
  with well_formed_cut [OF wf, of "?e - offset"] bnd low(2) adv have "well_formed (drop ?e source)" by (simp add: add.commute)
  moreover have "?ok ?e" using mono [OF bnd(2)] low(3) by simp
  ultimately show ?thesis using adv e by simp
qed

lemma split_source_total:
  assumes "well_formed (drop offset source)" and "offset \<le> length source"
    and small: "\<forall>a m. m \<le> a + 2 \<longrightarrow> count (js_slice source a m) \<le> LEAF_SOURCE_TOKENS"
    and mono: "\<forall>a m m'. m \<le> m' \<longrightarrow> count (js_slice source a m) \<le> count (js_slice source a m')"
  shows "\<exists>spans. split_source count source offset = Inr spans \<and> list_all (\<lambda>(s, e). count (js_slice source s e) \<le> LEAF_SOURCE_TOKENS) spans"
  using assms
proof (induction count source offset rule: split_source.induct)
  case (1 count source offset)
  show ?case
  proof (cases "offset < length source")
    case True
    let ?stop = "piece_end count source offset"
    have adv: "offset < ?stop" "well_formed (drop ?stop source)" "count (js_slice source offset ?stop) \<le> LEAF_SOURCE_TOKENS"
      using piece_end_progress [OF 1(2) True, of count] 1(4,5) by blast+
    from 1(1) [OF True refl _ adv(2) _ 1(4,5)] piece_end_bounds [OF True, of count] adv(1)
    obtain spans where "split_source count source ?stop = Inr spans" "list_all (\<lambda>(s, e). count (js_slice source s e) \<le> LEAF_SOURCE_TOKENS) spans" by auto
    with True adv show ?thesis by (intro exI [of _ "(offset, ?stop) # spans"]) (simp add: split_source.simps [of count source offset] Let_def)
  qed (simp add: split_source.simps [of count source offset])
qed

section \<open>Properties\<close>

text \<open>C17: A layered plan can be applied and does what it promises. Whatever was appended behind the snapshot in the
  meantime, applying the operations succeeds and edits the messages of the snapshot only; on the planned
  messages the token count falls from the raw count to the promised final one; and no message of the
  retained turns, no protected message and no message the caller protects changes.\<close>

theorem layered_plan_applies:
  assumes plan: "buildLayeredPlan digest count lower term_char cid ms opts cache = Inr (p, cache')" and "hrCompacted p"
    and "cache_faithful digest count cid (namespace_key opts) (set ms) cache"
  shows "\<exists>ops snap edited rest. hrOperations p = Some ops \<and> hrSnapshot p = Some snap \<and> ms = take (length (snapIds snap)) ms @ rest
    \<and> edited = map (spliced_message ops) ms
    \<and> (\<forall>tail. distinct (map mid (take (length (snapIds snap)) ms @ tail)) \<longrightarrow>
         materializeOperations digest (take (length (snapIds snap)) ms @ tail) ops (Some snap) = (Applied, take (length (snapIds snap)) edited @ tail))
    \<and> hrRaw p = int (view_tokens count ms) \<and> hrFinal p = int (view_tokens count edited) \<and> hrFinal p < hrRaw p
    \<and> (\<forall>t\<in>set (drop (length (splitTurns ms) - keep_turns opts) (splitTurns ms)). \<forall>m\<in>set (tmessages t). spliced_message ops m = m)
    \<and> (\<forall>m\<in>set ms. is_protected m \<or> mid m \<in> set (protected_ids opts) \<longrightarrow> spliced_message ops m = m)"
proof -
  obtain pp tails out where pp: "plan_parts digest count cid ms opts cache = Inr pp"
      and ops: "hrOperations p = Some (plan_operations digest (ppCands pp) (lsIds (ppLeaves pp)) tails)"
      and snap: "hrSnapshot p = Some (plan_snapshot ms (scAnalyses (ppScan pp)))"
      and run: "materializeOperations digest ms (plan_operations digest (ppCands pp) (lsIds (ppLeaves pp)) tails)
        (Some (plan_snapshot ms (scAnalyses (ppScan pp)))) = (Applied, out)"
      and tokens: "hrFinal p = int (view_tokens count out)" "hrFinal p < hrRaw p" "hrRaw p = int (scRaw (ppScan pp))"
    by (rule plan_compacted [OF plan assms(2)])
  let ?ops = "plan_operations digest (ppCands pp) (lsIds (ppLeaves pp)) tails" and ?snap = "plan_snapshot ms (scAnalyses (ppScan pp))"
  let ?n = "length (snapIds ?snap)"
  note parts = plan_parts_facts [OF pp]
  note scan = scan_facts [OF assms(3) order_refl, folded parts(1)]
  have cand: "candidate_ok digest count opts ms (ppRecent pp) c" if "c \<in> set (ppCands pp)" for c
    using plan_candidates_ok [of "ppScan pp" digest count opts ms c] scan that unfolding parts(2,3) by simp
  have n: "?n \<le> length (take ?n ms)" "ms = take ?n ms @ drop ?n ms" by (simp_all add: plan_snapshot_def)
  have dist: "distinct (map mid ms)" using run by (auto simp: materializeOperations_def split: if_splits)
  have run': "materializeOperations digest (take ?n ms @ drop ?n ms) ?ops (Some ?snap) = (Applied, out)" using run by simp
  note applied = materialize_tail [OF plan_operations_part n(1) run']
  have "(Applied, out) = (Applied, spliced ms ?ops)"
    using operations_spliced [OF run] run by simp
  then have out: "out = map (spliced_message ?ops) ms"
    using plan_operations_part [of digest "ppCands pp" "lsIds (ppLeaves pp)" tails] by (simp add: spliced_def list_all_iff filter_empty_conv)
  have same: "spliced_message ?ops m = m" if m: "m \<in> set ms" and free: "\<forall>c\<in>set (ppCands pp). cdMessage c \<noteq> m" for m
  proof (rule plan_operations_other, rule ballI)
    fix c assume c: "c \<in> set (ppCands pp)"
    then have "cdMessage c \<in> set ms" using cand [OF c] by (simp add: candidate_ok_def)
    with m free c dist show "mid (cdMessage c) \<noteq> mid m" by (auto simp: distinct_map dest: inj_onD)
  qed
  have "spliced_message ?ops m = m" if "t \<in> set (drop (length (splitTurns ms) - keep_turns opts) (splitTurns ms))" "m \<in> set (tmessages t)" for t m
  proof -
    have late: "m \<in> set (drop (ppRecent pp) ms)" using retained_messages [OF that] scan unfolding parts(2) by simp
    have "cdMessage c \<noteq> m" if "c \<in> set (ppCands pp)" for c
      using cand [OF that] late not_later [OF distinct_map [THEN iffD1, OF dist, THEN conjunct1], of "cdIndex c" "ppRecent pp"] by (auto simp: candidate_ok_def)
    with late same show ?thesis by (meson in_set_dropD)
  qed
  moreover have "spliced_message ?ops m = m" if "m \<in> set ms" "is_protected m \<or> mid m \<in> set (protected_ids opts)" for m
    by (rule same [OF that(1)], rule ballI, drule cand) (use that(2) in \<open>auto simp: candidate_ok_def\<close>)
  ultimately show ?thesis
    using ops snap tokens out scan applied(2) n(2) by (intro exI [of _ ?ops] exI [of _ ?snap] exI [of _ "map (spliced_message ?ops) ms"] exI [of _ "drop ?n ms"])
      (simp add: take_map)
qed

text \<open>A conversation whose only tool output gives way to a node reference. The counter charges a text by a mark
  in the output, so that short texts are enough.\<close>

definition demo_count :: "nat \<Rightarrow> jstring \<Rightarrow> nat" where
  "demo_count w t = (if 126 \<in> set t then w else 1)"

definition demo_part :: "jstring \<Rightarrow> toolPart" where
  "demo_part out = \<lparr>ptool = js ''r'', pcallId = None, pinput = None, pstatus = js ''ok'', perror = None, poutput = Some out\<rparr>"

definition demo_tool :: "jstring \<Rightarrow> chatMessage" where
  "demo_tool out = \<lparr>mid = js ''a'', mrole = Assistant, mparts = [ToolPart (demo_part out)], mprotected = None, marchive = None\<rparr>"

definition demo_user :: "string \<Rightarrow> chatMessage" where
  "demo_user i = \<lparr>mid = js i, mrole = User, mparts = [], mprotected = None, marchive = None\<rparr>"

definition demo_messages :: "jstring \<Rightarrow> chatMessage list" where
  "demo_messages out = [demo_user ''u'', demo_tool out, demo_user ''vv'']"

definition demo_options :: layeredOptions where
  "demo_options = \<lparr>loSpace = (js ''p'', js ''s''), loWindow = 1000, loTarget = Some 1000, loRetain = Some 0, loMemoryMax = Some 0, loMemoryRatio = Some 0,
     loProtectedIds = None, loEpoch = None, loNodes = Some []\<rparr>"

abbreviation (input) zeros :: jstring where "zeros \<equiv> replicate 64 48"
abbreviation (input) zero :: "byte list \<Rightarrow> byte list" where "zero \<equiv> \<lambda>_. replicate 32 0"

lemma zero_hash: "textDigest zero t = zeros" "contentDigest zero m = zeros" "nodeContentHash zero n = zeros"
proof -
  show td: "textDigest zero t = zeros" for t using demo_hash(1) [of t] by (simp add: textDigest_def hashText_def)
  show "nodeContentHash zero n = zeros" by (simp add: nodeContentHash_def td)
  show "contentDigest zero m = zeros" by (simp add: contentDigest_def demo_hash)
qed

text \<open>Two outputs: one that can be replaced, and one of more than a leaf that ends in half a character.\<close>

definition demo_output :: "nat \<Rightarrow> jstring \<Rightarrow> bool" where
  "demo_output w out \<longleftrightarrow> 1 < w \<and> 126 \<in> set out \<and> observed_tool (demo_part out)
     \<and> tool_skeleton (demo_count w) (demo_part out) = \<lparr>skText = js ''tool r (ok) input: '', skKind = Decisions, skSafe = True\<rparr>"

lemma demo_outputs: "demo_output 100 [126]" "demo_output 9000 [126, 0xD83D]"
  by code_simp+

definition demo_observation :: "nat \<Rightarrow> observation" where
  "demo_observation w =
     \<lparr>obPart = 0, obKind = ObTool, obDigest = zeros, obTokens = w, obText = js ''tool r (ok) input: '', obMemory = Decisions, obKey = zeros\<rparr>"

definition demo_candidate :: "nat \<Rightarrow> jstring \<Rightarrow> candidate" where
  "demo_candidate w out = \<lparr>cdOb = demo_observation w, cdMessage = demo_tool out, cdIndex = 1, cdDigest = zeros\<rparr>"

lemma demo_analyses:
  assumes "demo_output w out"
  shows "anObservations (fresh_analysis zero (demo_count w) nsKey (demo_tool out)) = [demo_observation w]"
    "anDigest (fresh_analysis zero (demo_count w) nsKey m) = zeros"
    "length (anEntries (fresh_analysis zero (demo_count w) nsKey (demo_tool out))) = 1"
  using assms
  by (simp_all add: demo_output_def fresh_analysis_def analyze_def Let_def demo_tool_def tool_observation_def demo_observation_def zero_hash)
    (simp add: demo_part_def or_empty_def demo_count_def)

lemma demo_starts: "map tstart (splitTurns (demo_messages out)) = [0, 2]"
  by (simp add: splitTurns_def demo_messages_def turn_step_def demo_user_def demo_tool_def Let_def)

lemma demo_cands:
  assumes out: "demo_output w out" and "sc = scan_messages zero (demo_count w) cid (namespace_key demo_options) (demo_messages out) None"
  shows "plan_candidates (demo_count w) demo_options (demo_messages out) sc = [demo_candidate w out]"
proof -
  have scan: "scAnalyses sc = map (fresh_analysis zero (demo_count w) (namespace_key demo_options)) (demo_messages out)" "scStarts sc = [0, 2]"
    "scMessageEvents sc = map (message_events zero (demo_count w) (namespace_key demo_options)) (zip [0 ..< length (demo_messages out)] (demo_messages out))"
    using scan_facts [of zero "demo_count w" cid "namespace_key demo_options" "set (demo_messages out)" None "demo_messages out"]
    by (simp_all add: assms(2) cache_faithful_def demo_starts)
  have recent: "recent_start demo_options [0, 2] = 2" by (simp add: recent_start_def keep_turns_def demo_options_def)
  have users: "anObservations (fresh_analysis zero (demo_count w) nsKey (demo_user i)) = []" for nsKey i
    by (simp add: fresh_analysis_def analyze_def demo_user_def)
  have gain: "demo_count w (minimum_replacement (demo_observation w)) < obTokens (demo_observation w)"
    using out by (simp add: demo_output_def demo_count_def minimum_replacement_def demo_observation_def NODE_MARKER_def js_def)
  show ?thesis
    by (simp add: plan_candidates_def scan recent demo_messages_def upt_rec message_candidates_def users demo_analyses [OF out] gain message_events_def
        demo_candidate_def) (simp add: demo_options_def is_protected_def demo_tool_def demo_user_def)
qed

lemma demo_leaves:
  "\<exists>lv. build_leaves zero (demo_count 100) ns [demo_candidate 100 [126]] mes = Inr lv \<and> lsIds lv = [(0, [zeros])] \<and> length (lsNodes lv) = 1"
proof -
  let ?p = "\<lparr>pcCand = 0, pcSpan = None, pcTokens = 100\<rparr>"
  have pieces: "all_pieces (demo_count 100) (zip [0 ..< length [demo_candidate 100 [126]]] [demo_candidate 100 [126]]) = Inr [?p]"
    by (simp add: candidate_pieces_def demo_candidate_def demo_observation_def LEAF_SOURCE_TOKENS_def)
  have add: "addPiece zero (demo_count 100) ns [demo_candidate 100 [126]] mes ?p leaf_start = push_piece (mes ! 1) ?p leaf_start"
    by (simp add: addPiece_def leaf_start_def push_piece_def Let_def LEAF_SOURCE_TOKENS_def demo_candidate_def)
  have id: "nId (leaf_node zero (demo_count 100) ns [demo_candidate 100 [126]] st) = zeros" for st
    by (simp add: leaf_node_def makeNode_def zero_hash Let_def)
  have "lsIds (flush zero (demo_count 100) ns [demo_candidate 100 [126]] (push_piece (mes ! 1) ?p leaf_start)) = [(0, [zeros])]"
    by (simp add: flush_def id Let_def) (simp add: push_piece_def leaf_start_def note_leaf_def get_or_def)
  moreover have "length (lsNodes (flush zero (demo_count 100) ns [demo_candidate 100 [126]] (push_piece (mes ! 1) ?p leaf_start))) = 1"
    by (simp add: flush_def Let_def push_piece_def leaf_start_def)
  ultimately show ?thesis using pieces add by (simp add: build_leaves_def)
qed

definition demo_snap :: sourceSnapshot where
  "demo_snap = \<lparr>snapIds = [js ''u'', js ''a'', js ''vv''], snapDigests = [zeros, zeros, zeros]\<rparr>"

definition demo_operation :: viewOperation where
  "demo_operation = ToolOutputOp zeros 1 zeros (js ''a'') zeros 0 zeros (NODE_MARKER @ zeros @ js '']'')"

lemma demo_plan_ops: "plan_operations zero [demo_candidate 100 [126]] [(0, [zeros])] [] = [demo_operation]"
  by (simp add: plan_operations_def operation_def operation_id_def zero_hash demo_candidate_def demo_observation_def demo_tool_def demo_operation_def
      get_or_def candidate_replacement_def Let_def)

lemma demo_applied:
  "fst (materializeOperations zero (demo_messages [126]) [demo_operation] (Some demo_snap)) = Applied"
  "view_tokens (demo_count 100) (snd (materializeOperations zero (demo_messages [126]) [demo_operation] (Some demo_snap))) = 3"
  by code_simp+

lemma no_memory:
  assumes "b \<le> 0" and "\<forall>t. 0 < count t"
  shows "select_memory count cands ids b us = \<lparr>msMemory = [], msSuffixes = [], msTokens = 0\<rparr>"
proof -
  have "b < of_nat (count t)" for t using assms by (metis le_less_trans of_nat_0_less_iff)
  then have "fold (select_entry count cands ids b) us \<lparr>msMemory = [], msSuffixes = [], msTokens = 0\<rparr> = \<lparr>msMemory = [], msSuffixes = [], msTokens = 0\<rparr>"
    by (induction us) (simp_all add: select_entry_def Let_def)
  then show ?thesis by (simp add: select_memory_def)
qed

lemma demo_planned:
  "\<exists>p cache. buildLayeredPlan zero (demo_count 100) lower term_char cid (demo_messages [126]) demo_options None = Inr (p, cache) \<and> hrCompacted p"
proof -
  let ?sc = "scan_messages zero (demo_count 100) cid (namespace_key demo_options) (demo_messages [126]) None"
  obtain lv where lv: "build_leaves zero (demo_count 100) (loSpace demo_options) [demo_candidate 100 [126]] (scMessageEvents ?sc) = Inr lv" "lsIds lv = [(0, [zeros])]"
    using demo_leaves by blast
  obtain pp where pp: "plan_parts zero (demo_count 100) cid (demo_messages [126]) demo_options None = Inr pp"
    by (cases "plan_parts zero (demo_count 100) cid (demo_messages [126]) demo_options None") (auto simp: plan_parts_def Let_def demo_cands [OF demo_outputs(1)] lv split: prod.splits)
  note parts = plan_parts_facts [OF pp]
  have cands: "ppCands pp = [demo_candidate 100 [126]]" using demo_cands [OF demo_outputs(1) parts(1)] parts(3) by simp
  have ids: "lsIds (ppLeaves pp) = [(0, [zeros])]" using parts(4) lv cands parts(1) by simp
  note scan = scan_facts [of zero "demo_count 100" cid "namespace_key demo_options" "set (demo_messages [126])" None "demo_messages [126]", folded parts(1)]
  have raw: "scRaw (ppScan pp) = 102" using scan by (simp add: cache_faithful_def) code_simp
  have snap: "plan_snapshot (demo_messages [126]) (scAnalyses (ppScan pp)) = demo_snap"
    using scan by (simp add: cache_faithful_def plan_snapshot_def demo_snap_def demo_analyses [OF demo_outputs(1)])
      (simp add: demo_messages_def source_end_def demo_user_def demo_tool_def upt_rec demo_analyses [OF demo_outputs(1)])
  have "bdHistory (plan_budget zero (demo_count 100) (demo_messages [126]) demo_options pp) \<le> 0"
    by (simp add: plan_budget_def Let_def history_budget_def demo_options_def)
  then have "msSuffixes (plan_memory (demo_count 100) lower term_char (demo_messages [126]) (plan_budget zero (demo_count 100) (demo_messages [126]) demo_options pp) pp) = []"
    by (simp add: plan_memory_def no_memory demo_count_def)
  then have "hrCompacted (plan_outcome zero (demo_count 100) lower term_char cid (demo_messages [126]) demo_options pp)"
    by (simp add: plan_outcome_def Let_def cands ids demo_plan_ops snap materialize_plan_def demo_applied raw)
  moreover have "validateOptions demo_options = Inr ()" by code_simp
  ultimately show ?thesis using pp by (simp add: buildLayeredPlan_def)
qed

theorem layered_plan_applies_witness:
  "\<exists>p cache ops snap. buildLayeredPlan zero (demo_count 100) (\<lambda>t. t) (\<lambda>_. False) [] (demo_messages [126]) demo_options None = Inr (p, cache)
    \<and> hrOperations p = Some ops \<and> hrSnapshot p = Some snap \<and> hrFinal p < hrRaw p \<and> spliced_message ops (demo_user ''vv'') = demo_user ''vv''"
proof -
  obtain p cache where plan: "buildLayeredPlan zero (demo_count 100) (\<lambda>t. t) (\<lambda>_. False) [] (demo_messages [126]) demo_options None = Inr (p, cache)" "hrCompacted p"
    using demo_planned by blast
  have "cache_faithful zero (demo_count 100) [] (namespace_key demo_options) (set (demo_messages [126])) None" by (simp add: cache_faithful_def)
  from layered_plan_applies [OF plan this] obtain ops snap where r: "hrOperations p = Some ops" "hrSnapshot p = Some snap" "hrFinal p < hrRaw p"
    "\<forall>t\<in>set (drop (length (splitTurns (demo_messages [126])) - keep_turns demo_options) (splitTurns (demo_messages [126]))). \<forall>m\<in>set (tmessages t). spliced_message ops m = m"
    by blast
  have "list_ex (\<lambda>t. demo_user ''vv'' \<in> set (tmessages t)) (drop (length (splitTurns (demo_messages [126])) - keep_turns demo_options) (splitTurns (demo_messages [126])))"
    by code_simp
  with r(4) have "spliced_message ops (demo_user ''vv'') = demo_user ''vv''" by (auto simp: list_ex_iff)
  with plan(1) r(1-3) show ?thesis by blast
qed

text \<open>A source too large for one leaf is cut into pieces that cover it. The pieces are non-empty, adjacent and
  make up the source; for well-formed text and a counter that is monotone and fits any two code units
  into a leaf, cutting succeeds and every piece fits a leaf.\<close>

theorem source_pieces_cover:
  "(\<forall>spans. split_source count source 0 = Inr spans \<longrightarrow>
      concat (map (\<lambda>(s, e). js_slice source s e) spans) = source \<and> list_all (\<lambda>(s, e). s < e \<and> e \<le> length source) spans)
   \<and> (well_formed source \<and> (\<forall>a m. m \<le> a + 2 \<longrightarrow> count (js_slice source a m) \<le> LEAF_SOURCE_TOKENS)
        \<and> (\<forall>a m m'. m \<le> m' \<longrightarrow> count (js_slice source a m) \<le> count (js_slice source a m'))
      \<longrightarrow> (\<exists>spans. split_source count source 0 = Inr spans \<and> list_all (\<lambda>(s, e). count (js_slice source s e) \<le> LEAF_SOURCE_TOKENS) spans))"
  using split_source_cover [of count source 0] split_source_total [of 0 source count] by auto

theorem source_pieces_cover_witness:
  "\<exists>spans. split_source estimateTokens (js ''output'') 0 = Inr spans \<and> concat (map (\<lambda>(s, e). js_slice (js ''output'') s e) spans) = js ''output''"
proof -
  have "well_formed (js ''output'')" by code_simp
  moreover have "\<forall>a m. m \<le> a + 2 \<longrightarrow> estimateTokens (js_slice (js ''output'') a m) \<le> LEAF_SOURCE_TOKENS"
    by (auto simp: estimateTokens_def ceil_div4_def js_slice_def LEAF_SOURCE_TOKENS_def js_def)
  moreover have "\<forall>a m m'. m \<le> m' \<longrightarrow> estimateTokens (js_slice (js ''output'') a m) \<le> estimateTokens (js_slice (js ''output'') a m')"
    by (auto simp: estimateTokens_def js_slice_def intro!: ceil_div4_mono)
  ultimately show ?thesis using source_pieces_cover [of estimateTokens "js ''output''"] by blast
qed

text \<open>C30: One lone surrogate stops the whole plan. When a candidate too large for one leaf ends in an unpaired high
  surrogate, for instance an output that was cut inside a character, planning fails with the error about
  a character that fits no leaf, whatever the counter and whatever else could be compacted.\<close>

theorem lone_surrogate_stops_plan:
  assumes "validateOptions opts = Inr ()" and "c \<in> set (plan_candidates count opts ms (scan_messages digest count cid (namespace_key opts) ms cache))"
    and "LEAF_SOURCE_TOKENS < obTokens (cdOb c)" and "candidate_source c \<noteq> []" and "is_high (last (candidate_source c))"
  shows "buildLayeredPlan digest count lower term_char cid ms opts cache = Inl SourceCharacter"
proof -
  have split: "split_source count source 0 \<in> {Inl SourceCharacter} \<union> range Inr" for source
    by (cases "split_source count source 0") (auto dest: split_source_error)
  have all: "all_pieces count ics \<in> {Inl SourceCharacter} \<union> range Inr \<and> (\<forall>i. (i, c) \<in> set ics \<longrightarrow> all_pieces count ics = Inl SourceCharacter)" for ics
  proof (induction ics)
    case (Cons ic ics)
    have "candidate_pieces count ic \<in> {Inl SourceCharacter} \<union> range Inr"
      using split [of "candidate_source (snd ic)"] by (auto simp: candidate_pieces_def Let_def)
    moreover have "candidate_pieces count (i, c) = Inl SourceCharacter" for i
      using assms(3-5) split_source_lone [OF assms(5), of 0 count] by (simp add: candidate_pieces_def Let_def)
    ultimately show ?case using Cons by auto
  qed simp
  let ?cands = "plan_candidates count opts ms (scan_messages digest count cid (namespace_key opts) ms cache)"
  obtain i where "(i, c) \<in> set (zip [0 ..< length ?cands] ?cands)" using assms(2) by (auto simp: in_set_conv_nth set_zip)
  with all have "all_pieces count (zip [0 ..< length ?cands] ?cands) = Inl SourceCharacter" by blast
  then show ?thesis by (simp add: buildLayeredPlan_def assms(1) plan_parts_def build_leaves_def Let_def)
qed

theorem lone_surrogate_stops_plan_witness:
  "buildLayeredPlan zero (demo_count 9000) (\<lambda>t. t) (\<lambda>_. False) [] (demo_messages [126, 0xD83D]) demo_options None = Inl SourceCharacter"
proof (rule lone_surrogate_stops_plan)
  show "validateOptions demo_options = Inr ()" by code_simp
  show "demo_candidate 9000 [126, 0xD83D] \<in> set (plan_candidates (demo_count 9000) demo_options (demo_messages [126, 0xD83D])
      (scan_messages zero (demo_count 9000) [] (namespace_key demo_options) (demo_messages [126, 0xD83D]) None))"
    by (simp add: demo_cands [OF demo_outputs(2) refl])
qed (simp_all add: demo_candidate_def demo_observation_def demo_tool_def demo_part_def candidate_source_def or_empty_def LEAF_SOURCE_TOKENS_def is_high_def)

end
