(* ===== verification/Layered_Result.thy ===== *)
theory Layered_Result
  imports Layered_Plan
begin

text \<open>
  The result of the layered planner meets \<open>headroomCompressResultSchema\<close> of \<open>packages/contracts/src/headroom.ts\<close>,
  nodes and budget included, and every leaf it makes is a valid node over messages of the plan.
\<close>

section \<open>Operations that were applied pass the alignment of the contract\<close>

lemma op_loop_ids:
  assumes "op_loop digest ms snap ops st = Inr st'" and "distinct (oids st)"
  shows "list_all viewOperation_valid ops \<and> oids st' = oids st @ map operationId ops \<and> distinct (oids st')"
  using assms
proof (induction ops arbitrary: st)
  case (Cons op ops)
  then obtain st1 where st1: "op_step digest ms snap op st = Inr st1" "op_loop digest ms snap ops st1 = Inr st'" by (auto split: sum.splits)
  from st1(1) have "viewOperation_valid op" "operationId op \<notin> set (oids st)" "oids st1 = oids st @ [operationId op]"
    by (auto simp: op_step_def Let_def split: if_splits viewOperation.splits option.splits)
  moreover from this Cons.prems(2) have "distinct (oids st1)" by simp
  from Cons.IH [OF st1(2) this] have "list_all viewOperation_valid ops" "oids st' = oids st1 @ map operationId ops" "distinct (oids st')" by blast+
  ultimately show ?case by simp
qed simp

definition span_of :: "viewOperation \<Rightarrow> int \<times> int option" where
  "span_of op = the (op_span op)"

definition op_key :: "viewOperation \<Rightarrow> jstring \<times> int" where
  "op_key op = (opMessageId op, opPartIndex op)"

lemma op_span_part: "\<not> is_range op \<Longrightarrow> op_span op = Some (span_of op) \<and> op_sources op = [(opMessageId op, opSourceDigest op)]"
  by (cases op) (auto simp: is_range_def span_of_def)

text \<open>The alignment of part edits whose sources the snapshot has.\<close>

lemma align_ops_part:
  assumes "list_all (\<lambda>op. \<not> is_range op \<and> (\<exists>k. snapshot_entry snap (opMessageId op) = Some (k, opSourceDigest op))) ops"
    and "distinct (map operationId ops)" and "set (map operationId ops) \<inter> set (alIds st) = {}"
  shows "\<exists>st'. align_ops snap ops st = Some st' \<and> alWhole st' = alWhole st \<and> set (alTouched st') = set (alTouched st) \<union> opMessageId ` set ops
    \<and> (\<forall>key. get_or (alSpans st') key [] = get_or (alSpans st) key [] @ map span_of (filter (\<lambda>op. op_key op = key) ops))
    \<and> (distinct (jmap_keys (alSpans st)) \<longrightarrow> distinct (jmap_keys (alSpans st')))"
  using assms
proof (induction ops arbitrary: st)
  case (Cons op ops)
  then obtain k where op: "\<not> is_range op" "snapshot_entry snap (opMessageId op) = Some (k, opSourceDigest op)" by auto
  let ?key = "op_key op"
  let ?st1 = "\<lparr>alTouched = List.insert (opMessageId op) (alTouched st), alIds = operationId op # alIds st,
    alSpans = jmap_set ?key (get_or (alSpans st) ?key [] @ [span_of op]) (alSpans st), alWhole = alWhole st\<rparr>"
  have step: "align_op snap op st = Some ?st1"
    using Cons.prems(3) op op_span_part [OF op(1)] by (simp add: align_op_def Let_def op_key_def)
  have "\<exists>st'. align_ops snap ops ?st1 = Some st' \<and> alWhole st' = alWhole ?st1 \<and> set (alTouched st') = set (alTouched ?st1) \<union> opMessageId ` set ops
    \<and> (\<forall>key. get_or (alSpans st') key [] = get_or (alSpans ?st1) key [] @ map span_of (filter (\<lambda>op. op_key op = key) ops))
    \<and> (distinct (jmap_keys (alSpans ?st1)) \<longrightarrow> distinct (jmap_keys (alSpans st')))"
    by (rule Cons.IH) (use Cons.prems in auto)
  then show ?case using step by (auto simp: get_or_set distinct_jmap_set simp del: set_map)
qed simp

lemma spans_disjoint_edits: "list_all (\<lambda>op. \<not> is_range op) es \<Longrightarrow> edits_disjoint es \<Longrightarrow> spans_disjoint (map span_of es)"
proof (induction es rule: edits_disjoint.induct)
  case (1 a b es)
  then show ?case by (cases a; cases b) (auto simp: is_text_range_def span_of_def is_range_def)
qed auto

lemma fst_span: "\<not> is_range op \<Longrightarrow> fst (span_of op) = edit_start op"
  by (cases op) (auto simp: is_range_def span_of_def edit_start_def)

lemma map_of_rev_distinct: "distinct (map fst xs) \<Longrightarrow> map_of (rev xs) = map_of xs"
  by (rule ext, rule option.expand) (auto simp: map_of_eq_None_iff rev_map [symmetric] map_of_eq_Some_iff dest: map_of_SomeD)

lemma snapshot_entry_nth:
  assumes "distinct (snapIds snap)" and "length (snapDigests snap) = length (snapIds snap)" and "k < length (snapIds snap)"
  shows "snapshot_entry snap (snapIds snap ! k) = Some (k, snapDigests snap ! k)"
proof -
  let ?z = "zip (snapIds snap) (zip [0 ..< length (snapIds snap)] (snapDigests snap))"
  have "map fst ?z = snapIds snap" using assms(2) by simp
  then have "map_of (rev ?z) = map_of ?z" using assms(1) by (intro map_of_rev_distinct) simp
  then show ?thesis unfolding snapshot_entry_def using map_of_zip_nth [of "snapIds snap" "zip [0 ..< length (snapIds snap)] (snapDigests snap)" k] assms by simp
qed

section \<open>What a successful run tells of part edits\<close>

lemma op_loop_targets:
  assumes "op_loop digest ms snap ops st = Inr st'" and "op \<in> set ops" and "\<not> is_range op"
  shows "\<exists>k. by_id ms (opMessageId op) = Some k \<and> k < length (snapIds snap) \<and> contentDigest digest (ms ! k) = opSourceDigest op"
  using assms
proof (induction ops arbitrary: st)
  case (Cons x ops)
  then obtain st1 where st1: "op_step digest ms snap x st = Inr st1" "op_loop digest ms snap ops st1 = Inr st'" by (auto split: sum.splits)
  show ?case
  proof (cases "op = x")
    case True
    with st1(1) Cons.prems(3) show ?thesis
      by (auto simp: op_step_def Let_def is_range_def digest_matches_def split: if_splits viewOperation.splits option.splits)
  qed (use Cons st1(2) in auto)
qed simp

lemma part_ops_key:
  assumes "viewOperation_valid op" and "\<not> is_range op"
  shows "op_key op = (mid m, int p) \<longleftrightarrow> opMessageId op = mid m \<and> nat (opPartIndex op) = p"
  using assms by (cases op) (auto simp: op_key_def viewOperation_valid_def is_range_def)

lemma sorted_edits_disjoint:
  assumes inv: "op_inv digest ms snap ops st" and disj: "list_all (\<lambda>(k, mp). list_all (\<lambda>(p, es). edits_disjoint es) mp) (sorted_parts st)"
    and k: "k < length ms"
  shows "edits_disjoint (sort_key edit_start (part_ops ops (ms ! k) p))"
proof (cases "map_of (oparts st) k")
  case None
  then show ?thesis using op_invD(7) [OF inv k, of p] by (simp add: edits_at_def get_or_def)
next
  case (Some mp)
  have "(k, sort_edits mp) \<in> set (sorted_parts st)" using map_of_SomeD [OF Some] by (force simp: sorted_parts_def)
  with disj have mp: "list_all (\<lambda>(p, es). edits_disjoint es) (sort_edits mp)" by (auto simp: list_all_iff)
  have at: "get_or mp p [] = part_ops ops (ms ! k) p" using op_invD(7) [OF inv k, of p] Some by (simp add: edits_at_def get_or_def [of "oparts st"])
  show ?thesis
  proof (cases "map_of mp p")
    case None
    with at show ?thesis by (simp add: get_or_def)
  next
    case (Some es)
    then have "(p, sort_key edit_start es) \<in> set (sort_edits mp)" using map_of_SomeD [OF Some] by (force simp: sort_edits_def)
    with mp at Some show ?thesis by (auto simp: list_all_iff get_or_def)
  qed
qed

lemma insort_key_cong: "(\<And>y. y \<in> set (x # xs) \<Longrightarrow> f y = g y) \<Longrightarrow> insort_key f x xs = insort_key g x xs"
  by (induction xs) auto

lemma sort_key_cong: "(\<And>x. x \<in> set xs \<Longrightarrow> f x = g x) \<Longrightarrow> sort_key f xs = sort_key g xs"
proof (induction xs)
  case (Cons x xs)
  then have "sort_key f xs = sort_key g xs" by simp
  with insort_key_cong [of x "sort_key g xs" f g] Cons.prems show ?case by simp
qed simp

text \<open>The spans the contract collects are those of the edits of a part.\<close>

lemma part_spans_disjoint:
  assumes inv: "op_inv digest ms snap ops st" and disj: "list_all (\<lambda>(k, mp). list_all (\<lambda>(p, es). edits_disjoint es) mp) (sorted_parts st)"
    and valid: "list_all (\<lambda>op. viewOperation_valid op \<and> \<not> is_range op \<and> (\<exists>k < length ms. opMessageId op = mid (ms ! k))) ops"
  shows "spans_disjoint (sort_key fst (map span_of (filter (\<lambda>op. op_key op = key) ops)))"
proof (cases "filter (\<lambda>op. op_key op = key) ops")
  case (Cons x xs)
  then have "x \<in> set (filter (\<lambda>op. op_key op = key) ops)" by simp
  then have x: "x \<in> set ops" "op_key x = key" by auto
  then obtain k where k: "k < length ms" "opMessageId x = mid (ms ! k)" "viewOperation_valid x" "\<not> is_range x"
    using valid by (auto simp: list_all_iff)
  let ?p = "nat (opPartIndex x)" and ?es = "filter (\<lambda>op. op_key op = key) ops"
  have key: "key = (mid (ms ! k), int ?p)" using part_ops_key [OF k(3,4), of "ms ! k" ?p] k(2) x(2) by simp
  have es: "?es = part_ops ops (ms ! k) ?p"
    unfolding part_ops_def
  proof (rule filter_cong [OF refl])
    fix op assume "op \<in> set ops"
    then have v: "viewOperation_valid op" "\<not> is_range op" using valid by (auto simp: list_all_iff)
    show "op_key op = key \<longleftrightarrow> \<not> is_range op \<and> opMessageId op = mid (ms ! k) \<and> nat (opPartIndex op) = ?p"
      unfolding key using part_ops_key [OF v] v(2) by blast
  qed
  have nr: "list_all (\<lambda>op. \<not> is_range op) ?es" using valid by (auto simp: list_all_iff)
  have "sort_key fst (map span_of ?es) = map span_of (sort_key (\<lambda>op. fst (span_of op)) ?es)" by (rule sort_key_map)
  also have "sort_key (\<lambda>op. fst (span_of op)) ?es = sort_key edit_start ?es" by (rule sort_key_cong) (use nr fst_span in \<open>auto simp: list_all_iff\<close>)
  finally have eq: "sort_key fst (map span_of ?es) = map span_of (sort_key edit_start ?es)" .
  have "edits_disjoint (sort_key edit_start ?es)" unfolding es by (rule sorted_edits_disjoint [OF inv disj k(1)])
  moreover have "list_all (\<lambda>op. \<not> is_range op) (sort_key edit_start ?es)" using nr by (simp add: list_all_iff)
  ultimately show ?thesis unfolding eq by (intro spans_disjoint_edits)
qed simp

section \<open>The rows of a plan\<close>

lemma applied_run:
  assumes "materializeOperations digest ms ops (Some snap) = (Applied, out)"
  obtains st where "op_loop digest ms snap ops op_start = Inr st" "snapshot_matches digest ms snap" "distinct (map mid ms)" "ops \<noteq> []"
    "op_inv digest ms snap ops st" "list_all (\<lambda>(k, mp). list_all (\<lambda>(p, es). edits_disjoint es) mp) (sorted_parts st)"
proof -
  obtain st where st: "op_loop digest ms snap ops op_start = Inr st" "snapshot_matches digest ms snap" "distinct (map mid ms)" "ops \<noteq> []"
      "list_all (\<lambda>(k, mp). list_all (\<lambda>(p, es). edits_disjoint es) mp) (sorted_parts st)"
    using assms by (auto simp: materializeOperations_def sorted_parts_def Let_def split: if_splits sum.splits option.splits dest!: op_loop_status)
  with op_loop_inv [OF st(1) op_inv_start st(3)] that show thesis by simp
qed

lemma source_end_le: "source_end ms \<le> length ms"
proof (cases "filter (\<lambda>i. mrole (ms ! i) = User) [0 ..< length ms]")
  case (Cons k ks)
  then have "last (k # ks) \<in> set (filter (\<lambda>i. mrole (ms ! i) = User) [0 ..< length ms])" by (metis last_in_set list.distinct(1))
  then have "last (k # ks) < length ms" by simp
  then show ?thesis using Cons by (simp add: source_end_def)
qed (simp add: source_end_def)

lemma plan_snapshot_fresh:
  "plan_snapshot ms (map (fresh_analysis digest count nsKey) ms)
    = \<lparr>snapIds = map mid (take (source_end ms) ms), snapDigests = map (contentDigest digest) (take (source_end ms) ms)\<rparr>"
  by (simp add: plan_snapshot_def take_map fresh_analysis_def analyze_def Let_def comp_def)

definition affected :: "planParts \<Rightarrow> chatMessage list \<Rightarrow> nat list" where
  "affected pp ms = filter (\<lambda>i. i \<in> cdIndex ` set (ppCands pp)) [0 ..< length ms]"

lemma filter_zip_index:
  "length ys = n \<Longrightarrow> filter (\<lambda>(i, y). P i) (zip [0 ..< n] ys) = map (\<lambda>i. (i, ys ! i)) (filter P [0 ..< n])"
proof -
  assume "length ys = n"
  then have "zip [0 ..< n] ys = map (\<lambda>i. (i, ys ! i)) [0 ..< n]" by (intro nth_equalityI) simp_all
  then show ?thesis by (simp add: filter_map comp_def)
qed

lemma affected_rows_fresh:
  assumes "scAnalyses (ppScan pp) = map (fresh_analysis digest count nsKey) ms"
  shows "affected_rows pp ms = map (\<lambda>i. (i, ms ! i, fresh_analysis digest count nsKey (ms ! i))) (affected pp ms)"
proof -
  have "affected_rows pp ms = filter (\<lambda>(i, y). i \<in> cdIndex ` set (ppCands pp)) (zip [0 ..< length ms] (zip ms (scAnalyses (ppScan pp))))"
    by (simp add: affected_rows_def case_prod_unfold)
  also have "\<dots> = map (\<lambda>i. (i, zip ms (scAnalyses (ppScan pp)) ! i)) (affected pp ms)"
    unfolding affected_def by (rule filter_zip_index) (simp add: assms)
  finally show ?thesis by (auto simp: affected_def assms)
qed

lemma sum_list_partition: "sum_list (map f xs) = sum_list (map f (filter P xs)) + sum_list (map f (filter (\<lambda>x. \<not> P x) xs))" for f :: "'a \<Rightarrow> nat"
  by (induction xs) auto

lemma sum_list_nth: "sum_list (map f xs) = sum_list (map (\<lambda>i. f (xs ! i)) [0 ..< length xs])" for f :: "'a \<Rightarrow> nat"
  by (rule arg_cong [of _ _ sum_list]) (intro nth_equalityI; simp)

text \<open>What is left of the source and what the edited view costs.\<close>

lemma unaffected_cost:
  assumes "\<And>i. i < length ms \<Longrightarrow> \<not> P i \<Longrightarrow> g (ms ! i) = ms ! i"
  shows "view_tokens count ms \<le> view_tokens count (map g ms) + sum_list (map (\<lambda>i. layeredMessageTokens count (ms ! i)) (filter P [0 ..< length ms]))"
    and "sum_list (map (\<lambda>i. layeredMessageTokens count (ms ! i)) (filter P [0 ..< length ms])) \<le> view_tokens count ms"
proof -
  let ?f = "\<lambda>i. layeredMessageTokens count (ms ! i)" and ?h = "\<lambda>i. layeredMessageTokens count (g (ms ! i))" and ?is = "[0 ..< length ms]"
  have all: "view_tokens count ms = sum_list (map ?f ?is)" "view_tokens count (map g ms) = sum_list (map ?h ?is)"
    using sum_list_nth [of "layeredMessageTokens count" ms] sum_list_nth [of "\<lambda>m. layeredMessageTokens count (g m)" ms] by (simp_all add: view_tokens_def comp_def)
  have same: "map ?h (filter (\<lambda>i. \<not> P i) ?is) = map ?f (filter (\<lambda>i. \<not> P i) ?is)" using assms by simp
  show "view_tokens count ms \<le> view_tokens count (map g ms) + sum_list (map ?f (filter P ?is))"
    unfolding all sum_list_partition [of ?f ?is P] sum_list_partition [of ?h ?is P] same by simp
  show "sum_list (map ?f (filter P ?is)) \<le> view_tokens count ms" unfolding all sum_list_partition [of ?f ?is P] by simp
qed

lemma plan_operations_messages: "map opMessageId (plan_operations digest cands leafIds tails) = map (\<lambda>c. mid (cdMessage c)) cands"
  unfolding plan_operations_def by (rule nth_equalityI) (simp_all add: operation_facts)

text \<open>Every operation of an applied plan edits a message of the snapshot, which is the message of its candidate.\<close>

lemma plan_targets:
  assumes run: "op_loop digest ms snap ops op_start = Inr st" and ids: "distinct (map mid ms)" and ops: "ops = plan_operations digest cands leafIds tails"
    and cands: "\<forall>c\<in>set cands. cdIndex c < length ms \<and> cdMessage c = ms ! cdIndex c \<and> cdDigest c = contentDigest digest (cdMessage c)"
  shows "\<forall>c\<in>set cands. cdIndex c < length (snapIds snap)" "opMessageId ` set ops = (\<lambda>i. mid (ms ! i)) ` cdIndex ` set cands"
proof -
  have mk: "opMessageId ` set ops = (\<lambda>c. mid (cdMessage c)) ` set cands"
    using arg_cong [OF plan_operations_messages [of digest cands leafIds tails], of set] by (simp add: ops)
  with cands show "opMessageId ` set ops = (\<lambda>i. mid (ms ! i)) ` cdIndex ` set cands" by (simp add: image_image cong: image_cong)
  show "\<forall>c\<in>set cands. cdIndex c < length (snapIds snap)"
  proof
    fix c assume c: "c \<in> set cands"
    with mk obtain op where op: "op \<in> set ops" "opMessageId op = mid (cdMessage c)" by (metis (no_types, lifting) image_iff)
    moreover have "\<not> is_range op" using plan_operations_part [of digest cands leafIds tails] op(1) by (simp add: ops list_all_iff)
    ultimately obtain k where k: "by_id ms (mid (cdMessage c)) = Some k" "k < length (snapIds snap)" using op_loop_targets [OF run] by metis
    from by_id_Some [OF k(1)] cands c have "map mid ms ! k = map mid ms ! cdIndex c" "k < length (map mid ms)" "cdIndex c < length (map mid ms)" by auto
    with ids k(2) show "cdIndex c < length (snapIds snap)" by (metis nth_eq_iff_index_eq)
  qed
qed

lemma ordered_touched:
  assumes "distinct (map mid ms)" and "I \<subseteq> {..< n}" and "n \<le> length ms"
  shows "filter (\<lambda>m. m \<in> (\<lambda>i. mid (ms ! i)) ` I) (map mid (take n ms)) = map (\<lambda>i. mid (ms ! i)) (filter (\<lambda>i. i \<in> I) [0 ..< length ms])"
proof -
  have "map mid (take n ms) = map (\<lambda>i. mid (ms ! i)) [0 ..< n]" using assms(3) by (intro nth_equalityI) simp_all
  moreover have "mid (ms ! i) \<in> (\<lambda>i. mid (ms ! i)) ` I \<longleftrightarrow> i \<in> I" if "i < n" for i
    using that assms nth_eq_iff_index_eq [OF assms(1)] by (auto simp: subset_iff image_iff)
  then have "filter (\<lambda>i. mid (ms ! i) \<in> (\<lambda>i. mid (ms ! i)) ` I) [0 ..< n] = filter (\<lambda>i. i \<in> I) [0 ..< n]" by (intro filter_cong) auto
  moreover have "filter (\<lambda>i. i \<in> I) [0 ..< length ms] = filter (\<lambda>i. i \<in> I) [0 ..< n]"
    using assms(2,3) upt_add_eq_append [of 0 n "length ms - n"] by (auto simp: filter_empty_conv)
  ultimately show ?thesis by (simp add: filter_map comp_def)
qed

text \<open>The contract accepts the operations, the ids and the digests of an applied plan.\<close>

lemma plan_aligned:
  assumes run: "materializeOperations digest ms ops (Some snap) = (Applied, out)" and ops: "ops = plan_operations digest cands leafIds tails"
    and snap: "snap = \<lparr>snapIds = map mid (take n ms), snapDigests = map (contentDigest digest) (take n ms)\<rparr>" and n: "n \<le> length ms"
    and cands: "\<forall>c\<in>set cands. cdIndex c < length ms \<and> cdMessage c = ms ! cdIndex c \<and> cdDigest c = contentDigest digest (cdMessage c)"
    and r: "hrOperations r = Some ops" "hrCompacted r" "hrSnapshot r = Some snap"
      "hrReplacedIds r = map (\<lambda>i. mid (ms ! i)) (filter (\<lambda>i. i \<in> cdIndex ` set cands) [0 ..< length ms])"
      "hrDigests r = Some (map (\<lambda>i. contentDigest digest (ms ! i)) (filter (\<lambda>i. i \<in> cdIndex ` set cands) [0 ..< length ms]))"
  shows "operationSourcesAligned r \<and> list_all viewOperation_valid ops"
proof -
  from run obtain st where st: "op_loop digest ms snap ops op_start = Inr st" "distinct (map mid ms)" "ops \<noteq> []" "op_inv digest ms snap ops st"
      "list_all (\<lambda>(k, mp). list_all (\<lambda>(p, es). edits_disjoint es) mp) (sorted_parts st)" by (rule applied_run)
  have oids: "list_all viewOperation_valid ops" "distinct (map operationId ops)" using op_loop_ids [OF st(1)] by (auto simp: op_start_def)
  have part: "\<not> is_range op" if "op \<in> set ops" for op using that plan_operations_part [of digest cands leafIds tails] by (simp add: ops list_all_iff)
  have entry: "snapshot_entry snap (mid (ms ! k)) = Some (k, contentDigest digest (ms ! k))" if "k < n" for k
    using snapshot_entry_nth [of snap k] that st(2) n by (simp add: snap distinct_take flip: take_map)
  have src: "\<exists>k < n. opMessageId op = mid (ms ! k) \<and> opSourceDigest op = contentDigest digest (ms ! k)" if "op \<in> set ops" for op
  proof -
    from op_loop_targets [OF st(1) that part [OF that]] n obtain k where "by_id ms (opMessageId op) = Some k" "k < n" "contentDigest digest (ms ! k) = opSourceDigest op"
      by (auto simp: snap)
    with by_id_Some show ?thesis by metis
  qed
  then have "list_all (\<lambda>op. \<not> is_range op \<and> (\<exists>k. snapshot_entry snap (opMessageId op) = Some (k, opSourceDigest op))) ops"
    using part entry by (force simp: list_all_iff)
  from align_ops_part [OF this oids(2), of "\<lparr>alTouched = [], alIds = [], alSpans = [], alWhole = []\<rparr>"] obtain al where
    al: "align_ops snap ops \<lparr>alTouched = [], alIds = [], alSpans = [], alWhole = []\<rparr> = Some al" "alWhole al = []" "set (alTouched al) = opMessageId ` set ops"
      "\<forall>key. get_or (alSpans al) key [] = map span_of (filter (\<lambda>op. op_key op = key) ops)" "distinct (jmap_keys (alSpans al))"
    by (auto simp: get_or_def)
  let ?I = "cdIndex ` set cands"
  note tg = plan_targets [OF st(1,2) ops cands]
  have sub: "?I \<subseteq> {..< n}" using tg(1) n by (auto simp: snap)
  from ordered_touched [OF st(2) sub n] have ordered: "filter (\<lambda>m. m \<in> set (alTouched al)) (snapIds snap) = map (\<lambda>i. mid (ms ! i)) (filter (\<lambda>i. i \<in> ?I) [0 ..< length ms])"
    by (simp add: al(3) tg(2) snap)
  have spans: "list_all (\<lambda>(key, spans). spans_disjoint (sort_key fst spans)) (alSpans al)"
  proof -
    have "list_all (\<lambda>op. viewOperation_valid op \<and> \<not> is_range op \<and> (\<exists>k < length ms. opMessageId op = mid (ms ! k))) ops"
      unfolding list_all_iff
    proof
      fix op assume op: "op \<in> set ops"
      with src obtain k where "k < n" "opMessageId op = mid (ms ! k)" by blast
      with n part [OF op] oids(1) op show "viewOperation_valid op \<and> \<not> is_range op \<and> (\<exists>k < length ms. opMessageId op = mid (ms ! k))"
        by (auto simp: list_all_iff intro: exI [of _ k])
    qed
    note disj = part_spans_disjoint [OF st(4,5) this]
    have "spans_disjoint (sort_key fst spans)" if "(key, spans) \<in> set (alSpans al)" for key spans
      using disj [of key] al(4) [THEN spec, of key] map_of_is_SomeI [OF al(5) that] by (simp add: get_or_def)
    then show ?thesis by (auto simp: list_all_iff)
  qed
  have "list_all (\<lambda>(i, m). m = hrReplacedIds r ! i
      \<and> (case hrDigests r of None \<Rightarrow> False | Some ds \<Rightarrow> i < length ds \<and> map_option snd (snapshot_entry snap m) = Some (ds ! i)))
    (zip [0 ..< length (hrReplacedIds r)] (hrReplacedIds r))"
  proof -
    have "(filter (\<lambda>i. i \<in> ?I) [0 ..< length ms]) ! j < n" if "j < length (filter (\<lambda>i. i \<in> ?I) [0 ..< length ms])" for j
      using nth_mem [OF that] sub by auto
    with entry show ?thesis by (simp add: r(4,5) list_all_length)
  qed
  then show ?thesis
    using r st(3) al(1,2) spans oids(1) ordered by (simp add: operationSourcesAligned_def list.pred_True Let_def)
qed

section \<open>The result of a plan\<close>

lemma truncate_result [simp]:
  "hrCompacted (headroomResult.truncate r) = hrCompacted r" "hrBudgetExceeded (headroomResult.truncate r) = hrBudgetExceeded r"
  "hrHistoryHash (headroomResult.truncate r) = hrHistoryHash r" "hrSummary (headroomResult.truncate r) = hrSummary r"
  "hrRefs (headroomResult.truncate r) = hrRefs r" "hrReplacedIds (headroomResult.truncate r) = hrReplacedIds r"
  "hrDigests (headroomResult.truncate r) = hrDigests r" "hrMemory (headroomResult.truncate r) = hrMemory r" "hrEpoch (headroomResult.truncate r) = hrEpoch r"
  "hrOperations (headroomResult.truncate r) = hrOperations r" "hrSnapshot (headroomResult.truncate r) = hrSnapshot r"
  "hrRaw (headroomResult.truncate r) = hrRaw r" "hrSummaryTokens (headroomResult.truncate r) = hrSummaryTokens r"
  "hrSource (headroomResult.truncate r) = hrSource r" "hrEvicted (headroomResult.truncate r) = hrEvicted r"
  "hrRetained (headroomResult.truncate r) = hrRetained r" "hrReplacement (headroomResult.truncate r) = hrReplacement r"
  "hrFinal (headroomResult.truncate r) = hrFinal r" "hrFreed (headroomResult.truncate r) = hrFreed r"
  by (simp_all add: headroomResult.truncate_def)

lemma valid_digests: "digest_ok digest \<Longrightarrow> validHash (textDigest digest t)" "digest_ok digest \<Longrightarrow> validHash (contentDigest digest m)"
  "digest_ok digest \<Longrightarrow> validHash (nodeContentHash digest n)"
  by (simp_all add: textDigest_def contentDigest_def hashText_def nodeContentHash_def validHash_sha)

lemma fresh_fields: "anDigest (fresh_analysis digest count nsKey m) = contentDigest digest m"
  "anTokens (fresh_analysis digest count nsKey m) = layeredMessageTokens count m"
  by (simp_all add: fresh_analysis_def analyze_def Let_def)

lemma plan_scan:
  assumes "cache_faithful digest count cid (namespace_key opts) (set ms) cache" and "plan_parts digest count cid ms opts cache = Inr pp"
  shows "scAnalyses (ppScan pp) = map (fresh_analysis digest count (namespace_key opts)) ms" "scRaw (ppScan pp) = view_tokens count ms"
    "scMessageEvents (ppScan pp) = map (message_events digest count (namespace_key opts)) (zip [0 ..< length ms] ms)"
    "\<forall>c\<in>set (ppCands pp). candidate_ok digest count opts ms (ppRecent pp) c"
proof -
  note parts = plan_parts_facts [OF assms(2)]
  note scan = scan_facts [OF assms(1) order_refl, folded parts(1)]
  show an: "scAnalyses (ppScan pp) = map (fresh_analysis digest count (namespace_key opts)) ms" and "scRaw (ppScan pp) = view_tokens count ms"
    and ev: "scMessageEvents (ppScan pp) = map (message_events digest count (namespace_key opts)) (zip [0 ..< length ms] ms)" using scan by auto
  show "\<forall>c\<in>set (ppCands pp). candidate_ok digest count opts ms (ppRecent pp) c" using plan_candidates_ok [OF an ev] parts(2,3) by simp
qed

text \<open>The fields of the outcome, by whether it compacts.\<close>

definition outcome_ops :: "(byte list \<Rightarrow> byte list) \<Rightarrow> (jstring \<Rightarrow> nat) \<Rightarrow> (jstring \<Rightarrow> jstring) \<Rightarrow> (jstring \<Rightarrow> bool) \<Rightarrow> chatMessage list \<Rightarrow> layeredOptions \<Rightarrow> planParts
    \<Rightarrow> viewOperation list" where
  "outcome_ops digest count lower term_char ms opts pp =
     plan_operations digest (ppCands pp) (lsIds (ppLeaves pp)) (msSuffixes (plan_memory count lower term_char ms (plan_budget digest count ms opts pp) pp))"

lemma outcome_fields:
  fixes digest count lower term_char cid ms opts pp
  defines "p \<equiv> plan_outcome digest count lower term_char cid ms opts pp"
    and "ops \<equiv> outcome_ops digest count lower term_char ms opts pp" and "snap \<equiv> plan_snapshot ms (scAnalyses (ppScan pp))"
    and "rows \<equiv> affected_rows pp ms"
  defines "final \<equiv> int (view_tokens count (snd (materialize_plan digest ms ops snap)))"
    and "evicted \<equiv> int (sum_list (map (\<lambda>(i, m, a). anTokens a) rows))"
  shows "hrCompacted p \<longleftrightarrow> fst (materialize_plan digest ms ops snap) = Applied \<and> ops \<noteq> [] \<and> final < hrRaw p"
    "hrOperations p = Some (if hrCompacted p then ops else [])" "hrSnapshot p = Some snap" "hrRaw p = int (scRaw (ppScan pp))" "hrSource p = hrRaw p"
    "hrReplacedIds p = (if hrCompacted p then map (\<lambda>(i, m, a). mid m) rows else [])"
    "hrDigests p = Some (if hrCompacted p then map (\<lambda>(i, m, a). anDigest a) rows else [])" "map refHash (hrRefs p) = the (hrDigests p)"
    "hrHistoryHash p = (if hrCompacted p then Some (plan_hash digest (loSpace opts) snap ops) else None)"
    "hrSummary p \<noteq> None \<longleftrightarrow> hrCompacted p" "hrMemory p \<noteq> None" "0 \<le> hrSummaryTokens p" "hrEvicted p = (if hrCompacted p then evicted else 0)"
    "hrRetained p = hrRaw p - hrEvicted p" "hrReplacement p = hrFinal p - hrRetained p" "hrFinal p = (if hrCompacted p then final else hrRaw p)"
    "hrFreed p = hrRaw p - hrFinal p" "lpNodes p = (if hrCompacted p then ppNodes pp else [])"
  unfolding p_def ops_def snap_def rows_def final_def evicted_def outcome_ops_def
  by (simp_all add: plan_outcome_def Let_def comp_def case_prod_unfold)

text \<open>The refinement of the schema, from the alignment and the cost of the view.\<close>

lemma result_valid:
  assumes "digest_ok digest" and take_ids: "distinct (map mid (take (source_end ms) ms))" and an: "scAnalyses (ppScan pp) = map (fresh_analysis digest count (namespace_key opts)) ms"
    and raw: "scRaw (ppScan pp) = view_tokens count ms" and cands: "\<forall>c\<in>set (ppCands pp). candidate_ok digest count opts ms (ppRecent pp) c"
  shows "headroomCompressResult_valid (headroomResult.truncate (plan_outcome digest count lower term_char cid ms opts pp))"
proof -
  let ?ops = "outcome_ops digest count lower term_char ms opts pp" and ?n = "source_end ms"
  define p where "p = plan_outcome digest count lower term_char cid ms opts pp"
  define snap where "snap = plan_snapshot ms (scAnalyses (ppScan pp))"
  note f = outcome_fields [of digest count lower term_char cid ms opts pp, folded p_def snap_def, unfolded affected_rows_fresh [OF an] map_map comp_def prod.case fresh_fields]
  have snap: "snap = \<lparr>snapIds = map mid (take ?n ms), snapDigests = map (contentDigest digest) (take ?n ms)\<rparr>" by (simp add: snap_def an plan_snapshot_fresh)
  have valid: "length (snapIds snap) = length (snapDigests snap) \<and> distinct (snapIds snap) \<and> list_all validHash (snapDigests snap)"
    using take_ids valid_digests(2) [OF assms(1)] by (simp add: snap list_all_iff)
  have refs: "list_all (\<lambda>ref. validHash (refHash ref)) (hrRefs p)"
  proof -
    have "list_all validHash (map refHash (hrRefs p))" using valid_digests(2) [OF assms(1)] by (auto simp: f(7,8) list_all_iff)
    then show ?thesis by (simp add: list.pred_map comp_def)
  qed
  show ?thesis
  proof (cases "hrCompacted p")
    case False
    with f valid refs raw show ?thesis
      by (simp add: headroomCompressResult_valid_def headroomResult_refine_def operationSourcesAligned_def result_numbers_def flip: p_def)
  next
    case True
    define out where "out = snd (materialize_plan digest ms ?ops snap)"
    have run: "materializeOperations digest ms ?ops (Some snap) = (Applied, out)" "?ops \<noteq> []"
      using True f(1) by (auto simp: materialize_plan_def out_def prod_eq_iff)
    have ids: "distinct (map mid ms)" using run(1) by (rule applied_run)
    note t = materialize_tail [of ?ops snap ms digest "[]" out "[]"]
    have out: "out = map (spliced_message ?ops) ms" using t(1) run(1) ids plan_operations_part by (simp add: snap outcome_ops_def)
    have other: "spliced_message ?ops (ms ! i) = ms ! i" if "i < length ms" "i \<notin> cdIndex ` set (ppCands pp)" for i
    proof -
      have "mid (cdMessage c) \<noteq> mid (ms ! i)" if "c \<in> set (ppCands pp)" for c
        using cands that \<open>i < length ms\<close> \<open>i \<notin> cdIndex ` set (ppCands pp)\<close> nth_eq_iff_index_eq [OF ids, of "cdIndex c" i] by (auto simp: candidate_ok_def)
      then show ?thesis unfolding outcome_ops_def by (intro plan_operations_other) blast
    qed
    note cost = unaffected_cost [of ms "\<lambda>i. i \<in> cdIndex ` set (ppCands pp)" "spliced_message ?ops" count, OF other, folded affected_def out]
    have "ppCands pp \<noteq> []" using run(2) by (auto simp: outcome_ops_def plan_operations_def)
    then obtain c where "c \<in> set (ppCands pp)" by (cases "ppCands pp") auto
    with cands have "cdIndex c \<in> set (affected pp ms)" by (auto simp: affected_def candidate_ok_def)
    then have rows: "affected pp ms \<noteq> []" by auto
    have "distinct (map (\<lambda>i. mid (ms ! i)) (affected pp ms))"
      unfolding distinct_map using ids nth_eq_iff_index_eq [OF ids] by (auto simp: affected_def inj_on_def)
    moreover have "length (hrRefs p) = length (affected pp ms)" using arg_cong [OF f(8), of length] True f(7) by simp
    moreover have "operationSourcesAligned (headroomResult.truncate p) \<and> list_all viewOperation_valid ?ops"
      by (rule plan_aligned [OF run(1) outcome_ops_def snap source_end_le]) (use cands True f in \<open>auto simp: candidate_ok_def affected_def\<close>)
    ultimately show ?thesis
      using True valid refs raw cost rows f valid_digests [OF assms(1)]
      by (simp add: headroomCompressResult_valid_def headroomResult_refine_def result_numbers_def list_all_iff plan_hash_def flip: p_def out_def)
  qed
qed



section \<open>The nodes of a plan\<close>

text \<open>Messages of candidates are told apart by their ids, and their events are bound to them.\<close>

definition cands_sound :: "candidate list \<Rightarrow> stateEvent list list \<Rightarrow> bool" where
  "cands_sound cands mes \<longleftrightarrow>
     (\<forall>c\<in>set cands. validHash (cdDigest c) \<and> chatMessage_valid (cdMessage c) \<and> length (mes ! cdIndex c) \<le> 64
        \<and> (\<forall>e\<in>set (mes ! cdIndex c). event_valid e \<and> msourceIds e = [mid (cdMessage c)] \<and> evDigests e = [cdDigest c])
        \<and> (\<forall>c'\<in>set cands. mid (cdMessage c') = mid (cdMessage c) \<longrightarrow> cdDigest c' = cdDigest c))"

definition made_leaf_ok :: "(byte list \<Rightarrow> byte list) \<Rightarrow> nspace \<Rightarrow> candidate list \<Rightarrow> layeredNode \<Rightarrow> bool" where
  "made_leaf_ok digest ns cands n \<longleftrightarrow> layeredNode_valid n \<and> validateIdentity digest n \<and> nSpace n = ns \<and> nLevel n = 0 \<and> nChildren n = []
     \<and> (\<forall>r\<in>set (nRefs n). \<exists>c\<in>set cands. srMessage r = mid (cdMessage c) \<and> srHash r = cdDigest c)"

definition leaf_inv :: "(byte list \<Rightarrow> byte list) \<Rightarrow> nspace \<Rightarrow> candidate list \<Rightarrow> leafState \<Rightarrow> bool" where
  "leaf_inv digest ns cands st \<longleftrightarrow>
     (\<forall>p\<in>set (lsGroup st). pcCand p < length cands) \<and> (lsGroup st = [] \<longrightarrow> lsEvents st = []) \<and> distinct (jmap_keys (lsEvents st))
     \<and> (\<forall>(k, e)\<in>set (lsEvents st). evId e = k \<and> event_valid e
          \<and> (\<exists>p\<in>set (lsGroup st). msourceIds e = [mid (cdMessage (cands ! pcCand p))] \<and> evDigests e = [cdDigest (cands ! pcCand p)]))
     \<and> length (lsEvents st) \<le> 64 \<and> list_all (made_leaf_ok digest ns cands) (lsNodes st)"

lemma validate_made: "validateIdentity digest (makeNode digest n)"
  by (simp add: validateIdentity_def makeNode_def nodeContentHash_def node_content_json_def)

lemma last_of_unique: "(k, v) \<in> set kvs \<Longrightarrow> (\<And>v'. (k, v') \<in> set kvs \<Longrightarrow> v' = v) \<Longrightarrow> last_of kvs k = Some v"
proof (cases "map_of (rev kvs) k")
  case None
  assume "(k, v) \<in> set kvs"
  with None show ?thesis by (force simp: map_of_eq_None_iff)
next
  case (Some w)
  assume "\<And>v'. (k, v') \<in> set kvs \<Longrightarrow> v' = v"
  with map_of_SomeD [OF Some] Some show ?thesis by (simp add: last_of_def)
qed

lemma leaf_node_ok:
  assumes "digest_ok digest" and "cands_sound cands mes" and inv: "leaf_inv digest ns cands st"
  shows "made_leaf_ok digest ns cands (leaf_node digest count ns cands st)"
proof -
  let ?n = "leaf_node digest count ns cands st"
  have group: "pcCand p < length cands" if "p \<in> set (lsGroup st)" for p using inv that by (simp add: leaf_inv_def)
  have refs: "nRefs ?n = map (piece_ref cands) (lsGroup st)" "nEvents ?n = Some (map snd (lsEvents st))" "nLevel ?n = 0" "nChildren ?n = []" "nSpace ?n = ns" "validHash (nId ?n)"
    using valid_digests(3) [OF assms(1)] by (simp_all add: leaf_node_def makeNode_def Let_def)
  have "list_all ref_valid (nRefs ?n)"
    using assms(2) group by (auto simp: refs list_all_iff ref_valid_def piece_ref_def Let_def cands_sound_def chatMessage_valid_def archive_valid_def option.pred_set)
  moreover have "list_all (event_bound (nRefs ?n)) (map snd (lsEvents st))"
    unfolding list_all_iff
  proof
    fix e assume "e \<in> set (map snd (lsEvents st))"
    then obtain p where p: "p \<in> set (lsGroup st)" "msourceIds e = [mid (cdMessage (cands ! pcCand p))]" "evDigests e = [cdDigest (cands ! pcCand p)]"
      using inv by (auto simp: leaf_inv_def)
    have "last_of (map (\<lambda>r. (srMessage r, srHash r)) (nRefs ?n)) (mid (cdMessage (cands ! pcCand p))) = Some (cdDigest (cands ! pcCand p))"
    proof (rule last_of_unique)
      fix v' assume "(mid (cdMessage (cands ! pcCand p)), v') \<in> set (map (\<lambda>r. (srMessage r, srHash r)) (nRefs ?n))"
      then obtain q where "q \<in> set (lsGroup st)" "mid (cdMessage (cands ! pcCand q)) = mid (cdMessage (cands ! pcCand p))" "v' = cdDigest (cands ! pcCand q)"
        by (auto simp: refs piece_ref_def Let_def)
      with assms(2) group p(1) show "v' = cdDigest (cands ! pcCand p)" by (auto simp: cands_sound_def)
    qed (use p(1) in \<open>force simp: refs piece_ref_def Let_def\<close>)
    with p show "event_bound (nRefs ?n) e" by (simp add: event_bound_def)
  qed
  moreover have ids: "map evId (map snd (lsEvents st)) = jmap_keys (lsEvents st)" using inv by (auto simp: leaf_inv_def)
  have "distinct (map evId (map snd (lsEvents st)))" unfolding ids using inv by (simp add: leaf_inv_def)
  moreover have "list_all event_valid (map snd (lsEvents st))" "length (lsEvents st) \<le> 64" using inv by (auto simp: leaf_inv_def list_all_iff)
  ultimately have "layeredNode_valid ?n" by (simp add: layeredNode_valid_def refs)
  moreover have "\<forall>r\<in>set (nRefs ?n). \<exists>c\<in>set cands. srMessage r = mid (cdMessage c) \<and> srHash r = cdDigest c"
    using group by (auto simp: refs piece_ref_def Let_def intro!: bexI [OF _ nth_mem])
  ultimately show ?thesis by (auto simp: made_leaf_ok_def refs) (simp add: leaf_node_def Let_def validate_made)
qed

lemma add_events_facts:
  assumes "distinct (jmap_keys m)"
  shows "distinct (jmap_keys (add_events es m))" "set (jmap_keys (add_events es m)) = set (jmap_keys m) \<union> evId ` set es"
    "(k, e) \<in> set (add_events es m) \<Longrightarrow> (k, e) \<in> set m \<or> e \<in> set es \<and> evId e = k"
proof -
  have "distinct (jmap_keys (add_events es m)) \<and> set (jmap_keys (add_events es m)) = set (jmap_keys m) \<union> evId ` set es
    \<and> (\<forall>(k, e)\<in>set (add_events es m). (k, e) \<in> set m \<or> e \<in> set es \<and> evId e = k)"
    using assms
  proof (induction es arbitrary: m)
    case (Cons x es)
    have step: "add_events (x # es) m = add_events es (jmap_set (evId x) x m)" by (simp add: add_events_def)
    have keys: "set (jmap_keys (jmap_set (evId x) x m)) = insert (evId x) (set (jmap_keys m))" unfolding keys_jmap_set by auto
    from Cons.IH [OF distinct_jmap_set [OF Cons.prems, of "evId x" x]] keys show ?case
      unfolding step by (auto dest!: set_jmap_set)
  qed (auto simp: add_events_def)
  then show "distinct (jmap_keys (add_events es m))" "set (jmap_keys (add_events es m)) = set (jmap_keys m) \<union> evId ` set es"
    "(k, e) \<in> set (add_events es m) \<Longrightarrow> (k, e) \<in> set m \<or> e \<in> set es \<and> evId e = k" by auto
qed

lemma add_events_length:
  assumes "distinct (jmap_keys m)"
  shows "length (add_events es m) \<le> length m + length (filter (\<lambda>e. evId e \<notin> set (jmap_keys m)) es)"
proof -
  let ?new = "filter (\<lambda>e. evId e \<notin> set (jmap_keys m)) es"
  have "length (add_events es m) = card (set (jmap_keys m) \<union> evId ` set es)"
    using add_events_facts(1,2) [OF assms, of es] by (metis distinct_card length_map)
  also have "set (jmap_keys m) \<union> evId ` set es = set (jmap_keys m) \<union> evId ` set ?new" by auto
  also have "card \<dots> \<le> card (set (jmap_keys m)) + card (evId ` set ?new)" by (rule card_Un_le)
  also have "card (set (jmap_keys m)) = length m" using distinct_card [OF assms] by simp
  also have "card (evId ` set ?new) \<le> length ?new" by (metis card_length length_map list.set_map)
  finally show ?thesis by simp
qed

lemma push_piece_inv:
  assumes inv: "leaf_inv digest ns cands st" and p: "pcCand p < length cands"
    and es: "\<forall>e\<in>set es. event_valid e \<and> msourceIds e = [mid (cdMessage (cands ! pcCand p))] \<and> evDigests e = [cdDigest (cands ! pcCand p)]"
    and room: "length (lsEvents st) + length (filter (\<lambda>e. evId e \<notin> set (jmap_keys (lsEvents st))) es) \<le> 64"
  shows "leaf_inv digest ns cands (push_piece es p st)"
proof -
  have d: "distinct (jmap_keys (lsEvents st))" using inv by (simp add: leaf_inv_def)
  let ?q = "\<lambda>e p. msourceIds e = [mid (cdMessage (cands ! pcCand p))] \<and> evDigests e = [cdDigest (cands ! pcCand p)]"
  have "evId e = k \<and> event_valid e \<and> (\<exists>q\<in>set (lsGroup st @ [p]). ?q e q)" if "(k, e) \<in> set (add_events es (lsEvents st))" for k e
    using add_events_facts(3) [OF d that]
  proof
    assume "(k, e) \<in> set (lsEvents st)"
    with inv have "evId e = k" "event_valid e" "\<exists>q\<in>set (lsGroup st). ?q e q" by (auto simp: leaf_inv_def)
    then show ?thesis by auto
  next
    assume "e \<in> set es \<and> evId e = k"
    with es show ?thesis by auto
  qed
  moreover have "length (add_events es (lsEvents st)) \<le> 64" using add_events_length [OF d, of es] room by simp
  ultimately show ?thesis using inv p add_events_facts(1) [OF d, of es] by (auto simp: leaf_inv_def push_piece_def)
qed

lemma flush_inv:
  assumes "digest_ok digest" and "cands_sound cands mes" and "leaf_inv digest ns cands st"
  shows "leaf_inv digest ns cands (flush digest count ns cands st)" "lsGroup (flush digest count ns cands st) = []"
  using assms leaf_node_ok [OF assms, of count] by (auto simp: flush_def Let_def leaf_inv_def)

lemma addPiece_inv:
  assumes ok: "digest_ok digest" "cands_sound cands mes" and inv: "leaf_inv digest ns cands st" and p: "pcCand p < length cands"
  shows "leaf_inv digest ns cands (addPiece digest count ns cands mes p st)"
proof -
  let ?c = "cands ! pcCand p" and ?es = "mes ! cdIndex (cands ! pcCand p)" and ?room = "\<lambda>st. length (lsEvents st) + length (filter (\<lambda>e. evId e \<notin> set (jmap_keys (lsEvents st))) (mes ! cdIndex (cands ! pcCand p)))"
  have es: "length ?es \<le> 64" "\<forall>e\<in>set ?es. event_valid e \<and> msourceIds e = [mid (cdMessage ?c)] \<and> evDigests e = [cdDigest ?c]"
    using ok(2) p by (auto simp: cands_sound_def)
  define st1 where "st1 = (if lsGroup st \<noteq> [] \<and> (LEAF_SOURCE_TOKENS < lsTokens st + pcTokens p \<or> 64 < ?room st) then flush digest count ns cands st else st)"
  have inv1: "leaf_inv digest ns cands st1" using inv flush_inv(1) [OF ok inv, of count] by (simp add: st1_def)
  have "?room st1 \<le> 64"
  proof (cases "lsGroup st1 = []")
    case True
    with inv1 have "lsEvents st1 = []" by (simp add: leaf_inv_def)
    then show ?thesis using es(1) by simp
  next
    case False
    with flush_inv(2) [OF ok inv, of count] have "st1 = st" "\<not> 64 < ?room st" by (auto simp: st1_def split: if_splits)
    then show ?thesis by simp
  qed
  from push_piece_inv [OF inv1 p es(2) this] have "leaf_inv digest ns cands (push_piece ?es p st1)" .
  moreover have "addPiece digest count ns cands mes p st = (let st2 = push_piece ?es p st1 in if LEAF_SOURCE_TOKENS \<le> lsTokens st2 then flush digest count ns cands st2 else st2)"
    unfolding addPiece_def st1_def Let_def by (rule refl)
  ultimately show ?thesis using flush_inv(1) [OF ok, of ns "push_piece ?es p st1" count] by (simp add: Let_def)
qed

lemma all_pieces_cands: "all_pieces count ics = Inr ps \<Longrightarrow> \<forall>p\<in>set ps. pcCand p \<in> fst ` set ics"
proof (induction ics arbitrary: ps)
  case (Cons ic ics)
  from Cons.prems obtain ps1 ps2 where ps: "candidate_pieces count ic = Inr ps1" "all_pieces count ics = Inr ps2" "ps = ps1 @ ps2"
    by (cases "all_pieces count ics") (auto split: sum.splits)
  have "\<forall>p\<in>set ps1. pcCand p = fst ic"
    using ps(1) by (cases "split_source count (candidate_source (snd ic)) 0") (auto simp: candidate_pieces_def Let_def split: if_splits)
  with Cons.IH [OF ps(2)] ps(3) show ?case by auto
qed simp

lemma build_leaves_ok:
  assumes "digest_ok digest" and "cands_sound cands mes" and "build_leaves digest count ns cands mes = Inr lv"
  shows "list_all (made_leaf_ok digest ns cands) (lsNodes lv)"
proof -
  obtain ps where ps: "all_pieces count (zip [0 ..< length cands] cands) = Inr ps" "lv = flush digest count ns cands (fold (addPiece digest count ns cands mes) ps leaf_start)"
    using assms(3) by (cases "all_pieces count (zip [0 ..< length cands] cands)") (auto simp: build_leaves_def)
  have "\<forall>p\<in>set ps. pcCand p < length cands" using all_pieces_cands [OF ps(1)] by (auto dest!: set_zip_leftD)
  then have "leaf_inv digest ns cands (fold (addPiece digest count ns cands mes) ps st)" if "leaf_inv digest ns cands st" for st
    using that by (induction ps arbitrary: st) (auto intro: addPiece_inv [OF assms(1,2)])
  moreover have "leaf_inv digest ns cands leaf_start" by (simp add: leaf_inv_def leaf_start_def)
  ultimately have "leaf_inv digest ns cands lv" unfolding ps(2) by (intro flush_inv(1) [OF assms(1,2)])
  then show ?thesis by (simp add: leaf_inv_def)
qed

lemma entries_valid: "digest_ok digest \<Longrightarrow> se \<in> set (anEntries (fresh_analysis digest count nsKey m)) \<Longrightarrow> pred_option validHash (seInput se) \<and> pred_option validHash (seOutput se)"
proof -
  assume ok: "digest_ok digest" and "se \<in> set (anEntries (fresh_analysis digest count nsKey m))"
  then obtain i p where "se \<in> set (part_entries digest count m (i, p))" by (auto simp: fresh_analysis_def analyze_def Let_def)
  then show ?thesis
    by (cases p) (auto simp: tool_entry_def text_entries_def valid_digests [OF ok] split: if_splits)
qed

lemma plan_cands_sound:
  assumes "digest_ok digest" and ids: "distinct (map mid ms)" and "list_all chatMessage_valid ms"
    and mes: "mes = map (message_events digest count (namespace_key opts)) (zip [0 ..< length ms] ms)"
    and cands: "\<forall>c\<in>set cands. candidate_ok digest count opts ms recent c"
  shows "cands_sound cands mes"
  unfolding cands_sound_def
proof
  fix c assume "c \<in> set cands"
  with cands have c: "cdIndex c < length ms" "cdMessage c = ms ! cdIndex c" "cdDigest c = contentDigest digest (cdMessage c)"
    "length (message_events digest count (namespace_key opts) (cdIndex c, cdMessage c)) \<le> 64" by (auto simp: candidate_ok_def)
  have es: "mes ! cdIndex c = message_events digest count (namespace_key opts) (cdIndex c, cdMessage c)" using c(1,2) by (simp add: mes)
  have "event_valid e \<and> msourceIds e = [mid (cdMessage c)] \<and> evDigests e = [cdDigest c]" if "e \<in> set (mes ! cdIndex c)" for e
    using that entries_valid [OF assms(1)] valid_digests [OF assms(1)] by (auto simp: es message_events_def entry_event_def event_valid_def c(3))
  moreover have "cdDigest c' = cdDigest c" if "c' \<in> set cands" "mid (cdMessage c') = mid (cdMessage c)" for c'
    using that cands c nth_eq_iff_index_eq [OF ids, of "cdIndex c'" "cdIndex c"] by (auto simp: candidate_ok_def)
  moreover have "chatMessage_valid (cdMessage c)" using assms(3) c(1,2) by (auto simp: list_all_iff)
  ultimately show "validHash (cdDigest c) \<and> chatMessage_valid (cdMessage c) \<and> length (mes ! cdIndex c) \<le> 64
      \<and> (\<forall>e\<in>set (mes ! cdIndex c). event_valid e \<and> msourceIds e = [mid (cdMessage c)] \<and> evDigests e = [cdDigest c])
      \<and> (\<forall>c'\<in>set cands. mid (cdMessage c') = mid (cdMessage c) \<longrightarrow> cdDigest c' = cdDigest c)"
    using c(3,4) es valid_digests(2) [OF assms(1)] by auto
qed

end
