(* ===== verification/Layered_Engine.thy ===== *)
theory Layered_Engine
  imports Layered_Result
begin

text \<open>
  The layered strategy of the archive engine, \<open>compressLayered\<close> of \<open>packages/headroomd/src/engine.ts\<close>: the visible nodes
  are read back, a plan is made, its sources are archived, then its nodes and last its manifest are
  written. \<open>json_size\<close> is the length in bytes of the JSON of the messages and the result, which the reserve is
  computed from.
\<close>

section \<open>The operation\<close>

record layeredParams = planParams +
  pyMemoryMax :: "rat option"
  pyMemoryRatio :: "rat option"

record layeredEngine =
  leStore :: headroomStore
  leNodes :: nodeDb
  leCache :: "layeredCache option"

datatype layeredFailure = PlanFailed layeredError | NodesFailed nodeError | ArchiveFailed archiveError

definition layered_options :: "nspace \<Rightarrow> layeredParams \<Rightarrow> layeredNode list \<Rightarrow> layeredOptions" where
  "layered_options ns params nodes =
     \<lparr>loSpace = ns, loWindow = ppWindow params, loTarget = ppTarget params, loRetain = Some (of_nat (ppRetain params)), loMemoryMax = pyMemoryMax params,
      loMemoryRatio = pyMemoryRatio params, loProtectedIds = ppProtectedIds params, loEpoch = ppEpoch params, loNodes = Some nodes\<rparr>"

definition wanted_ids :: "layeredPlan \<Rightarrow> jstring list" where
  "wanted_ids p = hrReplacedIds p @ concat (map (\<lambda>n. map srMessage (nRefs n)) (lpNodes p))"

definition layered_archive :: "(byte list \<Rightarrow> byte list) \<Rightarrow> chatMessage list \<Rightarrow> layeredPlan \<Rightarrow> archivePlan" where
  "layered_archive digest ms p =
     (let wanted = set (wanted_ids p); messages = filter (\<lambda>m. mid m \<in> wanted) ms
      in \<lparr>apTurns = filter (\<lambda>t. tmessages t \<noteq> []) (map (\<lambda>t. t\<lparr>tmessages := filter (\<lambda>m. mid m \<in> wanted) (tmessages t), tmessageIds := filter (\<lambda>i. i \<in> wanted) (tmessageIds t)\<rparr>) (splitTurns ms)),
          apMessages = messages, apHashes = map (contentDigest digest) messages, apHistoryHash = or_empty (hrHistoryHash p),
          apSummary = or_empty (hrSummary p), apSummaryTokens = nat (hrSummaryTokens p)\<rparr>)"

text \<open>An error of the planner leaves the analyses of the scan in the cache.\<close>

definition scanned_cache :: "(byte list \<Rightarrow> byte list) \<Rightarrow> (jstring \<Rightarrow> nat) \<Rightarrow> jstring \<Rightarrow> chatMessage list \<Rightarrow> layeredOptions \<Rightarrow> layeredCache option \<Rightarrow> layeredCache option" where
  "scanned_cache digest count cid ms opts cache =
     (case validateOptions opts of Inl e \<Rightarrow> cache | Inr u \<Rightarrow> scCache (scan_messages digest count cid (namespace_key opts) ms cache))"

text \<open>The writes of a plan: sources, nodes, manifest.\<close>

definition persist_layered :: "(byte list \<Rightarrow> byte list) \<Rightarrow> (byte list \<Rightarrow> byte list) \<Rightarrow> writeEnv \<Rightarrow> jstring \<Rightarrow> nat \<Rightarrow> nspace \<Rightarrow> chatMessage list \<Rightarrow> layeredPlan
    \<Rightarrow> layeredEngine \<Rightarrow> (layeredFailure, layeredPlan) result \<times> layeredEngine" where
  "persist_layered digest gzip wenv dataDir now ns ms p e =
     (let plan = layered_archive digest ms p
      in case persistArchive digest gzip wenv dataDir ns plan (hrRaw p) now (leStore e) of
           (Inl err, st1) \<Rightarrow> (Inl (ArchiveFailed err), e\<lparr>leStore := st1\<rparr>)
         | (Inr u, st1) \<Rightarrow>
             (case saveNodes digest (hsMeta st1) ns (lpNodes p) (leNodes e) of
                (Inl err, db) \<Rightarrow> (Inl (NodesFailed err), e\<lparr>leStore := st1, leNodes := db\<rparr>)
              | (Inr u, db) \<Rightarrow>
                  (case saveManifest ns (headroomResult.truncate p) (List.map_filter (\<lambda>m. map_option ahistoryHash (marchive m)) (apMessages plan)) (hsMeta st1) of
                     Inl err \<Rightarrow> (Inl (ArchiveFailed err), e\<lparr>leStore := st1, leNodes := db\<rparr>)
                   | Inr meta \<Rightarrow> (Inr p, e\<lparr>leStore := st1\<lparr>hsMeta := meta\<rparr>, leNodes := db\<rparr>))))"

definition compressLayered :: "(byte list \<Rightarrow> byte list) \<Rightarrow> (byte list \<Rightarrow> byte list) \<Rightarrow> (jstring \<Rightarrow> nat) \<Rightarrow> (jstring \<Rightarrow> jstring) \<Rightarrow> (jstring \<Rightarrow> bool) \<Rightarrow> jstring
    \<Rightarrow> (chatMessage list \<Rightarrow> layeredPlan \<Rightarrow> nat) \<Rightarrow> writeEnv \<Rightarrow> jstring \<Rightarrow> nat \<Rightarrow> nat \<Rightarrow> nat \<Rightarrow> nspace \<Rightarrow> layeredParams \<Rightarrow> layeredEngine
    \<Rightarrow> (layeredFailure, layeredPlan) result \<times> layeredEngine" where
  "compressLayered digest gzip count lower term_char cid json_size wenv dataDir used maxStorage now ns params e =
     (case nodesForView digest (leNodes e) ns (concat (map visible_nodes (ppMessages params))) of
        Inl err \<Rightarrow> (Inl (NodesFailed err), e)
      | Inr nodes \<Rightarrow>
          (let opts = layered_options ns params nodes
           in case buildLayeredPlan digest count lower term_char cid (ppMessages params) opts (leCache e) of
                Inl err \<Rightarrow> (Inl (PlanFailed err), e\<lparr>leCache := scanned_cache digest count cid (ppMessages params) opts (leCache e)\<rparr>)
              | Inr (p, cache) \<Rightarrow>
                  (let e1 = e\<lparr>leCache := cache\<rparr>
                   in if \<not> hrCompacted p \<or> or_empty (hrHistoryHash p) = [] then (Inr p, e1)
                      else if \<not> hasHistoryMeta (hsMeta (leStore e)) ns (or_empty (hrHistoryHash p))
                              \<and> maxStorage < used + (json_size (apMessages (layered_archive digest (ppMessages params) p)) p * 16 + 256 * 1024)
                      then (Inl (ArchiveFailed CapacityExceeded), e1)
                      else persist_layered digest gzip wenv dataDir now ns (ppMessages params) p e1)))"

section \<open>Nodes that the tables accept\<close>

text \<open>Nodes whose refs are evidence, whose children are known, lower and stored or about to be stored.\<close>

definition node_sane :: "(byte list \<Rightarrow> byte list) \<Rightarrow> nspace \<Rightarrow> layeredNode \<Rightarrow> bool" where
  "node_sane digest ns n \<longleftrightarrow> layeredNode_valid n \<and> validateIdentity digest n \<and> nSpace n = ns"

lemma save_each_accepts:
  assumes "nodes_sound digest meta db" and "sorted (map nLevel L)"
    and "\<forall>n\<in>set L. node_sane digest ns n \<and> (\<forall>r\<in>set (nRefs n). ownsCasMeta meta ns (srHash r))
      \<and> (\<forall>c\<in>set (nChildren n). \<exists>m. nId m = c \<and> nLevel m < nLevel n \<and> (m \<in> set L \<or> jmap_get (ndNodes db) (ns, c) = Some m))"
    and "\<forall>n\<in>set L. jmap_get (ndNodes db) (ns, nId n) \<in> {None, Some n} \<and> (\<forall>m\<in>set L. nId m = nId n \<longrightarrow> m = n)"
  shows "\<exists>db'. save_each digest meta ns L db = Inr db'"
  using assms
proof (induction L arbitrary: db)
  case (Cons n L)
  note sound = Cons.prems(1)
  have sane: "layeredNode_valid n" "validateIdentity digest n" "nSpace n = ns" "list_all (\<lambda>r. ownsCasMeta meta ns (srHash r)) (nRefs n)"
    using Cons.prems(3) by (auto simp: node_sane_def list_all_iff)
  have kid: "\<exists>m. jmap_get (ndNodes db) (ns, c) = Some m \<and> nLevel m < nLevel n" if c: "c \<in> set (nChildren n)" for c
  proof -
    obtain m where m: "nId m = c" "nLevel m < nLevel n" "m \<in> set (n # L) \<or> jmap_get (ndNodes db) (ns, c) = Some m"
      using Cons.prems(3) [THEN bspec, of n, THEN conjunct2, THEN conjunct2, THEN bspec, OF _ c] by auto
    moreover have "m \<notin> set (n # L)" using Cons.prems(2) m(2) by (auto simp: not_less)
    ultimately show ?thesis by blast
  qed
  have "check_children digest db ns (nLevel n) cs = Inr ()" if "set cs \<subseteq> set (nChildren n)" for cs
    using that
  proof (induction cs)
    case (Cons c cs)
    with kid [of c] obtain m where "jmap_get (ndNodes db) (ns, c) = Some m" "\<not> nLevel n \<le> nLevel m" by (auto simp: not_le)
    with Cons show ?case by (simp add: sound_read [OF sound])
  qed simp
  moreover have "jmap_get (ndNodes db) (ns, nId n) \<in> {None, Some n}" using Cons.prems(4) by simp
  ultimately obtain d where d: "saveNode digest meta ns n db = Inr d"
    using sane by (auto simp: saveNode_def sound_read [OF Cons.prems(1)])
  note eff = saveNode_effect(7) [OF Cons.prems(1) d] and keep = saveNode_keeps [OF Cons.prems(1) d]
  have get: "jmap_get (ndNodes d) k = (if k = (ns, nId n) then Some n else jmap_get (ndNodes db) k)" for k by (simp add: eff)
  have "\<exists>db'. save_each digest meta ns L d = Inr db'"
  proof (rule Cons.IH [OF saveNode_sound [OF Cons.prems(1) d]])
    show "sorted (map nLevel L)" using Cons.prems(2) by simp
    show "\<forall>x\<in>set L. jmap_get (ndNodes d) (ns, nId x) \<in> {None, Some x} \<and> (\<forall>m\<in>set L. nId m = nId x \<longrightarrow> m = x)"
      using Cons.prems(4) by (auto simp: get)
    show "\<forall>x\<in>set L. node_sane digest ns x \<and> (\<forall>r\<in>set (nRefs x). ownsCasMeta meta ns (srHash r))
      \<and> (\<forall>c\<in>set (nChildren x). \<exists>m. nId m = c \<and> nLevel m < nLevel x \<and> (m \<in> set L \<or> jmap_get (ndNodes d) (ns, c) = Some m))"
    proof
      fix x assume x: "x \<in> set L"
      have "\<exists>m. nId m = c \<and> nLevel m < nLevel x \<and> (m \<in> set L \<or> jmap_get (ndNodes d) (ns, c) = Some m)" if c: "c \<in> set (nChildren x)" for c
      proof -
        obtain m where "nId m = c" "nLevel m < nLevel x" "m = n \<or> m \<in> set L \<or> jmap_get (ndNodes db) (ns, c) = Some m"
          using Cons.prems(3) [THEN bspec, of x, THEN conjunct2, THEN conjunct2, THEN bspec, OF _ c] x by auto
        then show ?thesis using keep(1) [of "(ns, c)" m] keep(2) by (intro exI [of _ m]) auto
      qed
      with Cons.prems(3) x show "node_sane digest ns x \<and> (\<forall>r\<in>set (nRefs x). ownsCasMeta meta ns (srHash r))
        \<and> (\<forall>c\<in>set (nChildren x). \<exists>m. nId m = c \<and> nLevel m < nLevel x \<and> (m \<in> set L \<or> jmap_get (ndNodes d) (ns, c) = Some m))" by simp
    qed
  qed
  with d show ?case by simp
qed simp

text \<open>Every frontier the merging goes through.\<close>

function frontiers :: "(byte list \<Rightarrow> byte list) \<Rightarrow> (jstring \<Rightarrow> nat) \<Rightarrow> nspace \<Rightarrow> (jstring, layeredNode) jmap \<Rightarrow> layeredNode list \<Rightarrow> layeredNode list \<Rightarrow> nat \<Rightarrow> layeredNode list" where
  "frontiers digest count ns available frontier nodes parents =
     frontier @ (if length frontier < 4 then []
      else let st = merge_pass digest count ns available frontier \<lparr>mgNext = [], mgNodes = nodes, mgParents = parents, mgMerged = False\<rparr>
           in mgNext st @ (if \<not> mgMerged st then [] else frontiers digest count ns available (mgNext st) (mgNodes st) (mgParents st)))"
  by pat_completeness auto
termination
proof (relation "measure (\<lambda>(digest, count, ns, available, frontier, nodes, parents). length frontier)", goal_cases)
  case (2 digest count ns available frontier nodes parents st)
  then show ?case using merge_pass_length [of digest count ns available frontier
    "\<lparr>mgNext = [], mgNodes = nodes, mgParents = parents, mgMerged = False\<rparr>"] by simp
qed simp

declare frontiers.simps [simp del]

text \<open>A node is placed when it is one of the new nodes or its id is that of an available one; \<open>F\<close> holds the nodes of the
  frontiers and \<open>E\<close> says which refs are evidence.\<close>

definition placed :: "layeredNode set \<Rightarrow> (jstring, layeredNode) jmap \<Rightarrow> layeredNode list \<Rightarrow> layeredNode \<Rightarrow> bool" where
  "placed F available nodes n \<longleftrightarrow> n \<in> F \<and> (n \<in> set nodes \<or> jmap_get available (nId n) \<noteq> None)"

definition supported :: "(byte list \<Rightarrow> byte list) \<Rightarrow> nspace \<Rightarrow> (sourceRef \<Rightarrow> bool) \<Rightarrow> layeredNode set \<Rightarrow> (jstring, layeredNode) jmap \<Rightarrow> layeredNode list \<Rightarrow> layeredNode \<Rightarrow> bool" where
  "supported digest ns E F available nodes n \<longleftrightarrow> node_sane digest ns n \<and> n \<in> F \<and> (\<forall>r\<in>set (nRefs n). E r)
     \<and> (\<forall>c\<in>set (nChildren n). \<exists>m. nId m = c \<and> nLevel m < nLevel n \<and> placed F available nodes m)"

lemma placed_mono: "placed F available nodes n \<Longrightarrow> set nodes \<subseteq> set nodes' \<Longrightarrow> placed F available nodes' n"
  by (auto simp: placed_def)

lemma supported_mono: "supported digest ns E F available nodes n \<Longrightarrow> set nodes \<subseteq> set nodes' \<Longrightarrow> supported digest ns E F available nodes' n"
  unfolding supported_def using placed_mono by blast

lemma parent_node_supported:
  assumes "digest_ok digest" and "mergeable ns4" and "\<forall>m\<in>set ns4. node_sane digest ns m \<and> placed F available nodes m" and "parent_node digest count ns ns4 \<in> F"
  shows "supported digest ns E F available nodes (parent_node digest count ns ns4)"
proof -
  let ?n = "parent_node digest count ns ns4"
  have fields: "nChildren ?n = map nId ns4" "nRefs ?n = []" "nEvents ?n = None" "nSpace ?n = ns" "nLevel ?n = nLevel (hd ns4) + 1" "validHash (nId ?n)"
    "validateIdentity digest ?n"
    using valid_digests(3) [OF assms(1)] by (simp_all add: parent_node_def Let_def validate_made) (simp_all add: makeNode_def)
  have "node_sane digest ns ?n"
    using assms(3) by (auto simp: node_sane_def layeredNode_valid_def fields list_all_iff)
  moreover have "nLevel m < nLevel ?n" if "m \<in> set ns4" for m using that assms(2) by (auto simp: fields mergeable_def list_all_iff)
  ultimately show ?thesis using assms(3,4) by (auto simp: supported_def fields)
qed

definition merge_inv :: "(byte list \<Rightarrow> byte list) \<Rightarrow> nspace \<Rightarrow> (sourceRef \<Rightarrow> bool) \<Rightarrow> layeredNode set \<Rightarrow> (jstring, layeredNode) jmap \<Rightarrow> layeredNode list \<Rightarrow> layeredNode list \<Rightarrow> bool" where
  "merge_inv digest ns E F available frontier nodes \<longleftrightarrow>
     (\<forall>m\<in>set frontier. node_sane digest ns m \<and> placed F available nodes m) \<and> (\<forall>n\<in>set nodes. supported digest ns E F available nodes n)"

lemma add_parent_inv:
  assumes "digest_ok digest" and "mergeable ns4" and "set ns4 \<subseteq> set frontier" and inv: "merge_inv digest ns E F available (frontier @ mgNext st) (mgNodes st)"
    and F: "parent_node digest count ns ns4 \<in> F" and st': "st' = add_parent available (parent_node digest count ns ns4) st"
  shows "merge_inv digest ns E F available (frontier @ mgNext st') (mgNodes st')"
proof -
  let ?n = "parent_node digest count ns ns4"
  have "\<forall>m\<in>set ns4. node_sane digest ns m \<and> placed F available (mgNodes st) m" using inv assms(3) by (auto simp: merge_inv_def)
  note sup = parent_node_supported [OF assms(1,2) this F, of E]
  have "set (mgNodes st) \<subseteq> set (mgNodes st')" "\<forall>n\<in>set (mgNodes st'). n = ?n \<or> n \<in> set (mgNodes st)" "mgNext st' = mgNext st @ [?n]" "placed F available (mgNodes st') ?n"
    using F by (auto simp: st' add_parent_def Let_def placed_def)
  moreover have "supported digest ns E F available (mgNodes st') n" if "n \<in> set (mgNodes st')" for n
    using calculation(1,2) that inv sup supported_mono unfolding merge_inv_def by metis
  ultimately show ?thesis
    using inv sup unfolding merge_inv_def by (auto simp: supported_def [of _ _ _ _ _ _ ?n] intro: placed_mono)
qed

lemma merge_pass_next: "set (mgNext st) \<subseteq> set (mgNext (merge_pass digest count ns available frontier st))"
  by (induction digest count ns available frontier st rule: merge_pass.induct) (auto simp: add_parent_def Let_def)

lemma merge_pass_inv:
  assumes "digest_ok digest" and "merge_inv digest ns E F available (frontier @ mgNext st) (mgNodes st)"
    and "set (mgNext (merge_pass digest count ns available frontier st)) \<subseteq> F"
  shows "merge_inv digest ns E F available (mgNext (merge_pass digest count ns available frontier st)) (mgNodes (merge_pass digest count ns available frontier st))"
  using assms
proof (induction digest count ns available frontier st rule: merge_pass.induct)
  case (2 digest' count ns available n ns' st)
  show ?case
  proof (cases "mergeable (take 4 (n # ns'))")
    case True
    let ?st1 = "add_parent available (parent_node digest' count ns (take 4 (n # ns'))) st"
    have sub: "set (take 4 (n # ns')) \<subseteq> set (n # ns')" by (rule set_take_subset)
    have F: "set (mgNext (merge_pass digest' count ns available (drop 4 (n # ns')) ?st1)) \<subseteq> F" using 2(5) True by simp
    have "parent_node digest' count ns (take 4 (n # ns')) \<in> set (mgNext ?st1)" by (simp add: add_parent_def Let_def)
    with merge_pass_next F have "parent_node digest' count ns (take 4 (n # ns')) \<in> F" by blast
    from add_parent_inv [OF 2(3) True sub 2(4) this refl]
    have "merge_inv digest' ns E F available (drop 4 (n # ns') @ mgNext ?st1) (mgNodes ?st1)"
      using set_drop_subset [of 4 "n # ns'"] by (auto simp: merge_inv_def)
    with 2(1) [OF True 2(3) _ F] True show ?thesis by simp
  next
    case False
    have "merge_inv digest' ns E F available (ns' @ mgNext (st\<lparr>mgNext := mgNext st @ [n]\<rparr>)) (mgNodes (st\<lparr>mgNext := mgNext st @ [n]\<rparr>))"
      using 2(4) by (auto simp: merge_inv_def)
    with 2(2) [OF False 2(3)] 2(5) False show ?thesis by simp
  qed
qed simp

lemma hierarchy_inv:
  assumes "digest_ok digest" and "merge_inv digest ns E F available frontier nodes" and "set (frontiers digest count ns available frontier nodes parents) \<subseteq> F"
  shows "\<forall>n\<in>set (fst (hierarchy digest count ns available frontier nodes parents)).
    supported digest ns E F available (fst (hierarchy digest count ns available frontier nodes parents)) n"
  using assms
proof (induction digest count ns available frontier nodes parents rule: hierarchy.induct)
  case (1 digest count ns available frontier nodes parents)
  show ?case
  proof (cases "length frontier < 4")
    case True
    with 1(3) show ?thesis by (simp add: hierarchy.simps merge_inv_def)
  next
    case False
    let ?st = "merge_pass digest count ns available frontier \<lparr>mgNext = [], mgNodes = nodes, mgParents = parents, mgMerged = False\<rparr>"
    have F: "set (mgNext ?st) \<subseteq> F" using 1(4) False by (simp add: frontiers.simps [of digest count ns available frontier] Let_def)
    have inv: "merge_inv digest ns E F available (mgNext ?st) (mgNodes ?st)" by (rule merge_pass_inv [OF 1(2) _ F]) (use 1(3) in simp)
    show ?thesis
    proof (cases "mgMerged ?st")
      case True
      then have "set (frontiers digest count ns available (mgNext ?st) (mgNodes ?st) (mgParents ?st)) \<subseteq> F"
        using 1(4) False by (simp add: frontiers.simps [of digest count ns available frontier] Let_def)
      with True 1(1) [OF False refl _ 1(2) inv] False show ?thesis by (simp add: hierarchy.simps [of digest count ns available frontier] Let_def)
    next
      case no: False
      with inv False show ?thesis by (simp add: hierarchy.simps [of digest count ns available frontier] Let_def merge_inv_def)
    qed
  qed
qed

text \<open>The roots of the visible graph are available nodes.\<close>

lemma restore_view_roots: "set (exRoots (restore_view available recent ms events)) \<subseteq> set (map snd available)"
proof -
  have get: "x \<in> set (map snd available)" if "jmap_get available i = Some x" for i x using map_of_SomeD [OF that] by force
  have add: "set (exRoots (addExisting available merge i st)) \<subseteq> set (map snd available)" if "set (exRoots st) \<subseteq> set (map snd available)" for merge i st
    using that get [of i] by (cases "jmap_get available i") (simp_all add: addExisting_def Let_def)
  have row: "set (exRoots (fold (addExisting available merge) is st)) \<subseteq> set (map snd available)" if "set (exRoots st) \<subseteq> set (map snd available)" for merge "is" st
    using that by (induction "is" arbitrary: st) (simp_all add: add [simplified])
  have "set (exRoots (fold (\<lambda>(index, m) st. fold (addExisting available (index < recent)) (visible_nodes m) st) rows st)) \<subseteq> set (map snd available)"
    if "set (exRoots st) \<subseteq> set (map snd available)" for rows st
    using that by (induction rows arbitrary: st) (simp_all add: row [simplified] case_prod_unfold)
  then show ?thesis by (simp add: restore_view_def)
qed

lemma available_pairs:
  assumes "(k, b) \<in> set (available_nodes digest opts)"
  shows "k = nId b \<and> b \<in> set (case loNodes opts of None \<Rightarrow> [] | Some ns \<Rightarrow> ns) \<and> validateIdentity digest b"
proof -
  have keep: "\<forall>(k, n)\<in>set (fold (\<lambda>n. jmap_set (nId n) n) ns m). k = nId n \<and> (n \<in> set ns \<or> (k, n) \<in> set m)" if "\<forall>(k, n)\<in>set m. k = nId n" for ns and m :: "(jstring, layeredNode) jmap"
    using that
  proof (induction ns arbitrary: m)
    case (Cons x ns)
    have "\<forall>(k, n)\<in>set (jmap_set (nId x) x m). k = nId n \<and> (n = x \<or> (k, n) \<in> set m)" using Cons.prems by (auto dest!: set_jmap_set)
    with Cons.IH [of "jmap_set (nId x) x m"] show ?case by fastforce
  qed auto
  from assms keep [of "[]"] have "k = nId b" "b \<in> set (filter (\<lambda>n. canonicalJSON (space_json (nSpace n)) = namespace_key opts \<and> validateIdentity digest n) (case loNodes opts of None \<Rightarrow> [] | Some ns \<Rightarrow> ns))"
    unfolding available_nodes_def by fastforce+
  then show ?thesis by auto
qed

lemma available_key: "jmap_get (available_nodes digest opts) k = Some b \<Longrightarrow> nId b = k \<and> b \<in> set (case loNodes opts of None \<Rightarrow> [] | Some ns \<Rightarrow> ns)"
  by (drule map_of_SomeD, drule available_pairs) auto

lemma available_nodes_sane:
  assumes "b \<in> set (map snd (available_nodes digest opts))"
  shows "b \<in> set (case loNodes opts of None \<Rightarrow> [] | Some ns \<Rightarrow> ns) \<and> validateIdentity digest b \<and> jmap_get (available_nodes digest opts) (nId b) \<noteq> None"
proof -
  from assms obtain k where k: "(k, b) \<in> set (available_nodes digest opts)" by auto
  from available_pairs [OF k] weak_map_of_SomeI [OF k] show ?thesis by auto
qed

lemma view_stored:
  assumes "nodes_sound digest meta db" and "view_loop digest db ns visited found queue = Inr nodes" and "\<forall>n\<in>set found. jmap_get (ndNodes db) (ns, nId n) = Some n"
  shows "\<forall>n\<in>set nodes. jmap_get (ndNodes db) (ns, nId n) = Some n"
  using assms
proof (induction digest db ns visited found queue rule: view_loop.induct)
  case (2 digest db ns visited found i queue)
  show ?case
  proof (cases "i \<in> set visited")
    case True
    with 2 show ?thesis by simp
  next
    case new: False
    then have room: "\<not> 16384 \<le> length visited" using 2(5) by (auto split: if_splits)
    show ?thesis
    proof (cases "jmap_get (ndNodes db) (ns, i)")
      case None
      with 2(2) [OF new room _ _ 2(4)] 2(5,6) new room show ?thesis by (simp add: sound_read [OF 2(4)])
    next
      case (Some n)
      with sound_get [OF 2(4) Some] have "jmap_get (ndNodes db) (ns, nId n) = Some n" by (simp add: node_ok_def)
      with 2(3) [OF new room _ _ 2(4)] 2(5,6) new room Some show ?thesis by (simp add: sound_read [OF 2(4)])
    qed
  qed
qed simp

section \<open>The rows of a plan\<close>

definition rows_fit :: "archivePlan \<Rightarrow> nspace \<Rightarrow> metaDb \<Rightarrow> bool" where
  "rows_fit plan ns db \<longleftrightarrow> (\<forall>r\<in>set (archiveRefs db). row_space r = ns \<and> mrHistory r = apHistoryHash plan \<longrightarrow>
     (\<exists>r'\<in>set (meta_rows plan ns 0). row_key r' = row_key r \<and> mrHash r' = mrHash r))"

lemma new_rows_fit: "\<not> hasHistoryMeta db ns (apHistoryHash plan) \<Longrightarrow> rows_fit plan ns db"
  by (auto simp: rows_fit_def hasHistoryMeta_def list_ex_iff)

lemma meta_rows_at:
  assumes "length (apHashes plan) = length (apMessages plan)"
  obtains base where "length (meta_rows plan ns now) = length (apMessages plan)"
    "\<And>i. i < length (apMessages plan) \<Longrightarrow> row_key (meta_rows plan ns now ! i) = (ns, apHistoryHash plan, base + i) \<and> mrHash (meta_rows plan ns now ! i) = apHashes plan ! i"
    "\<And>i. i < length (apMessages plan) \<Longrightarrow> row_key (meta_rows plan ns 0 ! i) = (ns, apHistoryHash plan, base + i) \<and> mrHash (meta_rows plan ns 0 ! i) = apHashes plan ! i"
    "length (meta_rows plan ns 0) = length (apMessages plan)"
  using assms by (intro that [of "case apTurns plan of [] \<Rightarrow> 0 | t # ts \<Rightarrow> tstart t"]) (auto simp: meta_rows_def row_key_def row_space_def Let_def)

lemma persist_owns:
  assumes fit: "rows_fit plan ns (hsMeta st)" and len: "length (apHashes plan) = length (apMessages plan)" and h: "h \<in> set (apHashes plan)"
    and per: "persistArchive digest gzip wenv d ns plan raw now st = (Inr (), st1)"
  shows "ownsCasMeta (hsMeta st1) ns h"
proof -
  obtain base where rows: "length (meta_rows plan ns now) = length (apMessages plan)" "length (meta_rows plan ns 0) = length (apMessages plan)"
    "\<And>i. i < length (apMessages plan) \<Longrightarrow> row_key (meta_rows plan ns now ! i) = (ns, apHistoryHash plan, base + i) \<and> mrHash (meta_rows plan ns now ! i) = apHashes plan ! i"
    "\<And>i. i < length (apMessages plan) \<Longrightarrow> row_key (meta_rows plan ns 0 ! i) = (ns, apHistoryHash plan, base + i) \<and> mrHash (meta_rows plan ns 0 ! i) = apHashes plan ! i"
    using meta_rows_at [OF len, of ns now] by metis
  obtain i where i: "i < length (apMessages plan)" "h = apHashes plan ! i" using h len by (auto simp: in_set_conv_nth)
  have refs: "archiveRefs (hsMeta st1) = fold (insert_or_ignore row_key) (meta_rows plan ns now) (archiveRefs (hsMeta st))"
    using per by (auto simp: persist_rows Let_def insertCasMetaRows_def writeDerivedRows_def archiveRefs_fold split: prod.splits option.splits)
  have "row_key (meta_rows plan ns now ! i) \<in> row_key ` set (meta_rows plan ns now)" using i(1) rows(1) by simp
  from fold_ignore_key [OF this, of "archiveRefs (hsMeta st)"] obtain r where r: "r \<in> set (archiveRefs (hsMeta st1))" "row_key r = (ns, apHistoryHash plan, base + i)"
    using rows(3) [OF i(1)] by (auto simp: refs)
  have "mrHash r = h"
  proof (cases "r \<in> set (archiveRefs (hsMeta st))")
    case True
    then obtain r' where "r' \<in> set (meta_rows plan ns 0)" "row_key r' = row_key r" "mrHash r' = mrHash r"
      using fit r(2) by (auto simp: rows_fit_def row_key_def)
    with rows(2,4) r(2) i show ?thesis by (auto simp: in_set_conv_nth)
  next
    case False
    with r(1) have "r \<in> set (meta_rows plan ns now)" by (auto simp: refs dest: fold_ignore_set)
    with rows(1,3) r(2) i show ?thesis by (auto simp: in_set_conv_nth)
  qed
  moreover have "row_space r = ns" using r(2) by (simp add: row_key_def)
  ultimately show ?thesis using r(1) by (auto simp: ownsCasMeta_def list_ex_iff)
qed

lemma owns_manifests [simp]: "ownsCasMeta (db\<lparr>manifests := x\<rparr>) n h = ownsCasMeta db n h"
  by (simp add: ownsCasMeta_def)

lemma persist_monotone:
  assumes "persistArchive digest gzip wenv d ns plan raw now st = (res, st1)" and "ownsCasMeta (hsMeta st) ns' h"
  shows "ownsCasMeta (hsMeta st1) ns' h"
proof -
  have "archiveRefs (hsMeta st1) = archiveRefs (hsMeta st) \<or> archiveRefs (hsMeta st1) = fold (insert_or_ignore row_key) (meta_rows plan ns now) (archiveRefs (hsMeta st))"
    using assms(1) by (auto simp: persist_rows Let_def insertCasMetaRows_def writeDerivedRows_def archiveRefs_fold split: prod.splits option.splits)
  with assms(2) fold_ignore_keeps [of _ "archiveRefs (hsMeta st)" row_key "meta_rows plan ns now"] show ?thesis
    by (auto simp: ownsCasMeta_def list_ex_iff)
qed

text \<open>More evidence never makes the node tables unsound.\<close>

lemma nodes_sound_mono:
  assumes "nodes_sound digest meta db" and "\<And>ns h. ownsCasMeta meta ns h \<Longrightarrow> ownsCasMeta meta' ns h"
  shows "nodes_sound digest meta' db"
  using assms by (auto simp: nodes_sound_def node_ok_def list_all_iff)


lemma view_error: "nodes_sound digest meta db \<Longrightarrow> view_loop digest db ns visited found queue = Inl err \<Longrightarrow> err = GraphCapacity"
proof (induction digest db ns visited found queue rule: view_loop.induct)
  case (2 digest db ns visited found i queue)
  then show ?case by (auto simp: sound_read [OF 2(4)] split: if_splits option.splits)
qed simp

section \<open>The nodes of a plan are accepted\<close>

definition formed :: "(byte list \<Rightarrow> byte list) \<Rightarrow> (jstring \<Rightarrow> nat) \<Rightarrow> layeredOptions \<Rightarrow> planParts \<Rightarrow> layeredNode list" where
  "formed digest count opts pp =
     (if plan_target opts < int (scRaw (ppScan pp))
      then frontiers digest count (loSpace opts) (available_nodes digest opts) (exRoots (ppExisting pp) @ lsNodes (ppLeaves pp)) (lsNodes (ppLeaves pp)) 0
      else lsNodes (ppLeaves pp))"

definition formed_nodes :: "(byte list \<Rightarrow> byte list) \<Rightarrow> (jstring \<Rightarrow> nat) \<Rightarrow> jstring \<Rightarrow> chatMessage list \<Rightarrow> layeredOptions \<Rightarrow> layeredCache option \<Rightarrow> layeredNode list" where
  "formed_nodes digest count cid ms opts cache = (case plan_parts digest count cid ms opts cache of Inl e \<Rightarrow> [] | Inr pp \<Rightarrow> formed digest count opts pp)"

text \<open>The nodes a plan forms, and those that are stored, are told apart by their ids.\<close>

definition no_collision :: "nodeDb \<Rightarrow> nspace \<Rightarrow> layeredNode list \<Rightarrow> bool" where
  "no_collision db ns nodes \<longleftrightarrow> (\<forall>n\<in>set nodes. jmap_get (ndNodes db) (ns, nId n) \<in> {None, Some n} \<and> (\<forall>m\<in>set nodes. nId m = nId n \<longrightarrow> m = n))"

lemma plan_parts_nodes:
  assumes "plan_parts digest count cid ms opts cache = Inr pp"
  shows "build_leaves digest count (loSpace opts) (ppCands pp) (scMessageEvents (ppScan pp)) = Inr (ppLeaves pp)"
    "set (exRoots (ppExisting pp)) \<subseteq> set (map snd (available_nodes digest opts))"
    "ppNodes pp = (if plan_target opts < int (scRaw (ppScan pp))
      then fst (hierarchy digest count (loSpace opts) (available_nodes digest opts) (exRoots (ppExisting pp) @ lsNodes (ppLeaves pp)) (lsNodes (ppLeaves pp)) 0)
      else lsNodes (ppLeaves pp))"
proof -
  show "build_leaves digest count (loSpace opts) (ppCands pp) (scMessageEvents (ppScan pp)) = Inr (ppLeaves pp)"
    "set (exRoots (ppExisting pp)) \<subseteq> set (map snd (available_nodes digest opts))"
    using plan_parts_facts(4,5) [OF assms] restore_view_roots by metis+
  show "ppNodes pp = (if plan_target opts < int (scRaw (ppScan pp))
      then fst (hierarchy digest count (loSpace opts) (available_nodes digest opts) (exRoots (ppExisting pp) @ lsNodes (ppLeaves pp)) (lsNodes (ppLeaves pp)) 0)
      else lsNodes (ppLeaves pp))"
    using assms by (auto simp: plan_parts_def Let_def split: sum.splits prod.splits if_splits)
qed

lemma plan_supported:
  assumes ok: "digest_ok digest" and pp: "plan_parts digest count cid ms opts cache = Inr pp" and sound: "cands_sound (ppCands pp) (scMessageEvents (ppScan pp))"
    and nodes: "\<forall>n\<in>set (case loNodes opts of None \<Rightarrow> [] | Some ns \<Rightarrow> ns). node_sane digest (loSpace opts) n" and n: "n \<in> set (ppNodes pp)"
  shows "supported digest (loSpace opts) (\<lambda>r. \<exists>c\<in>set (ppCands pp). srMessage r = mid (cdMessage c) \<and> srHash r = cdDigest c) (set (formed digest count opts pp))
    (available_nodes digest opts) (ppNodes pp) n"
proof -
  let ?av = "available_nodes digest opts" and ?leaves = "lsNodes (ppLeaves pp)" and ?roots = "exRoots (ppExisting pp)"
  let ?E = "\<lambda>r. \<exists>c\<in>set (ppCands pp). srMessage r = mid (cdMessage c) \<and> srHash r = cdDigest c" and ?F = "set (formed digest count opts pp)"
  note facts = plan_parts_nodes [OF pp]
  have leaf: "node_sane digest (loSpace opts) l" "\<forall>r\<in>set (nRefs l). ?E r" "nChildren l = []" if "l \<in> set ?leaves" for l
    using build_leaves_ok [OF ok sound facts(1)] that by (auto simp: list_all_iff made_leaf_ok_def node_sane_def)
  have root: "node_sane digest (loSpace opts) b" "jmap_get ?av (nId b) \<noteq> None" if "b \<in> set ?roots" for b
    using available_nodes_sane [of b digest opts] that facts(2) nodes by blast+
  show ?thesis
  proof (cases "plan_target opts < int (scRaw (ppScan pp))")
    case True
    have F: "?F = set (frontiers digest count (loSpace opts) ?av (?roots @ ?leaves) ?leaves 0)" by (simp add: formed_def True)
    have front: "set (?roots @ ?leaves) \<subseteq> ?F" unfolding F by (subst frontiers.simps) auto
    have "merge_inv digest (loSpace opts) ?E ?F ?av (?roots @ ?leaves) ?leaves"
      using leaf root front by (auto simp: merge_inv_def placed_def supported_def)
    from hierarchy_inv [OF ok this, of count 0] F n show ?thesis by (simp add: facts(3) True)
  next
    case False
    with leaf n show ?thesis by (simp add: facts(3) formed_def supported_def)
  qed
qed

lemma plan_nodes_accepted:
  assumes ok: "digest_ok digest" and pp: "plan_parts digest count cid ms opts cache = Inr pp" and sound: "cands_sound (ppCands pp) (scMessageEvents (ppScan pp))"
    and db: "nodes_sound digest meta db" and nodes: "loNodes opts = Some nodes" "\<forall>n\<in>set nodes. jmap_get (ndNodes db) (loSpace opts, nId n) = Some n"
    and coll: "no_collision db (loSpace opts) (formed digest count opts pp)"
    and owns: "\<And>n r. n \<in> set (ppNodes pp) \<Longrightarrow> r \<in> set (nRefs n) \<Longrightarrow> \<exists>c\<in>set (ppCands pp). srMessage r = mid (cdMessage c) \<and> srHash r = cdDigest c \<Longrightarrow> ownsCasMeta meta (loSpace opts) (srHash r)"
  shows "\<exists>db'. saveNodes digest meta (loSpace opts) (ppNodes pp) db = (Inr (), db')"
proof -
  let ?L = "sort_key nLevel (sort_key nId (ppNodes pp))" and ?ns = "loSpace opts"
  have "\<forall>n\<in>set nodes. node_sane digest ?ns n" using sound_get [OF db nodes(2) [rule_format]] by (auto simp: node_ok_def node_sane_def)
  with nodes(1) have sup: "supported digest ?ns (\<lambda>r. \<exists>c\<in>set (ppCands pp). srMessage r = mid (cdMessage c) \<and> srHash r = cdDigest c) (set (formed digest count opts pp))
      (available_nodes digest opts) (ppNodes pp) n" if "n \<in> set (ppNodes pp)" for n
    using plan_supported [OF ok pp sound _ that] by simp
  have coll': "jmap_get (ndNodes db) (?ns, nId n) \<in> {None, Some n}" "m \<in> set (formed digest count opts pp) \<Longrightarrow> nId m = nId n \<Longrightarrow> m = n"
    if "n \<in> set (formed digest count opts pp)" for n m using coll that by (auto simp: no_collision_def)
  have child: "m \<in> set (ppNodes pp) \<or> jmap_get (ndNodes db) (?ns, nId m) = Some m"
    if "placed (set (formed digest count opts pp)) (available_nodes digest opts) (ppNodes pp) m" for m
  proof (cases "m \<in> set (ppNodes pp)")
    case False
    with that obtain b where b: "jmap_get (available_nodes digest opts) (nId m) = Some b" and F: "m \<in> set (formed digest count opts pp)" by (auto simp: placed_def)
    from available_key [OF b] nodes have "nId b = nId m" "jmap_get (ndNodes db) (?ns, nId b) = Some b" by auto
    with coll'(1) [OF F] show ?thesis by auto
  qed simp
  have "\<exists>db'. save_each digest meta ?ns ?L db = Inr db'"
  proof (rule save_each_accepts [OF db])
    show "sorted (map nLevel ?L)" by simp
    show "\<forall>n\<in>set ?L. node_sane digest ?ns n \<and> (\<forall>r\<in>set (nRefs n). ownsCasMeta meta ?ns (srHash r))
      \<and> (\<forall>c\<in>set (nChildren n). \<exists>m. nId m = c \<and> nLevel m < nLevel n \<and> (m \<in> set ?L \<or> jmap_get (ndNodes db) (?ns, c) = Some m))"
    proof
      fix n assume "n \<in> set ?L"
      then have n: "n \<in> set (ppNodes pp)" by simp
      from sup [OF n] owns [OF n] child show "node_sane digest ?ns n \<and> (\<forall>r\<in>set (nRefs n). ownsCasMeta meta ?ns (srHash r))
        \<and> (\<forall>c\<in>set (nChildren n). \<exists>m. nId m = c \<and> nLevel m < nLevel n \<and> (m \<in> set ?L \<or> jmap_get (ndNodes db) (?ns, c) = Some m))"
        unfolding supported_def by (simp only: set_sort) metis
    qed
    show "\<forall>n\<in>set ?L. jmap_get (ndNodes db) (?ns, nId n) \<in> {None, Some n} \<and> (\<forall>m\<in>set ?L. nId m = nId n \<longrightarrow> m = n)"
    proof
      fix n assume "n \<in> set ?L"
      then have "n \<in> set (formed digest count opts pp)" using sup by (simp add: supported_def)
      with coll' sup show "jmap_get (ndNodes db) (?ns, nId n) \<in> {None, Some n} \<and> (\<forall>m\<in>set ?L. nId m = nId n \<longrightarrow> m = n)"
        unfolding supported_def by (simp only: set_sort) metis
    qed
  qed
  then show ?thesis by (auto simp: saveNodes_def)
qed


section \<open>Writing a plan\<close>

lemma compacting_plan:
  assumes "buildLayeredPlan digest count lower term_char cid ms opts cache = Inr (p, cache')" and "hrCompacted p"
    and ok: "digest_ok digest" and cache: "cache_faithful digest count cid (namespace_key opts) (set ms) cache" and valid: "list_all chatMessage_valid ms"
  obtains pp h where "plan_parts digest count cid ms opts cache = Inr pp" "cands_sound (ppCands pp) (scMessageEvents (ppScan pp))" "lpNodes p = ppNodes pp"
    "\<forall>c\<in>set (ppCands pp). \<exists>m\<in>set ms. mid m = mid (cdMessage c) \<and> contentDigest digest m = cdDigest c"
    "headroomCompressResult_valid (headroomResult.truncate p)" "hrHistoryHash p = Some h" "h \<noteq> []" "hrDigests p \<noteq> None" "distinct (map mid ms)"
proof -
  obtain pp where pp: "plan_parts digest count cid ms opts cache = Inr pp" "p = plan_outcome digest count lower term_char cid ms opts pp"
    using assms(1) by (auto simp: buildLayeredPlan_def split: sum.splits)
  note scan = plan_scan [OF cache pp(1)] and f = outcome_fields [of digest count lower term_char cid ms opts pp, folded pp(2)]
  have "fst (materialize_plan digest ms (outcome_ops digest count lower term_char ms opts pp) (plan_snapshot ms (scAnalyses (ppScan pp)))) = Applied"
    "outcome_ops digest count lower term_char ms opts pp \<noteq> []"
    using assms(2) f(1) by blast+
  then obtain out where "materializeOperations digest ms (outcome_ops digest count lower term_char ms opts pp) (Some (plan_snapshot ms (scAnalyses (ppScan pp)))) = (Applied, out)"
    by (auto simp: materialize_plan_def prod_eq_iff)
  then have ids: "distinct (map mid ms)" by (rule applied_run)
  have "distinct (map mid (take (source_end ms) ms))" using distinct_take [OF ids] by (simp add: take_map)
  then have res: "headroomCompressResult_valid (headroomResult.truncate p)" unfolding pp(2) by (rule result_valid [OF ok _ scan(1,2,4)])
  have hash: "hrHistoryHash p = Some (plan_hash digest (loSpace opts) (plan_snapshot ms (scAnalyses (ppScan pp))) (outcome_ops digest count lower term_char ms opts pp))"
    using f(9) assms(2) by simp
  have "validHash (plan_hash digest (loSpace opts) (plan_snapshot ms (scAnalyses (ppScan pp))) (outcome_ops digest count lower term_char ms opts pp))"
    using valid_digests(1) [OF ok] by (simp add: plan_hash_def)
  then have ne: "plan_hash digest (loSpace opts) (plan_snapshot ms (scAnalyses (ppScan pp))) (outcome_ops digest count lower term_char ms opts pp) \<noteq> []" by (auto simp: validHash_def)
  have cands: "\<forall>c\<in>set (ppCands pp). \<exists>m\<in>set ms. mid m = mid (cdMessage c) \<and> contentDigest digest m = cdDigest c"
    using scan(4) by (force simp: candidate_ok_def)
  show ?thesis
    by (rule that [OF pp(1) plan_cands_sound [OF ok ids valid scan(3,4)] _ cands res hash ne _ ids]) (use f(7,18) assms(2) in simp_all)
qed

text \<open>After the sources are archived, nodes and manifest are accepted.\<close>

lemma persist_layered_complete:
  assumes plan: "buildLayeredPlan digest count lower term_char cid ms opts cache = Inr (p, cache')" "hrCompacted p" and ok: "digest_ok digest" "gzip_ok gzip gunzip" "only_adds env"
    and cache: "cache_faithful digest count cid (namespace_key opts) (set ms) cache" and ms: "list_all storable ms"
    and db: "nodes_sound digest (hsMeta (leStore e)) (leNodes e)" and nodes: "loNodes opts = Some nodes" "\<forall>n\<in>set nodes. jmap_get (ndNodes (leNodes e)) (loSpace opts, nId n) = Some n"
    and coll: "no_collision (leNodes e) (loSpace opts) (formed_nodes digest count cid ms opts cache)"
    and fit: "rows_fit (layered_archive digest ms p) (loSpace opts) (hsMeta (leStore e))"
    and run: "persist_layered digest gzip wenv dataDir now (loSpace opts) ms p e = (res, e')"
  shows "(\<exists>x. res = Inl (ArchiveFailed (ObjectError x)) \<and> leNodes e' = leNodes e) \<or>
    res = Inr p \<and> nodes_sound digest (hsMeta (leStore e')) (leNodes e') \<and> (\<exists>h. hrHistoryHash p = Some h \<and> getManifest (hsMeta (leStore e')) (loSpace opts) h = Inr (Some (headroomResult.truncate p)))
      \<and> (\<forall>n\<in>set (lpNodes p). jmap_get (ndNodes (leNodes e')) (loSpace opts, nId n) = Some n)
      \<and> (\<forall>m\<in>set ms. mid m \<in> set (wanted_ids p) \<longrightarrow> ownsCasMeta (hsMeta (leStore e')) (loSpace opts) (contentDigest digest m)
          \<and> readMessageObject digest gunzip env dataDir (contentDigest digest m) (hsFiles (leStore e')) = Inr (Some m))"
proof -
  let ?ns = "loSpace opts" and ?plan = "layered_archive digest ms p"
  have "list_all chatMessage_valid ms" using ms by (auto simp: list_all_iff storable_def)
  with plan ok(1) cache obtain pp h where pp: "plan_parts digest count cid ms opts cache = Inr pp" "cands_sound (ppCands pp) (scMessageEvents (ppScan pp))" "lpNodes p = ppNodes pp"
    "\<forall>c\<in>set (ppCands pp). \<exists>m\<in>set ms. mid m = mid (cdMessage c) \<and> contentDigest digest m = cdDigest c"
    "headroomCompressResult_valid (headroomResult.truncate p)" "hrHistoryHash p = Some h" "h \<noteq> []" "hrDigests p \<noteq> None" by (rule compacting_plan)
  have msgs: "apMessages ?plan = filter (\<lambda>m. mid m \<in> set (wanted_ids p)) ms" "apHashes ?plan = map (contentDigest digest) (apMessages ?plan)"
    by (simp_all add: layered_archive_def Let_def)
  obtain pres st1 where per: "persistArchive digest gzip wenv dataDir ?ns ?plan (hrRaw p) now (leStore e) = (pres, st1)" by (metis surj_pair)
  show ?thesis
  proof (cases pres)
    case (Inl err)
    moreover from this per have "\<exists>x. err = ObjectError x" by (auto simp: persist_rows Let_def split: prod.splits option.splits)
    ultimately show ?thesis using run per by (auto simp: persist_layered_def Let_def)
  next
    case (Inr u)
    then have per': "persistArchive digest gzip wenv dataDir ?ns ?plan (hrRaw p) now (leStore e) = (Inr (), st1)" using per by simp
    have owned: "ownsCasMeta (hsMeta st1) ?ns (contentDigest digest m)" if "m \<in> set ms" "mid m \<in> set (wanted_ids p)" for m
      by (rule persist_owns [OF fit _ _ per']) (use that msgs in simp_all)
    have sound: "nodes_sound digest (hsMeta st1) (leNodes e)" by (rule nodes_sound_mono [OF db persist_monotone [OF per]])
    have "\<exists>db'. saveNodes digest (hsMeta st1) ?ns (ppNodes pp) (leNodes e) = (Inr (), db')"
    proof (rule plan_nodes_accepted [OF ok(1) pp(1,2) sound nodes])
      show "no_collision (leNodes e) ?ns (formed digest count opts pp)" using coll by (simp add: formed_nodes_def pp(1))
      show "ownsCasMeta (hsMeta st1) ?ns (srHash r)"
        if "n \<in> set (ppNodes pp)" "r \<in> set (nRefs n)" "\<exists>c\<in>set (ppCands pp). srMessage r = mid (cdMessage c) \<and> srHash r = cdDigest c" for n r
      proof -
        from that(3) pp(4) obtain m where m: "m \<in> set ms" "mid m = srMessage r" "contentDigest digest m = srHash r" by metis
        have "mid m \<in> set (wanted_ids p)" using that(1,2) m(2) pp(3) by (auto simp: wanted_ids_def)
        from owned [OF m(1) this] m(3) show ?thesis by simp
      qed
    qed
    then obtain db' where save: "saveNodes digest (hsMeta st1) ?ns (lpNodes p) (leNodes e) = (Inr (), db')" using pp(3) by auto
    then have each: "save_each digest (hsMeta st1) ?ns (sort_key nLevel (sort_key nId (lpNodes p))) (leNodes e) = Inr db'" by (auto simp: saveNodes_def split: sum.splits)
    note stored = save_each_sound [OF sound each]
    let ?meta = "(hsMeta st1)\<lparr>manifests := jmap_set (?ns, h) (headroomResult.truncate p, remdups (List.map_filter (\<lambda>m. map_option ahistoryHash (marchive m)) (apMessages ?plan))) (manifests (hsMeta st1))\<rparr>"
    have "saveManifest ?ns (headroomResult.truncate p) (List.map_filter (\<lambda>m. map_option ahistoryHash (marchive m)) (apMessages ?plan)) (hsMeta st1) = Inr ?meta"
      using pp(5-8) plan(2) by (auto simp: saveManifest_def)
    then have e': "res = Inr p" "e' = e\<lparr>leStore := st1\<lparr>hsMeta := ?meta\<rparr>, leNodes := db'\<rparr>" using run per' save by (auto simp: persist_layered_def Let_def)
    have "getManifest ?meta ?ns h = Inr (Some (headroomResult.truncate p))" using pp(5) by (simp add: getManifest_def map_of_jmap_set)
    moreover have "nodes_sound digest ?meta db'" by (rule nodes_sound_mono [OF stored [THEN conjunct1]]) simp
    moreover have "readMessageObject digest gunzip env dataDir (contentDigest digest m) (hsFiles st1) = Inr (Some m)" if "m \<in> set (apMessages ?plan)" for m
    proof -
      obtain f where w: "write_objects digest gzip wenv dataDir 0 (zip (apMessages ?plan) (apHashes ?plan)) (hsFiles (leStore e)) = (None, f)" "hsFiles st1 = f"
        using per' by (auto simp: persist_rows Let_def insertCasMetaRows_def writeDerivedRows_def split: prod.splits option.splits)
      show ?thesis using write_objects_stored [OF w(1)] zip_digests [OF msgs(2), of m "contentDigest digest m"] that ms msgs(1)
        by (intro read_stored [OF ok(2) _ ok(3)]) (auto simp: w(2) list_all_iff)
    qed
    ultimately show ?thesis using stored owned pp(6) msgs(1) by (simp add: e' list_all_iff)
  qed
qed


text \<open>C18: A layered compression loses nothing it takes out of the view and never stops half way for a reason of its own. When the
  call succeeds with a compacting plan, every message that the plan replaces or that one of its nodes cites
  is owned by the session and reads back whole, every node is stored as planned, the manifest reads back as
  the plan, and the node tables stay sound. When it fails, the reason is the planner, a view of too many
  nodes, the storage limit or a failed write of an object; in all these cases no node was written. In
  particular the nodes of a plan always pass the checks of the tables: schema, identity, evidence, levels.
  The nodes formed and stored are told apart by their ids, as a digest without collisions does.\<close>

theorem layered_archive_complete:
  assumes run: "compressLayered digest gzip count lower term_char cid json_size wenv dataDir used maxStorage now ns params e = (out, e')"
    and ok: "digest_ok digest" "gzip_ok gzip gunzip" "only_adds env" and ms: "list_all storable (ppMessages params)"
    and db: "nodes_sound digest (hsMeta (leStore e)) (leNodes e)"
    and cache: "cache_faithful digest count cid (canonicalJSON (space_json ns)) (set (ppMessages params)) (leCache e)"
    and coll: "\<forall>nodes. nodesForView digest (leNodes e) ns (concat (map visible_nodes (ppMessages params))) = Inr nodes \<longrightarrow>
      no_collision (leNodes e) ns (formed_nodes digest count cid (ppMessages params) (layered_options ns params nodes) (leCache e))"
    and fit: "\<forall>nodes p c. nodesForView digest (leNodes e) ns (concat (map visible_nodes (ppMessages params))) = Inr nodes \<longrightarrow>
      buildLayeredPlan digest count lower term_char cid (ppMessages params) (layered_options ns params nodes) (leCache e) = Inr (p, c) \<longrightarrow>
      rows_fit (layered_archive digest (ppMessages params) p) ns (hsMeta (leStore e))"
  shows "case out of
      Inl (PlanFailed err) \<Rightarrow> leStore e' = leStore e \<and> leNodes e' = leNodes e
    | Inl (NodesFailed err) \<Rightarrow> err = GraphCapacity \<and> e' = e
    | Inl (ArchiveFailed err) \<Rightarrow> (err = CapacityExceeded \<or> (\<exists>x. err = ObjectError x)) \<and> leNodes e' = leNodes e
    | Inr p \<Rightarrow> nodes_sound digest (hsMeta (leStore e')) (leNodes e') \<and> (hrCompacted p \<longrightarrow>
        (\<exists>h. hrHistoryHash p = Some h \<and> getManifest (hsMeta (leStore e')) ns h = Inr (Some (headroomResult.truncate p)))
        \<and> (\<forall>n\<in>set (lpNodes p). jmap_get (ndNodes (leNodes e')) (ns, nId n) = Some n)
        \<and> (\<forall>m\<in>set (ppMessages params). mid m \<in> set (wanted_ids p) \<longrightarrow> ownsCasMeta (hsMeta (leStore e')) ns (contentDigest digest m)
            \<and> readMessageObject digest gunzip env dataDir (contentDigest digest m) (hsFiles (leStore e')) = Inr (Some m)))"
proof (cases "nodesForView digest (leNodes e) ns (concat (map visible_nodes (ppMessages params)))")
  case (Inl err)
  with run view_error [OF db, of ns] show ?thesis by (auto simp: compressLayered_def nodesForView_def)
next
  case (Inr nodes)
  let ?opts = "layered_options ns params nodes" and ?ms = "ppMessages params"
  have opts: "loSpace ?opts = ns" "loNodes ?opts = Some nodes" "namespace_key ?opts = canonicalJSON (space_json ns)" by (simp_all add: layered_options_def namespace_key_def)
  have stored: "\<forall>n\<in>set nodes. jmap_get (ndNodes (leNodes e)) (loSpace ?opts, nId n) = Some n"
    using view_stored [OF db] Inr by (simp add: nodesForView_def opts)
  show ?thesis
  proof (cases "buildLayeredPlan digest count lower term_char cid ?ms ?opts (leCache e)")
    case plan: (Inl err)
    with Inr run show ?thesis by (auto simp: compressLayered_def Let_def)
  next
    case plan: (Inr pc)
    obtain p c where pc: "pc = (p, c)" by (cases pc)
    have plan': "buildLayeredPlan digest count lower term_char cid ?ms ?opts (leCache e) = Inr (p, c)" using plan pc by simp
    let ?e1 = "e\<lparr>leCache := c\<rparr>"
    show ?thesis
    proof (cases "hrCompacted p")
      case False
      with Inr plan' run db show ?thesis by (auto simp: compressLayered_def Let_def)
    next
      case True
      have "list_all chatMessage_valid ?ms" using ms by (auto simp: list_all_iff storable_def)
      with plan' True ok(1) cache obtain h where h: "hrHistoryHash p = Some h" "h \<noteq> []" using compacting_plan [of digest count lower term_char cid ?ms ?opts "leCache e" p c] opts(3) by metis
      obtain res e2 where per: "persist_layered digest gzip wenv dataDir now (loSpace ?opts) ?ms p ?e1 = (res, e2)" by (metis surj_pair)
      have "out = Inl (ArchiveFailed CapacityExceeded) \<and> e' = ?e1 \<or> out = res \<and> e' = e2"
        using Inr plan' run True h per by (auto simp: compressLayered_def Let_def opts or_empty_def split: if_splits)
      moreover have "no_collision (leNodes ?e1) (loSpace ?opts) (formed_nodes digest count cid ?ms ?opts (leCache e))" using coll Inr by (simp add: opts)
      moreover have "rows_fit (layered_archive digest ?ms p) (loSpace ?opts) (hsMeta (leStore ?e1))" using fit Inr plan' by (auto simp: opts)
      ultimately show ?thesis
        using persist_layered_complete [OF plan' True ok _ ms _ opts(2) _ _ _ per] cache db stored opts(1,3) by auto
    qed
  qed
qed


section \<open>A sample\<close>

definition sample_params :: layeredParams where
  "sample_params = \<lparr>ppMessages = demo_messages [126], ppWindow = 1000, ppTarget = Some 1000, ppEpoch = None, ppProtectedIds = None, ppRetain = 0,
     pyMemoryMax = Some 0, pyMemoryRatio = Some 0\<rparr>"

definition sample_engine :: layeredEngine where
  "sample_engine = \<lparr>leStore = empty_store, leNodes = empty_nodes, leCache = None\<rparr>"

abbreviation (input) sample_space :: nspace where "sample_space \<equiv> (js ''p'', js ''s'')"

definition sample_call :: "(layeredFailure, layeredPlan) result \<times> layeredEngine" where
  "sample_call = compressLayered zero (\<lambda>bs. bs) (demo_count 100) (\<lambda>t. t) (\<lambda>_. False) [] (\<lambda>_ _. 0) (\<lambda>_. (None, js ''u'')) (js ''/d'') 0 1000000 0
     sample_space sample_params sample_engine"

lemma sample_view: "nodesForView zero (leNodes sample_engine) sample_space (concat (map visible_nodes (ppMessages sample_params))) = Inr []"
proof -
  have "view_loop zero empty_nodes ns visited [] queue = Inr []" if "distinct (visited @ queue)" "length (visited @ queue) \<le> 16384" for ns visited queue
    using that by (induction queue arbitrary: visited) (auto simp: readNode_def empty_nodes_def)
  moreover have "concat (map visible_nodes (ppMessages sample_params)) = []" by code_simp
  ultimately show ?thesis unfolding nodesForView_def by (simp only: sample_engine_def layeredEngine.simps remdups.simps rev.simps) simp
qed

lemma sample_options: "layered_options sample_space sample_params [] = demo_options"
  by (simp add: layered_options_def sample_params_def demo_options_def)

lemma sample_storable: "list_all storable (ppMessages sample_params)"
  by code_simp

lemma sample_parts:
  assumes "plan_parts zero (demo_count 100) [] (demo_messages [126]) demo_options None = Inr pp"
  shows "ppCands pp = [demo_candidate 100 [126]]" "length (lsNodes (ppLeaves pp)) = 1" "\<not> plan_target demo_options < int (scRaw (ppScan pp))"
proof -
  note parts = plan_parts_facts [OF assms]
  show cands: "ppCands pp = [demo_candidate 100 [126]]" using demo_cands [OF demo_outputs(1) parts(1)] parts(3) by simp
  show "length (lsNodes (ppLeaves pp)) = 1" using demo_leaves [of "loSpace demo_options" "scMessageEvents (ppScan pp)"] parts(4) cands by auto
  note scan = scan_facts [of zero "demo_count 100" "[]" "namespace_key demo_options" "set (demo_messages [126])" None "demo_messages [126]", folded parts(1)]
  have raw: "scRaw (ppScan pp) = 102" using scan by (simp add: cache_faithful_def) code_simp
  have "102 \<le> plan_target demo_options" by code_simp
  then show "\<not> plan_target demo_options < int (scRaw (ppScan pp))" by (simp add: raw)
qed

lemma sample_unique: "no_collision empty_nodes sample_space (formed_nodes zero (demo_count 100) [] (demo_messages [126]) demo_options None)"
proof (cases "plan_parts zero (demo_count 100) [] (demo_messages [126]) demo_options None")
  case (Inr pp)
  note parts = sample_parts [OF Inr]
  from parts(2) obtain n where "lsNodes (ppLeaves pp) = [n]" by (auto simp: length_Suc_conv)
  with Inr parts(3) show ?thesis by (simp add: no_collision_def formed_nodes_def formed_def empty_nodes_def)
qed (simp add: no_collision_def formed_nodes_def)

text \<open>The plan of the sample touches the output of the tool and nothing else, and its object can be written.\<close>

lemma sample_wanted:
  assumes "buildLayeredPlan zero (demo_count 100) (\<lambda>t. t) (\<lambda>_. False) [] (demo_messages [126]) demo_options None = Inr (p, c)" and "hrCompacted p"
  shows "set (wanted_ids p) = {js ''a''}"
proof -
  have ok: "digest_ok zero" by (simp add: digest_ok_def)
  have cache: "cache_faithful zero (demo_count 100) [] nsKey M None" for nsKey M by (simp add: cache_faithful_def)
  have "list_all chatMessage_valid (demo_messages [126])" using sample_storable by (auto simp: list_all_iff storable_def sample_params_def)
  from compacting_plan [OF assms ok cache this] obtain pp where pp: "plan_parts zero (demo_count 100) [] (demo_messages [126]) demo_options None = Inr pp"
    "cands_sound (ppCands pp) (scMessageEvents (ppScan pp))" "lpNodes p = ppNodes pp" by metis
  have p: "p = plan_outcome zero (demo_count 100) (\<lambda>t. t) (\<lambda>_. False) [] (demo_messages [126]) demo_options pp"
    using assms(1) pp(1) by (auto simp: buildLayeredPlan_def split: sum.splits)
  note cands = sample_parts(1) [OF pp(1)]
  have tool: "mid (cdMessage (demo_candidate 100 [126])) = js ''a''" "cdIndex (demo_candidate 100 [126]) = 1" by (simp_all add: demo_candidate_def demo_tool_def)
  have "hrReplacedIds p = map (\<lambda>i. mid (demo_messages [126] ! i)) (affected pp (demo_messages [126]))"
    using outcome_fields(6) [of zero "demo_count 100" "\<lambda>t. t" "\<lambda>_. False" "[]" "demo_messages [126]" demo_options pp] assms(2)
    by (simp add: affected_rows_fresh [OF plan_scan(1) [OF cache pp(1)]] comp_def flip: p)
  then have "set (hrReplacedIds p) = {js ''a''}" by (auto simp: affected_def cands tool demo_messages_def demo_tool_def)
  moreover have "srMessage r = js ''a''" if "n \<in> set (lpNodes p)" "r \<in> set (nRefs n)" for n r
    using build_leaves_ok [OF ok pp(2) plan_parts_nodes(1) [OF pp(1)]] that pp(3) plan_parts_nodes(3) [OF pp(1)] sample_parts(3) [OF pp(1)]
    by (auto simp: list_all_iff made_leaf_ok_def cands tool)
  ultimately show ?thesis by (auto simp: wanted_ids_def)
qed

lemma sample_written:
  "fst (write_objects zero (\<lambda>bs. bs) (\<lambda>_. (None, js ''u'')) (js ''/d'') 0 [(demo_tool [126], zeros)] (\<lambda>_. None)) = None"
  by code_simp

lemma sample_succeeds:
  assumes plan: "buildLayeredPlan zero (demo_count 100) (\<lambda>t. t) (\<lambda>_. False) [] (demo_messages [126]) demo_options None = Inr (p, c)" "hrCompacted p"
  shows "fst sample_call = Inr p"
proof -
  let ?arch = "layered_archive zero (demo_messages [126]) p" and ?e1 = "sample_engine\<lparr>leCache := c\<rparr>"
  have ok: "digest_ok zero" "gzip_ok (\<lambda>bs. bs) Some" "only_adds (\<lambda>f. f)" by (simp_all add: digest_ok_def gzip_ok_def only_adds_def)
  have cache: "cache_faithful zero (demo_count 100) [] nsKey M None" for nsKey M by (simp add: cache_faithful_def)
  have ms: "list_all storable (demo_messages [126])" using sample_storable by (simp add: sample_params_def)
  have "apMessages ?arch = [demo_tool [126]]"
    by (simp add: layered_archive_def sample_wanted [OF plan] Let_def) (simp add: demo_messages_def demo_user_def demo_tool_def js_def)
  moreover from this have "apHashes ?arch = [zeros]" using zero_hash(2) [of "demo_tool [126]"] by (simp add: layered_archive_def Let_def)
  ultimately have per: "\<exists>st1. persistArchive zero (\<lambda>bs. bs) (\<lambda>_. (None, js ''u'')) (js ''/d'') sample_space ?arch (hrRaw p) 0 (leStore ?e1) = (Inr (), st1)"
    using sample_written by (auto simp: persist_rows Let_def sample_engine_def empty_store_def split: prod.splits option.splits)
  have "list_all chatMessage_valid (demo_messages [126])" using ms by (auto simp: list_all_iff storable_def)
  from compacting_plan [OF plan ok(1) cache this] obtain h where h: "hrHistoryHash p = Some h" "h \<noteq> []" by metis
  obtain res e2 where run: "persist_layered zero (\<lambda>bs. bs) (\<lambda>_. (None, js ''u'')) (js ''/d'') 0 sample_space (demo_messages [126]) p ?e1 = (res, e2)" by (metis surj_pair)
  have call: "sample_call = (res, e2)"
    unfolding sample_call_def compressLayered_def sample_view sum.case Let_def sample_options
    using plan h run by (simp add: sample_params_def sample_engine_def or_empty_def)
  have "loSpace demo_options = sample_space" "loNodes demo_options = Some []" by (simp_all add: demo_options_def)
  moreover have "rows_fit ?arch sample_space (hsMeta (leStore ?e1))" by (simp add: rows_fit_def sample_engine_def empty_store_def empty_meta_def)
  moreover have "nodes_sound zero (hsMeta (leStore ?e1)) (leNodes ?e1)" by (simp add: sample_engine_def empty_nodes_sound)
  moreover have "no_collision (leNodes ?e1) sample_space (formed_nodes zero (demo_count 100) [] (demo_messages [126]) demo_options None)" using sample_unique by (simp add: sample_engine_def)
  ultimately have "(\<exists>x. res = Inl (ArchiveFailed (ObjectError x))) \<or> res = Inr p"
    using persist_layered_complete [OF plan ok cache ms, of ?e1 "[]" "\<lambda>_. (None, js ''u'')" "js ''/d''" 0 res e2] run by auto
  moreover have "res \<noteq> Inl (ArchiveFailed (ObjectError x))" for x
    using run per by (auto simp: persist_layered_def Let_def saveManifest_def split: prod.splits sum.splits option.splits if_splits)
  ultimately show ?thesis by (auto simp: call)
qed

theorem layered_archive_complete_witness:
  "\<exists>p e'. sample_call = (Inr p, e') \<and> hrCompacted p \<and> (\<forall>n\<in>set (lpNodes p). jmap_get (ndNodes (leNodes e')) (sample_space, nId n) = Some n)
    \<and> readMessageObject zero Some (\<lambda>f. f) (js ''/d'') zeros (hsFiles (leStore e')) = Inr (Some (demo_tool [126]))"
proof -
  obtain p c where plan: "buildLayeredPlan zero (demo_count 100) (\<lambda>t. t) (\<lambda>_. False) [] (demo_messages [126]) demo_options None = Inr (p, c)" "hrCompacted p"
    using demo_planned by blast
  obtain e' where run: "sample_call = (Inr p, e')" using sample_succeeds [OF plan] by (metis prod.collapse)
  have sub: "leCache sample_engine = None" "hsMeta (leStore sample_engine) = empty_meta" "leNodes sample_engine = empty_nodes" "ppMessages sample_params = demo_messages [126]"
    by (simp_all add: sample_engine_def empty_store_def sample_params_def)
  note view = sample_view [unfolded sub]
  have "hrCompacted p \<longrightarrow> (\<forall>n\<in>set (lpNodes p). jmap_get (ndNodes (leNodes e')) (sample_space, nId n) = Some n)
    \<and> (\<forall>m\<in>set (demo_messages [126]). mid m \<in> set (wanted_ids p) \<longrightarrow> readMessageObject zero Some (\<lambda>f. f) (js ''/d'') (contentDigest zero m) (hsFiles (leStore e')) = Inr (Some m))"
    using layered_archive_complete [OF run [unfolded sample_call_def], of Some "\<lambda>f. f"] sample_storable sample_unique
    by (simp add: view sample_options sub digest_ok_def gzip_ok_def only_adds_def empty_nodes_sound cache_faithful_def rows_fit_def empty_meta_def)
  moreover have "demo_tool [126] \<in> set (demo_messages [126])" "mid (demo_tool [126]) \<in> set (wanted_ids p)" using sample_wanted [OF plan] by (simp_all add: demo_messages_def demo_tool_def)
  ultimately show ?thesis using run plan(2) zero_hash(2) [of "demo_tool [126]"] by metis
qed

end
