(* ===== verification/Enhancement_Jobs.thy ===== *)
theory Enhancement_Jobs
  imports Enhancement
begin

text \<open>
  What the summary manager (\<open>packages/headroomd/src/enhancement.ts\<close>) promises over a whole run: its limits, the
  lifetime budget of a session, the entries that readers see, and that waiting for idleness ends. The
  locale \<open>entry_laws\<close> states what a property of the single accounts, work items and jobs has to satisfy so that
  every run keeps it; the budget and the entries are two instances.
\<close>

section \<open>Limits\<close>

text \<open>C11: The summary manager never runs more than two providers, never queues more than sixteen jobs and never holds more than
  128 sessions, 512 jobs or 128 cache entries, whatever is submitted, cancelled, read, restored or disposed in
  whatever order and whatever the providers answer. A session has at most one unfinished job, the accounts
  of a session never fall below what is reserved for it, no job waits while a permit is free unless a
  start is scheduled, and nobody waits for idleness when nothing is pending.\<close>

theorem enhancement_invariant:
  assumes "em_run digest count cid cfg evs st"
  shows "emRunning st \<le> 2 \<and> length (emQueue st) \<le> 16 \<and> length (emSessions st) \<le> 128 \<and> length (emJobs st) \<le> 512 \<and> length (emCache st) \<le> 128
    \<and> (\<forall>i j v w. jmap_get (emPending st) i = Some v \<longrightarrow> jmap_get (emPending st) j = Some w \<longrightarrow> pwSession v = pwSession w \<longrightarrow> i = j)
    \<and> (\<forall>k s. jmap_get (emSessions st) k = Some s \<longrightarrow> 0 \<le> snInput s \<and> 0 \<le> snOutput s
      \<and> (snActive s \<noteq> None \<longrightarrow> int (cfMaxIn cfg) \<le> snInput s \<and> int (cfMaxOut cfg) \<le> snOutput s))
    \<and> (emQueue st \<noteq> [] \<and> emRunning st < 2 \<longrightarrow> 0 < emPumps st)
    \<and> (emPending st = [] \<longrightarrow> emWaiters st = 0 \<and> emRunning st = 0)"
proof -
  note inv = em_run_inv [OF assms]
  note c = em_coreD [OF em_invD(1) [OF inv]]
  have "i = j" if "jmap_get (emPending st) i = Some v" "jmap_get (emPending st) j = Some w" "pwSession v = pwSession w" for i j v w
    using linkedD(1) [OF c(8) that(1)] linkedD(1) [OF c(8) that(2)] that(3) by auto
  moreover have "0 \<le> snInput s \<and> 0 \<le> snOutput s \<and> (snActive s \<noteq> None \<longrightarrow> int (cfMaxIn cfg) \<le> snInput s \<and> int (cfMaxOut cfg) \<le> snOutput s)"
    if "jmap_get (emSessions st) k = Some s" for k s using linkedD(3) [OF c(8) that] by (auto simp: held_def split: if_splits)
  moreover have "emWaiters st = 0 \<and> emRunning st = 0" if "emPending st = []" using c(5,12) that by (auto simp: started_def)
  ultimately show ?thesis using c(6,7,9-11) em_invD(3) [OF inv] by blast
qed

section \<open>Properties of single entries\<close>

definition em_all :: "(jstring \<Rightarrow> sumSession \<Rightarrow> bool) \<Rightarrow> (jstring \<Rightarrow> pendingWork \<Rightarrow> bool) \<Rightarrow> (jstring \<Rightarrow> enhJob \<Rightarrow> bool) \<Rightarrow> manager \<Rightarrow> bool" where
  "em_all PS PW PJ st \<longleftrightarrow> (\<forall>e\<in>set (emSessions st). PS (fst e) (snd e)) \<and> (\<forall>e\<in>set (emPending st). PW (fst e) (snd e)) \<and> (\<forall>e\<in>set (emJobs st). PJ (fst e) (snd e))"

lemma set_jmap_set_insert: "set (jmap_set k v m) \<subseteq> insert (k, v) (set m)"
  by (auto dest: set_jmap_set)

lemma set_jmap_delete: "set (jmap_delete k m) \<subseteq> set m"
  by (auto simp: jmap_delete_def)

lemma em_all_other [simp]: "em_all PS PW PJ (st\<lparr>emQueue := q\<rparr>) = em_all PS PW PJ st" "em_all PS PW PJ (st\<lparr>emRunning := r\<rparr>) = em_all PS PW PJ st"
  "em_all PS PW PJ (st\<lparr>emCache := y\<rparr>) = em_all PS PW PJ st" "em_all PS PW PJ (st\<lparr>emPumps := n\<rparr>) = em_all PS PW PJ st" "em_all PS PW PJ (st\<lparr>emWaiters := n\<rparr>) = em_all PS PW PJ st"
  "em_all PS PW PJ (st\<lparr>emDisposed := d\<rparr>) = em_all PS PW PJ st"
  by (simp_all add: em_all_def)

lemma em_all_get:
  assumes "em_all PS PW PJ st"
  shows "jmap_get (emSessions st) k = Some s \<Longrightarrow> PS k s" "jmap_get (emPending st) i = Some w \<Longrightarrow> PW i w" "jmap_get (emJobs st) i = Some job \<Longrightarrow> PJ i job"
  using assms by (force simp: em_all_def dest: map_of_SomeD)+

lemma em_all_set:
  assumes "em_all PS PW PJ st"
  shows "PS k s \<Longrightarrow> em_all PS PW PJ (st\<lparr>emSessions := jmap_set k s (emSessions st)\<rparr>)" "PW i w \<Longrightarrow> em_all PS PW PJ (st\<lparr>emPending := jmap_set i w (emPending st)\<rparr>)"
    "PJ i job \<Longrightarrow> em_all PS PW PJ (st\<lparr>emJobs := jmap_set i job (emJobs st)\<rparr>)"
  using assms set_jmap_set_insert [of k s "emSessions st"] set_jmap_set_insert [of i w "emPending st"] set_jmap_set_insert [of i job "emJobs st"] by (auto simp: em_all_def)

lemma em_all_delete:
  assumes "em_all PS PW PJ st"
  shows "em_all PS PW PJ (st\<lparr>emPending := jmap_delete i (emPending st)\<rparr>)" "em_all PS PW PJ (st\<lparr>emJobs := jmap_delete i (emJobs st)\<rparr>)"
  using assms set_jmap_delete [of i "emPending st"] set_jmap_delete [of i "emJobs st"] by (auto simp: em_all_def)

locale entry_laws =
  fixes count :: "jstring \<Rightarrow> nat" and cfg :: summaryConfig and ok :: "enhEvent \<Rightarrow> bool"
    and PS :: "jstring \<Rightarrow> sumSession \<Rightarrow> bool" and PW :: "jstring \<Rightarrow> pendingWork \<Rightarrow> bool" and PJ :: "jstring \<Rightarrow> enhJob \<Rightarrow> bool"
  assumes freed: "PS k s \<Longrightarrow> PS k (s\<lparr>snActive := None\<rparr>)"
    and refunded: "PS k s \<Longrightarrow> PS k (s\<lparr>snInput := snInput s + - int (cfMaxIn cfg), snOutput := snOutput s + - int (cfMaxOut cfg)\<rparr>)"
    and settles: "PS k s \<Longrightarrow> PJ i job \<Longrightarrow> ok (Drain i u) \<Longrightarrow>
      PS k (s\<lparr>snInput := snInput s + spent (fst (settled_usage u job)) (cfMaxIn cfg), snOutput := snOutput s + spent (snd (settled_usage u job)) (cfMaxOut cfg)\<rparr>)"
    and reserved: "snInput s + int (cfMaxIn cfg) \<le> int (cfSessionIn cfg) \<Longrightarrow> snOutput s + int (cfMaxOut cfg) \<le> int (cfSessionOut cfg) \<Longrightarrow>
      PS k \<lparr>snInput = snInput s + int (cfMaxIn cfg), snOutput = snOutput s + int (cfMaxOut cfg), snActive = a\<rparr>"
    and restored: "ok (Restore ns (x, y)) \<Longrightarrow> usageValue x = Some n \<Longrightarrow> usageValue y = Some m \<Longrightarrow> PS k \<lparr>snInput = int n, snOutput = int m, snActive = None\<rparr>"
    and raised: "PS k s \<Longrightarrow> PS k \<lparr>snInput = int n, snOutput = int m, snActive = None\<rparr> \<Longrightarrow> PS k (s\<lparr>snInput := max (snInput s) (int n), snOutput := max (snOutput s) (int m)\<rparr>)"
    and phased: "PW i w \<Longrightarrow> PW i (w\<lparr>pwPhase := p\<rparr>)" and aborted: "PW i w \<Longrightarrow> PW i (w\<lparr>pwAborted := b\<rparr>)"
    and opened: "ok (Submit i inp) \<Longrightarrow> \<not> source_invalid inp \<Longrightarrow>
      PW i \<lparr>pwSession = space_key (eiSpace inp), pwCache = ck, pwIds = eiIds inp, pwMaterial = count (eiMaterial inp), pwAborted = False, pwPhase = Waiting\<rparr>
      \<and> PJ i \<lparr>jbStatus = JQueued, jbKey = eiKey inp, jbSpace = eiSpace inp, jbResult = None, jbReason = None, jbUsage = None\<rparr>"
    and turned: "PJ i job \<Longrightarrow> t \<noteq> JCompleted \<Longrightarrow> PJ i (job\<lparr>jbStatus := t\<rparr>)" and reasoned: "PJ i job \<Longrightarrow> PJ i (job\<lparr>jbReason := r\<rparr>)"
    and emptied: "PJ i job \<Longrightarrow> jbStatus job \<noteq> JCompleted \<Longrightarrow> PJ i (job\<lparr>jbResult := None\<rparr>)"
    and used: "PJ i job \<Longrightarrow> ok (Drain i u) \<Longrightarrow> PJ i (job\<lparr>jbUsage := Some (settled_usage u job)\<rparr>)"
    and raced: "PW i w \<Longrightarrow> PJ i job \<Longrightarrow> ok (Race i outcome) \<Longrightarrow> PJ i (fst (race_job count cfg w outcome job))"
begin

lemma all_pump: "em_all PS PW PJ st \<Longrightarrow> em_all PS PW PJ (pump st)"
proof -
  have "em_all PS PW PJ (set_status JRunning i st)" if "em_all PS PW PJ st" for i st
    using em_all_get(3) [OF that] em_all_set(3) [OF that] turned that by (auto simp: set_status_def split: option.splits)
  moreover have "em_all PS PW PJ (set_phase Racing i st)" if "em_all PS PW PJ st" for i st
    using em_all_get(2) [OF that] em_all_set(2) [OF that] phased that by (auto simp: set_phase_def split: option.splits)
  ultimately have "em_all PS PW PJ st \<Longrightarrow> em_all PS PW PJ (start_next st)" for st by (simp add: start_next_def split: list.splits)
  then show "em_all PS PW PJ st \<Longrightarrow> ?thesis" by (simp add: pump_def)
qed

lemma all_release: "em_all PS PW PJ st \<Longrightarrow> em_all PS PW PJ (release i w st)"
proof -
  assume t: "em_all PS PW PJ st"
  have "em_all PS PW PJ (case jmap_get (emSessions st) (pwSession w) of None \<Rightarrow> st | Some s \<Rightarrow> st\<lparr>emSessions := jmap_set (pwSession w) (s\<lparr>snActive := None\<rparr>) (emSessions st)\<rparr>)"
    using em_all_get(1) [OF t] em_all_set(1) [OF t] freed t by (auto split: option.splits)
  from em_all_delete(1) [OF this, of i] show ?thesis unfolding release_def Let_def by (simp split del: option.split) (metis em_all_other(5))
qed

lemma all_charge:
  assumes t: "em_all PS PW PJ st" and "\<And>s. PS k s \<Longrightarrow> PS k (s\<lparr>snInput := snInput s + a, snOutput := snOutput s + b\<rparr>)"
  shows "em_all PS PW PJ (charge k a b st)"
  using t assms(2) [OF em_all_get(1) [OF t]] by (auto simp: charge_def intro!: em_all_set(1) split: option.splits)

lemma all_cancel: "em_all PS PW PJ st \<Longrightarrow> em_all PS PW PJ (cancel cfg i st)"
proof -
  assume t: "em_all PS PW PJ st"
  show ?thesis
  proof (cases "jmap_get (emPending st) i = None \<or> jmap_get (emJobs st) i = None")
    case True
    then have "cancel cfg i st = st" by (auto simp: cancel_def split: option.splits)
    with t show ?thesis by simp
  next
    case False
    then obtain w job where wj: "jmap_get (emPending st) i = Some w" "jmap_get (emJobs st) i = Some job" by (metis not_None_eq)
    let ?st1 = "st\<lparr>emJobs := jmap_set i (job\<lparr>jbStatus := JCancelled, jbReason := Some (js ''cancelled'')\<rparr>) (emJobs st), emPending := jmap_set i (w\<lparr>pwAborted := True\<rparr>) (emPending st)\<rparr>"
    have "em_all PS PW PJ (st\<lparr>emJobs := jmap_set i (job\<lparr>jbStatus := JCancelled, jbReason := Some (js ''cancelled'')\<rparr>) (emJobs st)\<rparr>)"
      by (intro em_all_set(3) [OF t] reasoned turned em_all_get(3) [OF t wj(2)]) simp
    from em_all_set(2) [OF this, of i "w\<lparr>pwAborted := True\<rparr>"] aborted [OF em_all_get(2) [OF t wj(1)]] have t1: "em_all PS PW PJ ?st1" by simp
    let ?st2 = "?st1\<lparr>emQueue := remove1 i (emQueue ?st1)\<rparr>"
    from t1 have "em_all PS PW PJ ?st2" by simp
    then have "em_all PS PW PJ (charge (pwSession w) (- int (cfMaxIn cfg)) (- int (cfMaxOut cfg)) ?st2)" using refunded by (rule all_charge)
    from all_pump [OF all_release [OF this, of i w]] t t1 show ?thesis using wj by (simp add: cancel_def Let_def)
  qed
qed

lemma all_trim: "em_all PS PW PJ st \<Longrightarrow> em_all PS PW PJ (trim st)"
proof -
  have "em_all PS PW PJ st \<Longrightarrow> em_all PS PW PJ (trim_jobs L st)" for L
  proof (induction L st rule: trim_jobs.induct)
    case (2 i job rest st)
    from em_all_delete(2) [OF 2(3)] have "em_all PS PW PJ (drop_cached i (st\<lparr>emJobs := jmap_delete i (emJobs st)\<rparr>))" by (simp add: drop_cached_def)
    with 2 show ?case by simp
  qed simp
  then show "em_all PS PW PJ st \<Longrightarrow> ?thesis" by (simp add: trim_def Let_def)
qed

lemma all_submit: "em_all PS PW PJ st \<Longrightarrow> ok (Submit uuid inp) \<Longrightarrow> em_all PS PW PJ (snd (submit digest count cid cfg uuid inp st))"
proof (cases rule: submit_cases [of digest count cid cfg uuid inp st])
  case (admitted s)
  assume t: "em_all PS PW PJ st" and o: "ok (Submit uuid inp)"
  let ?k = "space_key (eiSpace inp)"
  let ?s = "\<lparr>snInput = snInput s + int (cfMaxIn cfg), snOutput = snOutput s + int (cfMaxOut cfg), snActive = Some uuid\<rparr>"
  let ?job = "\<lparr>jbStatus = JQueued, jbKey = eiKey inp, jbSpace = eiSpace inp, jbResult = None, jbReason = None, jbUsage = None\<rparr>"
  let ?w = "\<lparr>pwSession = ?k, pwCache = input_cache_key digest cid cfg inp, pwIds = eiIds inp, pwMaterial = count (eiMaterial inp), pwAborted = False, pwPhase = Waiting\<rparr>"
  from em_all_set(1) [OF t reserved [OF admitted(5,6), of ?k "Some uuid"]] have "em_all PS PW PJ (st\<lparr>emSessions := jmap_set ?k ?s (emSessions st)\<rparr>)" .
  from em_all_set(3) [OF this opened [OF o admitted(4), THEN conjunct2]]
  have "em_all PS PW PJ (st\<lparr>emSessions := jmap_set ?k ?s (emSessions st), emJobs := jmap_set uuid ?job (emJobs st)\<rparr>)" by simp
  from em_all_set(2) [OF this opened [OF o admitted(4), THEN conjunct1]]
  have "em_all PS PW PJ (st\<lparr>emSessions := jmap_set ?k ?s (emSessions st), emJobs := jmap_set uuid ?job (emJobs st), emPending := jmap_set uuid ?w (emPending st)\<rparr>)" by simp
  then show ?thesis by (auto simp: admitted(1) admit_def Let_def intro!: all_trim)
qed simp

lemma all_get: "em_all PS PW PJ st \<Longrightarrow> em_all PS PW PJ (snd (get_job cfg i current st))"
proof -
  assume t: "em_all PS PW PJ st"
  show ?thesis
  proof (cases "jmap_get (emJobs (cancel cfg i st)) i")
    case None
    with cancel_keeps_job [of st i] have "jmap_get (emJobs st) i = None" by (metis map_of_eq_None_iff not_None_eq set_map)
    with t show ?thesis by (simp add: get_job_def)
  next
    case (Some job)
    note c = all_cancel [OF t, of i]
    have "PJ i (job\<lparr>jbStatus := JRejected, jbReason := Some (js ''stale-source''), jbResult := None\<rparr>)"
      by (intro emptied reasoned turned em_all_get(3) [OF c Some]) simp_all
    from em_all_set(3) [OF c this] t Some show ?thesis by (auto simp: get_job_def drop_cached_def Let_def split: option.splits)
  qed
qed

lemma all_restore: "em_all PS PW PJ st \<Longrightarrow> ok (Restore ns usage) \<Longrightarrow> restoreUsage ns usage st = Inr st' \<Longrightarrow> em_all PS PW PJ st'"
proof -
  assume t: "em_all PS PW PJ st" and o: "ok (Restore ns usage)" and r: "restoreUsage ns usage st = Inr st'"
  obtain n m where u: "usageValue (fst usage) = Some n" "usageValue (snd usage) = Some m" using r by (auto simp: restoreUsage_def split: if_splits option.splits)
  from restored [of ns "fst usage" "snd usage" n m "space_key ns"] o u have new: "PS (space_key ns) \<lparr>snInput = int n, snOutput = int m, snActive = None\<rparr>" by simp
  show ?thesis
  proof (cases "jmap_get (emSessions st) (space_key ns)")
    case None
    with r u em_all_set(1) [OF t new] show ?thesis by (auto simp: restoreUsage_def split: if_splits)
  next
    case (Some s)
    with r u em_all_set(1) [OF t raised [OF em_all_get(1) [OF t Some] new]] show ?thesis by (auto simp: restoreUsage_def split: if_splits)
  qed
qed

lemma all_race: "em_all PS PW PJ st \<Longrightarrow> ok (Race i outcome) \<Longrightarrow> em_all PS PW PJ (race count cfg i outcome st)"
proof -
  assume t: "em_all PS PW PJ st" and o: "ok (Race i outcome)"
  show ?thesis
  proof (cases "jmap_get (emPending st) i = None \<or> jmap_get (emJobs st) i = None")
    case True
    with t show ?thesis by (auto simp: race_def split: option.splits)
  next
    case False
    then obtain w job where wj: "jmap_get (emPending st) i = Some w" "jmap_get (emJobs st) i = Some job" by (metis not_None_eq)
    note g = em_all_get(2) [OF t wj(1)] em_all_get(3) [OF t wj(2)]
    let ?job = "fst (race_job count cfg w outcome job)" and ?w = "w\<lparr>pwPhase := Draining, pwAborted := pwAborted w \<or> outcome = TimedOut\<rparr>"
    have "em_all PS PW PJ (st\<lparr>emJobs := jmap_set i ?job (emJobs st)\<rparr>)" by (rule em_all_set(3) [OF t raced [OF g o]])
    from em_all_set(2) [OF this, of i ?w] have "em_all PS PW PJ (st\<lparr>emJobs := jmap_set i ?job (emJobs st), emPending := jmap_set i ?w (emPending st)\<rparr>)"
      using aborted [OF phased [OF g(1)]] by simp
    then show ?thesis using wj by (auto simp: race_def Let_def intro!: all_trim split: prod.splits)
  qed
qed

lemma all_drain: "em_all PS PW PJ st \<Longrightarrow> ok (Drain i u) \<Longrightarrow> em_all PS PW PJ (drain cfg i u st)"
proof -
  assume t: "em_all PS PW PJ st" and o: "ok (Drain i u)"
  show ?thesis
  proof (cases "jmap_get (emPending st) i = None \<or> jmap_get (emJobs st) i = None")
    case True
    with t show ?thesis by (auto simp: drain_def split: option.splits)
  next
    case False
    then obtain w job where wj: "jmap_get (emPending st) i = Some w" "jmap_get (emJobs st) i = Some job" by (metis not_None_eq)
    note g = em_all_get(3) [OF t wj(2)]
    let ?u = "settled_usage u job"
    let ?st1 = "charge (pwSession w) (spent (fst ?u) (cfMaxIn cfg)) (spent (snd ?u) (cfMaxOut cfg)) (st\<lparr>emJobs := jmap_set i (job\<lparr>jbUsage := Some ?u\<rparr>) (emJobs st)\<rparr>)"
    have "em_all PS PW PJ ?st1" by (rule all_charge [OF em_all_set(3) [OF t used [OF g o]]]) (rule settles [OF _ g o])
    then have "em_all PS PW PJ (?st1\<lparr>emRunning := emRunning ?st1 - 1\<rparr>)" by simp
    from all_pump [OF all_release [OF this, of i w]] show ?thesis using wj by (simp add: drain_def Let_def)
  qed
qed

lemma all_step:
  assumes t: "em_all PS PW PJ st" and "ok ev" and "em_step digest count cid cfg st ev st'"
  shows "em_all PS PW PJ st'"
  using assms(3)
proof (cases rule: em_step.cases)
  case 2
  from t have "em_all PS PW PJ (st\<lparr>emPumps := emPumps st - 1\<rparr>)" by simp
  from all_pump [OF this] 2 show ?thesis by simp
next
  case 8
  with t show ?thesis by (simp add: awaitIdle_def)
next
  case 9
  have "em_all PS PW PJ st \<Longrightarrow> em_all PS PW PJ (fold (cancel cfg) L st)" for L st by (induction L arbitrary: st) (simp_all add: all_cancel)
  with 9 t show ?thesis by (simp add: dispose_def Let_def)
qed (use assms(2) t all_submit all_race all_drain all_cancel all_get all_restore in auto)

lemma all_run: "em_run digest count cid cfg evs st \<Longrightarrow> \<forall>ev\<in>set evs. ok ev \<Longrightarrow> em_all PS PW PJ st"
proof (induction rule: em_run.induct)
  case 1
  show ?case by (simp add: em_all_def new_manager_def)
next
  case 2
  then show ?case by (auto intro: all_step)
qed

end

section \<open>Budgets\<close>

definition usage_within :: "summaryConfig \<Rightarrow> summaryUsage \<Rightarrow> bool" where
  "usage_within cfg u \<longleftrightarrow> pred_option (\<lambda>n. n \<le> cfMaxIn cfg) (fst u) \<and> pred_option (\<lambda>n. n \<le> cfMaxOut cfg) (snd u)"

text \<open>The provider reports no more than a request may use, and a restored account is within the budget.\<close>

fun ev_within :: "summaryConfig \<Rightarrow> enhEvent \<Rightarrow> bool" where
  "ev_within cfg (Race i (Answered es u)) = usage_within cfg u"
| "ev_within cfg (Race i (ProviderFailed code u)) = usage_within cfg u"
| "ev_within cfg (Drain i (Some u)) = usage_within cfg u"
| "ev_within cfg (Restore ns (a, b)) \<longleftrightarrow> a \<le> of_nat (cfSessionIn cfg) \<and> b \<le> of_nat (cfSessionOut cfg)"
| "ev_within cfg _ = True"

definition account_within :: "summaryConfig \<Rightarrow> sumSession \<Rightarrow> bool" where
  "account_within cfg s \<longleftrightarrow> snInput s \<le> int (cfSessionIn cfg) \<and> snOutput s \<le> int (cfSessionOut cfg)"

lemma spent_within: "usage_within cfg u \<Longrightarrow> spent (fst u) (cfMaxIn cfg) \<le> 0 \<and> spent (snd u) (cfMaxOut cfg) \<le> 0"
  by (cases "fst u"; cases "snd u") (auto simp: usage_within_def spent_def)

lemma settled_within: "ev_within cfg (Drain i u) \<Longrightarrow> pred_option (usage_within cfg) (jbUsage job) \<Longrightarrow> usage_within cfg (settled_usage u job)"
  by (auto simp: settled_usage_def split: option.splits) (simp add: usage_within_def)

lemma usageValue_within: "usageValue x = Some n \<Longrightarrow> x \<le> of_nat k \<Longrightarrow> n \<le> k"
proof -
  assume "usageValue x = Some n" "x \<le> of_nat k"
  then have "int n \<le> \<lfloor>x\<rfloor>" "0 \<le> \<lfloor>x\<rfloor>" "\<lfloor>x\<rfloor> \<le> int k" by (auto simp: usageValue_def floor_le_iff split: if_splits)
  then show ?thesis by simp
qed

interpretation budget: entry_laws count cfg "ev_within cfg" "\<lambda>k. account_within cfg" "\<lambda>i w. True" "\<lambda>i job. pred_option (usage_within cfg) (jbUsage job)"
  for count cfg
proof
  show "account_within cfg (s\<lparr>snInput := snInput s + spent (fst (settled_usage u job)) (cfMaxIn cfg), snOutput := snOutput s + spent (snd (settled_usage u job)) (cfMaxOut cfg)\<rparr>)"
    if "account_within cfg s" "pred_option (usage_within cfg) (jbUsage job)" "ev_within cfg (Drain i u)" for s i job u
    using that(1) spent_within [OF settled_within [OF that(3,2)]] by (simp add: account_within_def)
  show "account_within cfg \<lparr>snInput = int n, snOutput = int m, snActive = None\<rparr>"
    if "ev_within cfg (Restore ns (x, y))" "usageValue x = Some n" "usageValue y = Some m" for ns x y n m
    using that usageValue_within [of x n "cfSessionIn cfg"] usageValue_within [of y m "cfSessionOut cfg"] by (simp add: account_within_def)
  show "pred_option (usage_within cfg) (jbUsage (job\<lparr>jbUsage := Some (settled_usage u job)\<rparr>))"
    if "pred_option (usage_within cfg) (jbUsage job)" "ev_within cfg (Drain i u)" for i job u
    using settled_within [OF that(2,1)] by simp
  show "pred_option (usage_within cfg) (jbUsage (fst (race_job count cfg w outcome job)))"
    if "pred_option (usage_within cfg) (jbUsage job)" "ev_within cfg (Race i outcome)" for i w job outcome
    using that by (cases outcome) (auto simp: race_job_def Let_def usage_within_def split: option.splits if_splits)
qed (simp_all add: account_within_def)


text \<open>C12: The recorded use of a session never exceeds its lifetime budget, neither input nor output, at any moment of any
  run in which providers report no more than a request may use and restored accounts are within the
  budget. Unknown, failed and cancelled calls keep or return their reservation and never free more.\<close>

theorem enhancement_budget:
  assumes "em_run digest count cid cfg evs st" and "\<forall>ev\<in>set evs. ev_within cfg ev"
  shows "fst (sessionUsage ns st) \<le> int (cfSessionIn cfg) \<and> snd (sessionUsage ns st) \<le> int (cfSessionOut cfg)"
  using em_all_get(1) [OF budget.all_run [OF assms], of "space_key ns"]
  by (auto simp: sessionUsage_def account_within_def split: option.splits)

section \<open>Published entries\<close>

definition sound_summary :: "(jstring \<Rightarrow> nat) \<Rightarrow> summaryConfig \<Rightarrow> enhInput \<Rightarrow> memoryEntry list \<Rightarrow> bool" where
  "sound_summary count cfg inp es \<longleftrightarrow> es \<noteq> [] \<and> length es \<le> 64
     \<and> (\<forall>e\<in>set es. mkind e \<noteq> Constraints \<and> js_trim (mtext e) \<noteq> [] \<and> msourceIds e \<noteq> [] \<and> set (msourceIds e) \<subseteq> set (eiIds inp))
     \<and> byteLength (json_stringify (JArr (map memory_json es))) \<le> 32768
     \<and> count (json_stringify (JArr (map memory_json es))) \<le> cfMaxOut cfg
     \<and> count (json_stringify (JArr (map memory_json es))) < count (eiMaterial inp)"

definition work_of :: "(jstring \<Rightarrow> nat) \<Rightarrow> enhInput \<Rightarrow> pendingWork \<Rightarrow> bool" where
  "work_of count inp w \<longleftrightarrow> pwIds w = eiIds inp \<and> pwMaterial w = count (eiMaterial inp)"

definition job_of :: "(jstring \<Rightarrow> nat) \<Rightarrow> summaryConfig \<Rightarrow> enhInput \<Rightarrow> enhJob \<Rightarrow> bool" where
  "job_of count cfg inp job \<longleftrightarrow> jbKey job = eiKey inp \<and> jbSpace job = eiSpace inp \<and> (jbStatus job = JCompleted \<longrightarrow> jbResult job \<noteq> None)
     \<and> (\<forall>es u. jbResult job = Some (es, u) \<longrightarrow> sound_summary count cfg inp es)"

lemma no_problem:
  assumes "first_problem ids xs = None"
  shows "length (provided_entries xs) = length xs" "e \<in> set (provided_entries xs) \<Longrightarrow> entry_problem ids (Entry e) = None"
  using assms by (induction xs) (auto simp: provided_entries_def List.map_filter_simps split: option.splits provided.splits if_splits)

lemma result_sound:
  assumes "result_problem count cfg w entries u = None" and "work_of count inp w"
  shows "sound_summary count cfg inp (provided_entries (the entries))"
proof -
  obtain xs where xs: "entries = Some xs" "xs \<noteq> []" "length xs \<le> 64" and p: "first_problem (eiIds inp) xs = None"
    using assms by (auto simp: result_problem_def work_of_def split: option.splits if_splits)
  have "\<not> (32768 < byteLength (json_stringify (JArr (map memory_json (provided_entries xs)))) \<or> cfMaxOut cfg < count (json_stringify (JArr (map memory_json (provided_entries xs))))
     \<or> count (eiMaterial inp) \<le> count (json_stringify (JArr (map memory_json (provided_entries xs)))))"
    using assms xs p by (auto simp: result_problem_def work_of_def Let_def split: if_splits)
  moreover have "mkind e \<noteq> Constraints \<and> js_trim (mtext e) \<noteq> [] \<and> msourceIds e \<noteq> [] \<and> set (msourceIds e) \<subseteq> set (eiIds inp)" if "e \<in> set (provided_entries xs)" for e
    using no_problem(2) [OF p that] by (auto simp: list_ex_iff split: if_splits)
  moreover have "length (provided_entries xs) = length xs" by (rule no_problem(1) [OF p])
  ultimately show ?thesis using xs by (auto simp: sound_summary_def)
qed

interpretation entries: entry_laws count cfg "\<lambda>ev. case ev of Submit i inp \<Rightarrow> sub i = Some inp | _ \<Rightarrow> True" "\<lambda>k s. True" "\<lambda>i w. \<exists>inp. sub i = Some inp \<and> work_of count inp w"
  "\<lambda>i job. \<exists>inp. sub i = Some inp \<and> job_of count cfg inp job"
  for count cfg and sub :: "jstring \<rightharpoonup> enhInput"
proof
  show "\<exists>inp. sub i = Some inp \<and> job_of count cfg inp (fst (race_job count cfg w outcome job))"
    if w: "\<exists>inp. sub i = Some inp \<and> work_of count inp w" and j: "\<exists>inp. sub i = Some inp \<and> job_of count cfg inp job" for i w job outcome
  proof -
    obtain inp where inp: "sub i = Some inp" "work_of count inp w" "job_of count cfg inp job" using w j by auto
    note res = result_sound [OF _ inp(2)]
    have "job_of count cfg inp (fst (race_job count cfg w outcome job))"
    proof (cases outcome)
      case (Answered es u)
      show ?thesis using inp(3) res [of cfg es u] by (cases "result_problem count cfg w es u") (auto simp: Answered race_job_def Let_def job_of_def)
    qed (use inp(3) in \<open>auto simp: race_job_def job_of_def fail_running_def\<close>)
    with inp(1) show ?thesis by blast
  qed
qed (auto simp: work_of_def job_of_def)

lemma submitted_run: "em_run digest count cid cfg evs st \<Longrightarrow> distinct (map fst (submitted evs))"
proof (induction rule: em_run.induct)
  case (2 evs st ev st')
  then show ?case by (cases ev) (auto simp: submitted_def map_filter_def)
qed (simp add: submitted_def map_filter_def)

lemma submitted_member: "(i, inp) \<in> set (submitted evs) \<longleftrightarrow> Submit i inp \<in> set evs"
proof (induction evs)
  case (Cons ev evs)
  then show ?case by (cases ev) (auto simp: submitted_def List.map_filter_simps)
qed (simp add: submitted_def List.map_filter_simps)

text \<open>C13: A reader that names the snapshot it works on gets a completed summary only for exactly that snapshot: the job was
  submitted with this source key, its entries are between one and sixty-four, each has text, none is a
  constraint, each cites only ids of the submitted sources, and together they cost fewer tokens than the
  material they summarize and no more than the output limit.\<close>

theorem summary_entries_grounded:
  assumes "em_run digest count cid cfg evs st" and "fst (get_job cfg i (Some key) st) = Some job" and "jbStatus job = JCompleted"
  shows "\<exists>inp es u. Submit i inp \<in> set evs \<and> eiKey inp = key \<and> jbResult job = Some (es, u) \<and> sound_summary count cfg inp es"
proof -
  have "\<forall>ev\<in>set evs. case ev of Submit i inp \<Rightarrow> jmap_get (submitted evs) i = Some inp | _ \<Rightarrow> True"
    using submitted_run [OF assms(1)] submitted_member [of _ _ evs] by (auto split: enhEvent.splits)
  note all = entries.all_run [OF assms(1) this]
  have "jmap_get (emJobs st) i = Some job" "jbKey job = key"
    using assms(2,3) by (auto simp: get_job_def Let_def split: option.splits if_splits)
  with em_all_get(3) [OF all, of i job] obtain inp where inp: "jmap_get (submitted evs) i = Some inp" "job_of count cfg inp job" "eiKey inp = key"
    by (auto simp: job_of_def)
  from map_of_SomeD [OF inp(1)] have "Submit i inp \<in> set evs" by (simp add: submitted_member)
  with inp(2,3) assms(3) show ?thesis by (auto simp: job_of_def)
qed

section \<open>Progress\<close>

text \<open>The steps that need nobody but the event loop and the providers.\<close>

fun settling :: "enhEvent \<Rightarrow> bool" where
  "settling Microtask = True"
| "settling (Race i outcome) = True"
| "settling (Drain i u) = True"
| "settling _ = False"

definition weight :: "pendingWork \<Rightarrow> nat" where
  "weight w = (case pwPhase w of Waiting \<Rightarrow> 3 | Racing \<Rightarrow> 2 | Draining \<Rightarrow> 1)"

definition load :: "(jstring, pendingWork) jmap \<Rightarrow> nat" where
  "load P = sum_list (map (\<lambda>e. weight (snd e)) P)"

definition em_work :: "manager \<Rightarrow> nat" where
  "em_work st = emPumps st + load (emPending st)"

lemma load_update:
  assumes "distinct (jmap_keys P)" and "jmap_get P i = Some w"
  shows "load (jmap_set i w' P) + weight w = load P + weight w'" "load (jmap_delete i P) + weight w = load P"
proof -
  obtain a b where "P = a @ (i, w) # b" "jmap_set i w' P = a @ (i, w') # b" "jmap_delete i P = a @ b"
    using jmap_set_split [OF assms, of w'] by blast
  then show "load (jmap_set i w' P) + weight w = load P + weight w'" "load (jmap_delete i P) + weight w = load P"
    by (simp_all only: load_def map_append sum_list_append list.map sum_list.Cons snd_conv)
qed

lemma weight_pos: "0 < weight w"
  by (simp add: weight_def split: workPhase.splits)

lemma pump_load:
  assumes "em_core cfg st"
  shows "load (emPending (pump st)) \<le> load (emPending st)"
proof -
  have "load (emPending (start_next st)) \<le> load (emPending st)" if core: "em_core cfg st" for st
  proof (cases "emDisposed st \<or> 2 \<le> emRunning st \<or> emQueue st = []")
    case True
    then show ?thesis using start_next_core(7) [OF core] by auto
  next
    case False
    note c = em_coreD [OF core]
    obtain i rest where q: "emQueue st = i # rest" using False by (cases "emQueue st") auto
    then obtain w where w: "jmap_get (emPending st) i = Some w" "pwPhase w = Waiting" using c(1,4) waiting_member [of i "emPending st"] by auto
    have "load (emPending (start_next st)) = load (jmap_set i (w\<lparr>pwPhase := Racing\<rparr>) (emPending st))" using False q w by (simp add: start_next_def set_phase_def)
    with load_update(1) [OF c(1) w(1), of "w\<lparr>pwPhase := Racing\<rparr>"] w(2) show ?thesis by (simp add: weight_def)
  qed
  from this [OF assms] this [OF start_next_core(1) [OF assms]] show ?thesis by (simp add: pump_def)
qed

lemma settling_decreases:
  assumes inv: "em_inv cfg st" and "settling ev" and "em_step digest count cid cfg st ev st'"
  shows "em_work st' < em_work st"
  using assms(3)
proof (cases rule: em_step.cases)
  case 2
  have core: "em_core cfg (st\<lparr>emPumps := emPumps st - 1\<rparr>)" using em_invD(1) [OF inv] by (simp add: em_core_def)
  from pump_load [OF core] pump_core(3) [OF core] 2 show ?thesis by (simp add: em_work_def)
next
  case (3 i w outcome)
  note c = em_coreD [OF em_invD(1) [OF inv]]
  obtain job where job: "jmap_get (emJobs st) i = Some job" using linked_work [OF c(8) 3(3)] by blast
  let ?w = "w\<lparr>pwPhase := Draining, pwAborted := pwAborted w \<or> outcome = TimedOut\<rparr>"
  have "emPending st' = jmap_set i ?w (emPending st)" using 3 job by (simp add: race_def Let_def split: prod.splits)
  with load_update(1) [OF c(1) 3(3), of ?w] 3(4) race_core(4) [OF em_invD(1) [OF inv] 3(3,4), of count outcome] 3(2) show ?thesis by (simp add: em_work_def weight_def)
next
  case (4 i w settled)
  note core = em_invD(1) [OF inv]
  note c = em_coreD [OF core]
  obtain st1 where d: "drain cfg i settled st = pump st1" "em_core cfg st1" "emPumps st1 = emPumps st" "emPending st1 = jmap_delete i (emPending st)"
    using drain_release [OF core 4(3,4)] by metis
  from load_update(2) [OF c(1) 4(3)] weight_pos [of w] pump_load [OF d(2)] pump_core(3) [OF d(2)] show ?thesis by (simp add: em_work_def 4(2) d)
qed (use assms(2) in auto)

lemma settling_enabled:
  assumes inv: "em_inv cfg st" and "emPending st \<noteq> []"
  shows "\<exists>ev st'. settling ev \<and> em_step digest count cid cfg st ev st'"
proof (cases "emRunning st")
  case 0
  note c = em_coreD [OF em_invD(1) [OF inv]]
  have "emQueue st \<noteq> []" using assms(2) pending_small [of "emPending st"] c(4,5) 0 by (cases "emPending st") auto
  with em_invD(3) [OF inv] 0 have "0 < emPumps st" by simp
  from em_step.intros(2) [OF this, of digest count cid cfg] show ?thesis by (intro exI [of _ Microtask]) auto
next
  case (Suc n)
  note c = em_coreD [OF em_invD(1) [OF inv]]
  from Suc c(5) have "filter (\<lambda>e. pwPhase (snd e) \<noteq> Waiting) (emPending st) \<noteq> []" by (auto simp: started_def)
  then obtain i w where iw: "(i, w) \<in> set (emPending st)" "pwPhase w \<noteq> Waiting" by (auto simp: filter_empty_conv)
  with c(1) have g: "jmap_get (emPending st) i = Some w" by simp
  show ?thesis
  proof (cases "pwPhase w")
    case Racing
    from em_step.intros(3) [OF g this, of TimedOut digest count cid cfg] show ?thesis by (intro exI [of _ "Race i TimedOut"]) auto
  next
    case Draining
    from em_step.intros(4) [OF g this, of digest count cid cfg None] show ?thesis by (intro exI [of _ "Drain i None"]) auto
  qed (use iw in simp)
qed

lemma run_settles:
  assumes "em_run digest count cid cfg evs st"
  shows "\<exists>evs' st'. (\<forall>ev\<in>set evs'. settling ev) \<and> length evs' \<le> em_work st \<and> em_run digest count cid cfg (evs @ evs') st'
      \<and> emPending st' = [] \<and> emRunning st' = 0 \<and> emWaiters st' = 0"
  using assms
proof (induction "em_work st" arbitrary: evs st rule: less_induct)
  case less
  note inv = em_run_inv [OF less.prems]
  show ?case
  proof (cases "emPending st = []")
    case True
    with less.prems em_coreD(5,12) [OF em_invD(1) [OF inv]] show ?thesis by (intro exI [of _ "[]"] exI [of _ st]) (auto simp: started_def)
  next
    case False
    then obtain ev st1 where s: "settling ev" "em_step digest count cid cfg st ev st1" using settling_enabled [OF inv] by blast
    have d: "em_work st1 < em_work st" by (rule settling_decreases [OF inv s])
    have "fresh_id evs ev" using s(1) by (cases ev) simp_all
    from em_run.intros(2) [OF less.prems this s(2)] less.hyps [OF d] obtain evs' st' where
      "\<forall>ev\<in>set evs'. settling ev" "length evs' \<le> em_work st1" "em_run digest count cid cfg ((evs @ [ev]) @ evs') st'" "emPending st' = [] \<and> emRunning st' = 0 \<and> emWaiters st' = 0" by blast
    with s(1) d show ?thesis by (intro exI [of _ "ev # evs'"] exI [of _ st']) auto
  qed
qed

text \<open>C14: Waiting for idleness ends. While a job is unfinished, the event loop or a provider can make a step; every such step
  lowers the outstanding work, however the providers answer; so there is always a way on to a state in
  which nothing is pending, no permit is held and nobody waits.\<close>

theorem enhancement_progress:
  assumes "em_run digest count cid cfg evs st"
  shows "(emPending st \<noteq> [] \<longrightarrow> (\<exists>ev st'. settling ev \<and> em_step digest count cid cfg st ev st'))
    \<and> (\<forall>ev st'. settling ev \<longrightarrow> em_step digest count cid cfg st ev st' \<longrightarrow> em_work st' < em_work st)
    \<and> (\<exists>evs' st'. (\<forall>ev\<in>set evs'. settling ev) \<and> length evs' \<le> em_work st \<and> em_run digest count cid cfg (evs @ evs') st'
      \<and> emPending st' = [] \<and> emRunning st' = 0 \<and> emWaiters st' = 0)"
  using settling_enabled [OF em_run_inv [OF assms]] settling_decreases [OF em_run_inv [OF assms]] run_settles [OF assms] by blast


section \<open>A run\<close>

definition trial_config :: summaryConfig where
  "trial_config = \<lparr>cfEnabled = True, cfModel = js ''m'', cfMaxIn = 8, cfMaxOut = 4, cfSessionIn = 20, cfSessionOut = 10\<rparr>"

definition trial_input :: enhInput where
  "trial_input = \<lparr>eiSpace = (js ''p'', js ''s''), eiKey = js ''k'', eiIds = [js ''1''], eiMaterial = js ''x'', eiState = None, eiPinned = None\<rparr>"

definition trial_count :: "jstring \<Rightarrow> nat" where
  "trial_count t = (if length t \<le> 1 then 5 else 3)"

definition trial_entry :: memoryEntry where
  "trial_entry = \<lparr>mkind = Decisions, mtext = js ''t'', msourceIds = [js ''1'']\<rparr>"

definition trial_uuid :: jstring where "trial_uuid = js ''a''"

definition trial_submitted :: manager where
  "trial_submitted = snd (submit (\<lambda>_. []) trial_count [] trial_config trial_uuid trial_input new_manager)"

definition trial_running :: manager where
  "trial_running = pump (trial_submitted\<lparr>emPumps := emPumps trial_submitted - 1\<rparr>)"

definition trial_done :: manager where
  "trial_done = race trial_count trial_config trial_uuid (Answered (Some [Entry trial_entry]) (Some 3, Some 2)) trial_running"

lemma SYSTEM_bytes: "byteLength (quote_body SYSTEM) \<le> 6000"
proof -
  have "list_all (\<lambda>c. c < 65536) (js s)" for s by (auto simp: js_def list_all_iff intro: less_trans [OF of_char_bound])
  then have "list_all (\<lambda>c. c < 65536) SYSTEM" unfolding SYSTEM_def .
  from byteLength_quote_body [OF this] have "byteLength (quote_body SYSTEM) \<le> 6 * length SYSTEM" .
  moreover have "length (js s) = length s" for s by (simp add: js_def)
  then have "length SYSTEM \<le> 1000" by (simp add: SYSTEM_def)
  ultimately show ?thesis by linarith
qed

lemma trial_envelope: "byteLength (json_stringify (request_json trial_config trial_input)) \<le> 131072" "trial_count (json_stringify (request_json trial_config trial_input)) = 3"
proof -
  let ?content = "json_stringify (JObj [(js ''sourceIds'', JArr [JStr (js ''1'')]), (js ''material'', JStr (js ''x'')), (js ''state'', JNull), (js ''pinned'', JArr [])])"
  let ?A = "[123] @ json_quote (js ''model'') @ [58] @ json_quote (js ''m'') @ [44] @ json_quote (js ''messages'') @ [58, 91, 123] @ json_quote (js ''role'') @ [58] @ json_quote (js ''system'') @ [44] @ json_quote (js ''content'') @ [58, 34]"
  let ?B = "[34, 125, 44] @ json_stringify (chat_json ''user'' ?content) @ [93, 44] @ json_quote (js ''stream'') @ [58] @ js ''false'' @ [44] @ json_quote (js ''max_tokens'') @ [58] @ json_stringify (num_json 4) @ [125]"
  have eq: "json_stringify (request_json trial_config trial_input) = ?A @ quote_body SYSTEM @ ?B"
    by (simp add: request_json_def trial_config_def trial_input_def Let_def chat_json_def json_quote_def)
  have "byteLength ?A \<le> 1000" by code_simp
  moreover have "byteLength ?B \<le> 1000" by code_simp
  ultimately show "byteLength (json_stringify (request_json trial_config trial_input)) \<le> 131072"
    unfolding eq using byteLength_append_le [of ?A "quote_body SYSTEM @ ?B"] byteLength_append_le [of "quote_body SYSTEM" ?B] SYSTEM_bytes by linarith
  show "trial_count (json_stringify (request_json trial_config trial_input)) = 3" unfolding eq by (simp add: trial_count_def)
qed

lemma trial_submitted_eq: "trial_submitted =
  \<lparr>emSessions = [(space_key (js ''p'', js ''s''), \<lparr>snInput = 8, snOutput = 4, snActive = Some trial_uuid\<rparr>)],
   emJobs = [(trial_uuid, \<lparr>jbStatus = JQueued, jbKey = js ''k'', jbSpace = (js ''p'', js ''s''), jbResult = None, jbReason = None, jbUsage = None\<rparr>)],
   emCache = [], emPending = [(trial_uuid, \<lparr>pwSession = space_key (js ''p'', js ''s''), pwCache = [], pwIds = [js ''1''], pwMaterial = 5, pwAborted = False, pwPhase = Waiting\<rparr>)],
   emQueue = [trial_uuid], emRunning = 0, emDisposed = False, emPumps = 1, emWaiters = 0\<rparr>"
proof -
  have key: "input_cache_key (\<lambda>_. []) [] trial_config trial_input = []" by (simp add: input_cache_key_def textDigest_def hashText_def sha256Hex_def)
  have "\<not> source_invalid trial_input" by (simp add: source_invalid_def trial_input_def js_def)
  with trial_envelope key have "trial_submitted = snd (admit trial_config trial_uuid trial_input [] (trial_count (js ''x'')) \<lparr>snInput = 0, snOutput = 0, snActive = None\<rparr> new_manager)"
    by (simp add: trial_submitted_def submit_def Let_def trial_config_def trial_input_def new_manager_def)
  then show ?thesis by (simp add: admit_def Let_def new_manager_def trim_def trial_config_def trial_input_def trial_count_def js_def)
qed

lemma trial_running_eq: "trial_running = trial_submitted\<lparr>emPumps := 0, emQueue := [], emRunning := 1,
   emJobs := [(trial_uuid, \<lparr>jbStatus = JRunning, jbKey = js ''k'', jbSpace = (js ''p'', js ''s''), jbResult = None, jbReason = None, jbUsage = None\<rparr>)],
   emPending := [(trial_uuid, \<lparr>pwSession = space_key (js ''p'', js ''s''), pwCache = [], pwIds = [js ''1''], pwMaterial = 5, pwAborted = False, pwPhase = Racing\<rparr>)]\<rparr>"
  by (simp add: trial_running_def trial_submitted_eq pump_def start_next_def set_status_def set_phase_def)

lemma trial_result: "result_problem trial_count trial_config (snd (hd (emPending trial_running))) (Some [Entry trial_entry]) (Some 3, Some 2) = None"
  unfolding trial_running_eq by code_simp

lemma trial_done_job: "jmap_get (emJobs trial_done) trial_uuid =
  Some \<lparr>jbStatus = JCompleted, jbKey = js ''k'', jbSpace = (js ''p'', js ''s''), jbResult = Some ([trial_entry], (Some 3, Some 2)), jbReason = None, jbUsage = Some (Some 3, Some 2)\<rparr>"
  using trial_result by (simp add: trial_done_def trial_running_eq race_def race_job_def Let_def trim_def provided_entries_def List.map_filter_simps trial_submitted_eq)

lemma trial_done_pending: "emPending trial_done \<noteq> []" "emSessions trial_done = [(space_key (js ''p'', js ''s''), \<lparr>snInput = 8, snOutput = 4, snActive = Some trial_uuid\<rparr>)]"
  using trial_result by (simp_all add: trial_done_def trial_running_eq race_def race_job_def Let_def trim_def trial_submitted_eq)

lemma trial_run:
  "em_run (\<lambda>_. []) trial_count [] trial_config [Submit trial_uuid trial_input, Microtask, Race trial_uuid (Answered (Some [Entry trial_entry]) (Some 3, Some 2))] trial_done"
proof -
  have "em_run (\<lambda>_. []) trial_count [] trial_config ([] @ [Submit trial_uuid trial_input]) trial_submitted"
    unfolding trial_submitted_def by (rule em_run.intros(2) [OF em_run.intros(1)]) (simp add: submitted_def List.map_filter_simps, rule em_step.intros, simp add: new_manager_def)
  then have "em_run (\<lambda>_. []) trial_count [] trial_config (([] @ [Submit trial_uuid trial_input]) @ [Microtask]) trial_running"
    unfolding trial_running_def by (rule em_run.intros(2)) (simp, rule em_step.intros, simp add: trial_submitted_eq)
  then have "em_run (\<lambda>_. []) trial_count [] trial_config ((([] @ [Submit trial_uuid trial_input]) @ [Microtask]) @ [Race trial_uuid (Answered (Some [Entry trial_entry]) (Some 3, Some 2))]) trial_done"
    unfolding trial_done_def by (rule em_run.intros(2)) (simp, rule em_step.intros(3), simp add: trial_running_eq, simp_all)
  then show ?thesis by simp
qed


theorem enhancement_invariant_witness: "emRunning trial_done \<le> 2 \<and> length (emQueue trial_done) \<le> 16 \<and> emPending trial_done \<noteq> []"
  using enhancement_invariant [OF trial_run] by (simp add: trial_done_pending)

theorem enhancement_budget_witness:
  "fst (sessionUsage (js ''p'', js ''s'') trial_done) \<le> 20 \<and> sessionUsage (js ''p'', js ''s'') trial_done = (8, 4)"
  using enhancement_budget [OF trial_run, of "(js ''p'', js ''s'')"]
  by (simp add: usage_within_def trial_config_def sessionUsage_def trial_done_pending)

theorem summary_entries_grounded_witness:
  "\<exists>inp u. Submit trial_uuid inp \<in> {Submit trial_uuid trial_input} \<and> eiKey inp = js ''k'' \<and> sound_summary trial_count trial_config inp [trial_entry]"
  using summary_entries_grounded [OF trial_run, of trial_uuid "js ''k''"] trial_done_job by (simp add: get_job_def)

theorem enhancement_progress_witness:
  "\<exists>ev st'. settling ev \<and> em_step (\<lambda>_. []) trial_count [] trial_config trial_done ev st' \<and> em_work st' < em_work trial_done"
  using enhancement_progress [OF trial_run] trial_done_pending by metis

end
