(* ===== verification/Spec2Isabelle.thy ===== *)
theory Spec2Isabelle
  imports Rtk_Main Token_Counter Layered_Engine Enhancement_Jobs
begin

text \<open>
  \<^bold>\<open>Bluecode: verification of the compression and context-archive packages.\<close>

  Bluecode sits between a coding agent and its model. It has two halves. The first compresses the output
  of tools before the model sees it and keeps the full text in a content-addressed store, from which the
  agent can fetch it page by page (\<open>packages/rtk-core\<close>, \<open>packages/rtk\<close>). The second archives old turns of a
  conversation, replaces them by a summary, and lets the agent search and retrieve what was archived
  (\<open>packages/headroomd\<close>). Both rest on \<open>packages/shared\<close> (store, frames, paging, sanitizing) and
  \<open>packages/contracts\<close> (the schemas of the wire).

  \<^bold>\<open>Theories and the code they model.\<close>

  \<^item> \<open>Prelude\<close>: strings as lists of UTF-16 code units, results as sums, ordered maps (\<open>jmap\<close>, the iteration order
    of a JavaScript \<open>Map\<close>), string functions of the language. \<open>JS_Regex\<close>: a backtracking matcher with the order
    of alternatives of the language; every pattern of the code is a term of it. \<open>JS_Number\<close>: binary64
    rounding on rationals. \<open>Utf8\<close>: \<open>TextEncoder\<close> and \<open>TextDecoder\<close>, replacement characters and byte order
    mark included. \<open>Json\<close>: \<open>JSON.stringify\<close> and \<open>JSON.parse\<close>.
  \<^item> \<open>Sanitize\<close> (\<open>shared/ansi.ts\<close>, \<open>redact.ts\<close>, \<open>tokens.ts\<close>), \<open>Classify\<close> (\<open>rtk-core/classify.ts\<close>), \<open>Budget\<close>
    (\<open>budget.ts\<close>, \<open>anchor.ts\<close>), \<open>Strategy\<close>, \<open>Strategy_Grep\<close>, \<open>Strategy_Ls\<close>, \<open>Strategy_Test\<close> (\<open>strategies/*.ts\<close>),
    \<open>Pipeline\<close> (\<open>pipeline.ts\<close>, \<open>stats.ts\<close>): the compression of one output, from raw text to result. Locale
    \<open>line_strategy\<close> states what every strategy promises to the pipeline and is interpreted on all of them.
  \<^item> \<open>Cas\<close> (\<open>shared/cas.ts\<close>): the store over a map from paths to file contents, with faults of the file
    system and interference of other processes as arguments. Locale \<open>object_store\<close> is its contract.
  \<^item> \<open>Frames\<close> (\<open>shared/jsonl.ts\<close>), \<open>Paging\<close> (\<open>paging.ts\<close>), \<open>Wire\<close>: frames over a byte stream, pages with cursors.
  \<^item> \<open>Ownership\<close> (\<open>rtk/ownership.ts\<close>): the ledger of objects, grants and reservations, and the publication
    protocol as a step relation with crashes. \<open>Rtk_Engine\<close> (\<open>rtk/engine.ts\<close>): compress and fetch on top of it.
    \<open>Rtk_Server\<close> (\<open>rtk/server.ts\<close>, \<open>contracts/errors.ts\<close>): one request line to one answer. \<open>Rtk_Main\<close> (\<open>rtk/bin.ts\<close>):
    the process from bytes of its input to answers.
  \<^item> \<open>Turns\<close> (\<open>headroomd/turns.ts\<close>): turns and digests of messages and histories. \<open>Operations\<close>
    (\<open>layered-operations.ts\<close>): edits of a conversation. \<open>Compaction\<close> (\<open>compaction.ts\<close>, \<open>plugin/apply-plan.ts\<close>): the
    replacement of a run of messages. \<open>Memory\<close> (\<open>memory.ts\<close>, \<open>summarize.ts\<close>): extracted facts, summaries,
    keywords. \<open>Token_Counter\<close> (\<open>token-counter.ts\<close>): the cached counter, with locale \<open>token_counter\<close>.
  \<^item> \<open>Headroom_Plan\<close> (\<open>engine.ts\<close>, legacy planner; \<open>contracts/headroom.ts\<close>, results): which turns are archived.
    \<open>Objects\<close> (\<open>store/objects.ts\<close>): messages as compressed objects. \<open>Fts\<close> (\<open>store/fts.ts\<close>, \<open>search-focus.ts\<close>): the
    full-text index and search. \<open>Archive\<close> (\<open>engine.ts\<close>, \<open>store/db.ts\<close>, \<open>store/manifests.ts\<close>): tables, the order of
    writes, repair, rebuild, retrieval by hash. \<open>History\<close> (\<open>history-reader.ts\<close>, \<open>store/history-cursors.ts\<close>, retrieval by
    history of \<open>engine.ts\<close>): reading an archived history page by page, nested histories included, over a persisted
    frontier or by position.
  \<^item> \<open>Nodes\<close> (\<open>store/nodes.ts\<close>, \<open>contracts/headroom.ts\<close>, nodes): evidence nodes, their tables and the graph below a view.
    \<open>Layered_Analysis\<close>, \<open>Layered\<close> (\<open>layered.ts\<close>): the analysis of messages with its cache, and the layered planner:
    scan, candidates, restored state, leaves, the hierarchy over them, operations, memory, budget. \<open>Layered_Plan\<close>: what
    its plans do to a conversation. \<open>Layered_Result\<close>: that its result meets the schema of the wire.
    \<open>Layered_Engine\<close> (\<open>engine.ts\<close>, \<open>compressLayered\<close>): the plan, its sources, nodes and manifest written in that order.
  \<^item> \<open>Enhancement\<close> (\<open>enhancement.ts\<close>): the manager of background summaries as a transition system; an event is a public call
    or the continuation of a promise, with the answer of the provider in the event. \<open>Enhancement_Jobs\<close>: its limits,
    budgets, published entries and progress; locale \<open>entry_laws\<close> is what a property of the single accounts and jobs
    has to satisfy to hold in every run, interpreted for the budget and for the entries.

  \<^bold>\<open>How state and effects are modelled.\<close> Code that keeps state takes it as an argument and returns it; thrown
  errors are values of sum types, one constructor per message. A transaction is one state change; a crash
  is a run of the step relation that stops between two changes. Tables of SQLite are lists of rows (with
  \<open>INSERT OR IGNORE\<close> as a test of the key) or ordered maps from primary keys. Loops are recursive functions
  with termination proofs, except the loop over a history (\<open>history_loop\<close>, \<open>partial_function\<close>), which is proved to
  return on archived histories. Nothing uses fuel except the backtracking matcher, whose stars consume input,
  and the walks of a client over pages, which are bounded by the length of the text or by a number of requests
  that is proved to be enough. The manager of summaries is a step relation on its state.

  \<^bold>\<open>Parameters.\<close> SHA-256 is an argument \<open>digest\<close> (\<open>digest_ok\<close>: 32 bytes; collision freedom is a hypothesis only
  where it is stated), \<open>gzip\<close> and \<open>gunzip\<close> are arguments (\<open>gzip_ok\<close>: they invert each other up to the length
  limit), the \<open>bm25\<close> score of SQLite, lower-casing outside ASCII, the clock, temporary names, the home
  directory, random ids, the issue list of the schema library and file-system faults are arguments, as are the token
  counter of the layered planner (\<open>count\<close>, with its name \<open>cid\<close>), the letters of its search terms and the length
  of the JSON of its result. Line numbers in search output are natural numbers and not rounded above 2^53; options
  of the planner are rationals, so infinities and not-a-number do not occur; the mode of a counter is not
  represented. No archive has a security policy, whose assertions only add failures.

  \<^bold>\<open>What is shown.\<close> Compression never loses an anchored line, accounts for every line it omits, never enlarges,
  and keeps changes of diffs and failures of tests; what it stores can be fetched back whole, only by the
  sessions that own it, within the quota, crashes included. The process answers every request line once with
  a frame of the protocol, however its input is cut, and one theorem describes the exception: an oversized
  line drops complete lines of the same read. Plans of the archive are applied completely or not at all, touch
  only what they name, replay without effect, free what they promise. The archive writes in an order that
  leaves every attribution row readable after any crash; what was archived comes back; a rebuilt index is
  accepted. Search returns only text the namespace owns, verbatim at the offsets it names. An archived history can be
  paged to its end, the persisted frontier and the position give the same pages, and a saved cursor is
  returned to its owner until it is evicted. Node tables stay sound, and a view reads exactly the nodes below it. A
  layered plan edits only messages of its snapshot, keeps retained and protected ones, frees tokens and yields a
  result the schema accepts exactly when the ids of the snapshot differ (the request schema does not ask
  for that); one theorem shows that an output ending in half a character makes the planner fail. After a
  layered compression everything taken out of the view can be read back, and its nodes always pass the checks
  of the tables. The manager of summaries keeps its limits and the lifetime budget of every session, shows a
  completed summary only for the snapshot it was made from, with entries that cite submitted sources, and
  always becomes idle once its providers settle.

  \<^bold>\<open>Not modelled.\<close> Pages of a node with its sources (\<open>node-retrieval.ts\<close>), the branch of retrieval that joins search with
  nodes, startup and healing of the engine, and the client of the compression process (\<open>rtk/client.ts\<close>). Of the
  summaries by a remote model: the provider over HTTP, the candidate built from a summary, its table and the
  coordinator that submits jobs. HTTP transport, process supervision, file permissions and locks are input
  and output. \<open>security-core\<close> and \<open>vsecagent\<close> rest on parsers and scanners outside the repository; \<open>eval\<close> is a benchmark
  harness; the plugin binds the parts to a host.
\<close>

end
